(* ===== verification/Go_Prelude.thy ===== *)
theory Go_Prelude
  imports Main "HOL-Library.Word" "HOL-Library.Sublist" "HOL-Library.Signed_Division"
begin

text \<open>
  Shared ground of the development: the names of the machine types, Go's slice
  expression, the collections of rewrite rules the component proofs use, and the
  interfaces of the state machines.

  \<^item> Go's \<open>int\<close>, \<open>int64\<close> and \<open>uint64\<close> are \<open>64 word\<close> wherever a result can wrap;
    lengths, indices and counters that the code keeps within a slice are \<open>nat\<close>.
  \<^item> \<open>[]byte\<close> and \<open>string\<close> are both \<open>bytes\<close>, a list of 8-bit characters.
  \<^item> A goroutine that reacts to events is a step function over its local state; the
    locales \<open>step_invariant\<close> and \<open>step_ledger\<close> carry one-step laws over to whole runs.
  \<^item> Goroutines that interleave are a step relation; \<open>transition_invariant\<close> carries an
    invariant over to every reachable state.
\<close>

named_theorems slice_simps \<open>lengths and contents of slice expressions\<close>
named_theorems chan_simps \<open>effects of channel operations\<close>

type_synonym bytes = string
type_synonym u64 = "64 word"
type_synonym i64 = "64 word"
type_synonym i32 = "32 word"

abbreviation max_i64 :: int where "max_i64 \<equiv> 9223372036854775807"
abbreviation min_i64 :: int where "min_i64 \<equiv> - 9223372036854775808"

text \<open>Division of two signed 64-bit numbers truncates towards zero.\<close>

definition quot64 :: "i64 \<Rightarrow> i64 \<Rightarrow> i64" where
  "quot64 a b = word_of_int (sint a sdiv sint b)"

text \<open>An \<open>int64\<close> kept as an \<open>int\<close>: \<open>wrap64\<close> is applied to every result of its arithmetic.\<close>

definition wrap64 :: "int \<Rightarrow> int" where
  "wrap64 x = sint (word_of_int x :: i64)"

lemma wrap64_id [simp]: "min_i64 \<le> x \<Longrightarrow> x \<le> max_i64 \<Longrightarrow> wrap64 x = x"
  by (simp add: wrap64_def signed_of_int signed_take_bit_int_eq_self)

section \<open>Slices\<close>

text \<open>
  \<open>subslice i j s\<close> is Go's \<open>s[i:j]\<close> for indices in range; \<open>s[i:]\<close> is \<open>drop i s\<close> and
  \<open>s[:j]\<close> is \<open>take j s\<close>.  \<open>copy_into dst off src\<close> is the array \<open>dst\<close> after
  \<open>copy(dst[off:], src)\<close>: as many bytes as fit are overwritten, the length stays.
\<close>

definition subslice :: "nat \<Rightarrow> nat \<Rightarrow> 'a list \<Rightarrow> 'a list" where
  "subslice i j s = take (j - i) (drop i s)"

definition copy_into :: "'a list \<Rightarrow> nat \<Rightarrow> 'a list \<Rightarrow> 'a list" where
  "copy_into dst off src =
     take off dst @ take (length dst - off) src @ drop (off + length src) dst"

lemma length_subslice [slice_simps, simp]: "j \<le> length s \<Longrightarrow> length (subslice i j s) = j - i"
  by (simp add: subslice_def)

lemma subslice_0 [slice_simps, simp]: "subslice 0 j s = take j s"
  by (simp add: subslice_def)

lemma subslice_append_drop [slice_simps]:
  "i \<le> j \<Longrightarrow> subslice i j s @ drop j s = drop i s"
  by (simp add: subslice_def drop_drop [symmetric] add.commute del: drop_drop)
     (metis append_take_drop_id drop_drop le_add_diff_inverse2)

lemma length_copy_into [slice_simps, simp]:
  "off \<le> length dst \<Longrightarrow> length (copy_into dst off src) = length dst"
  by (simp add: copy_into_def)

lemma take_copy_into [slice_simps]:
  "off + length src \<le> length dst \<Longrightarrow>
     take (off + length src) (copy_into dst off src) = take off dst @ src"
  by (simp add: copy_into_def)

section \<open>State machines driven by events\<close>

text \<open>
  One law per event of a component, and what follows for a list of events: the
  component is run by \<open>foldl step\<close>.
\<close>

locale step_invariant =
  fixes step :: "'s \<Rightarrow> 'e \<Rightarrow> 's"
    and inv :: "'s \<Rightarrow> bool"
  assumes inv_step: "inv s \<Longrightarrow> inv (step s e)"
begin

lemma inv_run: "inv s \<Longrightarrow> inv (foldl step s es)"
  by (induction es arbitrary: s) (auto intro: inv_step)

lemma inv_prefix: "inv s \<Longrightarrow> inv (foldl step s (take n es))"
  by (rule inv_run)

end

text \<open>
  A ledger is a machine with a quantity that every event changes by the event's own
  weight, whatever the state: after a run it has changed by the sum of the weights.
\<close>

locale step_ledger = step_invariant step inv
  for step :: "'s \<Rightarrow> 'e \<Rightarrow> 's" and inv :: "'s \<Rightarrow> bool" +
  fixes total :: "'s \<Rightarrow> 'a :: comm_monoid_add"
    and weight :: "'e \<Rightarrow> 'a"
  assumes total_step: "inv s \<Longrightarrow> total (step s e) = total s + weight e"
begin

lemma total_run: "inv s \<Longrightarrow> total (foldl step s es) = total s + sum_list (map weight es)"
  by (induction es arbitrary: s) (auto simp: total_step inv_step add.assoc)

end

section \<open>Step relations\<close>

inductive reaches :: "('s \<Rightarrow> 's \<Rightarrow> bool) \<Rightarrow> 's \<Rightarrow> 's \<Rightarrow> bool" for step where
  reaches_refl: "reaches step s s"
| reaches_step: "reaches step s t \<Longrightarrow> step t u \<Longrightarrow> reaches step s u"

lemma reaches_one: "step s t \<Longrightarrow> reaches step s t"
  by (rule reaches_step [OF reaches_refl])

lemma reaches_trans: "reaches step t u \<Longrightarrow> reaches step s t \<Longrightarrow> reaches step s u"
  by (induction rule: reaches.induct) (auto intro: reaches_step)

locale transition_invariant =
  fixes trans :: "'s \<Rightarrow> 's \<Rightarrow> bool"
    and inv :: "'s \<Rightarrow> bool"
  assumes inv_trans: "trans s t \<Longrightarrow> inv s \<Longrightarrow> inv t"
begin

lemma inv_reaches: "reaches trans s t \<Longrightarrow> inv s \<Longrightarrow> inv t"
  by (induction rule: reaches.induct) (auto intro: inv_trans)

end

section \<open>Lists\<close>

lemma sum_list_replicate_nat: "sum_list (replicate n (k::nat)) = n * k"
  by (induction n) auto

lemma concat_length_const:
  "(\<And>x. x \<in> set xss \<Longrightarrow> length x = k) \<Longrightarrow> length (concat xss) = length xss * k"
  by (induction xss) auto

text \<open>One element of a list is replaced.\<close>

lemma set_update_all: "(\<forall>x \<in> set xs. P x) \<Longrightarrow> P y \<Longrightarrow> \<forall>x \<in> set (xs[i := y]). P x"
  using set_update_subset_insert [of xs i y] by auto

lemma sum_map_update:
  fixes f :: "'a \<Rightarrow> 'b :: ab_group_add"
  shows "i < length xs \<Longrightarrow> sum_list (map f (xs[i := y])) = sum_list (map f xs) - f (xs ! i) + f y"
  by (induction xs arbitrary: i) (auto split: nat.split)

lemma sum_update_nat:
  fixes f :: "'a \<Rightarrow> nat"
  shows "i < length xs \<Longrightarrow> sum_list (map f (xs[i := y])) + f (xs ! i) = sum_list (map f xs) + f y"
  by (induction xs arbitrary: i) (auto split: nat.split)

lemma sum_update_less:
  fixes f :: "'a \<Rightarrow> nat"
  shows "i < length xs \<Longrightarrow> f y < f (xs ! i) \<Longrightarrow> sum_list (map f (xs[i := y])) < sum_list (map f xs)"
  by (induction xs arbitrary: i) (auto split: nat.split)

lemma foldl_snoc_step: "foldl f s (es @ [e]) = f (foldl f s es) e"
  by simp

end
