(* ===== verification/Go_Strings.thy ===== *)
theory Go_Strings
  imports Go_Prelude
begin

text \<open>
  What the sources use of Go's packages \<open>bytes\<close>, \<open>strings\<close> and \<open>strconv\<close>: searching,
  splitting, replacing, lower-casing (ASCII), and decimal numbers.  A position that Go
  reports as \<open>-1\<close> is \<open>None\<close>.
\<close>

section \<open>Searching\<close>

fun IndexByte :: "bytes \<Rightarrow> char \<Rightarrow> nat option" where
  "IndexByte [] c = None"
| "IndexByte (x # xs) c = (if x = c then Some 0 else map_option Suc (IndexByte xs c))"

fun LastIndexByte :: "bytes \<Rightarrow> char \<Rightarrow> nat option" where
  "LastIndexByte [] c = None"
| "LastIndexByte (x # xs) c =
     (case LastIndexByte xs c of Some i \<Rightarrow> Some (Suc i)
      | None \<Rightarrow> if x = c then Some 0 else None)"

fun Index :: "bytes \<Rightarrow> bytes \<Rightarrow> nat option" where
  "Index [] sep = (if sep = [] then Some 0 else None)"
| "Index (x # xs) sep = (if prefix sep (x # xs) then Some 0 else map_option Suc (Index xs sep))"

lemma IndexByte_None: "IndexByte s c = None \<longleftrightarrow> c \<notin> set s"
  by (induction s) auto

lemma IndexByte_absent [simp]: "c \<notin> set s \<Longrightarrow> IndexByte s c = None"
  by (simp add: IndexByte_None)

lemma IndexByte_SomeD:
  "IndexByte s c = Some i \<Longrightarrow> i < length s \<and> s ! i = c \<and> c \<notin> set (take i s)"
  by (induction s arbitrary: i) (auto split: if_splits)

lemma IndexByte_append:
  "IndexByte (a @ b) c =
     (if c \<in> set a then IndexByte a c else map_option (\<lambda>i. length a + i) (IndexByte b c))"
proof (induction a)
  case Nil
  show ?case by (cases "IndexByte b c") simp_all
next
  case (Cons x xs)
  then show ?case by (cases "IndexByte b c") simp_all
qed

lemma IndexByte_first: "c \<notin> set a \<Longrightarrow> IndexByte (a @ c # b) c = Some (length a)"
  by (simp add: IndexByte_append)

lemma LastIndexByte_None: "LastIndexByte s c = None \<longleftrightarrow> c \<notin> set s"
  by (induction s) (auto split: option.splits)

lemma LastIndexByte_absent [simp]: "c \<notin> set s \<Longrightarrow> LastIndexByte s c = None"
  by (simp add: LastIndexByte_None)

lemma LastIndexByte_SomeD:
  "LastIndexByte s c = Some i \<Longrightarrow> i < length s \<and> s ! i = c \<and> c \<notin> set (drop (Suc i) s)"
  by (induction s arbitrary: i) (auto simp: LastIndexByte_None split: if_splits option.splits)

lemma LastIndexByte_last: "c \<notin> set b \<Longrightarrow> LastIndexByte (a @ c # b) c = Some (length a)"
  by (induction a) simp_all

lemma Index_sublist: "(Index s sep \<noteq> None) \<longleftrightarrow> sublist sep s"
  by (induction s sep rule: Index.induct) (auto simp: sublist_Cons_right)

lemma Index_None: "Index s sep = None \<longleftrightarrow> \<not> sublist sep s"
  using Index_sublist [of s sep] by auto

lemma Index_SomeD:
  "Index s sep = Some i \<Longrightarrow> i \<le> length s \<and> prefix sep (drop i s)"
  by (induction s sep arbitrary: i rule: Index.induct) (auto split: if_splits)

section \<open>Splitting and replacing\<close>

fun SplitAll :: "char \<Rightarrow> bytes \<Rightarrow> bytes list" where
  "SplitAll c [] = [[]]"
| "SplitAll c (x # xs) =
     (if x = c then [] # SplitAll c xs
      else (case SplitAll c xs of [] \<Rightarrow> [[x]] | y # ys \<Rightarrow> (x # y) # ys))"

fun SplitN :: "char \<Rightarrow> nat \<Rightarrow> bytes \<Rightarrow> bytes list" where
  "SplitN c 0 s = []"
| "SplitN c (Suc 0) s = [s]"
| "SplitN c (Suc (Suc n)) s =
     (case IndexByte s c of None \<Rightarrow> [s]
      | Some i \<Rightarrow> take i s # SplitN c (Suc n) (drop (Suc i) s))"

fun join :: "char \<Rightarrow> bytes list \<Rightarrow> bytes" where
  "join c [] = []"
| "join c [x] = x"
| "join c (x # y # ys) = x @ c # join c (y # ys)"

text \<open>\<open>ReplaceAll old new s\<close> is \<open>strings.Replace(s, old, new, -1)\<close> for a nonempty \<open>old\<close>.\<close>

function ReplaceAll :: "bytes \<Rightarrow> bytes \<Rightarrow> bytes \<Rightarrow> bytes" where
  "ReplaceAll old new s =
     (case s of [] \<Rightarrow> []
      | x # xs \<Rightarrow> if old \<noteq> [] \<and> prefix old s then new @ ReplaceAll old new (drop (length old) s)
                  else x # ReplaceAll old new xs)"
  by pat_completeness auto
termination
  by (relation "measure (\<lambda>(_, _, s). length s)") (auto dest: prefix_length_le)

declare ReplaceAll.simps [simp del]

lemma SplitAll_nonempty [simp]: "SplitAll c s \<noteq> []"
  by (cases s) (auto split: list.splits)

lemma SplitAll_no_sep: "c \<notin> set s \<Longrightarrow> SplitAll c s = [s]"
  by (induction s) auto

lemma SplitAll_append: "c \<notin> set a \<Longrightarrow> SplitAll c (a @ c # b) = a # SplitAll c b"
  by (induction a) (auto split: list.splits)

lemma join_Cons_head: "join c ((x # y) # ys) = x # join c (y # ys)"
  by (cases ys) simp_all

lemma join_SplitAll: "join c (SplitAll c s) = s"
proof (induction s)
  case (Cons x xs)
  then show ?case
    by (cases "SplitAll c xs") (auto simp: join_Cons_head)
qed simp

lemma SplitN_length: "length (SplitN c n s) \<le> n"
  by (induction c n s rule: SplitN.induct) (auto split: option.splits)

section \<open>Lower case and decimal numbers\<close>

definition to_lower_char :: "char \<Rightarrow> char" where
  "to_lower_char c =
     (let k = (of_char c :: nat) in if 65 \<le> k \<and> k \<le> 90 then char_of (k + 32) else c)"

definition ToLower :: "bytes \<Rightarrow> bytes" where
  "ToLower s = map to_lower_char s"

definition is_digit :: "char \<Rightarrow> bool" where
  "is_digit c \<longleftrightarrow> 48 \<le> (of_char c :: nat) \<and> (of_char c :: nat) \<le> 57"

definition digit_val :: "char \<Rightarrow> nat" where
  "digit_val c = of_char c - 48"

definition digit_char :: "nat \<Rightarrow> char" where
  "digit_char d = char_of (48 + d)"

definition dec_val :: "bytes \<Rightarrow> nat" where
  "dec_val s = foldl (\<lambda>a c. 10 * a + digit_val c) 0 s"

fun itoa_nat :: "nat \<Rightarrow> bytes" where
  "itoa_nat n =
     (if n < 10 then [digit_char n] else itoa_nat (n div 10) @ [digit_char (n mod 10)])"

declare itoa_nat.simps [simp del]

definition Itoa :: "int \<Rightarrow> bytes" where
  "Itoa i = (if i < 0 then CHR ''-'' # itoa_nat (nat (- i)) else itoa_nat (nat i))"

datatype num_error = ErrSyntax | ErrRange

text \<open>
  \<open>strconv.Atoi\<close>: an optional sign and decimal digits.  A syntax error comes with the
  value 0, a range error with the nearest 64-bit value.
\<close>

definition Atoi :: "bytes \<Rightarrow> int \<times> num_error option" where
  "Atoi s =
     (let neg = (s \<noteq> [] \<and> hd s = CHR ''-'');
          ds = (if s \<noteq> [] \<and> (hd s = CHR ''-'' \<or> hd s = CHR ''+'') then tl s else s);
          v = (if neg then - int (dec_val ds) else int (dec_val ds))
      in if ds = [] \<or> \<not> list_all is_digit ds then (0, Some ErrSyntax)
         else if v > max_i64 then (max_i64, Some ErrRange)
         else if v < min_i64 then (min_i64, Some ErrRange)
         else (v, None))"

lemma is_digit_digit_char [simp]: "d < 10 \<Longrightarrow> is_digit (digit_char d)"
  by (simp add: is_digit_def digit_char_def)

lemma digit_val_digit_char [simp]: "d < 10 \<Longrightarrow> digit_val (digit_char d) = d"
  by (simp add: digit_val_def digit_char_def)

lemma dec_val_Nil [simp]: "dec_val [] = 0"
  by (simp add: dec_val_def)

lemma dec_val_snoc: "dec_val (s @ [c]) = 10 * dec_val s + digit_val c"
  by (simp add: dec_val_def)

lemma itoa_nat_nonempty [simp]: "itoa_nat n \<noteq> []"
  by (subst itoa_nat.simps) simp

lemma itoa_nat_digits: "list_all is_digit (itoa_nat n)"
proof (induction n rule: itoa_nat.induct)
  case (1 n)
  then show ?case by (subst itoa_nat.simps) simp
qed

lemma dec_val_itoa_nat [simp]: "dec_val (itoa_nat n) = n"
proof (induction n rule: itoa_nat.induct)
  case (1 n)
  show ?case
  proof (cases "n < 10")
    case True
    then show ?thesis using dec_val_snoc [of "[]"] by (subst itoa_nat.simps) simp
  next
    case False
    with 1 show ?thesis by (subst itoa_nat.simps) (simp add: dec_val_snoc)
  qed
qed

lemma is_digit_not_sign:
  "is_digit c \<Longrightarrow> c \<noteq> CHR ''-'' \<and> c \<noteq> CHR ''+'' \<and> c \<noteq> CHR '' '' \<and> c \<noteq> CHR ''.'' \<and> c \<noteq> CHR 0x0A"
  by (auto simp: is_digit_def)

lemma itoa_nat_hd: "is_digit (hd (itoa_nat n))"
  using itoa_nat_digits [of n] by (cases "itoa_nat n") auto

lemma Atoi_Itoa:
  assumes "min_i64 \<le> i" "i \<le> max_i64"
  shows "Atoi (Itoa i) = (i, None)"
proof (cases "i < 0")
  case True
  with assms itoa_nat_digits show ?thesis by (simp add: Atoi_def Itoa_def Let_def)
next
  case False
  with assms itoa_nat_digits is_digit_not_sign [OF itoa_nat_hd [of "nat i"]]
  show ?thesis by (simp add: Atoi_def Itoa_def Let_def)
qed

lemma Itoa_nonempty [simp]: "Itoa i \<noteq> []"
  by (simp add: Itoa_def)

end
