(* ===== verification/File_Parser.thy ===== *)
theory File_Parser
  imports Go_Strings
begin

text \<open>
  The line-oriented file parser and its test-file generator
  (\<open>src/go-vs-php-file-parse/parser.go\<close>): \<open>AtoIntOfBytes\<close>, \<open>SplitBytes\<close>, the loop
  \<open>parser\<close>, the bandwidth figures of \<open>show\<close>, the generator loop of \<open>main\<close> and \<open>main\<close>'s
  own decisions.  Log lines are recorded in the state; the process exits of \<open>log.Fatalf\<close>
  and \<open>os.Exit\<close> are values of \<open>proc\<close>.
\<close>

section \<open>AtoIntOfBytes\<close>

datatype parse_error = InvalidNumber bytes

fun atoi_loop :: "nat \<Rightarrow> bytes \<Rightarrow> i64 \<Rightarrow> bool \<Rightarrow> (i64 \<times> bool) option" where
  "atoi_loop idx [] res isnav = Some (res, isnav)"
| "atoi_loop idx (c # cs) res isnav =
     (if idx = 0 \<and> c = CHR ''-'' then atoi_loop (idx + 1) cs res True
      else if (of_char c :: nat) < 48 \<or> (of_char c :: nat) > 57 then None
      else atoi_loop (idx + 1) cs (res * 10 + of_nat (of_char c) - 48) isnav)"

definition AtoIntOfBytes :: "bytes \<Rightarrow> parse_error + i64" where
  "AtoIntOfBytes s =
     (case atoi_loop 0 s 0 False of
        None \<Rightarrow> Inl (InvalidNumber s)
      | Some (res, isnav) \<Rightarrow> Inr (if isnav then - res else res))"

section \<open>SplitBytes\<close>

text \<open>
  The loop walks over \<open>s\<close>; \<open>pos\<close> is the start of the current field and \<open>rcnt\<close> the number
  of separators seen.  The result is the final \<open>pos\<close> and the fields appended so far.
\<close>

fun split_loop :: "bytes \<Rightarrow> char \<Rightarrow> int \<Rightarrow> bytes \<Rightarrow> nat \<Rightarrow> nat \<Rightarrow> nat \<Rightarrow> bytes list
                     \<Rightarrow> nat \<times> bytes list" where
  "split_loop s sep n [] idx rcnt pos result = (pos, result)"
| "split_loop s sep n (c # cs) idx rcnt pos result =
     (if c = sep then
        (if n > 0 \<and> int (rcnt + 1) > n then (length s, result @ [drop pos s])
         else split_loop s sep n cs (idx + 1) (rcnt + 1) (idx + 1)
                (result @ [subslice pos idx s]))
      else split_loop s sep n cs (idx + 1) rcnt pos result)"

definition SplitBytes :: "bytes \<Rightarrow> char \<Rightarrow> int \<Rightarrow> bytes list \<Rightarrow> bytes list" where
  "SplitBytes s sep n result =
     (if n = 0 then result
      else let n' = (if n > 0 then n - 1 else n);
               (pos, fields) = split_loop s sep n' s 0 0 0 []
           in if pos < length s then fields @ [drop pos s] else fields)"

section \<open>parser\<close>

datatype read_err = EOF | ErrBufferFull | ErrRead

datatype 'a proc = Returns 'a | Exits nat

text \<open>
  \<open>bufio.Reader.ReadSlice('\n')\<close> with a buffer of \<open>bsize\<close> bytes over the unread input
  \<open>s\<close>, which ends with the error \<open>e\<close> (\<open>EOF\<close> for a file that is read to its end).
\<close>

definition ReadSlice :: "nat \<Rightarrow> read_err \<Rightarrow> bytes \<Rightarrow> bytes \<times> read_err option \<times> bytes" where
  "ReadSlice bsize e s =
     (case IndexByte (take bsize s) (CHR 0x0A) of
        Some i \<Rightarrow> (take (Suc i) s, None, drop (Suc i) s)
      | None \<Rightarrow> if bsize \<le> length s then (take bsize s, Some ErrBufferFull, drop bsize s)
                else (s, Some e, []))"

record stat =
  stat_lines :: u64
  stat_bytes :: u64
  stat_sizes :: u64
  stat_done :: bool
  stat_err :: "read_err option"

datatype log_line = InvalidLine nat | Warning parse_error

text \<open>The parser's local state: the result, the reused slice, the messages sent on
  \<open>statCh\<close> (all carry the same pointer, so only their number matters) and the log.\<close>

record pstate =
  res :: stat
  fslice :: "bytes list"
  sent :: nat
  plog :: "log_line list"

definition stat_zero :: stat where
  "stat_zero = \<lparr>stat_lines = 0, stat_bytes = 0, stat_sizes = 0, stat_done = False, stat_err = None\<rparr>"

text \<open>One line, from the byte count to the tick of the \<open>select\<close>.\<close>

definition parse_line :: "bool \<Rightarrow> bool \<Rightarrow> bytes \<Rightarrow> pstate \<Rightarrow> pstate" where
  "parse_line statCh tick line ps =
     (let r = (res ps)\<lparr>stat_bytes := stat_bytes (res ps) + of_nat (length line),
                       stat_lines := stat_lines (res ps) + 1\<rparr>;
          sl = SplitBytes line (CHR '' '') 10 (fslice ps)
      in if length sl < 9
         then ps\<lparr>res := r, fslice := sl, plog := plog ps @ [InvalidLine (length sl)]\<rparr>
         else let (sz, warn) = (case AtoIntOfBytes (sl ! 8) of
                                    Inl e \<Rightarrow> (0, [Warning e]) | Inr v \<Rightarrow> (v, []))
              in ps\<lparr>res := r\<lparr>stat_sizes := stat_sizes r + sz\<rparr>, fslice := sl,
                    sent := sent ps + (if statCh \<and> tick then 1 else 0),
                    plog := plog ps @ warn\<rparr>)"

definition parsed_fields :: "bytes \<Rightarrow> nat" where
  "parsed_fields line = length (SplitBytes line (CHR '' '') 10 [])"

text \<open>
  The loop.  \<open>ticks\<close> says for each \<open>select\<close> whether the ticker has fired; a line with
  fewer than nine fields does not reach the \<open>select\<close>.
\<close>

function parser_loop :: "nat \<Rightarrow> read_err \<Rightarrow> bool \<Rightarrow> bool list \<Rightarrow> bytes \<Rightarrow> pstate \<Rightarrow> pstate proc" where
  "parser_loop bsize e statCh ticks s ps =
     (case ReadSlice bsize e s of
        (line, Some err, rest) \<Rightarrow>
          if err = EOF then Returns (ps\<lparr>res := (res ps)\<lparr>stat_err := None, stat_done := True\<rparr>\<rparr>)
          else Exits 1
      | (line, None, rest) \<Rightarrow>
          if statCh \<and> 9 \<le> parsed_fields line
          then parser_loop bsize e statCh (tl ticks) rest
                 (parse_line statCh (ticks \<noteq> [] \<and> hd ticks) line ps)
          else parser_loop bsize e statCh ticks rest (parse_line statCh False line ps))"
  by pat_completeness auto

lemma ReadSlice_progress:
  "ReadSlice bsize e s = (line, None, rest) \<Longrightarrow>
     s = line @ rest \<and> line \<noteq> [] \<and> last line = CHR 0x0A \<and> CHR 0x0A \<notin> set (butlast line)"
proof -
  assume "ReadSlice bsize e s = (line, None, rest)"
  then obtain i where i: "IndexByte (take bsize s) (CHR 0x0A) = Some i"
    and lr: "line = take (Suc i) s" "rest = drop (Suc i) s"
    by (auto simp: ReadSlice_def split: option.splits if_splits)
  from IndexByte_SomeD [OF i] have "i < length s" "i < bsize" "s ! i = CHR 0x0A"
    "CHR 0x0A \<notin> set (take i s)"
    by (auto simp: min_def split: if_splits)
  moreover from this have "s = take i s @ CHR 0x0A # drop (Suc i) s"
    using id_take_nth_drop [of i s] by simp
  ultimately show ?thesis using lr by (simp add: take_Suc_conv_app_nth)
qed

termination parser_loop
proof (relation "measure (\<lambda>(_, _, _, _, s, _). length s)")
qed (auto dest!: ReadSlice_progress [OF sym])

declare parser_loop.simps [simp del]

definition parser :: "nat \<Rightarrow> read_err \<Rightarrow> bool \<Rightarrow> bool list \<Rightarrow> bytes \<Rightarrow> pstate proc" where
  "parser bsize e statCh ticks s =
     parser_loop bsize e statCh ticks s \<lparr>res = stat_zero, fslice = [], sent = 0, plog = []\<rparr>"

section \<open>The generator of \<open>main -gen\<close>\<close>

definition seedBuf :: bytes where
  "seedBuf =
   ''314159265358979323846264338327950288419716939937510582097494459230781640628620899862803482'' @
   ''534211706798214808651328230664709384460955058223172535940812848111745028410270193852110555'' @
   ''964462294895493038196442881097566593344612847564823378678316527120190914564856692346034861'' @
   ''045432664821339360726024914127372458700660631558817488152092096282925409171536436789259036'' @
   ''001133053054882046652138414695194151160943305727036575959195309218611738193261179310511854'' @
   ''80744623799627495673518857527248912279381830119491298336733624''"

text \<open>\<open>for i := 4; i < 49; i = i + 5 { linebuf[i] = ' ' }\<close>\<close>

function fill_spaces :: "nat \<Rightarrow> bytes \<Rightarrow> bytes" where
  "fill_spaces i lb = (if i < 49 then fill_spaces (i + 5) (lb[i := CHR '' '']) else lb)"
  by pat_completeness auto
termination
  by (relation "measure (\<lambda>(i, _). 49 - i)") auto

declare fill_spaces.simps [simp del]

text \<open>
  The loop writes \<open>k\<close> more lines; \<open>None\<close> is the panic of a slice expression out of range.
\<close>

fun gen_loop :: "bytes \<Rightarrow> nat \<Rightarrow> bytes \<Rightarrow> nat \<Rightarrow> nat \<Rightarrow> bytes option" where
  "gen_loop seed 0 lb seekpos shift = Some []"
| "gen_loop seed (Suc k) lb seekpos shift =
     (if seekpos + 49 > length seed then None
      else let lb' = fill_spaces 4 (copy_into lb 0 (subslice seekpos (seekpos + 49) seed));
               maxpos = length seed - 50;
               maxshift = length seed - 100;
               shift' = (if shift + 1 \<ge> maxshift then 0 else shift + 1)
           in map_option (\<lambda>rest. lb' @ rest)
                (if seekpos + 50 > maxpos then gen_loop seed k lb' shift' shift'
                 else gen_loop seed k lb' (seekpos + 50) shift))"

definition generate :: "bytes \<Rightarrow> u64 \<Rightarrow> bytes option" where
  "generate seed totalline =
     (if length seed < 100 then None
      else gen_loop seed (unat totalline) (replicate 49 (CHR 0x00) @ [CHR 0x0A]) 0 0)"

section \<open>show: the bandwidth figures\<close>

text \<open>Times are nanoseconds; \<open>secMutil\<close> is \<open>uint64(time.Second) / 1048576\<close>.\<close>

record show_state =
  startts :: int
  prets :: int
  prebytes :: u64

definition secMutil :: u64 where
  "secMutil = 1000000000 div 1048576"

definition total_bw :: "u64 \<Rightarrow> u64 \<Rightarrow> u64" where
  "total_bw b totalesp =
     (if b > totalesp then secMutil * (b div totalesp) else (secMutil * b) div totalesp)"

definition show_step :: "show_state \<Rightarrow> int \<Rightarrow> stat \<Rightarrow> u64 \<times> u64 \<times> show_state" where
  "show_step st nowts result =
     (let esp = (if nowts - prets st \<le> 0 then 1 else nowts - prets st);
          totalesp = (if nowts - startts st \<le> 0 then 1 else nowts - startts st);
          totalbw = total_bw (stat_bytes result) (of_int totalesp);
          curbw = (secMutil * (stat_bytes result - prebytes st)) div of_int esp
      in (totalbw, curbw,
          if stat_done result then st else st\<lparr>prets := nowts, prebytes := stat_bytes result\<rparr>))"

section \<open>main\<close>

record parser_flags =
  pf_filename :: bytes
  pf_readbufsize :: int
  pf_help :: bool
  pf_gen :: bool
  pf_force :: bool
  pf_filelines :: u64
  pf_profile :: bool
  pf_showstat :: bool

datatype node = DirNode | FileNode bytes

text \<open>What \<open>main\<close> finds in its environment: the file system, and whether creating,
  writing and opening the file and listening on the profile port succeed.\<close>

record parser_env =
  env_fs :: "bytes \<Rightarrow> node option"
  env_create_ok :: bool
  env_write_ok :: bool
  env_open_ok :: bool
  env_listen_ok :: bool

datatype main_result = Generated bytes bytes | Parsed stat "log_line list" | Panicked

definition default_name :: "u64 \<Rightarrow> bytes" where
  "default_name n = Itoa (sint n) @ ''m.lines.testdata.txt''"

definition main_gen :: "parser_env \<Rightarrow> parser_flags \<Rightarrow> bytes \<Rightarrow> main_result proc" where
  "main_gen env fl name =
     (if \<not> pf_force fl \<and> env_fs env name \<noteq> None then Exits 1
      else if \<not> env_create_ok env then Exits 1
      else case generate seedBuf (pf_filelines fl * 1000000) of
             None \<Rightarrow> Returns Panicked
           | Some content \<Rightarrow> if env_write_ok env then Returns (Generated name content) else Exits 1)"

definition main_parse :: "parser_env \<Rightarrow> parser_flags \<Rightarrow> bool list \<Rightarrow> bytes \<Rightarrow> main_result proc" where
  "main_parse env fl ticks name =
     (if pf_readbufsize fl < 512 then Exits 0
      else case env_fs env name of
             None \<Rightarrow> Exits 1
           | Some DirNode \<Rightarrow> Exits 1
           | Some (FileNode content) \<Rightarrow>
               if \<not> env_open_ok env then Exits 1
               else if pf_profile fl \<and> \<not> env_listen_ok env then Exits 1
               else case parser (nat (pf_readbufsize fl)) EOF (pf_showstat fl) ticks content of
                      Exits n \<Rightarrow> Exits n
                    | Returns ps \<Rightarrow> if stat_err (res ps) \<noteq> None then Exits 1
                                    else Returns (Parsed (res ps) (plog ps)))"

definition parser_main :: "parser_env \<Rightarrow> parser_flags \<Rightarrow> bool list \<Rightarrow> main_result proc" where
  "parser_main env fl ticks =
     (if pf_help fl then Exits 0
      else if pf_filelines fl = 0 then Exits 1
      else let name = (if pf_filename fl = [] then default_name (pf_filelines fl) else pf_filename fl)
           in if pf_gen fl then main_gen env fl name else main_parse env fl ticks name)"

section \<open>AtoIntOfBytes computes the signed decimal value, wrapped to 64 bits\<close>

definition unsigned_part :: "bytes \<Rightarrow> bytes" where
  "unsigned_part s = (if s \<noteq> [] \<and> hd s = CHR ''-'' then tl s else s)"

definition signed_val :: "bytes \<Rightarrow> int" where
  "signed_val s =
     (if s \<noteq> [] \<and> hd s = CHR ''-'' then - int (dec_val (tl s)) else int (dec_val s))"

lemma atoi_loop_digits:
  "atoi_loop (Suc idx) s acc isnav =
     (if list_all is_digit s
      then Some (foldl (\<lambda>a c. a * 10 + of_nat (digit_val c)) acc s, isnav) else None)"
proof (induction s arbitrary: idx acc)
  case (Cons c cs)
  show ?case
  proof (cases "is_digit c")
    case True
    then have "acc * 10 + of_nat (of_char c) - 48 = (acc * 10 + of_nat (digit_val c) :: i64)"
      by (simp add: digit_val_def is_digit_def)
    with True Cons show ?thesis
      by (simp only: atoi_loop.simps) (simp add: is_digit_def)
  qed (auto simp: is_digit_def)
qed simp

lemma foldl_dec_word:
  "foldl (\<lambda>a c. a * 10 + of_nat (digit_val c)) (of_nat k) s =
     (of_nat (foldl (\<lambda>a c. 10 * a + digit_val c) k s) :: i64)"
proof (induction s arbitrary: k)
  case (Cons c cs)
  have "of_nat k * 10 + of_nat (digit_val c) = (of_nat (10 * k + digit_val c) :: i64)"
    by simp
  then show ?case using Cons [of "10 * k + digit_val c"] by (simp only: foldl_Cons)
qed simp

lemma atoi_loop_value:
  "list_all is_digit s \<Longrightarrow> atoi_loop (Suc idx) s 0 isnav = Some (of_nat (dec_val s), isnav)"
  using foldl_dec_word [of 0 s] by (simp add: atoi_loop_digits dec_val_def)

lemma atoi_loop_start:
  "atoi_loop 0 s 0 False =
     (if s \<noteq> [] \<and> hd s = CHR ''-'' then atoi_loop 1 (tl s) 0 True else atoi_loop 1 s 0 False)"
proof (cases s)
  case (Cons c cs)
  then show ?thesis by (simp add: atoi_loop_digits)
qed simp

lemma AtoIntOfBytes_eq:
  "AtoIntOfBytes s =
     (if list_all is_digit (unsigned_part s) then Inr (of_int (signed_val s))
      else Inl (InvalidNumber s))"
  using atoi_loop_value [of "tl s" 0 True] atoi_loop_value [of s 0 False]
  by (auto simp: AtoIntOfBytes_def atoi_loop_start unsigned_part_def signed_val_def
      atoi_loop_digits)

lemma signed_val_Itoa: "signed_val (Itoa i) = i"
  using is_digit_not_sign [OF itoa_nat_hd [of "nat i"]]
  by (auto simp: signed_val_def Itoa_def)

lemma unsigned_part_Itoa: "list_all is_digit (unsigned_part (Itoa i))"
  using is_digit_not_sign [OF itoa_nat_hd [of "nat i"]] itoa_nat_digits
  by (auto simp: unsigned_part_def Itoa_def)

section \<open>SplitBytes against the library's SplitN\<close>

definition drop_last_empty :: "bytes list \<Rightarrow> bytes list" where
  "drop_last_empty xs = (if xs \<noteq> [] \<and> last xs = [] then butlast xs else xs)"

definition split_finish :: "bytes \<Rightarrow> nat \<times> bytes list \<Rightarrow> bytes list" where
  "split_finish s = (\<lambda>(pos, fields). if pos < length s then fields @ [drop pos s] else fields)"

lemma drop_last_empty_Cons:
  "xs \<noteq> [] \<Longrightarrow> drop_last_empty (x # xs) = x # drop_last_empty xs"
  by (simp add: drop_last_empty_def)

lemma drop_last_empty_single [simp]: "drop_last_empty [x] = (if x = [] then [] else [x])"
  by (simp add: drop_last_empty_def)

lemma SplitN_nonempty [simp]: "SplitN c (Suc n) s \<noteq> []"
  by (cases n) (auto split: option.splits)

lemma SplitN_no_sep: "c \<notin> set s \<Longrightarrow> SplitN c (Suc n) s = [s]"
  by (cases n) simp_all

lemma SplitN_append:
  "c \<notin> set a \<Longrightarrow> SplitN c (Suc (Suc n)) (a @ c # b) = a # SplitN c (Suc n) b"
  by (simp add: IndexByte_first)

text \<open>What the loop knows about the current field: it holds no separator so far.\<close>

lemma split_loop_limited:
  assumes "s = pre @ cs" "idx = length pre" "pos \<le> idx" "sep \<notin> set (drop pos pre)"
    and "rcnt \<le> m" "0 < m"
  shows "split_finish s (split_loop s sep (int m) cs idx rcnt pos result) =
     result @ drop_last_empty (SplitN sep (Suc (m - rcnt)) (drop pos s))"
  using assms
proof (induction cs arbitrary: pre idx rcnt pos result)
  case Nil
  then have "SplitN sep (Suc (m - rcnt)) (drop pos s) = [drop pos s]"
    by (simp add: SplitN_no_sep)
  then show ?case by (simp add: split_finish_def)
next
  case (Cons c cs)
  let ?f = "drop pos pre"
  have s: "s = (pre @ [c]) @ cs" and dp: "drop pos s = ?f @ c # cs"
    using Cons.prems by simp_all
  show ?case
  proof (cases "c = sep")
    case False
    with Cons.prems have "sep \<notin> set (drop pos (pre @ [c]))" by auto
    with Cons.IH [OF s, of "Suc idx" pos rcnt result] Cons.prems False show ?thesis by simp
  next
    case True
    show ?thesis
    proof (cases "rcnt = m")
      case True
      with \<open>c = sep\<close> Cons.prems dp show ?thesis by (simp add: split_finish_def)
    next
      case False
      with Cons.prems obtain k where k: "m - rcnt = Suc k" "m - Suc rcnt = k"
        by (metis Suc_diff_Suc le_neq_implies_less)
      have f: "subslice pos idx s = ?f" using Cons.prems by (simp add: subslice_def)
      have "split_finish s (split_loop s sep (int m) (c # cs) idx rcnt pos result)
          = split_finish s (split_loop s sep (int m) cs (Suc idx) (Suc rcnt) (Suc idx) (result @ [?f]))"
        using True False Cons.prems f by simp
      also have "\<dots> = (result @ [?f]) @ drop_last_empty (SplitN sep (Suc k) cs)"
        using Cons.IH [OF s, of "Suc idx" "Suc idx" "Suc rcnt" "result @ [?f]"] Cons.prems False k
        by simp
      also have "\<dots> = result @ drop_last_empty (SplitN sep (Suc (m - rcnt)) (drop pos s))"
        using SplitN_append [OF Cons.prems(4), of k cs] True k dp
        by (simp add: drop_last_empty_Cons del: SplitN.simps)
      finally show ?thesis .
    qed
  qed
qed

lemma split_loop_unlimited:
  assumes "s = pre @ cs" "idx = length pre" "pos \<le> idx" "sep \<notin> set (drop pos pre)" "n \<le> 0"
  shows "split_finish s (split_loop s sep n cs idx rcnt pos result) =
     result @ drop_last_empty (SplitAll sep (drop pos s))"
  using assms
proof (induction cs arbitrary: pre idx rcnt pos result)
  case Nil
  then show ?case by (simp add: split_finish_def SplitAll_no_sep)
next
  case (Cons c cs)
  let ?f = "drop pos pre"
  have s: "s = (pre @ [c]) @ cs" and dp: "drop pos s = ?f @ c # cs"
    and f: "subslice pos idx s = ?f"
    using Cons.prems by (simp_all add: subslice_def)
  show ?case
  proof (cases "c = sep")
    case True
    with Cons.IH [OF s, of "Suc idx" "Suc idx" "Suc rcnt" "result @ [?f]"] Cons.prems dp f
    show ?thesis by (simp add: SplitAll_append drop_last_empty_Cons)
  next
    case False
    with Cons.prems have "sep \<notin> set (drop pos (pre @ [c]))" by auto
    with Cons.IH [OF s, of "Suc idx" pos rcnt result] Cons.prems False show ?thesis by simp
  qed
qed

lemma SplitBytes_finish:
  "n \<noteq> 0 \<Longrightarrow> SplitBytes s sep n r =
     split_finish s (split_loop s sep (if n > 0 then n - 1 else n) s 0 0 0 [])"
  by (simp add: SplitBytes_def split_finish_def split: prod.splits)

lemma SplitBytes_limited:
  "SplitBytes s sep (int (Suc (Suc m))) r = drop_last_empty (SplitN sep (Suc (Suc m)) s)"
  using split_loop_limited [of s "[]" s 0 0 sep 0 "Suc m" "[]"] by (simp add: SplitBytes_finish)

lemma SplitBytes_all: "n < 0 \<or> n = 1 \<Longrightarrow> SplitBytes s sep n r = drop_last_empty (SplitAll sep s)"
  using split_loop_unlimited [of s "[]" s 0 0 sep "if n > 0 then n - 1 else n" 0 "[]"]
  by (auto simp: SplitBytes_finish)

lemma drop_last_empty_length: "length (drop_last_empty xs) \<le> length xs"
  by (simp add: drop_last_empty_def)

end
