(* ===== verification/File_Parser_Props.thy ===== *)
theory File_Parser_Props
  imports File_Parser
begin

text \<open>
  Correctness of the file parser: the loop over a file of complete lines, the shape of
  the generated file, the parser on a generated file, and the arithmetic of \<open>show\<close>.
\<close>

section \<open>The parser loop on a file of lines\<close>

definition good_line :: "nat \<Rightarrow> bytes \<Rightarrow> bool" where
  "good_line bsize l \<longleftrightarrow>
     (\<exists>b. l = b @ [CHR 0x0A] \<and> CHR 0x0A \<notin> set b) \<and> length l \<le> bsize"

definition line_fields :: "bytes \<Rightarrow> bytes list" where
  "line_fields l = drop_last_empty (SplitN (CHR '' '') 10 l)"

definition line_size :: "bytes \<Rightarrow> u64" where
  "line_size l =
     (if 9 \<le> length (line_fields l) \<and> list_all is_digit (unsigned_part (line_fields l ! 8))
      then of_int (signed_val (line_fields l ! 8)) else 0)"

definition line_log :: "bytes \<Rightarrow> log_line list" where
  "line_log l =
     (if length (line_fields l) < 9 then [InvalidLine (length (line_fields l))]
      else if list_all is_digit (unsigned_part (line_fields l ! 8)) then []
      else [Warning (InvalidNumber (line_fields l ! 8))])"

lemma SplitBytes_10 [simp]: "SplitBytes l (CHR '' '') 10 r = line_fields l"
  using SplitBytes_limited [of l "CHR '' ''" 8 r] by (simp add: line_fields_def eval_nat_numeral)

lemma ReadSlice_good: "good_line bsize l \<Longrightarrow> ReadSlice bsize e (l @ r) = (l, None, r)"
  by (auto simp: good_line_def ReadSlice_def IndexByte_append)

lemma ReadSlice_tail:
  "CHR 0x0A \<notin> set t \<Longrightarrow> length t < bsize \<Longrightarrow> ReadSlice bsize e t = (t, Some e, [])"
  by (simp add: ReadSlice_def)

lemma ReadSlice_long:
  "CHR 0x0A \<notin> set (take bsize s) \<Longrightarrow> bsize \<le> length s \<Longrightarrow>
     ReadSlice bsize e s = (take bsize s, Some ErrBufferFull, drop bsize s)"
  by (simp add: ReadSlice_def)

lemma parse_line_effect:
  "stat_lines (res (parse_line ch tick l ps)) = stat_lines (res ps) + 1"
  "stat_bytes (res (parse_line ch tick l ps)) = stat_bytes (res ps) + of_nat (length l)"
  "stat_sizes (res (parse_line ch tick l ps)) = stat_sizes (res ps) + line_size l"
  "stat_err (res (parse_line ch tick l ps)) = stat_err (res ps)"
  "plog (parse_line ch tick l ps) = plog ps @ line_log l"
  by (auto simp: parse_line_def AtoIntOfBytes_eq line_size_def line_log_def Let_def split: sum.splits)

lemma parser_loop_line:
  assumes "good_line bsize l"
  shows "\<exists>ticks' tick. parser_loop bsize e ch ticks (l @ r) ps =
           parser_loop bsize e ch ticks' r (parse_line ch tick l ps)"
  using ReadSlice_good [OF assms, of e r]
  by (subst parser_loop.simps) (auto split: option.splits)

definition lines_result :: "bytes list \<Rightarrow> pstate \<Rightarrow> pstate \<Rightarrow> bool" where
  "lines_result ls ps ps' \<longleftrightarrow>
     stat_lines (res ps') = stat_lines (res ps) + of_nat (length ls) \<and>
     stat_bytes (res ps') = stat_bytes (res ps) + of_nat (length (concat ls)) \<and>
     stat_sizes (res ps') = stat_sizes (res ps) + sum_list (map line_size ls) \<and>
     plog ps' = plog ps @ concat (map line_log ls)"

lemma lines_result_Nil: "lines_result [] ps ps"
  by (simp add: lines_result_def)

lemma lines_result_Cons:
  "lines_result ls (parse_line ch tick l ps) ps' \<Longrightarrow> lines_result (l # ls) ps ps'"
  by (simp add: lines_result_def parse_line_effect)

lemma parser_loop_lines:
  assumes "\<forall>l\<in>set ls. good_line bsize l"
  shows "\<exists>ticks' ps'. parser_loop bsize e ch ticks (concat ls @ t) ps =
           parser_loop bsize e ch ticks' t ps' \<and> lines_result ls ps ps'"
  using assms
proof (induction ls arbitrary: ticks ps)
  case Nil
  then show ?case using lines_result_Nil by auto
next
  case (Cons l ls)
  from Cons.prems parser_loop_line [of bsize l e ch ticks "concat ls @ t" ps]
  obtain ticks' tick where "parser_loop bsize e ch ticks (l @ concat ls @ t) ps =
           parser_loop bsize e ch ticks' (concat ls @ t) (parse_line ch tick l ps)" by auto
  with Cons.IH [of ticks' "parse_line ch tick l ps"] Cons.prems show ?case
    by (fastforce intro: lines_result_Cons)
qed

section \<open>The shape of a generated file\<close>

lemma length_fill_spaces [simp]: "length (fill_spaces i lb) = length lb"
proof (induction i lb rule: fill_spaces.induct)
  case (1 i lb)
  then show ?case by (subst fill_spaces.simps) simp
qed

text \<open>\<open>space5 k d\<close> overwrites the fifth byte of each of the first \<open>k\<close> groups of five.\<close>

fun space5 :: "nat \<Rightarrow> bytes \<Rightarrow> bytes" where
  "space5 0 d = d"
| "space5 (Suc k) d = take 4 d @ CHR '' '' # space5 k (drop 5 d)"

fun groups5 :: "nat \<Rightarrow> bytes \<Rightarrow> bytes list" where
  "groups5 0 d = [d]"
| "groups5 (Suc k) d = take 4 d # groups5 k (drop 5 d)"

lemma update_fifth:
  assumes "4 < length d"
  shows "(p @ d)[length p + 4 := x] = (p @ take 4 d @ [x]) @ drop 5 d"
  using assms upd_conv_take_nth_drop [of 4 d x]
  by (simp add: list_update_append eval_nat_numeral)

lemma fill_spaces_space5:
  "length p + 5 * k + 4 = 49 \<Longrightarrow> 49 \<le> length (p @ d) \<Longrightarrow>
     fill_spaces (length p + 4) (p @ d) = p @ space5 k d"
proof (induction k arbitrary: p d)
  case 0
  then show ?case by (subst fill_spaces.simps) simp
next
  case (Suc k)
  let ?p = "p @ take 4 d @ [CHR '' '']"
  have d: "4 < length d" using Suc.prems by simp
  have "fill_spaces (length p + 4) (p @ d) = fill_spaces (length ?p + 4) (?p @ drop 5 d)"
    using Suc.prems d by (subst fill_spaces.simps) (simp add: update_fifth)
  also have "\<dots> = ?p @ space5 k (drop 5 d)"
    using Suc.prems d by (intro Suc.IH) simp_all
  finally show ?case by simp
qed

lemma gen_linebuf:
  assumes "length d = 49" "length b = 49"
  shows "fill_spaces 4 (copy_into (b @ [CHR 0x0A]) 0 d) = space5 9 (d @ [CHR 0x0A])"
  using assms fill_spaces_space5 [of "[]" 9 "d @ [CHR 0x0A]"] by (simp add: copy_into_def)

lemma SplitN_space5:
  "CHR '' '' \<notin> set d \<Longrightarrow> SplitN (CHR '' '') (Suc k) (space5 k d) = groups5 k d"
proof (induction k arbitrary: d)
  case (Suc k)
  then have "CHR '' '' \<notin> set (take 4 d)" "CHR '' '' \<notin> set (drop 5 d)"
    by (auto dest: in_set_takeD in_set_dropD)
  with Suc show ?case
    using SplitN_append [of "CHR '' ''" "take 4 d" k "space5 k (drop 5 d)"] by simp
qed simp

lemma length_groups5 [simp]: "length (groups5 k d) = Suc k"
  by (induction k arbitrary: d) simp_all

lemma groups5_nth: "i < k \<Longrightarrow> groups5 k d ! i = take 4 (drop (5 * i) d)"
  by (induction k arbitrary: d i) (auto simp: nth_Cons' drop_drop algebra_simps)

lemma last_groups5: "last (groups5 k d) = drop (5 * k) d"
  by (induction k arbitrary: d) (auto simp: drop_drop algebra_simps neq_Nil_conv
      dest: arg_cong [where f = length])

lemma length_space5: "5 * k \<le> length d \<Longrightarrow> length (space5 k d) = length d"
  by (induction k arbitrary: d) (auto simp: min_def)

lemma set_space5: "set (space5 k d) \<subseteq> insert (CHR '' '') (set d)"
proof (induction k arbitrary: d)
  case (Suc k)
  from Suc [of "drop 5 d"] show ?case
    by (auto dest: in_set_takeD in_set_dropD)
qed auto

lemma space5_append: "5 * k \<le> length d \<Longrightarrow> space5 k (d @ r) = space5 k d @ r"
  by (induction k arbitrary: d) auto

text \<open>A generated line: 50 bytes, ten fields of four digits, the ninth of them a number.\<close>

lemma gen_line_facts:
  assumes d: "length d = 49" "list_all is_digit d"
  defines "l \<equiv> space5 9 (d @ [CHR 0x0A])"
  shows "good_line 512 l" "length l = 50" "line_log l = []"
    "line_size l = of_nat (dec_val (take 4 (drop 40 d)))"
proof -
  have nd: "CHR '' '' \<notin> set d" "CHR 0x0A \<notin> set d"
    using d(2) is_digit_not_sign by (auto simp: list_all_iff)
  have l: "l = space5 9 d @ [CHR 0x0A]" and len: "length (space5 9 d) = 49"
    using d by (simp_all add: l_def space5_append length_space5)
  show "length l = 50" by (simp add: l len)
  show "good_line 512 l"
    using nd(2) set_space5 [of 9 d] by (auto simp: good_line_def l len)
  have "SplitN (CHR '' '') (Suc 9) l = groups5 9 (d @ [CHR 0x0A])"
    unfolding l_def by (rule SplitN_space5) (use nd in simp)
  then have f: "line_fields l = groups5 9 (d @ [CHR 0x0A])"
    using d by (simp add: line_fields_def drop_last_empty_def last_groups5)
  define w where "w = take 4 (drop 40 d)"
  have n8: "line_fields l ! 8 = w" and n: "length (line_fields l) = 10"
    using d by (simp_all add: f groups5_nth w_def)
  have dig: "list_all is_digit w"
    using d(2) by (auto simp: list_all_iff w_def dest: in_set_takeD in_set_dropD)
  then have "unsigned_part w = w" "signed_val w = int (dec_val w)"
    using is_digit_not_sign by (cases w; auto simp: unsigned_part_def signed_val_def)+
  with dig show "line_log l = []" "line_size l = of_nat (dec_val (take 4 (drop 40 d)))"
    by (simp_all add: line_log_def line_size_def n8 n w_def [symmetric])
qed

section \<open>The generator loop stays inside the seed\<close>

lemma gen_loop_lines:
  assumes "length lb = 50" "lb ! 49 = CHR 0x0A" "100 \<le> length seed"
    and "seekpos + 50 \<le> length seed" "shift = 0 \<or> shift + 100 < length seed"
    and "list_all is_digit seed"
  shows "\<exists>ls. gen_loop seed k lb seekpos shift = Some (concat ls) \<and> length ls = k \<and>
    (\<forall>l\<in>set ls. \<exists>d. length d = 49 \<and> list_all is_digit d \<and> l = space5 9 (d @ [CHR 0x0A]))"
  using assms
proof (induction k arbitrary: lb seekpos shift)
  case (Suc k)
  let ?d = "subslice seekpos (seekpos + 49) seed"
  let ?l = "fill_spaces 4 (copy_into lb 0 ?d)"
  let ?sh = "if shift + 1 \<ge> length seed - 100 then 0 else shift + 1"
  let ?sp = "if seekpos + 50 > length seed - 50 then ?sh else seekpos + 50"
  let ?sh' = "if seekpos + 50 > length seed - 50 then ?sh else shift"
  have d: "length ?d = 49" "list_all is_digit ?d"
    using Suc.prems by (auto simp: list_all_iff subslice_def dest: in_set_takeD in_set_dropD)
  have ne: "lb \<noteq> []" using Suc.prems(1) by auto
  then have "last lb = CHR 0x0A" using Suc.prems(1,2) by (simp add: last_conv_nth)
  then have lb: "lb = butlast lb @ [CHR 0x0A]" "length (butlast lb) = 49"
    using append_butlast_last_id [OF ne] Suc.prems by simp_all
  have l: "?l = space5 9 (?d @ [CHR 0x0A])"
    using gen_linebuf [OF d(1) lb(2)] lb(1) by simp
  have "\<exists>ls. gen_loop seed k ?l ?sp ?sh' = Some (concat ls) \<and> length ls = k \<and>
    (\<forall>l\<in>set ls. \<exists>d. length d = 49 \<and> list_all is_digit d \<and> l = space5 9 (d @ [CHR 0x0A]))"
  proof (rule Suc.IH)
    show "length ?l = 50" by (simp add: Suc.prems)
    show "?l ! 49 = CHR 0x0A"
      using d by (simp add: l space5_append length_space5 nth_append)
  qed (use Suc.prems in auto)
  then obtain ls where ls: "gen_loop seed k ?l ?sp ?sh' = Some (concat ls)" "length ls = k"
    "\<forall>l\<in>set ls. \<exists>d. length d = 49 \<and> list_all is_digit d \<and> l = space5 9 (d @ [CHR 0x0A])"
    by blast
  have "gen_loop seed (Suc k) lb seekpos shift = Some (concat (?l # ls))"
    using Suc.prems ls(1) by (auto simp: Let_def split: if_splits)
  with ls(2,3) d l show ?case
    by (intro exI [of _ "?l # ls"]) auto
qed auto

lemma seedBuf_digits: "list_all is_digit seedBuf"
  by (simp add: seedBuf_def is_digit_def)

lemma length_seedBuf: "length seedBuf = 512"
  by (simp add: seedBuf_def)

lemma generate_lines:
  "\<exists>ls. generate seedBuf n = Some (concat ls) \<and> length ls = unat n \<and>
    (\<forall>l\<in>set ls. \<exists>d. length d = 49 \<and> list_all is_digit d \<and> l = space5 9 (d @ [CHR 0x0A]))"
  using gen_loop_lines [of "replicate 49 (CHR 0x00) @ [CHR 0x0A]" seedBuf 0 0 "unat n"]
  by (simp add: generate_def length_seedBuf seedBuf_digits nth_append)

lemma good_line_mono: "good_line b l \<Longrightarrow> b \<le> b' \<Longrightarrow> good_line b' l"
  by (auto simp: good_line_def)

lemma parser_returns:
  assumes "\<forall>l\<in>set ls. good_line bsize l" "CHR 0x0A \<notin> set t" "length t < bsize"
  shows "\<exists>ps. parser bsize EOF ch ticks (concat ls @ t) = Returns ps \<and>
     stat_lines (res ps) = of_nat (length ls) \<and>
     stat_bytes (res ps) = of_nat (length (concat ls)) \<and>
     stat_sizes (res ps) = sum_list (map line_size ls) \<and>
     stat_done (res ps) \<and> stat_err (res ps) = None \<and>
     plog ps = concat (map line_log ls)"
proof -
  let ?ps0 = "\<lparr>res = stat_zero, fslice = [], sent = 0, plog = []\<rparr>"
  obtain ticks' ps where ps:
    "parser bsize EOF ch ticks (concat ls @ t) = parser_loop bsize EOF ch ticks' t ps"
    "lines_result ls ?ps0 ps"
    using parser_loop_lines [OF assms(1), of EOF ch ticks t ?ps0] by (auto simp: parser_def)
  have "parser_loop bsize EOF ch ticks' t ps =
      Returns (ps\<lparr>res := (res ps)\<lparr>stat_err := None, stat_done := True\<rparr>\<rparr>)"
    using ReadSlice_tail [OF assms(2,3), of EOF] by (subst parser_loop.simps) simp
  with ps show ?thesis by (auto simp: lines_result_def stat_zero_def)
qed

section \<open>Properties\<close>

text \<open>
  C5. A file of \<open>n\<close> million lines written by \<open>main -gen\<close> and then read by \<open>main\<close> with any
  read buffer of at least 512 bytes is parsed completely: the generator does not run out
  of its seed, the parser returns, it has counted every line and 50 bytes per line, and it
  has logged neither an invalid line nor a bad number.
\<close>

theorem generated_file_parses:
  assumes gen: "parser_main env fl ticks = Returns (Generated name content)"
    and rd: "\<not> pf_help fl'" "pf_filelines fl' \<noteq> 0" "\<not> pf_gen fl'" "pf_filename fl' = name"
      "name \<noteq> []" "512 \<le> pf_readbufsize fl'" "\<not> pf_profile fl'"
    and disk: "env_fs env' name = Some (FileNode content)" "env_open_ok env'"
  shows "\<exists>r. parser_main env' fl' ticks' = Returns (Parsed r []) \<and> stat_done r \<and>
     stat_lines r = pf_filelines fl * 1000000 \<and>
     stat_bytes r = 50 * (pf_filelines fl * 1000000)"
proof -
  let ?n = "pf_filelines fl * 1000000"
  obtain ls where ls: "generate seedBuf ?n = Some (concat ls)" "length ls = unat ?n"
    and shape: "\<forall>l\<in>set ls. \<exists>d. length d = 49 \<and> list_all is_digit d \<and> l = space5 9 (d @ [CHR 0x0A])"
    using generate_lines by blast
  have content: "content = concat ls @ []"
    using gen ls(1) by (auto simp: parser_main_def main_gen_def main_parse_def Let_def
        split: if_splits option.splits node.splits proc.splits)
  let ?b = "nat (pf_readbufsize fl')"
  have good: "\<forall>l\<in>set ls. good_line ?b l"
    using shape gen_line_facts(1) good_line_mono [of 512 _ ?b] rd(6) by fastforce
  have len: "length (concat ls) = unat ?n * 50"
    using concat_length_const [of ls 50] shape gen_line_facts(2) ls(2) by fastforce
  have log: "concat (map line_log ls) = []"
    using shape gen_line_facts(3) by fastforce
  obtain ps where "parser ?b EOF (pf_showstat fl') ticks' content = Returns ps"
    "stat_lines (res ps) = of_nat (length ls)" "stat_bytes (res ps) = of_nat (length (concat ls))"
    "stat_done (res ps)" "stat_err (res ps) = None" "plog ps = concat (map line_log ls)"
    using parser_returns [OF good, of "[]" "pf_showstat fl'" ticks'] rd(6) content by auto
  with rd disk ls(2) len log show ?thesis
    by (auto simp: parser_main_def main_parse_def Let_def)
qed

theorem generated_file_parses_witness:
  "\<exists>content.
     parser_main \<lparr>env_fs = Map.empty, env_create_ok = True, env_write_ok = True,
                   env_open_ok = True, env_listen_ok = True\<rparr>
                 \<lparr>pf_filename = ''t'', pf_readbufsize = 65535, pf_help = False, pf_gen = True,
                   pf_force = False, pf_filelines = 1, pf_profile = False, pf_showstat = False\<rparr> []
       = Returns (Generated ''t'' content) \<and>
     (\<exists>r. parser_main \<lparr>env_fs = [''t'' \<mapsto> FileNode content], env_create_ok = True,
                   env_write_ok = True, env_open_ok = True, env_listen_ok = True\<rparr>
                 \<lparr>pf_filename = ''t'', pf_readbufsize = 65535, pf_help = False, pf_gen = False,
                   pf_force = False, pf_filelines = 1, pf_profile = False, pf_showstat = False\<rparr> []
       = Returns (Parsed r []) \<and> stat_lines r = 1000000 \<and> stat_bytes r = 50000000)"
    (is "\<exists>content. parser_main ?env ?fl [] = _ \<and> (\<exists>r. parser_main (?env' content) ?fl' [] = _ \<and> _)")
proof -
  obtain ls where "generate seedBuf 1000000 = Some (concat ls)"
    using generate_lines [of 1000000] by blast
  then have g: "parser_main ?env ?fl [] = Returns (Generated ''t'' (concat ls))"
    by (simp add: parser_main_def main_gen_def)
  have "\<exists>r. parser_main (?env' (concat ls)) ?fl' [] = Returns (Parsed r []) \<and> stat_done r \<and>
      stat_lines r = pf_filelines ?fl * 1000000 \<and> stat_bytes r = 50 * (pf_filelines ?fl * 1000000)"
    by (rule generated_file_parses [OF g]) simp_all
  with g show ?thesis by auto
qed



text \<open>
  A line that does not fit the read buffer ends the process: after any number of
  complete lines, a run of \<open>bsize\<close> bytes without a newline makes the parser exit.
\<close>

theorem parser_line_too_long:
  assumes "\<forall>l\<in>set ls. good_line bsize l"
    and "CHR 0x0A \<notin> set (take bsize t)" "bsize \<le> length t"
  shows "parser bsize e ch ticks (concat ls @ t) = Exits 1"
proof -
  let ?ps0 = "\<lparr>res = stat_zero, fslice = [], sent = 0, plog = []\<rparr>"
  obtain ticks' ps where
    "parser bsize e ch ticks (concat ls @ t) = parser_loop bsize e ch ticks' t ps"
    using parser_loop_lines [OF assms(1), of e ch ticks t ?ps0] by (auto simp: parser_def)
  moreover have "parser_loop bsize e ch ticks' t ps = Exits 1"
    using ReadSlice_long [OF assms(2,3), of e] by (subst parser_loop.simps) simp
  ultimately show ?thesis by simp
qed

theorem parser_line_too_long_witness:
  "parser 4 EOF False [] (''ab'' @ [CHR 0x0A] @ ''abcd'') = Exits 1"
proof -
  have "\<forall>l\<in>set [''ab'' @ [CHR 0x0A]]. good_line 4 l" by (simp add: good_line_def)
  from parser_line_too_long [OF this, of "''abcd''" EOF False "[]"] show ?thesis by simp
qed

text \<open>
  \<open>SplitBytes\<close> is the library's \<open>SplitN\<close> without a trailing empty field: for a limit
  \<open>n\<close> of at least two and every previous content of the reused slice.
\<close>

theorem SplitBytes_is_SplitN:
  assumes "2 \<le> n"
  shows "SplitBytes s sep n r = drop_last_empty (SplitN sep (nat n) s) \<and>
         length (SplitBytes s sep n r) \<le> nat n"
proof -
  have m: "n = int (Suc (Suc (nat (n - 2))))" using assms by simp
  have eq: "SplitBytes s sep n r = drop_last_empty (SplitN sep (nat n) s)"
    by (subst (1 2) m) (simp only: SplitBytes_limited nat_int)
  then show ?thesis
    using drop_last_empty_length [of "SplitN sep (nat n) s"] SplitN_length [of sep "nat n" s]
    by simp
qed

theorem SplitBytes_is_SplitN_witness:
  "SplitBytes ''a b  c '' (CHR '' '') 3 [''old''] = [''a'', ''b'', '' c '']"
proof -
  have "SplitBytes ''a b  c '' (CHR '' '') 3 [''old'']
      = drop_last_empty (SplitN (CHR '' '') (nat 3) ''a b  c '')"
    using SplitBytes_is_SplitN [of 3 "''a b  c ''" "CHR '' ''" "[''old'']"] by simp
  then show ?thesis by (simp add: drop_last_empty_def eval_nat_numeral)
qed

text \<open>
  With a negative limit \<open>SplitBytes\<close> loses nothing but a final separator: joining the
  fields gives back the input, or the input less a trailing separator.
\<close>

theorem SplitBytes_join:
  assumes "n < 0"
  shows "join sep (SplitBytes s sep n r) = s \<or> join sep (SplitBytes s sep n r) @ [sep] = s"
proof -
  let ?f = "SplitAll sep s"
  have s: "SplitBytes s sep n r = drop_last_empty ?f" using assms by (simp add: SplitBytes_all)
  show ?thesis
  proof (cases "last ?f = [] \<and> butlast ?f \<noteq> []")
    case True
    have "join sep (xs @ [[]]) = join sep xs @ [sep]" if "xs \<noteq> []" for xs
      using that by (induction sep xs rule: join.induct) (auto simp: neq_Nil_conv)
    with True have "join sep (butlast ?f) @ [sep] = join sep ?f"
      by (metis SplitAll_nonempty append_butlast_last_id)
    then show ?thesis using True by (simp add: s drop_last_empty_def join_SplitAll)
  next
    case False
    then have "drop_last_empty ?f = ?f \<or> ?f = [[]]"
      by (metis SplitAll_nonempty append_butlast_last_id append_Nil drop_last_empty_def)
    then show ?thesis
      using join_SplitAll [of sep s] by (auto simp: s drop_last_empty_def)
  qed
qed

theorem SplitBytes_join_witness:
  "join (CHR '','') (SplitBytes ''a,b,'' (CHR '','') (-1) []) = ''a,b,'' \<or>
   join (CHR '','') (SplitBytes ''a,b,'' (CHR '','') (-1) []) @ '','' = ''a,b,''"
  by (rule SplitBytes_join) simp

text \<open>
  A limit of one is not a limit: \<open>SplitBytes\<close> then returns every field, as for a
  negative limit, although the comment above it promises at most \<open>n\<close> subslices.
\<close>

theorem SplitBytes_limit_one:
  "SplitBytes s sep 1 r = SplitBytes s sep (-1) r \<and>
   length (SplitBytes ''a b c'' (CHR '' '') 1 []) = 3"
  using SplitBytes_all [of 1 "''a b c''" "CHR '' ''" "[]"]
  by (simp add: SplitBytes_all drop_last_empty_def)

text \<open>
  \<open>AtoIntOfBytes\<close> succeeds exactly on an optional minus sign followed by decimal
  digits, and then returns the signed decimal value wrapped to 64 bits.
\<close>

theorem AtoIntOfBytes_value:
  "AtoIntOfBytes s =
     (if list_all is_digit (unsigned_part s) then Inr (of_int (signed_val s))
      else Inl (InvalidNumber s))"
  by (rule AtoIntOfBytes_eq)

text \<open>
  \<open>AtoIntOfBytes\<close> reads back every 64-bit number that \<open>strconv.Itoa\<close> prints.
\<close>

theorem AtoIntOfBytes_Itoa:
  assumes "min_i64 \<le> i" "i \<le> max_i64"
  shows "map_sum id sint (AtoIntOfBytes (Itoa i)) = Inr i"
proof -
  have "AtoIntOfBytes (Itoa i) = Inr (of_int i)"
    by (simp add: AtoIntOfBytes_eq unsigned_part_Itoa signed_val_Itoa)
  moreover have "sint (of_int i :: i64) = i"
    using assms by (simp add: sint_sbintrunc' signed_take_bit_int_eq_self)
  ultimately show ?thesis by simp
qed

theorem AtoIntOfBytes_Itoa_witness:
  "map_sum id sint (AtoIntOfBytes (Itoa (- 512))) = Inr (- 512)"
  by (rule AtoIntOfBytes_Itoa) simp_all

text \<open>
  The total bandwidth of \<open>show\<close> is never too high and less than \<open>secMutil\<close> too low,
  and its overflow guard works: for fewer than \<open>2 ^ 54\<close> bytes nothing wraps.
\<close>

theorem total_bw_bounds:
  assumes "t \<noteq> 0" "unat b < 2 ^ 54"
  shows "unat (total_bw b t) * unat t \<le> unat secMutil * unat b \<and>
         unat secMutil * unat b < (unat (total_bw b t) + unat secMutil) * unat t"
proof (intro conjI)
  have sm: "unat secMutil = 953" by (simp add: secMutil_def unat_div)
  have t: "0 < unat t" using assms(1) by (simp add: unat_gt_0)
  have mul: "unat (secMutil * x) = 953 * unat x" if "unat x \<le> unat b" for x
    using that assms(2) sm by (subst unat_mult_lem [THEN iffD1]) simp_all
  have val: "unat (total_bw b t) =
      (if unat t < unat b then 953 * (unat b div unat t) else 953 * unat b div unat t)"
    using mul [of b] mul [of "b div t"] by (simp add: total_bw_def word_less_nat_alt unat_div)
  show "unat (total_bw b t) * unat t \<le> unat secMutil * unat b"
    unfolding sm val using t
    by (auto simp: mult.assoc intro: order_trans [OF _ mult_le_mono2])
  have "unat b < (unat b div unat t + 1) * unat t"
    using t by (metis add.commute dividend_less_div_times mult_Suc plus_1_eq_Suc)
  moreover have "953 * unat b < (953 * unat b div unat t + 1) * unat t"
    using t by (metis add.commute dividend_less_div_times mult_Suc plus_1_eq_Suc)
  ultimately show "unat secMutil * unat b < (unat (total_bw b t) + unat secMutil) * unat t"
    unfolding sm val using t by (auto simp: algebra_simps)
qed

theorem total_bw_bounds_witness:
  "unat (total_bw 5000000000 (13587439632 :: u64)) * unat (13587439632 :: u64)
     \<le> unat secMutil * unat (5000000000 :: u64)"
  using total_bw_bounds [of "13587439632 :: u64" 5000000000] by simp

end
