(* ===== verification/Fast_Http.thy ===== *)
theory Fast_Http
  imports Go_Strings
begin

text \<open>
  The HTTP echo server \<open>src/fasthttpserver/fasthttpserver.go\<close>: the request parsers
  \<open>httpMethodParser\<close>, \<open>httpURIParser\<close>, \<open>httpKeepAliveParse\<close>; the connection state machine
  \<open>tinyhttpservice\<close>; the accept loop \<open>worker\<close>; the statistics goroutine \<open>requestCounter\<close>;
  the listen retry and the signal goroutine of \<open>main\<close>.

  A connection is a script of pending \<open>Read\<close> and \<open>Write\<close> results; an expired deadline or a
  closed peer is a result with an error.  Buffers taken from a \<open>sync.Pool\<close> are parameters
  of the right length and arbitrary content.
\<close>

section \<open>Constants\<close>

abbreviation HTTP_MAX_HEADER_SIZE :: nat where "HTTP_MAX_HEADER_SIZE \<equiv> 128"
abbreviation HTTP_INIT_HEADER_SIZE :: nat where "HTTP_INIT_HEADER_SIZE \<equiv> 48"
abbreviation HTTP_MINI_HEADER_SIZE :: nat where "HTTP_MINI_HEADER_SIZE \<equiv> 6"
abbreviation HTTP_MAX_HEADER_READ_SIZE :: nat where "HTTP_MAX_HEADER_READ_SIZE \<equiv> 131072"
abbreviation HTTP_TAIL_HEADER_SIZE :: nat where "HTTP_TAIL_HEADER_SIZE \<equiv> 4"
abbreviation MAX_EMPTY_IO :: nat where "MAX_EMPTY_IO \<equiv> 2"
abbreviation HTTP_CHAR_RT :: char where "HTTP_CHAR_RT \<equiv> CHR 0x0A"
abbreviation HTTP_CHAR_LF :: char where "HTTP_CHAR_LF \<equiv> CHR 0x0D"

abbreviation crlf :: bytes where "crlf \<equiv> [CHR 0x0D, CHR 0x0A]"

datatype http_state =
    HTTP_STATE_KEEPALIVE | HTTP_STATE_READREQMETHOD | HTTP_STATE_READREQHEADER
  | HTTP_STATE_READREQDONE | HTTP_STATE_PARSEREQHEADER | HTTP_STATE_READREQBODY
  | HTTP_STATE_PARSEREQBODY | HTTP_STATE_SENDHEADER | HTTP_STATE_SENDBODY
  | HTTP_STATE_READ_CLOSED | HTTP_STATE_WRITE_CLOSED | HTTP_STATE_KEEPALIVE_CLOSED

text \<open>The method codes are ordered as the constants are: \<open>iota\<close> counts from 0.\<close>

datatype HttpIntMethodT =
    HTTP_METHOD_UNSET | HTTP_METHOD_GET | HTTP_METHOD_HEAD | HTTP_METHOD_POST
  | HTTP_METHOD_NEEDMORE | HTTP_METHOD_NOALLOW | HTTP_METHOD_INVALID

fun method_code :: "HttpIntMethodT \<Rightarrow> nat" where
  "method_code HTTP_METHOD_UNSET = 0"
| "method_code HTTP_METHOD_GET = 1"
| "method_code HTTP_METHOD_HEAD = 2"
| "method_code HTTP_METHOD_POST = 3"
| "method_code HTTP_METHOD_NEEDMORE = 4"
| "method_code HTTP_METHOD_NOALLOW = 5"
| "method_code HTTP_METHOD_INVALID = 6"

lemma method_code_inj: "method_code a = method_code b \<Longrightarrow> a = b"
  by (cases a; cases b) simp_all

instantiation HttpIntMethodT :: linorder
begin

definition less_eq_HttpIntMethodT :: "HttpIntMethodT \<Rightarrow> HttpIntMethodT \<Rightarrow> bool" where
  "less_eq_HttpIntMethodT a b \<longleftrightarrow> method_code a \<le> method_code b"

definition less_HttpIntMethodT :: "HttpIntMethodT \<Rightarrow> HttpIntMethodT \<Rightarrow> bool" where
  "less_HttpIntMethodT a b \<longleftrightarrow> method_code a < method_code b"

instance
  by standard (auto simp: less_eq_HttpIntMethodT_def less_HttpIntMethodT_def method_code_inj)

end

definition http200keepalive :: bytes where
  "http200keepalive = ''HTTP/1.0 200 OK'' @ crlf @ ''Content-Length: 0'' @ crlf @
     ''Connection: keep-alive'' @ crlf @ crlf"

definition http200close :: bytes where
  "http200close = ''HTTP/1.0 200 OK'' @ crlf @ ''Content-Length: 0'' @ crlf @
     ''Connection: close'' @ crlf @ crlf"

section \<open>The parsers\<close>

datatype http_err = ErrShortBuf | ErrInvalidChar | ErrNoAllow | ErrEarlyNewline

definition httpMethodParser :: "bytes \<Rightarrow> HttpIntMethodT \<times> http_err option" where
  "httpMethodParser buf =
     (if length buf < HTTP_MINI_HEADER_SIZE then (HTTP_METHOD_NEEDMORE, Some ErrShortBuf)
      else if buf ! 0 \<noteq> CHR ''G'' \<and> buf ! 0 \<noteq> CHR ''P'' \<and> buf ! 0 \<noteq> CHR ''H''
           then (HTTP_METHOD_INVALID, Some ErrInvalidChar)
      else if take 5 buf = ''GET /'' then (HTTP_METHOD_GET, None)
      else if take 6 buf = ''HEAD /'' then (HTTP_METHOD_HEAD, None)
      else if take 6 buf = ''POST /'' then (HTTP_METHOD_POST, None)
      else (HTTP_METHOD_NOALLOW, Some ErrNoAllow))"

function httpURIParser :: "bytes \<Rightarrow> nat \<times> http_err option" where
  "httpURIParser buf =
     (case IndexByte buf HTTP_CHAR_RT of
        None \<Rightarrow> (1, None)
      | Some ptr \<Rightarrow>
          if ptr < HTTP_MINI_HEADER_SIZE then (2, Some ErrEarlyNewline)
          else if ptr + 1 \<ge> length buf then (1, None)
          else if buf ! (ptr + 1) = HTTP_CHAR_RT then (0, None)
          else if ptr + 2 \<ge> length buf then (1, None)
          else if buf ! (ptr - 1) = HTTP_CHAR_LF \<and> buf ! (ptr + 1) = HTTP_CHAR_LF
                  \<and> buf ! (ptr + 2) = HTTP_CHAR_RT then (0, None)
          else httpURIParser (drop (ptr + 1) buf))"
  by pat_completeness auto
termination
  by (relation "measure length") (auto dest: IndexByte_SomeD)

declare httpURIParser.simps [simp del]

text \<open>
  The comparison buffer receives the lower-cased prefix that fits; the answer depends on
  that prefix only.
\<close>

definition httpKeepAliveParse :: "bytes \<Rightarrow> bytes \<Rightarrow> bool \<times> bytes" where
  "httpKeepAliveParse buf cmpbuf =
     (let n = (if length buf > length cmpbuf then length cmpbuf else length buf);
          low = ToLower (take n buf);
          cmpbuf' = low @ drop n cmpbuf;
          isKeepAlive = (Index (take n cmpbuf') ''http/1.1'' \<noteq> None)
      in (if Index (take n cmpbuf') ''connection: close'' \<noteq> None then False
          else if Index (take n cmpbuf') ''connection: keep-alive'' \<noteq> None then True
          else isKeepAlive, cmpbuf'))"

section \<open>Connections\<close>

fun conn_read :: "nat \<Rightarrow> (bytes \<times> bool) list \<Rightarrow> bytes \<times> bool \<times> (bytes \<times> bool) list" where
  "conn_read k [] = ([], True, [])"
| "conn_read k ((d, e) # rs) =
     (if length d \<le> k then (d, e, rs) else (take k d, False, (drop k d, e) # rs))"

fun conn_write :: "bytes \<Rightarrow> (nat \<times> bool) list \<Rightarrow> nat \<times> bool \<times> (nat \<times> bool) list" where
  "conn_write b [] = (0, True, [])"
| "conn_write b ((n, e) # ws) = (min n (length b), e, ws)"

section \<open>tinyhttpservice\<close>

record svc =
  state :: http_state
  methodbuf :: bytes
  hdrbuf :: "bytes option"
  cmpbuf :: "bytes option"
  onhdr :: bool
  bufiobytes :: nat
  requestbytes :: nat
  emptyio :: nat
  totalrequest :: nat
  reqoutcount :: nat
  methodok :: bool
  isKeepAlive :: bool
  outbuf :: bytes
  exitState :: bool
  rds :: "(bytes \<times> bool) list"
  wrs :: "(nat \<times> bool) list"
  sentbytes :: bytes
  requestsCh :: "nat list"

text \<open>
  \<open>iobuf\<close> is an alias: of \<open>methodbuf\<close> until the first header parse fails to find the end of
  the request, of \<open>hdrbuf\<close> afterwards (\<open>onhdr\<close>).
\<close>

definition iobuf :: "svc \<Rightarrow> bytes" where
  "iobuf s = (if onhdr s then (case hdrbuf s of Some b \<Rightarrow> b | None \<Rightarrow> []) else methodbuf s)"

definition set_iobuf :: "bytes \<Rightarrow> svc \<Rightarrow> svc" where
  "set_iobuf b s = (if onhdr s then s\<lparr>hdrbuf := Some b\<rparr> else s\<lparr>methodbuf := b\<rparr>)"

definition svc_send :: "svc \<Rightarrow> svc" where
  "svc_send s =
     (let (n, e, ws) = conn_write (drop (bufiobytes s) (outbuf s)) (wrs s);
          s1 = s\<lparr>wrs := ws, sentbytes := sentbytes s @ take n (drop (bufiobytes s) (outbuf s))\<rparr>
      in if n > 0 then
           (let s2 = s1\<lparr>bufiobytes := bufiobytes s + n\<rparr>;
                s3 = (if bufiobytes s2 \<ge> length (outbuf s) then s2\<lparr>state := HTTP_STATE_KEEPALIVE\<rparr> else s2)
            in if e then s3\<lparr>state := HTTP_STATE_WRITE_CLOSED\<rparr> else s3)
         else if \<not> e then
           (if emptyio s < MAX_EMPTY_IO then s1\<lparr>emptyio := emptyio s + 1\<rparr>
            else s1\<lparr>state := HTTP_STATE_WRITE_CLOSED\<rparr>)
         else s1\<lparr>state := HTTP_STATE_WRITE_CLOSED\<rparr>)"

definition svc_respond :: "svc \<Rightarrow> svc" where
  "svc_respond s =
     svc_send (s\<lparr>bufiobytes := 0, emptyio := 0, state := HTTP_STATE_SENDBODY,
       outbuf := (if isKeepAlive s then http200keepalive else http200close)\<rparr>)"

definition svc_request :: "bytes \<Rightarrow> svc \<Rightarrow> svc" where
  "svc_request cpool s =
     (let s1 = s\<lparr>totalrequest := totalrequest s + 1, reqoutcount := reqoutcount s + 1\<rparr>;
          s2 = (if reqoutcount s1 \<ge> 1000
                then s1\<lparr>requestsCh := requestsCh s1 @ [reqoutcount s1], reqoutcount := 0\<rparr> else s1);
          cmp = (case cmpbuf s2 of None \<Rightarrow> cpool | Some b \<Rightarrow> b);
          (ka, cmp') = httpKeepAliveParse (take (bufiobytes s2) (iobuf s2)) cmp
      in svc_respond (s2\<lparr>cmpbuf := Some cmp', isKeepAlive := ka, state := HTTP_STATE_READREQBODY\<rparr>))"

definition svc_header :: "bytes \<Rightarrow> bool \<Rightarrow> svc \<Rightarrow> svc" where
  "svc_header cpool e s =
     (if fst (httpURIParser (take (bufiobytes s) (iobuf s))) > 0 then
        (if e then s\<lparr>state := HTTP_STATE_READ_CLOSED\<rparr>
         else if requestbytes s \<ge> HTTP_MAX_HEADER_READ_SIZE then s\<lparr>state := HTTP_STATE_READ_CLOSED\<rparr>
         else (let s1 = (if bufiobytes s \<ge> HTTP_MAX_HEADER_SIZE
                 then (set_iobuf (copy_into (iobuf s) 0
                         (subslice (bufiobytes s - HTTP_TAIL_HEADER_SIZE) (bufiobytes s) (iobuf s))) s)
                      \<lparr>bufiobytes := HTTP_TAIL_HEADER_SIZE\<rparr>
                 else s)
               in s1\<lparr>state := HTTP_STATE_READREQHEADER\<rparr>))
      else svc_request cpool (s\<lparr>state := HTTP_STATE_READREQDONE\<rparr>))"

definition svc_parse :: "bytes \<Rightarrow> bytes \<Rightarrow> bool \<Rightarrow> svc \<Rightarrow> svc" where
  "svc_parse hpool cpool e s =
     (if requestbytes s < HTTP_MINI_HEADER_SIZE then
        (if e then s\<lparr>state := HTTP_STATE_READ_CLOSED\<rparr> else s)
      else if \<not> methodok s then
        (let m = fst (httpMethodParser (take (bufiobytes s) (iobuf s)))
         in if m > HTTP_METHOD_POST \<or> m < HTTP_METHOD_GET then s\<lparr>state := HTTP_STATE_READ_CLOSED\<rparr>
            else if fst (httpURIParser (take (bufiobytes s) (iobuf s))) = 0
                 then s\<lparr>state := HTTP_STATE_READREQDONE\<rparr>
            else (let h = (case hdrbuf s of None \<Rightarrow> hpool | Some b \<Rightarrow> b)
                  in svc_header cpool e
                       (s\<lparr>methodok := True, hdrbuf := Some (copy_into h 0 (methodbuf s)), onhdr := True\<rparr>)))
      else svc_header cpool e s)"

definition svc_read :: "bytes \<Rightarrow> bytes \<Rightarrow> svc \<Rightarrow> svc" where
  "svc_read hpool cpool s =
     (let (d, e, rs) = conn_read (length (iobuf s) - bufiobytes s) (rds s);
          s1 = s\<lparr>rds := rs\<rparr>
      in if length d \<le> 0 then
           (if e then s1\<lparr>state := HTTP_STATE_READ_CLOSED\<rparr>
            else if emptyio s \<ge> MAX_EMPTY_IO then s1\<lparr>state := HTTP_STATE_READ_CLOSED\<rparr>
            else s1\<lparr>emptyio := emptyio s + 1\<rparr>)
         else svc_parse hpool cpool e
                ((set_iobuf (copy_into (iobuf s) (bufiobytes s) d) s1)
                 \<lparr>bufiobytes := bufiobytes s + length d, requestbytes := requestbytes s + length d\<rparr>))"

definition svc_keepalive :: "bytes \<Rightarrow> bytes \<Rightarrow> svc \<Rightarrow> svc" where
  "svc_keepalive hpool cpool s =
     (let s1 = s\<lparr>bufiobytes := 0, emptyio := 0, requestbytes := 0, methodok := False, onhdr := False\<rparr>
      in if totalrequest s \<noteq> 0 \<and> \<not> isKeepAlive s then s1\<lparr>state := HTTP_STATE_KEEPALIVE_CLOSED\<rparr>
         else svc_read hpool cpool (s1\<lparr>state := HTTP_STATE_READREQMETHOD\<rparr>))"

text \<open>One iteration of the \<open>for\<close> loop: the \<open>switch\<close> with its fallthroughs.\<close>

definition svc_step :: "bytes \<Rightarrow> bytes \<Rightarrow> svc \<Rightarrow> svc" where
  "svc_step hpool cpool s =
     (case state s of
        HTTP_STATE_KEEPALIVE \<Rightarrow> svc_keepalive hpool cpool s
      | HTTP_STATE_READREQMETHOD \<Rightarrow> svc_read hpool cpool s
      | HTTP_STATE_READREQHEADER \<Rightarrow> svc_read hpool cpool s
      | HTTP_STATE_READREQDONE \<Rightarrow> svc_request cpool s
      | HTTP_STATE_PARSEREQHEADER \<Rightarrow> svc_request cpool s
      | HTTP_STATE_READREQBODY \<Rightarrow> svc_respond s
      | HTTP_STATE_PARSEREQBODY \<Rightarrow> svc_respond s
      | HTTP_STATE_SENDHEADER \<Rightarrow> svc_send s
      | HTTP_STATE_SENDBODY \<Rightarrow> svc_send s
      | HTTP_STATE_READ_CLOSED \<Rightarrow> s\<lparr>exitState := True\<rparr>
      | HTTP_STATE_WRITE_CLOSED \<Rightarrow> s\<lparr>exitState := True\<rparr>
      | HTTP_STATE_KEEPALIVE_CLOSED \<Rightarrow> s\<lparr>exitState := True\<rparr>)"

text \<open>
  The loop runs until a closed state sets \<open>exitState\<close> or the signal goroutine sets
  \<open>exitSignaled\<close>, which the \<open>i\<close>-th test of the condition reads as \<open>sig i\<close>.  It ends
  because every read or write consumes part of the connection's script, closes the
  connection, or counts an empty read.
\<close>

definition work :: "svc \<Rightarrow> nat" where
  "work s = (\<Sum>(d, e) \<leftarrow> rds s. Suc (length d)) + length (wrs s)"

fun state_rank :: "http_state \<Rightarrow> nat" where
  "state_rank HTTP_STATE_KEEPALIVE = 3"
| "state_rank HTTP_STATE_READ_CLOSED = 1"
| "state_rank HTTP_STATE_WRITE_CLOSED = 1"
| "state_rank HTTP_STATE_KEEPALIVE_CLOSED = 1"
| "state_rank _ = 2"

definition rank :: "svc \<Rightarrow> nat" where
  "rank s = (if exitState s then 0 else state_rank (state s))"

definition svc_order :: "(svc \<times> svc) set" where
  "svc_order = measures [work, rank, \<lambda>s. 3 - emptyio s]"

lemma wf_svc_order: "wf svc_order"
  by (simp add: svc_order_def)

lemma conn_read_work:
  "conn_read k rs = (d, e, rs') \<Longrightarrow>
     (\<Sum>(d, e) \<leftarrow> rs'. Suc (length d)) < (\<Sum>(d, e) \<leftarrow> rs. Suc (length d))
     \<or> d = [] \<and> rs' = rs \<and> (e \<or> k = 0)"
  by (cases "k = 0"; induction k rs rule: conn_read.induct) (auto split: if_splits)

lemma conn_write_work:
  "conn_write b ws = (n, e, ws') \<Longrightarrow> length ws' < length ws \<or> n = 0 \<and> e \<and> ws' = ws"
  by (induction b ws rule: conn_write.induct) auto

lemma svc_send_work:
  assumes "work s = k"
  shows "work (svc_send s) < k \<or> work (svc_send s) = k \<and> state (svc_send s) = HTTP_STATE_WRITE_CLOSED"
proof -
  obtain n e ws where w: "conn_write (drop (bufiobytes s) (outbuf s)) (wrs s) = (n, e, ws)"
    by (cases "conn_write (drop (bufiobytes s) (outbuf s)) (wrs s)")
  show ?thesis
    using conn_write_work [OF w] assms by (auto simp: svc_send_def w Let_def work_def)
qed

lemma svc_send_frame [simp]:
  "exitState (svc_send s) = exitState s" "rds (svc_send s) = rds s"
  "methodbuf (svc_send s) = methodbuf s" "hdrbuf (svc_send s) = hdrbuf s"
  "cmpbuf (svc_send s) = cmpbuf s" "onhdr (svc_send s) = onhdr s"
  "methodok (svc_send s) = methodok s" "isKeepAlive (svc_send s) = isKeepAlive s"
  "totalrequest (svc_send s) = totalrequest s" "reqoutcount (svc_send s) = reqoutcount s"
  "requestsCh (svc_send s) = requestsCh s" "outbuf (svc_send s) = outbuf s"
  "requestbytes (svc_send s) = requestbytes s"
  by (simp_all add: svc_send_def Let_def split: prod.split)

lemma set_iobuf_frame [simp]:
  "work (set_iobuf b s) = work s" "state (set_iobuf b s) = state s"
  "exitState (set_iobuf b s) = exitState s" "rds (set_iobuf b s) = rds s"
  "wrs (set_iobuf b s) = wrs s" "sentbytes (set_iobuf b s) = sentbytes s"
  "totalrequest (set_iobuf b s) = totalrequest s" "reqoutcount (set_iobuf b s) = reqoutcount s"
  "requestsCh (set_iobuf b s) = requestsCh s" "isKeepAlive (set_iobuf b s) = isKeepAlive s"
  "emptyio (set_iobuf b s) = emptyio s" "onhdr (set_iobuf b s) = onhdr s"
  "methodok (set_iobuf b s) = methodok s" "cmpbuf (set_iobuf b s) = cmpbuf s"
  "requestbytes (set_iobuf b s) = requestbytes s" "bufiobytes (set_iobuf b s) = bufiobytes s"
  by (simp_all add: set_iobuf_def work_def)

lemma work_update [simp]:
  "work (s\<lparr>bufiobytes := a\<rparr>) = work s" "work (s\<lparr>emptyio := a\<rparr>) = work s"
  "work (s\<lparr>state := st\<rparr>) = work s" "work (s\<lparr>outbuf := b\<rparr>) = work s"
  "work (s\<lparr>totalrequest := a\<rparr>) = work s" "work (s\<lparr>reqoutcount := a\<rparr>) = work s"
  "work (s\<lparr>requestsCh := c\<rparr>) = work s" "work (s\<lparr>cmpbuf := ob\<rparr>) = work s"
  "work (s\<lparr>isKeepAlive := f\<rparr>) = work s" "work (s\<lparr>methodok := f\<rparr>) = work s"
  "work (s\<lparr>hdrbuf := ob\<rparr>) = work s" "work (s\<lparr>onhdr := f\<rparr>) = work s"
  "work (s\<lparr>requestbytes := a\<rparr>) = work s" "work (s\<lparr>exitState := f\<rparr>) = work s"
  by (simp_all add: work_def)

lemma svc_respond_work:
  "work s = k \<Longrightarrow> work (svc_respond s) < k
   \<or> work (svc_respond s) = k \<and> state (svc_respond s) = HTTP_STATE_WRITE_CLOSED"
  unfolding svc_respond_def by (rule svc_send_work) simp

lemma svc_request_unfold:
  "svc_request cpool s =
     svc_respond (s\<lparr>totalrequest := totalrequest s + 1,
       requestsCh := (if reqoutcount s + 1 \<ge> 1000 then requestsCh s @ [reqoutcount s + 1] else requestsCh s),
       reqoutcount := (if reqoutcount s + 1 \<ge> 1000 then 0 else reqoutcount s + 1),
       cmpbuf := Some (snd (httpKeepAliveParse (take (bufiobytes s) (iobuf s))
                   (case cmpbuf s of None \<Rightarrow> cpool | Some b \<Rightarrow> b))),
       isKeepAlive := fst (httpKeepAliveParse (take (bufiobytes s) (iobuf s))
                   (case cmpbuf s of None \<Rightarrow> cpool | Some b \<Rightarrow> b)),
       state := HTTP_STATE_READREQBODY\<rparr>)"
  by (simp add: svc_request_def Let_def iobuf_def split: prod.split)

lemma svc_request_work:
  "work (svc_request cpool s) < work s
   \<or> work (svc_request cpool s) = work s \<and> state (svc_request cpool s) = HTTP_STATE_WRITE_CLOSED"
  unfolding svc_request_unfold by (rule svc_respond_work) simp

lemma svc_header_work: "work (svc_header cpool e s) \<le> work s"
  using svc_request_work [of cpool "s\<lparr>state := HTTP_STATE_READREQDONE\<rparr>"]
  by (auto simp: svc_header_def Let_def)

lemma svc_parse_work: "work (svc_parse hpool cpool e s) \<le> work s"
  by (auto simp: svc_parse_def Let_def intro: svc_header_work [THEN le_trans])

lemma svc_read_work:
  "work (svc_read hpool cpool s) < work s
   \<or> work (svc_read hpool cpool s) = work s \<and>
     (state (svc_read hpool cpool s) = HTTP_STATE_READ_CLOSED
      \<or> state (svc_read hpool cpool s) = state s \<and> emptyio s < MAX_EMPTY_IO
        \<and> emptyio (svc_read hpool cpool s) = emptyio s + 1)"
proof -
  let ?k = "length (iobuf s) - bufiobytes s"
  obtain d e rs where r: "conn_read ?k (rds s) = (d, e, rs)"
    by (cases "conn_read ?k (rds s)")
  let ?s' = "(set_iobuf (copy_into (iobuf s) (bufiobytes s) d) (s\<lparr>rds := rs\<rparr>))
    \<lparr>bufiobytes := bufiobytes s + length d, requestbytes := requestbytes s + length d\<rparr>"
  show ?thesis
  proof (cases "d = []")
    case True
    then show ?thesis
      using conn_read_work [OF r] by (auto simp: svc_read_def r Let_def work_def)
  next
    case False
    then have "work (s\<lparr>rds := rs\<rparr>) < work s"
      using conn_read_work [OF r] by (auto simp: work_def)
    then have "work (svc_parse hpool cpool e ?s') < work s"
      using svc_parse_work [of hpool cpool e ?s'] by simp
    with False show ?thesis by (simp add: svc_read_def r Let_def)
  qed
qed

lemma svc_respond_exit [simp]: "exitState (svc_respond s) = exitState s"
  by (simp add: svc_respond_def)

lemma svc_request_exit [simp]: "exitState (svc_request cpool s) = exitState s"
  by (simp add: svc_request_unfold)

lemma svc_header_exit [simp]: "exitState (svc_header cpool e s) = exitState s"
  by (simp add: svc_header_def Let_def)

lemma svc_parse_exit [simp]: "exitState (svc_parse hpool cpool e s) = exitState s"
  by (simp add: svc_parse_def Let_def)

lemma svc_read_exit [simp]: "exitState (svc_read hpool cpool s) = exitState s"
  by (simp add: svc_read_def Let_def split: prod.split)

lemma svc_keepalive_exit [simp]: "exitState (svc_keepalive hpool cpool s) = exitState s"
  by (simp add: svc_keepalive_def Let_def)

lemma svc_keepalive_work:
  "work (svc_keepalive hpool cpool s) < work s
   \<or> work (svc_keepalive hpool cpool s) = work s \<and> state_rank (state (svc_keepalive hpool cpool s)) < 3"
  using svc_read_work [of hpool cpool "s\<lparr>bufiobytes := 0, emptyio := 0, requestbytes := 0,
    methodok := False, onhdr := False, state := HTTP_STATE_READREQMETHOD\<rparr>"]
  by (auto simp: svc_keepalive_def Let_def)

lemma svc_step_decreases:
  "\<not> exitState s \<Longrightarrow> (svc_step hpool cpool s, s) \<in> svc_order"
  using svc_read_work [of hpool cpool s] svc_request_work [of cpool s] svc_respond_work [OF refl, of s]
    svc_send_work [OF refl, of s] svc_keepalive_work [of hpool cpool s]
  by (cases "state s") (auto simp: svc_step_def svc_order_def rank_def)

function svc_loop :: "bytes \<Rightarrow> bytes \<Rightarrow> (nat \<Rightarrow> bool) \<Rightarrow> nat \<Rightarrow> svc \<Rightarrow> svc" where
  "svc_loop hpool cpool sig i s =
     (if exitState s \<or> sig i then s
      else svc_loop hpool cpool sig (Suc i) (svc_step hpool cpool s))"
  by pat_completeness auto
termination
  by (relation "inv_image svc_order (\<lambda>(_, _, _, _, s). s)")
     (auto simp: wf_svc_order svc_step_decreases)

declare svc_loop.simps [simp del]

text \<open>
  The local variables start at Go's zero values.  After the loop the service reports the
  closed connection and the requests not reported yet, closes the connection and gives its
  buffers back to the pools.
\<close>

definition svc_init :: "bytes \<Rightarrow> (bytes \<times> bool) list \<Rightarrow> (nat \<times> bool) list \<Rightarrow> svc" where
  "svc_init mbuf rd wr =
     \<lparr>state = HTTP_STATE_KEEPALIVE, methodbuf = mbuf, hdrbuf = None, cmpbuf = None, onhdr = False,
      bufiobytes = 0, requestbytes = 0, emptyio = 0, totalrequest = 0, reqoutcount = 0,
      methodok = False, isKeepAlive = False, outbuf = [], exitState = False,
      rds = rd, wrs = wr, sentbytes = [], requestsCh = []\<rparr>"

record svc_end =
  final :: svc
  toClosedCh :: "nat list"
  toRequestsCh :: "nat list"
  connClosed :: bool
  putMethod :: "bytes list"
  putHeader :: "bytes list"
  wgDone :: nat

definition tinyhttpservice ::
  "bytes \<Rightarrow> bytes \<Rightarrow> bytes \<Rightarrow> (nat \<Rightarrow> bool) \<Rightarrow> (bytes \<times> bool) list \<Rightarrow> (nat \<times> bool) list \<Rightarrow> svc_end"
where
  "tinyhttpservice mbuf hpool cpool sig rd wr =
     (let s = svc_loop hpool cpool sig 0 (svc_init mbuf rd wr)
      in \<lparr>final = s, toClosedCh = [1], toRequestsCh = requestsCh s @ [reqoutcount s],
          connClosed = True, putMethod = [methodbuf s],
          putHeader = (case hdrbuf s of None \<Rightarrow> [] | Some b \<Rightarrow> [b])
                      @ (case cmpbuf s of None \<Rightarrow> [] | Some b \<Rightarrow> [b]),
          wgDone = 1\<rparr>)"

end
