(* ===== verification/Fast_Server.thy ===== *)
theory Fast_Server
  imports Fast_Http
begin

text \<open>
  The goroutines around the connections of \<open>src/fasthttpserver/fasthttpserver.go\<close>: the
  accept loop \<open>worker\<close> with its batches, the statistics goroutine \<open>requestCounter\<close>, the
  listen retry and the signal goroutine of \<open>main\<close>.  Each is a step function over the events
  that its channel operations and system calls deliver.
\<close>

section \<open>main: listening and signals\<close>

datatype 'l listen_result = Listening 'l | AddressInUse | ListenFailed

text \<open>The loop over ten attempts; the result is the listener and the number of sleeps.\<close>

fun listen_retry :: "nat \<Rightarrow> 'l listen_result list \<Rightarrow> 'l option \<times> nat" where
  "listen_retry 0 rs = (None, 0)"
| "listen_retry (Suc n) [] = (None, 0)"
| "listen_retry (Suc n) (Listening l # rs) = (Some l, 0)"
| "listen_retry (Suc n) (ListenFailed # rs) = (None, 0)"
| "listen_retry (Suc n) (AddressInUse # rs) = map_prod id Suc (listen_retry n rs)"

record signal_state =
  lastSignal :: "nat option"
  exitSignaled :: bool
  exitSignalDup :: nat
  lfdClosed :: nat
  exitCode :: "nat option"

definition signal_init :: signal_state where
  "signal_init = \<lparr>lastSignal = None, exitSignaled = False, exitSignalDup = 0, lfdClosed = 0,
     exitCode = None\<rparr>"

definition signal_step :: "signal_state \<Rightarrow> nat \<Rightarrow> signal_state" where
  "signal_step s sg =
     (if exitCode s \<noteq> None then s
      else let s1 = s\<lparr>lastSignal := Some sg\<rparr>
           in if \<not> exitSignaled s1 then s1\<lparr>exitSignaled := True, lfdClosed := lfdClosed s1 + 1\<rparr>
              else let s2 = s1\<lparr>exitSignalDup := exitSignalDup s1 + 1\<rparr>
                   in if exitSignalDup s2 < 10 then s2 else s2\<lparr>exitCode := Some 9\<rparr>)"

section \<open>worker\<close>

datatype 'c accept_result = Accepted 'c | AcceptTimeout | AcceptTemporary | AcceptFatal

text \<open>What one iteration observes: the exit flag, a pending tick, the answer of \<open>AcceptTCP\<close>.\<close>

record 'c accept_event =
  seenExit :: bool
  ticked :: bool
  acceptAns :: "'c accept_result"

record 'c worker_state =
  connBatch :: "'c list"
  onload :: bool
  launched :: "'c list"
  closewg :: nat
  toAcceptedCh :: "nat list"
  deadlines :: nat
  running :: bool

definition worker_init :: "'c worker_state" where
  "worker_init = \<lparr>connBatch = [], onload = False, launched = [], closewg = 0, toAcceptedCh = [],
     deadlines = 1, running = True\<rparr>"

definition worker_flush :: "nat \<Rightarrow> bool \<Rightarrow> 'c worker_state \<Rightarrow> 'c worker_state" where
  "worker_flush batchAcceptLen tick w =
     (if length (connBatch w) > 0 then
        (let w1 = (if length (connBatch w) \<ge> batchAcceptLen then w\<lparr>onload := True\<rparr>
                   else if tick then w\<lparr>onload := True\<rparr> else w)
         in if onload w1 then
              w1\<lparr>closewg := closewg w1 + length (connBatch w1),
                 launched := launched w1 @ connBatch w1,
                 toAcceptedCh := toAcceptedCh w1 @ [length (connBatch w1)],
                 onload := False, connBatch := []\<rparr>
            else w1)
      else w)"

definition worker_accept :: "'c accept_result \<Rightarrow> 'c worker_state \<Rightarrow> 'c worker_state" where
  "worker_accept a w =
     (case a of
        Accepted c \<Rightarrow> w\<lparr>connBatch := connBatch w @ [c]\<rparr>
      | AcceptTimeout \<Rightarrow> w\<lparr>deadlines := deadlines w + 1\<rparr>
      | AcceptTemporary \<Rightarrow> w\<lparr>deadlines := deadlines w + 1\<rparr>
      | AcceptFatal \<Rightarrow> w\<lparr>running := False\<rparr>)"

definition worker_step :: "nat \<Rightarrow> 'c worker_state \<Rightarrow> 'c accept_event \<Rightarrow> 'c worker_state" where
  "worker_step batchAcceptLen w ev =
     (if \<not> running w then w
      else if seenExit ev then w\<lparr>running := False\<rparr>
      else worker_accept (acceptAns ev) (worker_flush batchAcceptLen (ticked ev) w))"

section \<open>requestCounter\<close>

text \<open>
  A received number, a closed channel or a tick; a tick carries the nanoseconds since the
  last one.  A channel that was closed is set to nil and never ready again.
\<close>

datatype counter_event =
    Requests i64 | RequestsClosed | AcceptedNum i64 | AcceptedClosed
  | ClosedNum i64 | ClosedClosed | Tick i64

record stats_line =
  st_requests :: i64
  st_reqqps :: i64
  st_accepted :: i64
  st_accqps :: i64
  st_closed :: i64
  st_running :: i64

record counter_state =
  finishedNum :: i64
  preFinishedNum :: i64
  acceptNum :: i64
  preAcceptNum :: i64
  closedNum :: i64
  changed :: bool
  exitCount :: nat
  requestsNil :: bool
  acceptedNil :: bool
  closedNil :: bool
  printed :: "stats_line list"

definition counter_init :: counter_state where
  "counter_init = \<lparr>finishedNum = 0, preFinishedNum = 0, acceptNum = 0, preAcceptNum = 0,
     closedNum = 0, changed = False, exitCount = 0, requestsNil = False, acceptedNil = False,
     closedNil = False, printed = []\<rparr>"

definition qps_of :: "i64 \<Rightarrow> i64 \<Rightarrow> i64 \<Rightarrow> i64" where
  "qps_of cur pre esp = quot64 ((cur - pre) * 1000000000) (if esp <s 1 then 1 else esp)"

definition stats_of :: "i64 \<Rightarrow> counter_state \<Rightarrow> stats_line" where
  "stats_of esp s =
     \<lparr>st_requests = finishedNum s, st_reqqps = qps_of (finishedNum s) (preFinishedNum s) esp,
      st_accepted = acceptNum s, st_accqps = qps_of (acceptNum s) (preAcceptNum s) esp,
      st_closed = closedNum s, st_running = acceptNum s - closedNum s\<rparr>"

definition counter_step :: "counter_state \<Rightarrow> counter_event \<Rightarrow> counter_state" where
  "counter_step s ev =
     (if exitCount s \<ge> 3 then s
      else case ev of
        Requests n \<Rightarrow> if requestsNil s then s
          else s\<lparr>finishedNum := finishedNum s + n, changed := True\<rparr>
      | RequestsClosed \<Rightarrow> if requestsNil s then s
          else s\<lparr>exitCount := exitCount s + 1, requestsNil := True\<rparr>
      | AcceptedNum n \<Rightarrow> if acceptedNil s then s
          else s\<lparr>acceptNum := acceptNum s + n, changed := True\<rparr>
      | AcceptedClosed \<Rightarrow> if acceptedNil s then s
          else s\<lparr>exitCount := exitCount s + 1, acceptedNil := True\<rparr>
      | ClosedNum n \<Rightarrow> if closedNil s then s
          else s\<lparr>closedNum := closedNum s + n, changed := True\<rparr>
      | ClosedClosed \<Rightarrow> if closedNil s then s
          else s\<lparr>exitCount := exitCount s + 1, closedNil := True\<rparr>
      | Tick esp \<Rightarrow>
          (if changed s then s\<lparr>printed := printed s @ [stats_of esp s]\<rparr> else s)
          \<lparr>changed := False, preAcceptNum := acceptNum s, preFinishedNum := finishedNum s\<rparr>)"

text \<open>The loop over the events and, once all three channels are closed, the last line.\<close>

definition requestCounter :: "i64 \<Rightarrow> counter_event list \<Rightarrow> stats_line list option" where
  "requestCounter lastesp evs =
     (let s = foldl counter_step counter_init evs
      in if exitCount s < 3 then None else Some (printed s @ [stats_of lastesp s]))"

section \<open>Lemmas on the worker\<close>

text \<open>The connections \<open>AcceptTCP\<close> returned before the loop was left.\<close>

fun accepted_of :: "'c accept_event list \<Rightarrow> 'c list" where
  "accepted_of [] = []"
| "accepted_of (ev # evs) =
     (if seenExit ev then []
      else case acceptAns ev of
        Accepted c \<Rightarrow> c # accepted_of evs
      | AcceptTimeout \<Rightarrow> accepted_of evs
      | AcceptTemporary \<Rightarrow> accepted_of evs
      | AcceptFatal \<Rightarrow> [])"

definition worker_inv :: "nat \<Rightarrow> 'c worker_state \<Rightarrow> bool" where
  "worker_inv b w \<longleftrightarrow>
     \<not> onload w \<and> length (connBatch w) \<le> b \<and> (\<forall>k \<in> set (toAcceptedCh w). 0 < k \<and> k \<le> b)
     \<and> sum_list (toAcceptedCh w) = length (launched w) \<and> closewg w = length (launched w)"

lemma worker_flush_inv:
  "worker_inv b w \<Longrightarrow> 0 < b \<Longrightarrow>
     worker_inv b (worker_flush b t w) \<and> length (connBatch (worker_flush b t w)) < b"
  by (auto simp: worker_inv_def worker_flush_def Let_def)

lemma worker_flush_conns [simp]:
  "launched (worker_flush b t w) @ connBatch (worker_flush b t w) = launched w @ connBatch w"
  "running (worker_flush b t w) = running w"
  by (auto simp: worker_flush_def Let_def)

lemma worker_accept_inv:
  "worker_inv b w \<Longrightarrow> length (connBatch w) < b \<Longrightarrow> worker_inv b (worker_accept a w)"
  by (cases a) (auto simp: worker_inv_def worker_accept_def)

interpretation worker_run: step_invariant "worker_step (Suc b)" "worker_inv (Suc b)"
  by unfold_locales
     (auto simp: worker_step_def worker_flush_inv intro!: worker_accept_inv, simp add: worker_inv_def)

lemma worker_step_exit: "running w \<Longrightarrow> seenExit ev \<Longrightarrow> worker_step b w ev = w\<lparr>running := False\<rparr>"
  by (simp add: worker_step_def)

lemma worker_step_accept:
  "running w \<Longrightarrow> \<not> seenExit ev \<Longrightarrow>
     worker_step b w ev = worker_accept (acceptAns ev) (worker_flush b (ticked ev) w)"
  by (simp add: worker_step_def)

lemma worker_step_stopped [simp]: "\<not> running w \<Longrightarrow> worker_step b w ev = w"
  by (simp add: worker_step_def)

lemma worker_run_stopped [simp]: "\<not> running w \<Longrightarrow> foldl (worker_step b) w evs = w"
  by (induction evs) simp_all

lemma worker_run_conns:
  "running w \<Longrightarrow>
     launched (foldl (worker_step b) w evs) @ connBatch (foldl (worker_step b) w evs)
     = launched w @ connBatch w @ accepted_of evs"
proof (induction evs arbitrary: w)
  case (Cons ev evs)
  let ?f = "worker_flush b (ticked ev) w"
  show ?case
  proof (cases "seenExit ev")
    case True
    with Cons.prems show ?thesis by (simp add: worker_step_exit)
  next
    case False
    have f: "launched ?f @ connBatch ?f = launched w @ connBatch w" by simp
    show ?thesis
      using Cons f False
      by (cases "acceptAns ev")
         (simp_all add: worker_step_accept worker_accept_def del: append_assoc worker_flush_conns(1)
           add: append_assoc [symmetric])
  qed
qed simp

lemma worker_init_inv [simp]: "worker_inv b worker_init" "running worker_init"
  "launched worker_init = []" "connBatch worker_init = []"
  by (simp_all add: worker_inv_def worker_init_def)

section \<open>Lemmas on the counter\<close>

definition req_num :: "counter_event \<Rightarrow> i64" where
  "req_num ev = (case ev of Requests n \<Rightarrow> n | _ \<Rightarrow> 0)"

definition acc_num :: "counter_event \<Rightarrow> i64" where
  "acc_num ev = (case ev of AcceptedNum n \<Rightarrow> n | _ \<Rightarrow> 0)"

definition clo_num :: "counter_event \<Rightarrow> i64" where
  "clo_num ev = (case ev of ClosedNum n \<Rightarrow> n | _ \<Rightarrow> 0)"

lemma num_simps [simp]:
  "req_num (Requests n) = n" "req_num (AcceptedNum n) = 0" "req_num (ClosedNum n) = 0"
  "req_num RequestsClosed = 0" "req_num AcceptedClosed = 0" "req_num ClosedClosed = 0"
  "req_num (Tick n) = 0" "acc_num (Requests n) = 0" "acc_num (AcceptedNum n) = n"
  "acc_num (ClosedNum n) = 0" "acc_num RequestsClosed = 0" "acc_num AcceptedClosed = 0"
  "acc_num ClosedClosed = 0" "acc_num (Tick n) = 0" "clo_num (Requests n) = 0"
  "clo_num (AcceptedNum n) = 0" "clo_num (ClosedNum n) = n" "clo_num RequestsClosed = 0"
  "clo_num AcceptedClosed = 0" "clo_num ClosedClosed = 0" "clo_num (Tick n) = 0"
  by (simp_all add: req_num_def acc_num_def clo_num_def)

abbreviation counter_run :: "counter_event list \<Rightarrow> counter_state" where
  "counter_run evs \<equiv> foldl counter_step counter_init evs"

lemma counter_step_simps:
  "counter_step s (Requests n) = (if exitCount s \<ge> 3 \<or> requestsNil s then s
     else s\<lparr>finishedNum := finishedNum s + n, changed := True\<rparr>)"
  "counter_step s RequestsClosed = (if exitCount s \<ge> 3 \<or> requestsNil s then s
     else s\<lparr>exitCount := exitCount s + 1, requestsNil := True\<rparr>)"
  "counter_step s (AcceptedNum n) = (if exitCount s \<ge> 3 \<or> acceptedNil s then s
     else s\<lparr>acceptNum := acceptNum s + n, changed := True\<rparr>)"
  "counter_step s AcceptedClosed = (if exitCount s \<ge> 3 \<or> acceptedNil s then s
     else s\<lparr>exitCount := exitCount s + 1, acceptedNil := True\<rparr>)"
  "counter_step s (ClosedNum n) = (if exitCount s \<ge> 3 \<or> closedNil s then s
     else s\<lparr>closedNum := closedNum s + n, changed := True\<rparr>)"
  "counter_step s ClosedClosed = (if exitCount s \<ge> 3 \<or> closedNil s then s
     else s\<lparr>exitCount := exitCount s + 1, closedNil := True\<rparr>)"
  "counter_step s (Tick esp) = (if exitCount s \<ge> 3 then s
     else s\<lparr>printed := (if changed s then printed s @ [stats_of esp s] else printed s),
            changed := False, preAcceptNum := acceptNum s, preFinishedNum := finishedNum s\<rparr>)"
  by (simp_all add: counter_step_def)

lemma takeWhile_snoc:
  "takeWhile P (xs @ [x]) = (if \<forall>y \<in> set xs. P y then xs @ (if P x then [x] else []) else takeWhile P xs)"
  by (induction xs) auto

lemma counter_nil:
  "(requestsNil (counter_run evs) \<longleftrightarrow> RequestsClosed \<in> set evs)
   \<and> (acceptedNil (counter_run evs) \<longleftrightarrow> AcceptedClosed \<in> set evs)
   \<and> (closedNil (counter_run evs) \<longleftrightarrow> ClosedClosed \<in> set evs)
   \<and> exitCount (counter_run evs) =
       of_bool (RequestsClosed \<in> set evs) + of_bool (AcceptedClosed \<in> set evs)
       + of_bool (ClosedClosed \<in> set evs)"
proof (induction evs rule: rev_induct)
  case Nil
  show ?case by (simp add: counter_init_def)
next
  case (snoc ev evs)
  show ?case
    using snoc by (cases ev) (auto simp: counter_step_simps split: if_splits)
qed

lemmas counter_nilD =
  counter_nil [THEN conjunct1] counter_nil [THEN conjunct2, THEN conjunct1]
  counter_nil [THEN conjunct2, THEN conjunct2, THEN conjunct1]
  counter_nil [THEN conjunct2, THEN conjunct2, THEN conjunct2]

lemma takeWhile_neq_all: "a \<notin> set xs \<Longrightarrow> takeWhile (\<lambda>x. x \<noteq> a) xs = xs"
  by (induction xs) auto

lemma finishedNum_run:
  "finishedNum (counter_run evs) = sum_list (map req_num (takeWhile (\<lambda>e. e \<noteq> RequestsClosed) evs))"
proof (induction evs rule: rev_induct)
  case Nil
  show ?case by (simp add: counter_init_def)
next
  case (snoc ev evs)
  show ?case
    using snoc counter_nilD [of evs]
    by (cases "RequestsClosed \<in> set evs"; cases ev)
       (auto simp: counter_step_simps takeWhile_snoc takeWhile_neq_all)
qed

lemma acceptNum_run:
  "acceptNum (counter_run evs) = sum_list (map acc_num (takeWhile (\<lambda>e. e \<noteq> AcceptedClosed) evs))"
proof (induction evs rule: rev_induct)
  case Nil
  show ?case by (simp add: counter_init_def)
next
  case (snoc ev evs)
  show ?case
    using snoc counter_nilD [of evs]
    by (cases "AcceptedClosed \<in> set evs"; cases ev)
       (auto simp: counter_step_simps takeWhile_snoc takeWhile_neq_all)
qed

lemma closedNum_run:
  "closedNum (counter_run evs) = sum_list (map clo_num (takeWhile (\<lambda>e. e \<noteq> ClosedClosed) evs))"
proof (induction evs rule: rev_induct)
  case Nil
  show ?case by (simp add: counter_init_def)
next
  case (snoc ev evs)
  show ?case
    using snoc counter_nilD [of evs]
    by (cases "ClosedClosed \<in> set evs"; cases ev)
       (auto simp: counter_step_simps takeWhile_snoc takeWhile_neq_all)
qed

section \<open>Lemmas on the signals\<close>

lemma signal_run:
  "exitSignaled (foldl signal_step signal_init sgs) = (sgs \<noteq> [])
   \<and> lfdClosed (foldl signal_step signal_init sgs) = of_bool (sgs \<noteq> [])
   \<and> exitSignalDup (foldl signal_step signal_init sgs) = min 10 (length sgs - 1)
   \<and> exitCode (foldl signal_step signal_init sgs) = (if length sgs \<ge> 11 then Some 9 else None)"
proof (induction sgs rule: rev_induct)
  case Nil
  show ?case by (simp add: signal_init_def)
next
  case (snoc sg sgs)
  show ?case
    using snoc by (auto simp: signal_step_def Let_def)
qed

end
