(* ===== verification/Fast_Http_Inv.thy ===== *)
theory Fast_Http_Inv
  imports Fast_Server
begin

text \<open>
  The invariant of the connection state machine \<open>tinyhttpservice\<close>: the buffers keep the
  length of their pool, the read position stays inside the buffer in use, the requests
  reported and pending add up to the requests parsed, and the bytes sent are whole
  responses followed by a prefix of one more.
\<close>

section \<open>The invariant\<close>

definition resp :: "bool \<Rightarrow> bytes" where
  "resp k = (if k then http200keepalive else http200close)"

definition answers_upto :: "nat \<Rightarrow> bool \<Rightarrow> nat \<Rightarrow> bytes" where
  "answers_upto n k j =
     (if n = 0 then [] else concat (replicate (n - 1) (resp True)) @ take j (resp k))"

definition bufs_ok :: "svc \<Rightarrow> bool" where
  "bufs_ok s \<longleftrightarrow> length (methodbuf s) = 48
     \<and> (onhdr s \<longrightarrow> hdrbuf s \<noteq> None) \<and> (\<forall>b. hdrbuf s = Some b \<longrightarrow> length b = 128)
     \<and> (\<forall>b. cmpbuf s = Some b \<longrightarrow> length b = 128)"

definition count_ok :: "svc \<Rightarrow> bool" where
  "count_ok s \<longleftrightarrow> reqoutcount s < 1000 \<and> (\<forall>n \<in> set (requestsCh s). n = 1000)
     \<and> sum_list (requestsCh s) + reqoutcount s = totalrequest s"

definition io_ok :: "svc \<Rightarrow> bool" where
  "io_ok s \<longleftrightarrow> emptyio s \<le> MAX_EMPTY_IO \<and>
     (case state s of
        HTTP_STATE_READREQMETHOD \<Rightarrow> \<not> onhdr s \<and> \<not> methodok s \<and> bufiobytes s = requestbytes s
          \<and> requestbytes s < HTTP_MINI_HEADER_SIZE
      | HTTP_STATE_READREQHEADER \<Rightarrow> onhdr s \<and> methodok s \<and> bufiobytes s < HTTP_MAX_HEADER_SIZE
          \<and> HTTP_TAIL_HEADER_SIZE \<le> bufiobytes s \<and> HTTP_MINI_HEADER_SIZE \<le> requestbytes s
      | HTTP_STATE_READREQDONE \<Rightarrow> \<not> onhdr s \<and> bufiobytes s \<le> HTTP_INIT_HEADER_SIZE
      | HTTP_STATE_SENDBODY \<Rightarrow> bufiobytes s < length (outbuf s) \<and> outbuf s = resp (isKeepAlive s)
      | HTTP_STATE_PARSEREQHEADER \<Rightarrow> False
      | HTTP_STATE_READREQBODY \<Rightarrow> False
      | HTTP_STATE_PARSEREQBODY \<Rightarrow> False
      | HTTP_STATE_SENDHEADER \<Rightarrow> False
      | _ \<Rightarrow> True)"

definition all_sent :: "svc \<Rightarrow> bool" where
  "all_sent s \<longleftrightarrow> sentbytes s = answers_upto (totalrequest s) (isKeepAlive s) (length (resp (isKeepAlive s)))"

definition out_ok :: "svc \<Rightarrow> bool" where
  "out_ok s \<longleftrightarrow>
     (case state s of
        HTTP_STATE_KEEPALIVE \<Rightarrow> all_sent s
      | HTTP_STATE_SENDBODY \<Rightarrow> 0 < totalrequest s
          \<and> sentbytes s = answers_upto (totalrequest s) (isKeepAlive s) (bufiobytes s)
      | HTTP_STATE_WRITE_CLOSED \<Rightarrow> 0 < totalrequest s
          \<and> (\<exists>j. sentbytes s = answers_upto (totalrequest s) (isKeepAlive s) j)
      | HTTP_STATE_READ_CLOSED \<Rightarrow> all_sent s
      | HTTP_STATE_KEEPALIVE_CLOSED \<Rightarrow> all_sent s \<and> 0 < totalrequest s \<and> \<not> isKeepAlive s
      | _ \<Rightarrow> all_sent s \<and> (0 < totalrequest s \<longrightarrow> isKeepAlive s))"

definition svc_inv :: "svc \<Rightarrow> bool" where
  "svc_inv s \<longleftrightarrow> bufs_ok s \<and> count_ok s \<and> io_ok s \<and> out_ok s
     \<and> (exitState s \<longrightarrow> state s \<in> {HTTP_STATE_READ_CLOSED, HTTP_STATE_WRITE_CLOSED, HTTP_STATE_KEEPALIVE_CLOSED})"

lemma resp_nonempty [simp]: "resp k \<noteq> []" "0 < length (resp k)"
  by (simp_all add: resp_def http200keepalive_def http200close_def)

lemma concat_replicate_Suc: "concat (replicate n x) @ x = concat (replicate (Suc n) x)"
  by (induction n) simp_all

lemma all_sent_served:
  "all_sent s \<Longrightarrow> (0 < totalrequest s \<longrightarrow> isKeepAlive s) \<Longrightarrow>
     sentbytes s = concat (replicate (totalrequest s) (resp True))"
  by (cases "totalrequest s")
     (simp_all add: all_sent_def answers_upto_def concat_replicate_Suc del: replicate_Suc)

section \<open>Sending\<close>

lemma conn_write_le: "conn_write b ws = (n, e, ws') \<Longrightarrow> n \<le> length b"
  by (induction b ws rule: conn_write.induct) auto

lemma answers_upto_extend:
  "0 < n \<Longrightarrow> answers_upto n k j @ take m (drop j (resp k)) = answers_upto n k (j + m)"
  by (simp add: answers_upto_def take_add)

lemma svc_send_inv:
  assumes b: "bufs_ok s" and c: "count_ok s" and st: "state s = HTTP_STATE_SENDBODY"
    and i: "io_ok s" and o: "out_ok s" and x: "\<not> exitState s"
  shows "svc_inv (svc_send s)"
proof -
  let ?b = "drop (bufiobytes s) (outbuf s)"
  obtain n e ws where w: "conn_write ?b (wrs s) = (n, e, ws)"
    by (cases "conn_write ?b (wrs s)")
  have n: "n \<le> length (outbuf s) - bufiobytes s"
    using conn_write_le [OF w] by simp
  have io: "bufiobytes s < length (outbuf s)" "outbuf s = resp (isKeepAlive s)" "emptyio s \<le> 2"
    using i st by (auto simp: io_ok_def)
  have out: "0 < totalrequest s"
    "sentbytes s = answers_upto (totalrequest s) (isKeepAlive s) (bufiobytes s)"
    using o st by (simp_all add: out_ok_def)
  have ext: "sentbytes s @ take n ?b = answers_upto (totalrequest s) (isKeepAlive s) (bufiobytes s + n)"
    using out io by (simp add: answers_upto_extend)
  have full: "bufiobytes s + n \<ge> length (outbuf s) \<Longrightarrow>
      answers_upto (totalrequest s) (isKeepAlive s) (bufiobytes s + n)
      = answers_upto (totalrequest s) (isKeepAlive s) (length (resp (isKeepAlive s)))"
    using io by (simp add: answers_upto_def)
  note w' = w [unfolded io(2)]
  have bc: "bufs_ok (svc_send s)" "count_ok (svc_send s)"
    using b c by (simp_all add: bufs_ok_def count_ok_def)
  have "io_ok (svc_send s)"
    using io st by (auto simp: svc_send_def w w' Let_def io_ok_def)
  moreover have "out_ok (svc_send s)"
    using ext full out st
    by (auto simp: svc_send_def w w' Let_def out_ok_def all_sent_def)
  ultimately show ?thesis using bc x by (simp add: svc_inv_def)
qed

lemma svc_respond_inv:
  assumes "bufs_ok s" "count_ok s" "\<not> exitState s"
    "0 < totalrequest s" "sentbytes s = concat (replicate (totalrequest s - 1) (resp True))"
  shows "svc_inv (svc_respond s)"
  unfolding svc_respond_def resp_def [symmetric]
  using assms
  by (intro svc_send_inv) (simp_all add: bufs_ok_def count_ok_def io_ok_def out_ok_def answers_upto_def)

lemma length_snd_httpKeepAliveParse [simp]: "length (snd (httpKeepAliveParse b c)) = length c"
  by (simp add: httpKeepAliveParse_def Let_def ToLower_def)

lemma svc_request_inv:
  assumes "bufs_ok s" "count_ok s" "\<not> exitState s" "all_sent s"
    "0 < totalrequest s \<longrightarrow> isKeepAlive s" "length cpool = 128"
  shows "svc_inv (svc_request cpool s)"
  unfolding svc_request_unfold
proof (rule svc_respond_inv, goal_cases)
  case 1
  show ?case using assms by (auto simp: bufs_ok_def split: option.splits)
next
  case 2
  show ?case using assms by (auto simp: count_ok_def)
qed (use assms all_sent_served in auto)

section \<open>Reading\<close>

text \<open>The state in which the bytes read are parsed: the read position is inside the buffer.\<close>

definition parse_ready :: "svc \<Rightarrow> bool" where
  "parse_ready s \<longleftrightarrow> bufs_ok s \<and> count_ok s \<and> \<not> exitState s \<and> emptyio s \<le> MAX_EMPTY_IO
     \<and> all_sent s \<and> (0 < totalrequest s \<longrightarrow> isKeepAlive s) \<and> bufiobytes s \<le> length (iobuf s)"

lemma closed_inv:
  "parse_ready s \<Longrightarrow> svc_inv (s\<lparr>state := HTTP_STATE_READ_CLOSED\<rparr>)"
  by (simp add: parse_ready_def svc_inv_def bufs_ok_def count_ok_def io_ok_def out_ok_def all_sent_def)

lemma iobuf_length:
  "bufs_ok s \<Longrightarrow> length (iobuf s) = (if onhdr s then 128 else 48)"
  by (auto simp: bufs_ok_def iobuf_def split: option.splits)

lemma set_iobuf_bufs:
  "bufs_ok s \<Longrightarrow> length b = length (iobuf s) \<Longrightarrow> bufs_ok (set_iobuf b s)"
  by (auto simp: bufs_ok_def set_iobuf_def iobuf_def)

lemma iobuf_set_iobuf [simp]: "iobuf (set_iobuf b s) = b"
  by (simp add: iobuf_def set_iobuf_def)

lemma iobuf_update [simp]:
  "iobuf (s\<lparr>bufiobytes := a\<rparr>) = iobuf s" "iobuf (s\<lparr>emptyio := a\<rparr>) = iobuf s"
  "iobuf (s\<lparr>state := st\<rparr>) = iobuf s" "iobuf (s\<lparr>requestbytes := a\<rparr>) = iobuf s"
  "iobuf (s\<lparr>rds := r\<rparr>) = iobuf s"
  by (simp_all add: iobuf_def)

lemma svc_header_inv:
  assumes p: "parse_ready s" and h: "onhdr s" "methodok s" and c: "length cpool = 128"
    and m: "HTTP_MINI_HEADER_SIZE \<le> requestbytes s" "HTTP_TAIL_HEADER_SIZE \<le> bufiobytes s"
  shows "svc_inv (svc_header cpool e s)"
proof -
  let ?tail = "subslice (bufiobytes s - HTTP_TAIL_HEADER_SIZE) (bufiobytes s) (iobuf s)"
  have b: "bufs_ok (set_iobuf (copy_into (iobuf s) 0 ?tail) s)"
    using p by (simp add: parse_ready_def set_iobuf_bufs)
  have r: "svc_inv (svc_request cpool (s\<lparr>state := HTTP_STATE_READREQDONE\<rparr>))"
    using p c by (intro svc_request_inv)
      (simp_all add: parse_ready_def bufs_ok_def count_ok_def all_sent_def)
  have more: "svc_inv ((if bufiobytes s \<ge> HTTP_MAX_HEADER_SIZE
      then (set_iobuf (copy_into (iobuf s) 0 ?tail) s)\<lparr>bufiobytes := HTTP_TAIL_HEADER_SIZE\<rparr>
      else s)\<lparr>state := HTTP_STATE_READREQHEADER\<rparr>)"
    using p h m b
    by (auto simp: parse_ready_def svc_inv_def bufs_ok_def count_ok_def io_ok_def out_ok_def all_sent_def)
  show ?thesis
    using closed_inv [OF p] more r by (simp add: svc_header_def Let_def)
qed

lemma svc_parse_inv:
  assumes p: "parse_ready s" and len: "length cpool = 128" "length hpool = 128"
    and st: "state s = HTTP_STATE_READREQMETHOD \<and> \<not> onhdr s \<and> \<not> methodok s \<and> bufiobytes s = requestbytes s
      \<or> state s = HTTP_STATE_READREQHEADER \<and> onhdr s \<and> methodok s
        \<and> HTTP_TAIL_HEADER_SIZE \<le> bufiobytes s \<and> HTTP_MINI_HEADER_SIZE \<le> requestbytes s"
  shows "svc_inv (svc_parse hpool cpool e s)"
proof (cases "methodok s")
  case True
  then show ?thesis
    using st p svc_header_inv [OF p _ True len(1)] by (auto simp: svc_parse_def)
next
  case False
  then have st: "state s = HTTP_STATE_READREQMETHOD" "\<not> onhdr s" "bufiobytes s = requestbytes s"
    using st by auto
  let ?h = "case hdrbuf s of None \<Rightarrow> hpool | Some b \<Rightarrow> b"
  let ?s = "s\<lparr>methodok := True, hdrbuf := Some (copy_into ?h 0 (methodbuf s)), onhdr := True\<rparr>"
  have h: "length ?h = 128"
    using p len by (auto simp: parse_ready_def bufs_ok_def split: option.splits)
  have b48: "bufiobytes s \<le> 48"
    using p st iobuf_length [of s] by (simp add: parse_ready_def)
  have "requestbytes s < HTTP_MINI_HEADER_SIZE \<Longrightarrow> svc_inv s"
    using p st False by (simp add: parse_ready_def svc_inv_def io_ok_def out_ok_def)
  moreover have "svc_inv (s\<lparr>state := HTTP_STATE_READREQDONE\<rparr>)"
    using p st b48
    by (simp add: parse_ready_def svc_inv_def bufs_ok_def count_ok_def io_ok_def out_ok_def all_sent_def)
  moreover have "svc_inv (svc_header cpool e ?s)" if "\<not> requestbytes s < HTTP_MINI_HEADER_SIZE"
  proof (rule svc_header_inv)
    show "parse_ready ?s"
      using p h b48 by (simp add: parse_ready_def bufs_ok_def count_ok_def all_sent_def iobuf_def)
  qed (use that st len in simp_all)
  ultimately show ?thesis
    using closed_inv [OF p] False by (simp add: svc_parse_def Let_def)
qed

lemma conn_read_le: "conn_read k rs = (d, e, rs') \<Longrightarrow> length d \<le> k"
  by (induction k rs rule: conn_read.induct) (auto split: if_splits)

lemma parse_ready_read:
  assumes i: "svc_inv s" "\<not> exitState s"
    and st: "state s = HTTP_STATE_READREQMETHOD \<or> state s = HTTP_STATE_READREQHEADER"
    and d: "length d \<le> length (iobuf s) - bufiobytes s"
  shows "parse_ready (s\<lparr>rds := rs\<rparr>)"
    and "parse_ready ((set_iobuf (copy_into (iobuf s) (bufiobytes s) d) (s\<lparr>rds := rs\<rparr>))
      \<lparr>bufiobytes := bufiobytes s + length d, requestbytes := requestbytes s + length d\<rparr>)"
      (is "parse_ready ?s")
proof -
  have bl: "bufs_ok s" "bufiobytes s < length (iobuf s)"
    using i st iobuf_length [of s] by (auto simp: svc_inv_def io_ok_def)
  show ready: "parse_ready (s\<lparr>rds := rs\<rparr>)"
    using i st bl(2)
    by (auto simp: svc_inv_def parse_ready_def bufs_ok_def count_ok_def io_ok_def out_ok_def all_sent_def)
  have "bufs_ok (set_iobuf (copy_into (iobuf s) (bufiobytes s) d) (s\<lparr>rds := rs\<rparr>))"
    using bl ready by (intro set_iobuf_bufs) (simp_all add: parse_ready_def)
  then show "parse_ready ?s"
    using ready bl d by (simp add: parse_ready_def bufs_ok_def count_ok_def all_sent_def)
qed

lemma svc_read_inv:
  assumes i: "svc_inv s" "\<not> exitState s" and len: "length hpool = 128" "length cpool = 128"
    and st: "state s = HTTP_STATE_READREQMETHOD \<or> state s = HTTP_STATE_READREQHEADER"
  shows "svc_inv (svc_read hpool cpool s)"
proof -
  let ?k = "length (iobuf s) - bufiobytes s"
  obtain d e rs where r: "conn_read ?k (rds s) = (d, e, rs)"
    by (cases "conn_read ?k (rds s)")
  let ?s = "(set_iobuf (copy_into (iobuf s) (bufiobytes s) d) (s\<lparr>rds := rs\<rparr>))
    \<lparr>bufiobytes := bufiobytes s + length d, requestbytes := requestbytes s + length d\<rparr>"
  note ready = parse_ready_read [OF i st conn_read_le [OF r], of rs]
  have "svc_inv (svc_parse hpool cpool e ?s)"
    using i st by (intro svc_parse_inv [OF ready(2) len(2,1)]) (auto simp: svc_inv_def io_ok_def)
  moreover have "emptyio s < MAX_EMPTY_IO \<Longrightarrow> svc_inv (s\<lparr>rds := rs, emptyio := emptyio s + 1\<rparr>)"
    using i st
    by (auto simp: svc_inv_def bufs_ok_def count_ok_def io_ok_def out_ok_def all_sent_def)
  ultimately show ?thesis
    using closed_inv [OF ready(1)] by (auto simp: svc_read_def r Let_def)
qed

lemma svc_keepalive_inv:
  assumes i: "svc_inv s" "\<not> exitState s" and len: "length hpool = 128" "length cpool = 128"
    and st: "state s = HTTP_STATE_KEEPALIVE"
  shows "svc_inv (svc_keepalive hpool cpool s)"
proof -
  let ?s = "s\<lparr>bufiobytes := 0, emptyio := 0, requestbytes := 0, methodok := False, onhdr := False\<rparr>"
  have "totalrequest s \<noteq> 0 \<and> \<not> isKeepAlive s \<Longrightarrow> svc_inv (?s\<lparr>state := HTTP_STATE_KEEPALIVE_CLOSED\<rparr>)"
    using i st
    by (auto simp: svc_inv_def bufs_ok_def count_ok_def io_ok_def out_ok_def all_sent_def)
  moreover have "\<not> (totalrequest s \<noteq> 0 \<and> \<not> isKeepAlive s) \<Longrightarrow>
      svc_inv (?s\<lparr>state := HTTP_STATE_READREQMETHOD\<rparr>)"
    using i st
    by (auto simp: svc_inv_def bufs_ok_def count_ok_def io_ok_def out_ok_def all_sent_def)
  ultimately show ?thesis
    using i(2) len by (auto simp: svc_keepalive_def Let_def intro!: svc_read_inv)
qed

section \<open>Every reachable state\<close>

text \<open>One iteration with any buffers of the right length from the pool.\<close>

inductive svc_trans :: "svc \<Rightarrow> svc \<Rightarrow> bool" where
  svc_iterate: "\<not> exitState s \<Longrightarrow> length hpool = 128 \<Longrightarrow> length cpool = 128 \<Longrightarrow>
     svc_trans s (svc_step hpool cpool s)"

inductive_cases svc_transE: "svc_trans s t"

lemma svc_step_inv:
  assumes i: "svc_inv s" "\<not> exitState s" and len: "length hpool = 128" "length cpool = 128"
  shows "svc_inv (svc_step hpool cpool s)"
proof (cases "state s")
  case HTTP_STATE_READREQDONE
  then have "svc_inv (svc_request cpool s)"
    using i len by (intro svc_request_inv) (simp_all add: svc_inv_def out_ok_def)
  with HTTP_STATE_READREQDONE show ?thesis by (simp add: svc_step_def)
next
  case HTTP_STATE_SENDBODY
  then show ?thesis
    using i len by (simp add: svc_step_def svc_inv_def svc_send_inv [unfolded svc_inv_def])
next
  case HTTP_STATE_READ_CLOSED
  then show ?thesis using i
    by (simp add: svc_step_def svc_inv_def bufs_ok_def count_ok_def io_ok_def out_ok_def all_sent_def)
next
  case HTTP_STATE_WRITE_CLOSED
  then show ?thesis using i
    by (simp add: svc_step_def svc_inv_def bufs_ok_def count_ok_def io_ok_def out_ok_def all_sent_def)
next
  case HTTP_STATE_KEEPALIVE_CLOSED
  then show ?thesis using i
    by (simp add: svc_step_def svc_inv_def bufs_ok_def count_ok_def io_ok_def out_ok_def all_sent_def)
qed (use i len svc_keepalive_inv svc_read_inv in
      \<open>simp_all add: svc_step_def, simp_all add: svc_inv_def io_ok_def\<close>)

interpretation svc_machine: transition_invariant svc_trans svc_inv
  by unfold_locales (auto elim!: svc_transE intro: svc_step_inv)

lemma svc_init_inv: "length mbuf = 48 \<Longrightarrow> svc_inv (svc_init mbuf rd wr)"
  by (simp add: svc_init_def svc_inv_def bufs_ok_def count_ok_def io_ok_def out_ok_def all_sent_def
      answers_upto_def)

lemma svc_loop_reaches:
  "length hpool = 128 \<Longrightarrow> length cpool = 128 \<Longrightarrow>
     reaches svc_trans s (svc_loop hpool cpool sig i s)"
proof (induction hpool cpool sig i s rule: svc_loop.induct)
  case (1 hpool cpool sig i s)
  show ?case
  proof (cases "exitState s \<or> sig i")
    case True
    then show ?thesis by (subst svc_loop.simps) (simp add: reaches_refl)
  next
    case False
    then have "svc_trans s (svc_step hpool cpool s)"
      using 1 by (simp add: svc_iterate)
    moreover have "reaches svc_trans (svc_step hpool cpool s)
        (svc_loop hpool cpool sig (Suc i) (svc_step hpool cpool s))"
      using 1 False by simp
    ultimately show ?thesis
      using False by (subst svc_loop.simps) (auto intro: reaches_one reaches_trans)
  qed
qed

lemma svc_loop_inv:
  "length hpool = 128 \<Longrightarrow> length cpool = 128 \<Longrightarrow> svc_inv s \<Longrightarrow> svc_inv (svc_loop hpool cpool sig i s)"
  by (rule svc_machine.inv_reaches [OF svc_loop_reaches])

lemma svc_loop_exits: "(\<And>j. \<not> sig j) \<Longrightarrow> exitState (svc_loop hpool cpool sig i s)"
  by (induction hpool cpool sig i s rule: svc_loop.induct) (subst svc_loop.simps, simp)

end
