(* ===== verification/Fast_Http_Parse.thy ===== *)
theory Fast_Http_Parse
  imports Fast_Http_Inv
begin

text \<open>
  What the parsers of \<open>fasthttpserver.go\<close> accept, and the run of \<open>tinyhttpservice\<close> over a
  request that arrives in pieces.
\<close>

section \<open>httpURIParser on lines\<close>

lemma httpURIParser_no_newline:
  "HTTP_CHAR_RT \<notin> set buf \<Longrightarrow> httpURIParser buf = (1, None)"
  by (simp add: httpURIParser.simps)

lemma httpURIParser_line:
  assumes "HTTP_CHAR_RT \<notin> set a"
  shows "httpURIParser (a @ HTTP_CHAR_RT # t) =
     (if length a < HTTP_MINI_HEADER_SIZE then (2, Some ErrEarlyNewline)
      else if t = [] then (1, None)
      else if hd t = HTTP_CHAR_RT then (0, None)
      else if tl t = [] then (1, None)
      else if last a = HTTP_CHAR_LF \<and> hd t = HTTP_CHAR_LF \<and> hd (tl t) = HTTP_CHAR_RT then (0, None)
      else httpURIParser t)"
proof -
  have "\<not> length a < HTTP_MINI_HEADER_SIZE \<Longrightarrow> (a @ HTTP_CHAR_RT # t) ! (length a - 1) = last a"
    by (cases "a = []") (simp_all add: nth_append last_conv_nth)
  moreover have "t = x # y # u \<Longrightarrow> (a @ HTTP_CHAR_RT # t) ! (length a + 2) = y" for x y u
    by (simp add: nth_append)
  ultimately show ?thesis
    using assms
    by (subst httpURIParser.simps, cases t; cases "tl t") (auto simp: IndexByte_first nth_append split: if_splits)
qed

text \<open>A header: lines of at least five bytes ended by carriage return and line feed, then a blank line.\<close>

definition header_line :: "bytes \<Rightarrow> bool" where
  "header_line l \<longleftrightarrow> 5 \<le> length l \<and> HTTP_CHAR_RT \<notin> set l"

fun http_header :: "bytes list \<Rightarrow> bytes" where
  "http_header [] = crlf"
| "http_header (l # ls) = l @ crlf @ http_header ls"

lemma httpURIParser_header_line:
  assumes "header_line l"
  shows "httpURIParser (l @ crlf @ t) =
     (if t = [] then (1, None)
      else if hd t = HTTP_CHAR_RT then (0, None)
      else if tl t = [] then (1, None)
      else if hd t = HTTP_CHAR_LF \<and> hd (tl t) = HTTP_CHAR_RT then (0, None)
      else httpURIParser t)"
  using assms httpURIParser_line [of "l @ [HTTP_CHAR_LF]" t] by (simp add: header_line_def)

lemma header_line_start:
  assumes "header_line l"
  obtains x y l' where "l = x # y # l'" "x \<noteq> HTTP_CHAR_RT" "y \<noteq> HTTP_CHAR_RT"
  using assms by (cases l; cases "tl l") (auto simp: header_line_def)

lemma httpURIParser_complete:
  "ls \<noteq> [] \<Longrightarrow> \<forall>l \<in> set ls. header_line l \<Longrightarrow> httpURIParser (http_header ls @ rest) = (0, None)"
proof (induction ls)
  case (Cons l ls)
  show ?case
  proof (cases ls)
    case Nil
    then show ?thesis
      using Cons.prems httpURIParser_header_line [of l "crlf @ rest"] by simp
  next
    case (Cons l' ls')
    then have "header_line l'" using Cons.prems by simp
    then obtain x y m where "l' = x # y # m" "x \<noteq> HTTP_CHAR_RT" "y \<noteq> HTTP_CHAR_RT"
      by (rule header_line_start)
    then show ?thesis
      using Cons.IH Cons.prems Cons httpURIParser_header_line [of l "http_header ls @ rest"] by simp
  qed
qed simp

lemma strict_prefix_appendD:
  "strict_prefix p (a @ t) \<Longrightarrow> (\<exists>b. a = p @ b \<and> b \<noteq> []) \<or> (\<exists>q. p = a @ q \<and> strict_prefix q t)"
  by (auto simp: strict_prefix_def prefix_def append_eq_append_conv2)

lemma header_prefix_cases:
  assumes "strict_prefix p (l @ crlf @ t)" "header_line l"
  shows "HTTP_CHAR_RT \<notin> set p \<or> (\<exists>q. p = l @ crlf @ q \<and> strict_prefix q t)"
proof -
  from strict_prefix_appendD [of p "l @ crlf" t] assms(1)
  consider b where "l @ crlf = p @ b" "b \<noteq> []" | q where "p = (l @ crlf) @ q" "strict_prefix q t"
    by auto
  then show ?thesis
  proof cases
    case 1
    then have "prefix p (l @ [HTTP_CHAR_LF])"
      by (cases b rule: rev_cases) (auto simp: prefix_def)
    then show ?thesis
      using assms(2) set_mono_prefix [of p] by (fastforce simp: header_line_def)
  qed simp
qed

lemma httpURIParser_prefix:
  "strict_prefix p (http_header ls) \<Longrightarrow> ls \<noteq> [] \<Longrightarrow> \<forall>l \<in> set ls. header_line l \<Longrightarrow>
     httpURIParser p = (1, None)"
proof (induction ls arbitrary: p)
  case (Cons l ls)
  from header_prefix_cases [of p l "http_header ls"] Cons.prems
  consider "HTTP_CHAR_RT \<notin> set p" | q where "p = l @ crlf @ q" "strict_prefix q (http_header ls)"
    by auto
  then show ?case
  proof cases
    case 1
    then show ?thesis by (rule httpURIParser_no_newline)
  next
    case q: 2
    have e: "httpURIParser p =
     (if q = [] then (1, None)
      else if hd q = HTTP_CHAR_RT then (0, None)
      else if tl q = [] then (1, None)
      else if hd q = HTTP_CHAR_LF \<and> hd (tl q) = HTTP_CHAR_RT then (0, None)
      else httpURIParser q)"
      unfolding q(1) using Cons.prems by (intro httpURIParser_header_line) simp
    show ?thesis
    proof (cases ls)
      case Nil
      then have "q = [] \<or> q = [HTTP_CHAR_LF]"
        using q(2) by (auto simp: strict_prefix_def prefix_Cons)
      then show ?thesis using e by auto
    next
      case (Cons l' ls')
      then have "header_line l'" using Cons.prems by simp
      then obtain x y m where m: "l' = x # y # m" "x \<noteq> HTTP_CHAR_RT" "y \<noteq> HTTP_CHAR_RT"
        by (rule header_line_start)
      moreover have "httpURIParser q = (1, None)"
        using Cons.IH [OF q(2)] Cons.prems Cons by simp
      ultimately show ?thesis
        using e q(2) Cons by (auto simp: strict_prefix_def prefix_Cons)
    qed
  qed
qed simp

lemma httpURIParser_cases [case_names none short waits blank blank2 again]:
  obtains "HTTP_CHAR_RT \<notin> set buf" "httpURIParser buf = (1, None)"
  | a t where "buf = a @ HTTP_CHAR_RT # t" "HTTP_CHAR_RT \<notin> set a" "length a < HTTP_MINI_HEADER_SIZE"
      "httpURIParser buf = (2, Some ErrEarlyNewline)"
  | "httpURIParser buf = (1, None)"
  | a t where "buf = a @ HTTP_CHAR_RT # HTTP_CHAR_RT # t" "HTTP_CHAR_RT \<notin> set a"
      "HTTP_MINI_HEADER_SIZE \<le> length a" "httpURIParser buf = (0, None)"
  | a t where "buf = a @ crlf @ crlf @ t" "HTTP_CHAR_RT \<notin> set a"
      "HTTP_MINI_HEADER_SIZE \<le> length a + 1" "httpURIParser buf = (0, None)"
  | a x y t where "buf = a @ HTTP_CHAR_RT # x # y # t" "HTTP_CHAR_RT \<notin> set a"
      "HTTP_MINI_HEADER_SIZE \<le> length a" "x \<noteq> HTTP_CHAR_RT"
      "\<not> (last a = HTTP_CHAR_LF \<and> x = HTTP_CHAR_LF \<and> y = HTTP_CHAR_RT)"
      "httpURIParser buf = httpURIParser (x # y # t)"
proof (cases "HTTP_CHAR_RT \<in> set buf")
  case False
  then show ?thesis using that(1) by (simp add: httpURIParser_no_newline)
next
  case True
  then obtain a t where b: "buf = a @ HTTP_CHAR_RT # t" and a: "HTTP_CHAR_RT \<notin> set a"
    by (metis split_list_first)
  note e = httpURIParser_line [OF a, of t]
  consider "length a < HTTP_MINI_HEADER_SIZE" | "HTTP_MINI_HEADER_SIZE \<le> length a" "t = []"
    | u where "HTTP_MINI_HEADER_SIZE \<le> length a" "t = HTTP_CHAR_RT # u"
    | x where "HTTP_MINI_HEADER_SIZE \<le> length a" "t = [x]" "x \<noteq> HTTP_CHAR_RT"
    | x y u where "HTTP_MINI_HEADER_SIZE \<le> length a" "t = x # y # u" "x \<noteq> HTTP_CHAR_RT"
    by (cases t; cases "tl t") fastforce+
  then show ?thesis
  proof cases
    case 5
    show ?thesis
    proof (cases "last a = HTTP_CHAR_LF \<and> x = HTTP_CHAR_LF \<and> y = HTTP_CHAR_RT")
      case True
      then have "a = butlast a @ [HTTP_CHAR_LF]" using 5(1) by (cases a rule: rev_cases) simp_all
      then have "buf = butlast a @ crlf @ crlf @ u" using b 5 True by (metis append.assoc append_Cons append_Nil)
      moreover have "HTTP_CHAR_RT \<notin> set (butlast a)" using a by (auto dest: in_set_butlastD)
      moreover have "httpURIParser buf = (0, None)" using 5 True b e by auto
      ultimately show ?thesis using that(5) [of "butlast a" u] 5(1) by simp
    qed (use that(6) [of a x y u] 5 a b e in auto)
  qed (use that(2) [of a t] that(3) that(4) [of a] a b e in auto)
qed

lemma httpURIParser_sound:
  "fst (httpURIParser buf) = 0 \<Longrightarrow>
     sublist [HTTP_CHAR_RT, HTTP_CHAR_RT] buf \<or> sublist (crlf @ crlf) buf"
proof (induction buf rule: length_induct)
  case (1 buf)
  show ?case
  proof (cases rule: httpURIParser_cases [of buf])
    case (blank a t)
    then have "buf = a @ [HTTP_CHAR_RT, HTTP_CHAR_RT] @ t" by simp
    then show ?thesis by (auto simp only: sublist_appendI)
  next
    case (blank2 a t)
    then have "buf = a @ (crlf @ crlf) @ t" by simp
    then show ?thesis by (auto simp only: sublist_appendI)
  next
    case (again a x y t)
    then have "fst (httpURIParser (x # y # t)) = 0" "length (x # y # t) < length buf"
      using 1 by simp_all
    with 1 have "sublist [HTTP_CHAR_RT, HTTP_CHAR_RT] (x # y # t) \<or> sublist (crlf @ crlf) (x # y # t)"
      by blast
    moreover have "sublist (x # y # t) buf"
      unfolding again(1) using suffix_imp_sublist [of "x # y # t"] by (simp add: suffix_def)
    ultimately show ?thesis using sublist_order.order.trans by blast
  qed (use 1 in auto)
qed

lemma httpURIParser_sticky:
  "fst (httpURIParser buf) \<noteq> 1 \<Longrightarrow> httpURIParser (buf @ rest) = httpURIParser buf"
proof (induction buf rule: length_induct)
  case (1 buf)
  show ?case
  proof (cases rule: httpURIParser_cases [of buf])
    case (short a t)
    then show ?thesis using httpURIParser_line [of a "t @ rest"] by simp
  next
    case (blank a t)
    then show ?thesis using httpURIParser_line [of a "HTTP_CHAR_RT # t @ rest"] by simp
  next
    case (blank2 a t)
    then show ?thesis using httpURIParser_line [of "a @ [HTTP_CHAR_LF]" "crlf @ t @ rest"] by simp
  next
    case (again a x y t)
    then have "httpURIParser ((x # y # t) @ rest) = httpURIParser (x # y # t)"
      using 1 by (intro "1.IH" [rule_format]) simp_all
    then show ?thesis using again httpURIParser_line [of a "x # y # t @ rest"] by auto
  qed (use 1 in auto)
qed

section \<open>Requests in pieces\<close>

definition wants_keepalive :: "bytes \<Rightarrow> bool" where
  "wants_keepalive req \<longleftrightarrow>
     \<not> sublist ''connection: close'' (ToLower req)
     \<and> (sublist ''connection: keep-alive'' (ToLower req) \<or> sublist ''http/1.1'' (ToLower req))"

lemma httpKeepAliveParse_prefix:
  "fst (httpKeepAliveParse buf cmp) = wants_keepalive (take (length cmp) buf)"
  by (simp add: httpKeepAliveParse_def wants_keepalive_def Index_None ToLower_def Let_def min_def)

text \<open>A request the server answers: a known method, long enough lines, at most 128 bytes.\<close>

definition good_request :: "bytes \<Rightarrow> bool" where
  "good_request req \<longleftrightarrow>
     (\<exists>ls. ls \<noteq> [] \<and> (\<forall>l \<in> set ls. header_line l) \<and> req = http_header ls)
     \<and> length req \<le> HTTP_MAX_HEADER_SIZE
     \<and> fst (httpMethodParser req) \<in> {HTTP_METHOD_GET, HTTP_METHOD_HEAD, HTTP_METHOD_POST}"

lemma good_request_length: "good_request req \<Longrightarrow> 6 \<le> length req \<and> length req \<le> 128"
  by (auto simp: good_request_def neq_Nil_conv header_line_def)

lemma httpMethodParser_prefix:
  assumes "prefix p req" "6 \<le> length p"
  shows "httpMethodParser p = httpMethodParser req"
proof -
  from assms obtain q where q: "req = p @ q" by (auto simp: prefix_def)
  have "take 5 req = take 5 p" "take 6 req = take 6 p" "req ! 0 = p ! 0"
    "\<not> length req < 6" "\<not> length p < 6"
    using q assms(2) by (auto simp: nth_append)
  then show ?thesis by (simp only: httpMethodParser_def if_False)
qed

lemma good_request_parse:
  assumes "good_request req" "prefix p req"
  shows "fst (httpURIParser p) = (if p = req then 0 else 1)"
    and "6 \<le> length p \<Longrightarrow> \<not> (fst (httpMethodParser p) > HTTP_METHOD_POST \<or> fst (httpMethodParser p) < HTTP_METHOD_GET)"
proof -
  obtain ls where ls: "ls \<noteq> []" "\<forall>l \<in> set ls. header_line l" "req = http_header ls"
    using assms by (auto simp: good_request_def)
  show "fst (httpURIParser p) = (if p = req then 0 else 1)"
    using ls httpURIParser_complete [of ls "[]"] httpURIParser_prefix [of p ls] assms
    by (auto simp: strict_prefix_def)
  show "6 \<le> length p \<Longrightarrow> \<not> (fst (httpMethodParser p) > HTTP_METHOD_POST \<or> fst (httpMethodParser p) < HTTP_METHOD_GET)"
    using assms httpMethodParser_prefix [of p req]
    by (auto simp: good_request_def less_HttpIntMethodT_def)
qed

abbreviation arrivals :: "bytes list \<Rightarrow> (bytes \<times> bool) list" where
  "arrivals cs \<equiv> map (\<lambda>c. (c, False)) cs"

text \<open>The read phase after the bytes \<open>p\<close> of the request, \<open>cs\<close> still to arrive.\<close>

definition content :: "svc \<Rightarrow> bytes \<Rightarrow> bool" where
  "content s p \<longleftrightarrow> bufiobytes s = length p \<and> take (length p) (iobuf s) = p"

definition reading :: "bytes \<Rightarrow> (bytes \<times> bool) list \<Rightarrow> svc \<Rightarrow> bytes \<Rightarrow> bytes list \<Rightarrow> bool" where
  "reading req later s p cs \<longleftrightarrow> svc_inv s \<and> \<not> exitState s
     \<and> (state s = HTTP_STATE_READREQMETHOD \<or> state s = HTTP_STATE_READREQHEADER)
     \<and> content s p \<and> requestbytes s = length p \<and> rds s = arrivals cs @ later \<and> [] \<notin> set cs
     \<and> p @ concat cs = req \<and> cs \<noteq> []"

definition received :: "bytes \<Rightarrow> (bytes \<times> bool) list \<Rightarrow> svc \<Rightarrow> svc \<Rightarrow> bool" where
  "received req later s0 s \<longleftrightarrow> content s req \<and> rds s = later \<and> wrs s = wrs s0 \<and> sentbytes s = sentbytes s0
     \<and> totalrequest s = totalrequest s0 \<and> parse_ready s"

lemma conn_read_arrivals:
  assumes "0 < k" "[] \<notin> set cs" "cs \<noteq> []"
  obtains d cs' where "conn_read k (arrivals cs @ later) = (d, False, arrivals cs' @ later)"
    "d \<noteq> []" "concat cs = d @ concat cs'" "[] \<notin> set cs'" "length d \<le> k"
proof (cases cs)
  case (Cons c cs1)
  show ?thesis
  proof (cases "length c \<le> k")
    case True
    then show ?thesis using that [of c cs1] assms Cons by auto
  next
    case False
    then show ?thesis using that [of "take k c" "drop k c # cs1"] assms Cons by auto
  qed
qed (use assms in simp)

lemma bufs_ok_update [simp]:
  "bufs_ok (s\<lparr>rds := r\<rparr>) = bufs_ok s" "bufs_ok (s\<lparr>bufiobytes := a\<rparr>) = bufs_ok s"
  "bufs_ok (s\<lparr>requestbytes := a\<rparr>) = bufs_ok s"
  by (simp_all add: bufs_ok_def)

text \<open>What the parse does once the bytes \<open>p\<close> of a good request are in the buffer.\<close>

lemma svc_header_more:
  assumes "content s p" "httpURIParser p = (1, err)" "requestbytes s < HTTP_MAX_HEADER_READ_SIZE"
    "length p < HTTP_MAX_HEADER_SIZE"
  shows "svc_header cpool False s = s\<lparr>state := HTTP_STATE_READREQHEADER\<rparr>"
  using assms by (simp add: svc_header_def content_def)

lemma svc_header_done:
  assumes "content s p" "fst (httpURIParser p) = 0"
  shows "svc_header cpool e s = svc_request cpool (s\<lparr>state := HTTP_STATE_READREQDONE\<rparr>)"
  using assms by (simp add: svc_header_def content_def)

lemma svc_parse_piece:
  assumes g: "good_request req" and p: "prefix p req" and c: "content s p"
    and rb: "requestbytes s = length p" and len: "length hpool = 128"
    and st: "state s = HTTP_STATE_READREQMETHOD \<and> \<not> onhdr s \<and> \<not> methodok s \<and> length p \<le> 48
      \<or> state s = HTTP_STATE_READREQHEADER \<and> onhdr s \<and> methodok s \<and> 6 \<le> length p"
    and pr: "parse_ready s"
  shows "if p = req then
      state (svc_parse hpool cpool False s) = HTTP_STATE_READREQDONE
        \<and> received req (rds s) s (svc_parse hpool cpool False s)
      \<or> (\<exists>s1. svc_parse hpool cpool False s = svc_request cpool s1 \<and> received req (rds s) s s1)
    else content (svc_parse hpool cpool False s) p
      \<and> requestbytes (svc_parse hpool cpool False s) = length p
      \<and> (state (svc_parse hpool cpool False s) = HTTP_STATE_READREQMETHOD
         \<or> state (svc_parse hpool cpool False s) = HTTP_STATE_READREQHEADER)
      \<and> rds (svc_parse hpool cpool False s) = rds s \<and> wrs (svc_parse hpool cpool False s) = wrs s
      \<and> sentbytes (svc_parse hpool cpool False s) = sentbytes s
      \<and> totalrequest (svc_parse hpool cpool False s) = totalrequest s"
    (is "if _ then ?done else ?more")
proof -
  note len_req = good_request_length [OF g]
  note uri = good_request_parse(1) [OF g p]
  have b: "bufs_ok s" using pr by (simp add: parse_ready_def)
  have fin: "p = req \<Longrightarrow> received req (rds s) s (s\<lparr>state := HTTP_STATE_READREQDONE\<rparr>)"
    using c pr
    by (simp add: received_def content_def parse_ready_def bufs_ok_def count_ok_def all_sent_def)
  have lt: "p \<noteq> req \<Longrightarrow> length p < length req"
    using p by (simp add: prefix_length_less strict_prefix_def)
  have tk: "take (bufiobytes s) (iobuf s) = p" "bufiobytes s = length p"
    using c by (simp_all add: content_def)
  show ?thesis
  proof (cases "6 \<le> length p")
    case False
    then show ?thesis using c rb st len_req by (auto simp: svc_parse_def)
  next
    case six: True
    show ?thesis
    proof (cases "methodok s")
      case True
      then have st': "state s = HTTP_STATE_READREQHEADER" "svc_parse hpool cpool False s = svc_header cpool False s"
        using st six rb by (simp_all add: svc_parse_def)
      show ?thesis
      proof (cases "p = req")
        case True
        then show ?thesis
          using fin svc_header_done [OF c, of cpool False] uri st'(2) by auto
      next
        case False
        then have "svc_header cpool False s = s\<lparr>state := HTTP_STATE_READREQHEADER\<rparr>"
          using uri lt len_req rb
          by (intro svc_header_more [OF c, of "snd (httpURIParser p)"]) (cases "httpURIParser p", auto)
        then show ?thesis using False st'(2) c rb by (simp add: content_def)
      qed
    next
      case False
      then have st': "state s = HTTP_STATE_READREQMETHOD" "\<not> onhdr s" "length p \<le> 48"
        using st by auto
      let ?h = "case hdrbuf s of None \<Rightarrow> hpool | Some b \<Rightarrow> b"
      let ?s = "s\<lparr>methodok := True, hdrbuf := Some (copy_into ?h 0 (methodbuf s)), onhdr := True\<rparr>"
      have "length ?h = 128" using len b by (auto simp: bufs_ok_def split: option.splits)
      then have c': "content ?s p"
        using c b st' by (simp add: content_def iobuf_def copy_into_def bufs_ok_def)
      have e: "svc_parse hpool cpool False s =
          (if p = req then s\<lparr>state := HTTP_STATE_READREQDONE\<rparr> else svc_header cpool False ?s)"
        using good_request_parse(2) [OF g p six] six rb False tk uri by (simp add: svc_parse_def Let_def)
      show ?thesis
      proof (cases "p = req")
        case True
        then show ?thesis using e fin by simp
      next
        case False
        then have "svc_header cpool False ?s = ?s\<lparr>state := HTTP_STATE_READREQHEADER\<rparr>"
          using uri lt len_req rb
          by (intro svc_header_more [OF c', of "snd (httpURIParser p)"]) (cases "httpURIParser p", auto)
        then show ?thesis using e False c' rb by (simp add: content_def)
      qed
    qed
  qed
qed

lemma reading_step:
  assumes g: "good_request req" and r: "reading req later s p cs"
    and len: "length hpool = 128" "length cpool = 128"
  shows "(\<exists>p' cs'. reading req later (svc_read hpool cpool s) p' cs' \<and> length p < length p'
      \<and> wrs (svc_read hpool cpool s) = wrs s \<and> sentbytes (svc_read hpool cpool s) = sentbytes s
      \<and> totalrequest (svc_read hpool cpool s) = totalrequest s)
    \<or> state (svc_read hpool cpool s) = HTTP_STATE_READREQDONE
      \<and> received req later s (svc_read hpool cpool s)
    \<or> (\<exists>s1. svc_read hpool cpool s = svc_request cpool s1 \<and> received req later s s1)"
proof -
  have i: "svc_inv s" "\<not> exitState s" "[] \<notin> set cs" "cs \<noteq> []" "rds s = arrivals cs @ later"
    and st: "state s = HTTP_STATE_READREQMETHOD \<or> state s = HTTP_STATE_READREQHEADER"
    and c: "bufiobytes s = length p" "take (length p) (iobuf s) = p" "requestbytes s = length p"
    and cat: "p @ concat cs = req"
    using r by (simp_all add: reading_def content_def)
  let ?k = "length (iobuf s) - bufiobytes s"
  have b: "bufs_ok s" using i by (simp add: svc_inv_def)
  have ph: "state s = HTTP_STATE_READREQMETHOD \<and> \<not> onhdr s \<and> \<not> methodok s \<and> length (iobuf s) = 48 \<and> length p < 6
      \<or> state s = HTTP_STATE_READREQHEADER \<and> onhdr s \<and> methodok s \<and> length (iobuf s) = 128
        \<and> length p < 128 \<and> 6 \<le> length p"
    using i(1) st c iobuf_length [OF b] by (auto simp: svc_inv_def io_ok_def)
  then have k: "0 < ?k" using c(1) by auto
  obtain d cs' where d: "conn_read ?k (arrivals cs @ later) = (d, False, arrivals cs' @ later)"
      "d \<noteq> []" "concat cs = d @ concat cs'" "[] \<notin> set cs'" "length d \<le> ?k"
    using conn_read_arrivals [OF k i(3,4)] by metis
  let ?s = "(set_iobuf (copy_into (iobuf s) (bufiobytes s) d) (s\<lparr>rds := arrivals cs' @ later\<rparr>))
    \<lparr>bufiobytes := bufiobytes s + length d, requestbytes := requestbytes s + length d\<rparr>"
  let ?p = "p @ d"
  have rd: "svc_read hpool cpool s = svc_parse hpool cpool False ?s"
    using d i(5) by (simp add: svc_read_def Let_def)
  have pre: "prefix ?p req" using cat d(3) by (auto simp: prefix_def)
  have "bufiobytes s + length d \<le> length (iobuf s)" using d(5) k by linarith
  then have cont: "content ?s ?p"
    using c take_copy_into [of "bufiobytes s" d "iobuf s"] by (simp add: content_def)
  have st': "state ?s = HTTP_STATE_READREQMETHOD \<and> \<not> onhdr ?s \<and> \<not> methodok ?s \<and> length ?p \<le> 48
      \<or> state ?s = HTTP_STATE_READREQHEADER \<and> onhdr ?s \<and> methodok ?s \<and> 6 \<le> length ?p"
    using ph d(5) c(1) by (elim disjE) auto
  note piece = svc_parse_piece [OF g pre cont _ len(1) st'
      parse_ready_read(2) [OF i(1,2) st d(5), of "arrivals cs' @ later"], of cpool]
  show ?thesis
  proof (cases "?p = req")
    case True
    then have "cs' = []" using cat d(3,4) by (cases cs') auto
    then have rc: "received req (rds ?s) ?s x = received req later s x" for x
      by (simp add: received_def)
    have "requestbytes ?s = length ?p" using c(3) by simp
    from piece [OF this] True show ?thesis
      unfolding rd rc by (simp only: if_True simp_thms)
  next
    case False
    then have "cs' \<noteq> []" using cat d(3) by auto
    with False piece c i(2) d cat svc_read_inv [OF i(1,2) len st] show ?thesis
      unfolding rd by (intro disjI1 exI [of _ ?p] exI [of _ cs']) (simp add: reading_def)
  qed
qed

section \<open>Runs without a signal\<close>

abbreviation quiet :: "nat \<Rightarrow> bool" where
  "quiet \<equiv> \<lambda>_. False"

lemma svc_loop_quiet_index:
  "svc_loop hpool cpool quiet i s = svc_loop hpool cpool quiet j s"
proof (induction hpool cpool "quiet" i s arbitrary: j rule: svc_loop.induct)
  case (1 hpool cpool i s)
  show ?case
    using "1.hyps" [of "Suc j"]
    by (cases "exitState s") (simp_all add: svc_loop.simps [of _ _ _ i] svc_loop.simps [of _ _ _ j])
qed

lemma svc_loop_next:
  "\<not> exitState s \<Longrightarrow> svc_loop hpool cpool quiet 0 s = svc_loop hpool cpool quiet 0 (svc_step hpool cpool s)"
  using svc_loop_quiet_index [of hpool cpool "Suc 0" "svc_step hpool cpool s" 0]
  by (simp add: svc_loop.simps [of _ _ _ 0 s])

lemma reading_run:
  assumes g: "good_request req" and len: "length hpool = 128" "length cpool = 128"
    and r: "reading req later s p cs"
  shows "\<exists>s1. svc_loop hpool cpool quiet 0 s = svc_loop hpool cpool quiet 0 (svc_request cpool s1)
     \<and> received req later s s1"
  using r
proof (induction "length req - length p" arbitrary: s p cs rule: less_induct)
  case less
  have x: "\<not> exitState s" and st: "svc_step hpool cpool s = svc_read hpool cpool s"
    and lt: "length p < length req"
    using less.prems by (auto simp: reading_def svc_step_def neq_Nil_conv [of cs])
  note go = svc_loop_next [OF x, of hpool cpool, unfolded st]
  consider p' cs' where "reading req later (svc_read hpool cpool s) p' cs'" "length p < length p'"
      "wrs (svc_read hpool cpool s) = wrs s" "sentbytes (svc_read hpool cpool s) = sentbytes s"
      "totalrequest (svc_read hpool cpool s) = totalrequest s"
    | "state (svc_read hpool cpool s) = HTTP_STATE_READREQDONE" "received req later s (svc_read hpool cpool s)"
    | s1 where "svc_read hpool cpool s = svc_request cpool s1" "received req later s s1"
    using reading_step [OF g less.prems len] by blast
  then show ?case
  proof cases
    case 1
    then show ?thesis
      using less.hyps [OF _ 1(1)] lt go by (auto simp: received_def)
  next
    case 2
    then have "svc_loop hpool cpool quiet 0 (svc_read hpool cpool s) =
        svc_loop hpool cpool quiet 0 (svc_request cpool (svc_read hpool cpool s))"
      using x by (subst svc_loop_next) (simp_all add: svc_step_def)
    with 2 go show ?thesis by auto
  next
    case 3
    with go show ?thesis by auto
  qed
qed

section \<open>Serving requests\<close>

lemma received_answer:
  assumes "received req later s s1" "wrs s = (n, False) # ws" "length (resp (wants_keepalive req)) \<le> n"
    "length cpool = 128" "length req \<le> 128"
  defines "t \<equiv> svc_request cpool s1"
  shows "svc_inv t \<and> state t = HTTP_STATE_KEEPALIVE \<and> \<not> exitState t \<and> rds t = later \<and> wrs t = ws
     \<and> totalrequest t = totalrequest s + 1 \<and> isKeepAlive t = wants_keepalive req
     \<and> sentbytes t = sentbytes s @ resp (wants_keepalive req)"
proof -
  have r: "content s1 req" "rds s1 = later" "wrs s1 = (n, False) # ws" "sentbytes s1 = sentbytes s"
    "totalrequest s1 = totalrequest s" "parse_ready s1"
    using assms by (simp_all add: received_def)
  have inv: "svc_inv t"
    unfolding t_def using r(6) assms(4) by (intro svc_request_inv) (simp_all add: parse_ready_def)
  have "length (case cmpbuf s1 of None \<Rightarrow> cpool | Some b \<Rightarrow> b) = 128"
    using r(6) assms(4) by (auto simp: parse_ready_def bufs_ok_def split: option.splits)
  then have k: "fst (httpKeepAliveParse (take (bufiobytes s1) (iobuf s1))
      (case cmpbuf s1 of None \<Rightarrow> cpool | Some b \<Rightarrow> b)) = wants_keepalive req"
    using r(1) assms(5) by (simp add: httpKeepAliveParse_prefix content_def)
  have n: "0 < n" "min n (length (resp (wants_keepalive req))) = length (resp (wants_keepalive req))"
    using assms(3) resp_nonempty(2) [of "wants_keepalive req"] by linarith+
  show ?thesis
    using inv r n
    by (simp add: t_def svc_request_unfold svc_respond_def k resp_def [symmetric] svc_send_def Let_def
        parse_ready_def)
qed

lemma keepalive_reading:
  assumes "svc_inv s" "state s = HTTP_STATE_KEEPALIVE" "\<not> exitState s"
    "totalrequest s = 0 \<or> isKeepAlive s" "rds s = arrivals cs @ later" "[] \<notin> set cs" "cs \<noteq> []"
    and len: "length hpool = 128" "length cpool = 128"
  defines "s0 \<equiv> s\<lparr>bufiobytes := 0, emptyio := 0, requestbytes := 0, methodok := False, onhdr := False,
     state := HTTP_STATE_READREQMETHOD\<rparr>"
  shows "reading (concat cs) later s0 [] cs"
    and "svc_step hpool cpool s = svc_step hpool cpool s0"
proof -
  show "reading (concat cs) later s0 [] cs"
    using assms
    by (auto simp: reading_def s0_def content_def svc_inv_def bufs_ok_def count_ok_def io_ok_def
        out_ok_def all_sent_def)
  show "svc_step hpool cpool s = svc_step hpool cpool s0"
    using assms by (auto simp: svc_step_def svc_keepalive_def s0_def Let_def)
qed

lemma serve_one:
  assumes g: "good_request (concat cs)" and cs: "[] \<notin> set cs"
    and s: "svc_inv s" "state s = HTTP_STATE_KEEPALIVE" "\<not> exitState s" "totalrequest s = 0 \<or> isKeepAlive s"
    and io: "rds s = arrivals cs @ later" "wrs s = (n, False) # ws"
      "length (resp (wants_keepalive (concat cs))) \<le> n"
    and len: "length hpool = 128" "length cpool = 128"
  shows "\<exists>t. svc_loop hpool cpool quiet 0 s = svc_loop hpool cpool quiet 0 t
     \<and> svc_inv t \<and> state t = HTTP_STATE_KEEPALIVE \<and> \<not> exitState t \<and> rds t = later \<and> wrs t = ws
     \<and> totalrequest t = totalrequest s + 1 \<and> isKeepAlive t = wants_keepalive (concat cs)
     \<and> sentbytes t = sentbytes s @ resp (wants_keepalive (concat cs))"
proof -
  let ?s0 = "s\<lparr>bufiobytes := 0, emptyio := 0, requestbytes := 0, methodok := False, onhdr := False,
     state := HTTP_STATE_READREQMETHOD\<rparr>"
  have ne: "cs \<noteq> []" using good_request_length [OF g] by auto
  note kr = keepalive_reading [OF s io(1) cs ne len]
  have "svc_loop hpool cpool quiet 0 s = svc_loop hpool cpool quiet 0 ?s0"
    using s(3) kr(2) by (simp add: svc_loop_next)
  then obtain s1 where "svc_loop hpool cpool quiet 0 s = svc_loop hpool cpool quiet 0 (svc_request cpool s1)"
      "received (concat cs) later ?s0 s1"
    using reading_run [OF g len kr(1)] by auto
  moreover from this(2) have "received (concat cs) later s s1" by (simp add: received_def)
  ultimately show ?thesis
    using received_answer [OF _ io(2,3) len(2)] good_request_length [OF g] by blast
qed

end
