(* ===== verification/Fast_Http_Props.thy ===== *)
theory Fast_Http_Props
  imports Fast_Http_Parse "HOL-Library.Multiset"
begin

text \<open>
  The properties of \<open>src/fasthttpserver/fasthttpserver.go\<close>: what a connection answers and
  reports, the bounds of its buffers, its termination, the request parser, the batches of the
  accept loop, the totals of the statistics goroutine, and the signals.
\<close>

section \<open>Serving a list of requests\<close>






text \<open>The end of a connection with some peer, some pooled buffers and some moment of a signal.\<close>

definition connection_end :: "svc_end \<Rightarrow> bool" where
  "connection_end r \<longleftrightarrow>
     (\<exists>mbuf hpool cpool sig rd wr. length mbuf = 48 \<and> length hpool = 128 \<and> length cpool = 128
        \<and> r = tinyhttpservice mbuf hpool cpool sig rd wr)"

lemma connection_end_total: "connection_end r \<Longrightarrow> sum_list (toRequestsCh r) = totalrequest (final r)"
  unfolding connection_end_def
proof (elim exE conjE)
  fix mbuf hpool cpool sig rd wr
  assume r: "length mbuf = 48" "length hpool = 128" "length cpool = 128"
    "r = tinyhttpservice mbuf hpool cpool sig rd wr"
  then have "svc_inv (svc_loop hpool cpool sig 0 (svc_init mbuf rd wr))"
    by (intro svc_loop_inv svc_init_inv)
  then show ?thesis using r(4) by (simp add: tinyhttpservice_def Let_def svc_inv_def count_ok_def)
qed

lemma connection_ends_total:
  "\<forall>r \<in> set rs. connection_end r \<Longrightarrow>
     sum_list (concat (map toRequestsCh rs)) = (\<Sum>r \<leftarrow> rs. totalrequest (final r))"
  by (induction rs) (simp_all add: connection_end_total)

lemma sum_list_of_nat: "sum_list (map of_nat ns) = (of_nat (sum_list ns) :: 'a :: semiring_1)"
  by (induction ns) auto

lemma sum_list_mset: "mset xs = mset ys \<Longrightarrow> sum_list xs = (sum_list ys :: 'a :: comm_monoid_add)"
  by (metis sum_mset_sum_list)

section \<open>Properties of a connection\<close>



text \<open>
  C12. Whatever the peer, the buffers of the pool and the moment of a signal: the numbers
  sent to \<open>requestsCh\<close> add up to the requests parsed, the bytes sent are one whole
  keep-alive response per request but the last, followed by a prefix of the last response,
  and the buffers go back to their pools with the length they were taken with.
\<close>

theorem tinyhttpservice_account:
  assumes "length mbuf = 48" "length hpool = 128" "length cpool = 128"
  shows "let r = tinyhttpservice mbuf hpool cpool sig rd wr
    in sum_list (toRequestsCh r) = totalrequest (final r)
     \<and> (\<exists>k j. sentbytes (final r) = answers_upto (totalrequest (final r)) k j)
     \<and> length (putMethod r) = 1 \<and> (\<forall>b \<in> set (putMethod r). length b = 48)
     \<and> length (putHeader r) \<le> 2 \<and> (\<forall>b \<in> set (putHeader r). length b = 128)"
proof -
  let ?t = "svc_loop hpool cpool sig 0 (svc_init mbuf rd wr)"
  have i: "svc_inv ?t" using assms by (intro svc_loop_inv svc_init_inv)
  then have "\<exists>k j. sentbytes ?t = answers_upto (totalrequest ?t) k j"
    by (cases "state ?t") (auto simp: svc_inv_def out_ok_def all_sent_def)
  with i show ?thesis
    by (auto simp: tinyhttpservice_def Let_def svc_inv_def count_ok_def bufs_ok_def split: option.splits)
qed

theorem tinyhttpservice_account_witness:
  "let r = tinyhttpservice (replicate 48 (CHR 0x00)) (replicate 128 (CHR 0x00)) (replicate 128 (CHR 0x00))
             (\<lambda>i. i = 3) [(''GET / HTTP/1.1'', False)] [(5, False)]
   in sum_list (toRequestsCh r) = totalrequest (final r) \<and> length (putMethod r) = 1"
  using tinyhttpservice_account [of "replicate 48 (CHR 0x00)" "replicate 128 (CHR 0x00)"
    "replicate 128 (CHR 0x00)" "\<lambda>i. i = 3" "[(''GET / HTTP/1.1'', False)]" "[(5, False)]"]
  by (simp add: Let_def)

text \<open>
  C20. In every reachable state of a connection the read position is inside the buffer in
  use, with room for at least one byte before every read; a write offers at least one byte;
  at most two empty reads or writes are counted; fewer than 1000 requests are unreported;
  the states between which the code only falls through are never seen by the loop.
\<close>

theorem tinyhttpservice_bounds:
  assumes "reaches svc_trans (svc_init mbuf rd wr) s" "length mbuf = 48"
  shows "(state s \<in> {HTTP_STATE_READREQMETHOD, HTTP_STATE_READREQHEADER} \<longrightarrow> bufiobytes s < length (iobuf s))
     \<and> (state s = HTTP_STATE_READREQDONE \<longrightarrow> bufiobytes s \<le> length (iobuf s))
     \<and> (state s = HTTP_STATE_SENDBODY \<longrightarrow> bufiobytes s < length (outbuf s))
     \<and> state s \<notin> {HTTP_STATE_PARSEREQHEADER, HTTP_STATE_READREQBODY, HTTP_STATE_PARSEREQBODY, HTTP_STATE_SENDHEADER}
     \<and> emptyio s \<le> MAX_EMPTY_IO \<and> reqoutcount s < 1000"
proof -
  have "svc_inv s" using svc_machine.inv_reaches [OF assms(1) svc_init_inv [OF assms(2)]] .
  then show ?thesis
    using iobuf_length [of s] by (cases "state s") (auto simp: svc_inv_def io_ok_def count_ok_def)
qed

theorem tinyhttpservice_bounds_witness:
  "let s = svc_init (replicate 48 (CHR 0x00)) [(''GET'', False)] []
   in bufiobytes (svc_step (replicate 128 (CHR 0x00)) (replicate 128 (CHR 0x00)) s)
      < length (iobuf (svc_step (replicate 128 (CHR 0x00)) (replicate 128 (CHR 0x00)) s))"
proof -
  let ?s = "svc_init (replicate 48 (CHR 0x00)) [(''GET'', False)] []"
  let ?h = "replicate 128 (CHR 0x00)"
  have "svc_trans ?s (svc_step ?h ?h ?s)"
    by (rule svc_iterate) (simp_all add: svc_init_def)
  then have "reaches svc_trans ?s (svc_step ?h ?h ?s)" by (rule reaches_one)
  moreover have "state (svc_step ?h ?h ?s) = HTTP_STATE_READREQMETHOD"
    by (simp add: svc_init_def svc_step_def svc_keepalive_def svc_read_def svc_parse_def Let_def iobuf_def
        set_iobuf_def)
  ultimately show ?thesis
    using tinyhttpservice_bounds [of "replicate 48 (CHR 0x00)" "[(''GET'', False)]" "[]" "svc_step ?h ?h ?s"]
    by (simp add: Let_def)
qed



section \<open>Properties of the request parser\<close>

text \<open>
  \<open>httpURIParser\<close> finds the end of a header whose lines have at least five bytes exactly
  when the blank line is complete: it answers 0 on the whole header, whatever follows, and
  asks for more on every proper prefix.
\<close>

theorem httpURIParser_exact:
  assumes "ls \<noteq> []" "\<forall>l \<in> set ls. header_line l"
  shows "httpURIParser (http_header ls @ rest) = (0, None)
     \<and> (strict_prefix p (http_header ls) \<longrightarrow> httpURIParser p = (1, None))"
  using assms httpURIParser_complete httpURIParser_prefix by blast

theorem httpURIParser_exact_witness:
  "httpURIParser (http_header [''GET / HTTP/1.1'', ''Host: a''] @ ''x'') = (0, None)
   \<and> httpURIParser (''GET / HTTP/1.1'' @ crlf) = (1, None)"
  using httpURIParser_exact [of "[''GET / HTTP/1.1'', ''Host: a'']" "''x''" "''GET / HTTP/1.1'' @ crlf"]
  by (simp add: header_line_def strict_prefix_def)

text \<open>
  \<open>httpURIParser\<close> answers 0 only on a buffer that contains an empty line, and a final
  answer, 0 or 2, is not changed by bytes that arrive later.
\<close>

theorem httpURIParser_final:
  assumes "fst (httpURIParser buf) \<noteq> 1"
  shows "httpURIParser (buf @ rest) = httpURIParser buf
     \<and> (fst (httpURIParser buf) = 0 \<longrightarrow>
          sublist [HTTP_CHAR_RT, HTTP_CHAR_RT] buf \<or> sublist (crlf @ crlf) buf)"
  using assms httpURIParser_sticky httpURIParser_sound by blast

theorem httpURIParser_final_witness:
  "httpURIParser ((''GET / HTTP/1.1'' @ crlf @ crlf) @ ''POST'') = (0, None)"
proof -
  have "httpURIParser (''GET / HTTP/1.1'' @ crlf @ crlf) = (0, None)"
    by (simp add: httpURIParser.simps)
  then show ?thesis
    using httpURIParser_final [of "''GET / HTTP/1.1'' @ crlf @ crlf" "''POST''"] by simp
qed

text \<open>
  A header line of fewer than five bytes before the carriage return makes the parser
  give up (2) although the header is complete; the service treats that answer like 1 and
  waits for bytes that cannot change it.
\<close>

theorem httpURIParser_short_line:
  assumes "\<forall>l \<in> set ls. header_line l" "length l < 5" "HTTP_CHAR_RT \<notin> set l" "l \<noteq> []"
  shows "fst (httpURIParser (concat (map (\<lambda>l. l @ crlf) ls) @ l @ crlf @ rest)) = 2
     \<and> (content s (concat (map (\<lambda>l. l @ crlf) ls) @ l @ crlf @ rest) \<and> bufiobytes s < HTTP_MAX_HEADER_SIZE
          \<and> requestbytes s < HTTP_MAX_HEADER_READ_SIZE
        \<longrightarrow> svc_header cpool False s = s\<lparr>state := HTTP_STATE_READREQHEADER\<rparr>)"
proof -
  have "fst (httpURIParser (concat (map (\<lambda>l. l @ crlf) ls) @ l @ crlf @ rest)) = 2"
    using assms(1)
  proof (induction ls)
    case Nil
    show ?case
      using assms(2,3) httpURIParser_line [of "l @ [HTTP_CHAR_LF]" rest] by simp
  next
    case (Cons k ls)
    let ?t = "concat (map (\<lambda>l. l @ crlf) ls) @ l @ crlf @ rest"
    have "\<exists>x y u. ?t = x # y # u \<and> x \<noteq> HTTP_CHAR_RT \<and> y \<noteq> HTTP_CHAR_RT \<or>
        (\<exists>x. l = [x] \<and> ls = [])"
    proof (cases ls)
      case Nil
      then show ?thesis using assms(3,4) by (cases l; cases "tl l") auto
    next
      case (Cons m ms)
      then have "header_line m" using Cons.prems by simp
      then show ?thesis using Cons by (elim header_line_start) auto
    qed
    moreover have "fst (httpURIParser ?t) = 2" using Cons by simp
    ultimately show ?case
      using Cons.prems httpURIParser_header_line [of k ?t] assms(3) by auto
  qed
  then show ?thesis by (simp add: svc_header_def content_def)
qed

theorem httpURIParser_short_line_witness:
  "fst (httpURIParser (''GET / HTTP/1.1'' @ crlf @ ''A:b'' @ crlf @ crlf)) = 2"
  using httpURIParser_short_line [of "[''GET / HTTP/1.1'']" "''A:b''" crlf]
  by (simp add: header_line_def)

section \<open>Properties of the server's goroutines\<close>

text \<open>
  The accept loop starts the connections in the order of their acceptance, in batches
  of at least one and at most \<open>batchAcceptLen\<close>; the batch sizes it reports add up to the
  connections it has started, which the wait group counts; what it has accepted and not yet
  started is the current batch.
\<close>

theorem worker_batches:
  assumes "0 < b"
  shows "let w = foldl (worker_step b) worker_init evs
    in launched w @ connBatch w = accepted_of evs
     \<and> length (connBatch w) \<le> b \<and> (\<forall>k \<in> set (toAcceptedCh w). 0 < k \<and> k \<le> b)
     \<and> sum_list (toAcceptedCh w) = length (launched w) \<and> closewg w = length (launched w)"
proof -
  obtain b' where b': "b = Suc b'" using assms by (cases b) auto
  have "worker_inv b (foldl (worker_step b) worker_init evs)"
    unfolding b' by (rule worker_run.inv_run) simp
  then show ?thesis
    using worker_run_conns [of worker_init b evs] by (simp add: Let_def worker_inv_def)
qed

theorem worker_batches_witness:
  "let w = foldl (worker_step 2) worker_init
     [\<lparr>seenExit = False, ticked = False, acceptAns = Accepted (7::nat)\<rparr>,
      \<lparr>seenExit = False, ticked = False, acceptAns = Accepted 8\<rparr>,
      \<lparr>seenExit = False, ticked = False, acceptAns = Accepted 9\<rparr>]
   in launched w @ connBatch w = [7, 8, 9] \<and> sum_list (toAcceptedCh w) = length (launched w)"
  using worker_batches [of 2 "[\<lparr>seenExit = False, ticked = False, acceptAns = Accepted (7::nat)\<rparr>,
      \<lparr>seenExit = False, ticked = False, acceptAns = Accepted 8\<rparr>,
      \<lparr>seenExit = False, ticked = False, acceptAns = Accepted 9\<rparr>]"]
  by (simp add: Let_def)

text \<open>
  A connection accepted in the iteration before the worker leaves its loop is neither
  started nor reported, and no later event starts it.
\<close>

theorem worker_drops_last_batch:
  "let w = foldl (worker_step b) worker_init
       (\<lparr>seenExit = False, ticked = t, acceptAns = Accepted c\<rparr>
        # \<lparr>seenExit = True, ticked = t', acceptAns = a\<rparr> # evs)
   in \<not> running w \<and> connBatch w = [c] \<and> launched w = [] \<and> toAcceptedCh w = []"
proof -
  let ?w = "worker_init\<lparr>connBatch := [c]\<rparr>"
  have "worker_step b worker_init \<lparr>seenExit = False, ticked = t, acceptAns = Accepted c\<rparr> = ?w"
    by (simp add: worker_step_accept worker_accept_def worker_flush_def)
  moreover have "worker_step b ?w \<lparr>seenExit = True, ticked = t', acceptAns = a\<rparr> = ?w\<lparr>running := False\<rparr>"
    by (simp add: worker_step_exit)
  ultimately show ?thesis by (simp add: Let_def) (simp add: worker_init_def)
qed

text \<open>
  \<open>requestCounter\<close> prints its last line exactly when all three channels have been closed;
  the line then shows the sum of the numbers received on each channel before it was closed,
  whatever the interleaving, and as running the difference of accepted and closed.
\<close>

theorem requestCounter_totals:
  "(requestCounter esp evs \<noteq> None \<longleftrightarrow> {RequestsClosed, AcceptedClosed, ClosedClosed} \<subseteq> set evs)
   \<and> (\<forall>out. requestCounter esp evs = Some out \<longrightarrow> out \<noteq> []
       \<and> st_requests (last out) = sum_list (map req_num (takeWhile (\<lambda>e. e \<noteq> RequestsClosed) evs))
       \<and> st_accepted (last out) = sum_list (map acc_num (takeWhile (\<lambda>e. e \<noteq> AcceptedClosed) evs))
       \<and> st_closed (last out) = sum_list (map clo_num (takeWhile (\<lambda>e. e \<noteq> ClosedClosed) evs))
       \<and> st_running (last out) = st_accepted (last out) - st_closed (last out))"
proof -
  have "exitCount (counter_run evs) < 3 \<longleftrightarrow> \<not> {RequestsClosed, AcceptedClosed, ClosedClosed} \<subseteq> set evs"
    using counter_nilD(4) [of evs] by simp
  then show ?thesis
    by (auto simp: requestCounter_def Let_def stats_of_def finishedNum_run acceptNum_run closedNum_run)
qed

theorem requestCounter_totals_witness:
  "st_requests (last (the (requestCounter 5
      [Requests 3, AcceptedNum 2, Tick 9, RequestsClosed, ClosedNum 2, AcceptedClosed, ClosedClosed]))) = 3"
  using requestCounter_totals [of 5 "[Requests 3, AcceptedNum 2, Tick 9, RequestsClosed, ClosedNum 2, AcceptedClosed, ClosedClosed]"]
  by auto

text \<open>
  The requests shown at the end are the requests parsed on all connections: if what the
  counter receives before \<open>requestsCh\<close> is closed is what the services sent, in any order, the
  last line shows the sum of their totals (modulo the width of \<open>int\<close>).
\<close>

theorem requests_reported:
  assumes "\<forall>r \<in> set rs. connection_end r"
    and "mset (concat (map (\<lambda>e. case e of Requests n \<Rightarrow> [n] | _ \<Rightarrow> []) (takeWhile (\<lambda>e. e \<noteq> RequestsClosed) evs)))
         = mset (map of_nat (concat (map toRequestsCh rs)))"
    and "requestCounter esp evs = Some out"
  shows "st_requests (last out) = of_nat (\<Sum>r \<leftarrow> rs. totalrequest (final r))"
proof -
  have "sum_list (concat (map (\<lambda>e. case e of Requests n \<Rightarrow> [n] | _ \<Rightarrow> []) xs)) = sum_list (map req_num xs)" for xs
    by (induction xs) (auto simp: req_num_def split: counter_event.splits)
  moreover have "st_requests (last out) = finishedNum (counter_run evs)"
    using assms(3) by (auto simp: requestCounter_def Let_def stats_of_def split: if_splits)
  ultimately show ?thesis
    using sum_list_mset [OF assms(2)] connection_ends_total [OF assms(1)]
    by (simp add: finishedNum_run sum_list_of_nat)
qed

theorem requests_reported_witness:
  "let r = tinyhttpservice (replicate 48 (CHR 0x00)) (replicate 128 (CHR 0x00)) (replicate 128 (CHR 0x00))
             (\<lambda>_. True) [] []
   in st_requests (last (the (requestCounter 1
        [Requests 0, RequestsClosed, ClosedNum 1, AcceptedClosed, ClosedClosed]))) = of_nat (totalrequest (final r))"
proof -
  let ?r = "tinyhttpservice (replicate 48 (CHR 0x00)) (replicate 128 (CHR 0x00)) (replicate 128 (CHR 0x00))
             (\<lambda>_. True) [] []"
  have "toRequestsCh ?r = [0]"
    by (simp add: tinyhttpservice_def Let_def svc_loop.simps svc_init_def)
  moreover have "connection_end ?r"
    unfolding connection_end_def by (intro exI conjI) (rule length_replicate length_replicate length_replicate refl)+
  moreover have "requestCounter 1 [Requests 0, RequestsClosed, ClosedNum 1, AcceptedClosed, ClosedClosed] \<noteq> None"
    by (simp add: requestCounter_def counter_step_simps counter_init_def Let_def)
  ultimately show ?thesis
    using requests_reported [of "[?r]" "[Requests 0, RequestsClosed, ClosedNum 1, AcceptedClosed, ClosedClosed]" 1]
    by (auto simp: Let_def)
qed

text \<open>
  The first signal closes the listener and makes every loop leave; it is closed once,
  whatever follows; the process aborts with code 9 at the eleventh signal and not before.
\<close>

theorem signals_close_once:
  "let s = foldl signal_step signal_init sgs
   in exitSignaled s = (sgs \<noteq> []) \<and> lfdClosed s = of_bool (sgs \<noteq> [])
    \<and> exitCode s = (if length sgs \<ge> 11 then Some 9 else None)"
  using signal_run [of sgs] by (simp add: Let_def)

end
