(* ===== verification/Host_List.thy ===== *)
theory Host_List
  imports Go_Strings
begin

text \<open>
  The host lists of \<open>src/tcpengine/tcpengine.go\<close>: \<open>ResolveHostList\<close> and
  \<open>ResolveHostPortList\<close>.

  The maps they return have every key equal to its value and are kept as the list of their
  keys.  Go iterates over a map in an arbitrary order; where the order shows, the
  theorems speak of the set of keys.  The loop over a range of addresses counts in a 64-bit
  \<open>int\<close> and does not end when the upper end is the largest one: not returning is \<open>None\<close>.
\<close>

section \<open>ResolveHostList\<close>

definition put :: "'a \<Rightarrow> 'a list \<Rightarrow> 'a list" where
  "put k m = (if k \<in> set m then m else m @ [k])"

partial_function (option) range_loop :: "bytes \<Rightarrow> i64 \<Rightarrow> i64 \<Rightarrow> bytes list \<Rightarrow> bytes list option" where
  "range_loop pre idx endint iplist =
     (if idx \<le>s endint
      then range_loop pre (idx + 1) endint (put (pre @ ''.'' @ Itoa (sint idx)) iplist)
      else Some iplist)"

definition cut_scheme :: "bytes \<Rightarrow> bytes" where
  "cut_scheme val = (case Index val ''://'' of Some shptr \<Rightarrow> take shptr val | None \<Rightarrow> val)"

definition host_range :: "bytes \<Rightarrow> bytes \<Rightarrow> bytes list \<Rightarrow> bytes list option" where
  "host_range val tail iplist =
     (case LastIndexByte val (CHR ''.'') of
        None \<Rightarrow> Some iplist
      | Some dotptr \<Rightarrow>
          if dotptr + 1 > length val then Some iplist
          else (case Atoi (drop (dotptr + 1) val) of
              (_, Some err) \<Rightarrow> Some iplist
            | (firstint, None) \<Rightarrow>
                (case Index tail ''-'' of
                   None \<Rightarrow> Some iplist
                 | Some ptr \<Rightarrow>
                     if ptr + 1 > length tail then Some iplist
                     else (case Atoi (drop (ptr + 1) tail) of
                         (_, Some err) \<Rightarrow> Some iplist
                       | (endint, None) \<Rightarrow>
                           (let (lo, hi) = (if endint < firstint then (endint, firstint) else (firstint, endint))
                            in range_loop (take dotptr val) (word_of_int lo + 1) (word_of_int hi) iplist)))))"

definition resolve_one :: "bytes \<Rightarrow> bytes list \<Rightarrow> bytes list option" where
  "resolve_one v iplist =
     (let val = cut_scheme (ToLower v)
      in case Index val ''-'' of
           None \<Rightarrow> Some (put val iplist)
         | Some ptr \<Rightarrow> host_range (take ptr val) (drop ptr val) (put (take ptr val) iplist))"

fun resolve_all :: "bytes list \<Rightarrow> bytes list \<Rightarrow> bytes list option" where
  "resolve_all [] iplist = Some iplist"
| "resolve_all (v # vs) iplist =
     (case resolve_one v iplist of None \<Rightarrow> None | Some m \<Rightarrow> resolve_all vs m)"

definition host_fields :: "bytes \<Rightarrow> bytes list" where
  "host_fields lst = SplitAll (CHR '' '') (ReplaceAll ''  '' '' '' (ReplaceAll '','' '' '' lst))"

definition ResolveHostList :: "bytes \<Rightarrow> bytes list option" where
  "ResolveHostList lst =
     (let addrs = host_fields lst in if length addrs = 0 then Some [] else resolve_all addrs [])"

section \<open>ResolveHostPortList\<close>

definition default_port :: "bytes \<Rightarrow> bytes" where
  "default_port val =
     (case LastIndexByte val (CHR '':'') of
        None \<Rightarrow> val @ '':80''
      | Some ptr \<Rightarrow> if ptr = length val - 1 then val @ ''80'' else val)"

definition resolve_port_one :: "bytes \<Rightarrow> bytes list \<Rightarrow> bytes list option" where
  "resolve_port_one v iplist =
     (let val = default_port (cut_scheme (ToLower v))
      in case LastIndexByte val (CHR '':'') of
           None \<Rightarrow> Some iplist
         | Some ptr \<Rightarrow>
             (let tail = drop ptr val
              in if snd (Atoi (drop 1 tail)) \<noteq> None then Some iplist
                 else (case ResolveHostList (if length (take ptr val) = 0 then ''0.0.0.0'' else take ptr val) of
                         None \<Rightarrow> None
                       | Some hlist \<Rightarrow> Some (foldl (\<lambda>m h. put (h @ tail) m) iplist hlist))))"

fun resolve_port_all :: "bytes list \<Rightarrow> bytes list \<Rightarrow> bytes list option" where
  "resolve_port_all [] iplist = Some iplist"
| "resolve_port_all (v # vs) iplist =
     (case resolve_port_one v iplist of None \<Rightarrow> None | Some m \<Rightarrow> resolve_port_all vs m)"

definition ResolveHostPortList :: "bytes \<Rightarrow> bytes list option" where
  "ResolveHostPortList lst =
     (let addrs = host_fields lst in if length addrs = 0 then Some [] else resolve_port_all addrs [])"

section \<open>Lemmas\<close>

lemma set_put [simp]: "set (put k m) = insert k (set m)"
  by (auto simp: put_def)

lemma distinct_put: "distinct m \<Longrightarrow> distinct (put k m)"
  by (simp add: put_def)

lemma Index_single: "Index s [c] = IndexByte s c"
  by (induction s) (auto simp: prefix_Cons)

lemma sint_word_of_int: "min_i64 \<le> a \<Longrightarrow> a \<le> max_i64 \<Longrightarrow> sint (word_of_int a :: i64) = a"
  by (simp add: signed_of_int signed_take_bit_int_eq_self)

lemma range_loop_returns:
  assumes "min_i64 \<le> a" "a \<le> hi + 1" "min_i64 \<le> hi" "hi < max_i64"
  shows "\<exists>m'. range_loop pre (word_of_int a) (word_of_int hi) m = Some m' \<and> (distinct m \<longrightarrow> distinct m')
     \<and> set m' = set m \<union> (\<lambda>i. pre @ ''.'' @ Itoa i) ` {a..hi}"
  using assms
proof (induction "nat (hi + 1 - a)" arbitrary: a m)
  case 0
  then have "a = hi + 1" by simp
  then have "\<not> (word_of_int a :: i64) \<le>s word_of_int hi"
    using 0 sint_word_of_int [of "hi + 1"] sint_word_of_int [of hi] by (simp add: word_sle_eq del: of_int_add)
  then show ?case
    using \<open>a = hi + 1\<close> by (subst range_loop.simps) simp
next
  case (Suc n)
  have le: "(word_of_int a :: i64) \<le>s word_of_int hi" and s: "sint (word_of_int a :: i64) = a"
    using Suc sint_word_of_int [of a] sint_word_of_int [of hi] by (simp_all add: word_sle_eq)
  have nx: "n = nat (hi + 1 - (a + 1))" "min_i64 \<le> a + 1" "a + 1 \<le> hi + 1"
    using Suc.hyps(2) Suc.prems by simp_all
  then have "{a..hi} = insert a {a + 1..hi}" by auto
  moreover obtain m' where m': "range_loop pre (word_of_int (a + 1)) (word_of_int hi) (put (pre @ ''.'' @ Itoa a) m) = Some m'"
      "distinct (put (pre @ ''.'' @ Itoa a) m) \<longrightarrow> distinct m'"
      "set m' = set (put (pre @ ''.'' @ Itoa a) m) \<union> (\<lambda>i. pre @ ''.'' @ Itoa i) ` {a + 1..hi}"
    using Suc.hyps(1) [of "a + 1" "put (pre @ ''.'' @ Itoa a) m", OF nx Suc.prems(3,4)] Suc.prems by auto
  moreover have "range_loop pre (word_of_int a) (word_of_int hi) m =
      range_loop pre (word_of_int (a + 1)) (word_of_int hi) (put (pre @ ''.'' @ Itoa a) m)"
    using le s by (subst range_loop.simps) simp
  ultimately show ?case
    by (intro exI [of _ m']) (auto dest: distinct_put)
qed

lemma range_loop_diverges: "range_loop pre idx (word_of_int max_i64) m = None"
proof -
  have top: "idx \<le>s word_of_int max_i64" for idx :: i64
    using sint_less [of idx] sint_word_of_int [of max_i64] by (simp add: word_sle_eq)
  have ne: "endint \<noteq> word_of_int max_i64" if "range_loop pre idx endint m = Some r" for pre idx endint m r
  proof (rule range_loop.raw_induct [where P = "\<lambda>_ _ e _ _. e \<noteq> word_of_int max_i64", OF _ that])
    fix rl :: "bytes \<Rightarrow> i64 \<Rightarrow> i64 \<Rightarrow> bytes list \<Rightarrow> bytes list option" and pre idx endint m r
    assume ih: "\<And>pre idx endint m r. rl pre idx endint m = Some r \<Longrightarrow> endint \<noteq> word_of_int max_i64"
      and r: "(if idx \<le>s endint then rl pre (idx + 1) endint (put (pre @ ''.'' @ Itoa (sint idx)) m)
               else Some m) = Some r"
    then show "endint \<noteq> word_of_int max_i64"
      using ih [of pre "idx + 1" endint] top [of idx] by (auto split: if_splits)
  qed
  show ?thesis
  proof (rule ccontr)
    assume "range_loop pre idx (word_of_int max_i64) m \<noteq> None"
    then obtain r where "range_loop pre idx (word_of_int max_i64) m = Some r" by blast
    from ne [OF this] show False by (rule notE) (rule refl)
  qed
qed

lemma ReplaceAll_absent:
  "c \<notin> set s \<Longrightarrow> ReplaceAll (c # cs) new s = s"
proof (induction s)
  case (Cons x xs)
  then show ?case by (subst ReplaceAll.simps) auto
qed (simp add: ReplaceAll.simps)

lemma ReplaceAll_comma:
  "c \<notin> set a \<Longrightarrow> ReplaceAll [c] new (a @ c # b) = a @ new @ ReplaceAll [c] new b"
proof (induction a)
  case Nil
  show ?case by (subst ReplaceAll.simps) simp
next
  case (Cons x xs)
  then show ?case by (subst ReplaceAll.simps) auto
qed

text \<open>A field that passes through the separators unchanged.\<close>

definition plain_field :: "bytes \<Rightarrow> bool" where
  "plain_field v \<longleftrightarrow> v \<noteq> [] \<and> CHR '' '' \<notin> set v \<and> CHR '','' \<notin> set v"

lemma commas_to_spaces:
  "\<forall>v \<in> set vs. plain_field v \<Longrightarrow> ReplaceAll '','' '' '' (join (CHR '','') vs) = join (CHR '' '') vs"
proof (induction "CHR '',''" vs rule: join.induct)
  case 1
  show ?case by (simp add: ReplaceAll.simps)
next
  case (2 x)
  then show ?case by (simp add: ReplaceAll_absent plain_field_def)
next
  case (3 x y ys)
  then show ?case by (simp add: ReplaceAll_comma plain_field_def)
qed

lemma spaces_kept:
  "\<forall>v \<in> set vs. plain_field v \<Longrightarrow> ReplaceAll ''  '' '' '' (join (CHR '' '') vs) = join (CHR '' '') vs"
proof (induction "CHR '' ''" vs rule: join.induct)
  case 1
  show ?case by (simp add: ReplaceAll.simps)
next
  case (2 x)
  then show ?case by (simp add: ReplaceAll_absent plain_field_def)
next
  case (3 x y ys)
  have pass: "CHR '' '' \<notin> set a \<Longrightarrow> b \<noteq> [] \<Longrightarrow> hd b \<noteq> CHR '' '' \<Longrightarrow>
      ReplaceAll ''  '' '' '' (a @ CHR '' '' # b) = a @ CHR '' '' # ReplaceAll ''  '' '' '' b" for a b
  proof (induction a)
    case Nil
    then show ?case by (subst ReplaceAll.simps) (auto simp: neq_Nil_conv)
  next
    case (Cons x xs)
    then show ?case by (subst ReplaceAll.simps) auto
  qed
  have "join (CHR '' '') (y # ys) \<noteq> []" "hd (join (CHR '' '') (y # ys)) \<noteq> CHR '' ''"
  proof -
    obtain u where "join (CHR '' '') (y # ys) = y @ u" by (cases ys) auto
    moreover have "y \<noteq> []" "hd y \<noteq> CHR '' ''"
      using "3.prems" by (auto simp: plain_field_def neq_Nil_conv)
    ultimately show "join (CHR '' '') (y # ys) \<noteq> []" "hd (join (CHR '' '') (y # ys)) \<noteq> CHR '' ''"
      by simp_all
  qed
  with 3 pass [of x "join (CHR '' '') (y # ys)"] show ?case by (simp add: plain_field_def)
qed

lemma SplitAll_join:
  "vs \<noteq> [] \<Longrightarrow> \<forall>v \<in> set vs. c \<notin> set v \<Longrightarrow> SplitAll c (join c vs) = vs"
  by (induction c vs rule: join.induct) (simp_all add: SplitAll_no_sep SplitAll_append)

lemma host_fields_join:
  "vs \<noteq> [] \<Longrightarrow> \<forall>v \<in> set vs. plain_field v \<Longrightarrow> host_fields (join (CHR '','') vs) = vs"
  by (simp add: host_fields_def commas_to_spaces spaces_kept SplitAll_join plain_field_def)

section \<open>One field\<close>

lemma set_itoa_nat: "c \<in> set (itoa_nat n) \<Longrightarrow> is_digit c"
  using itoa_nat_digits [of n] by (simp add: list_all_iff)

lemma itoa_nat_no [simp]:
  "CHR ''-'' \<notin> set (itoa_nat n)" "CHR ''.'' \<notin> set (itoa_nat n)" "CHR '':'' \<notin> set (itoa_nat n)"
  "CHR '' '' \<notin> set (itoa_nat n)" "CHR '','' \<notin> set (itoa_nat n)"
  by (auto dest!: set_itoa_nat simp: is_digit_def)

lemma to_lower_digit: "is_digit c \<Longrightarrow> to_lower_char c = c"
  by (auto simp: is_digit_def to_lower_char_def Let_def)

lemma ToLower_itoa_nat [simp]: "ToLower (itoa_nat n) = itoa_nat n"
  unfolding ToLower_def by (rule map_idI) (rule to_lower_digit [OF set_itoa_nat])

lemma ToLower_append: "ToLower (a @ b) = ToLower a @ ToLower b"
  by (simp add: ToLower_def)

lemma ToLower_sep:
  "ToLower (CHR ''.'' # s) = CHR ''.'' # ToLower s" "ToLower (CHR ''-'' # s) = CHR ''-'' # ToLower s"
  "ToLower (CHR '':'' # s) = CHR '':'' # ToLower s"
  by (simp_all add: ToLower_def to_lower_char_def)

lemma cut_scheme_no_colon: "CHR '':'' \<notin> set v \<Longrightarrow> cut_scheme v = v"
proof -
  assume "CHR '':'' \<notin> set v"
  then have "Index v ''://'' = None" by (auto simp: Index_None sublist_def)
  then show ?thesis by (simp add: cut_scheme_def)
qed

text \<open>A lower-case host without separators: what stands before the last number of an address.\<close>

definition host_part :: "bytes \<Rightarrow> bool" where
  "host_part h \<longleftrightarrow> ToLower h = h \<and> set h \<inter> {CHR ''-'', CHR '':'', CHR '' '', CHR '',''} = {}"

definition address :: "bytes \<Rightarrow> nat \<Rightarrow> bytes" where
  "address p i = p @ ''.'' @ itoa_nat i"

definition range_text :: "bytes \<Rightarrow> nat \<Rightarrow> nat \<Rightarrow> bytes" where
  "range_text p m n = address p m @ ''-'' @ itoa_nat n"

lemma resolve_one_plain:
  assumes "host_part h"
  shows "resolve_one h iplist = Some (put h iplist)"
  using assms
  by (auto simp: resolve_one_def host_part_def cut_scheme_no_colon Index_single Let_def)

lemma Atoi_itoa_nat: "int n \<le> max_i64 \<Longrightarrow> Atoi (itoa_nat n) = (int n, None)"
  using Atoi_Itoa [of "int n"] by (simp add: Itoa_def)

lemma resolve_one_range_eq:
  assumes p: "host_part p" and b: "int m \<le> max_i64" "int n \<le> max_i64"
  shows "resolve_one (range_text p m n) iplist =
     range_loop p (word_of_int (int (min m n)) + 1) (word_of_int (int (max m n))) (put (address p m) iplist)"
proof -
  let ?v = "range_text p m n"
  have low: "ToLower ?v = ?v"
    using p by (simp add: range_text_def address_def ToLower_append ToLower_sep host_part_def)
  have "cut_scheme ?v = ?v"
    using p by (intro cut_scheme_no_colon) (auto simp: range_text_def address_def host_part_def)
  moreover have "Index ?v ''-'' = Some (length (address p m))"
    using p IndexByte_first [of "CHR ''-''" "address p m" "itoa_nat n"]
    by (simp add: Index_single range_text_def address_def host_part_def)
  moreover have "take (length (address p m)) ?v = address p m" "drop (length (address p m)) ?v = CHR ''-'' # itoa_nat n"
    by (simp_all add: range_text_def)
  moreover have "LastIndexByte (address p m) (CHR ''.'') = Some (length p)"
    using LastIndexByte_last [of "CHR ''.''" "itoa_nat m" p] by (simp add: address_def)
  moreover have "drop (length p + 1) (address p m) = itoa_nat m" "take (length p) (address p m) = p"
    "length p + 1 \<le> length (address p m)"
    by (simp_all add: address_def)
  ultimately show ?thesis
    using b low
    by (simp add: resolve_one_def host_range_def Atoi_itoa_nat Index_single Let_def min_def max_def)
qed

end
