(* ===== verification/Host_List_Props.thy ===== *)
theory Host_List_Props
  imports Host_List
begin

text \<open>The properties of \<open>ResolveHostList\<close> and \<open>ResolveHostPortList\<close>.\<close>

section \<open>What a list of hosts denotes\<close>

datatype host_spec = Host bytes | Range bytes nat nat

fun spec_text :: "host_spec \<Rightarrow> bytes" where
  "spec_text (Host h) = h"
| "spec_text (Range p m n) = range_text p m n"

fun spec_ok :: "host_spec \<Rightarrow> bool" where
  "spec_ok (Host h) \<longleftrightarrow> host_part h \<and> h \<noteq> []"
| "spec_ok (Range p m n) \<longleftrightarrow> host_part p \<and> int m < max_i64 \<and> int n < max_i64"

text \<open>A range written backwards denotes its addresses without the lower end.\<close>

fun spec_hosts :: "host_spec \<Rightarrow> bytes set" where
  "spec_hosts (Host h) = {h}"
| "spec_hosts (Range p m n) = address p ` (if m \<le> n then {m..n} else {n<..m})"

lemma spec_plain: "spec_ok s \<Longrightarrow> plain_field (spec_text s)"
  by (cases s) (auto simp: plain_field_def host_part_def range_text_def address_def)

lemma address_Itoa: "0 \<le> i \<Longrightarrow> p @ ''.'' @ Itoa i = address p (nat i)"
  by (simp add: address_def Itoa_def)

lemma address_image: "(\<lambda>i. p @ ''.'' @ Itoa i) ` {int a..int b} = address p ` {a..b}"
proof -
  have "{int a..int b} = int ` {a..b}" by (simp add: image_int_atLeastAtMost)
  then show ?thesis by (simp add: image_image address_Itoa del: append_Cons)
qed

lemma resolve_one_spec:
  assumes "spec_ok s"
  shows "\<exists>m. resolve_one (spec_text s) iplist = Some m \<and> (distinct iplist \<longrightarrow> distinct m)
    \<and> set m = set iplist \<union> spec_hosts s"
proof (cases s)
  case (Host h)
  then show ?thesis using assms by (auto simp: resolve_one_plain distinct_put)
next
  case (Range p m n)
  with assms have p: "host_part p" and b: "int m < max_i64" "int n < max_i64" by simp_all
  have "(word_of_int (int (min m n)) + 1 :: i64) = word_of_int (int (min m n) + 1)" by simp
  then have e: "resolve_one (range_text p m n) iplist =
      range_loop p (word_of_int (int (min m n) + 1)) (word_of_int (int (max m n))) (put (address p m) iplist)"
    using resolve_one_range_eq [OF p, of m n] b by simp
  have pr: "min_i64 \<le> int (min m n) + 1" "int (min m n) + 1 \<le> int (max m n) + 1"
      "min_i64 \<le> int (max m n)" "int (max m n) < max_i64"
    using b by simp_all
  obtain m' where m': "range_loop p (word_of_int (int (min m n) + 1)) (word_of_int (int (max m n))) (put (address p m) iplist) = Some m'"
      "distinct (put (address p m) iplist) \<longrightarrow> distinct m'"
      "set m' = set (put (address p m) iplist) \<union> (\<lambda>i. p @ ''.'' @ Itoa i) ` {int (min m n) + 1..int (max m n)}"
    using range_loop_returns [OF pr, of p "put (address p m) iplist"] by blast
  have "{int (min m n) + 1..int (max m n)} = {int (Suc (min m n))..int (max m n)}" by simp
  then have "set m' = insert (address p m) (set iplist) \<union> address p ` {Suc (min m n)..max m n}"
    using m'(3) by (simp only: address_image set_put)
  moreover have "insert m {Suc (min m n)..max m n} = (if m \<le> n then {m..n} else {n<..m})" by auto
  then have "spec_hosts s = address p ` insert m {Suc (min m n)..max m n}"
    unfolding Range spec_hosts.simps by simp
  ultimately have "set m' = set iplist \<union> spec_hosts s" by auto
  with e m' Range show ?thesis by (auto simp: distinct_put)
qed

lemma resolve_all_specs:
  "\<forall>s \<in> set ss. spec_ok s \<Longrightarrow> distinct iplist \<Longrightarrow>
     \<exists>m. resolve_all (map spec_text ss) iplist = Some m \<and> distinct m
       \<and> set m = set iplist \<union> (\<Union>s \<in> set ss. spec_hosts s)"
proof (induction ss arbitrary: iplist)
  case (Cons s ss)
  obtain m where m: "resolve_one (spec_text s) iplist = Some m" "distinct m" "set m = set iplist \<union> spec_hosts s"
    using resolve_one_spec [of s iplist] Cons.prems by auto
  from Cons.IH [OF _ m(2)] Cons.prems obtain m' where
    "resolve_all (map spec_text ss) m = Some m'" "distinct m'" "set m' = set m \<union> (\<Union>s \<in> set ss. spec_hosts s)"
    by auto
  with m show ?case by auto
qed simp

lemma ResolveHostList_specs:
  assumes "ss \<noteq> []" "\<forall>s \<in> set ss. spec_ok s"
  shows "\<exists>m. ResolveHostList (join (CHR '','') (map spec_text ss)) = Some m \<and> distinct m
       \<and> set m = (\<Union>s \<in> set ss. spec_hosts s)"
  using assms resolve_all_specs [of ss "[]"] host_fields_join [of "map spec_text ss"]
  by (simp add: ResolveHostList_def spec_plain)

section \<open>Properties\<close>



text \<open>
  A range written backwards loses the address at its lower end, which the same range
  written forwards contains.
\<close>

theorem ResolveHostList_reversed:
  assumes "host_part p" "n < m" "int m < max_i64"
  shows "\<exists>fwd rev. ResolveHostList (range_text p n m) = Some fwd \<and> ResolveHostList (range_text p m n) = Some rev
      \<and> set fwd = insert (address p n) (set rev) \<and> address p n \<notin> set rev"
proof -
  obtain fwd where fwd: "ResolveHostList (range_text p n m) = Some fwd" "set fwd = address p ` {n..m}"
    using ResolveHostList_specs [of "[Range p n m]"] assms by auto
  obtain rev where rev: "ResolveHostList (range_text p m n) = Some rev" "set rev = address p ` {n<..m}"
    using ResolveHostList_specs [of "[Range p m n]"] assms by auto
  have "inj (address p)"
    by (intro injI) (simp add: address_def, metis dec_val_itoa_nat)
  then have "address p n \<notin> address p ` {n<..m}" by (auto dest: injD)
  moreover have "{n..m} = insert n {n<..m}" using assms by auto
  ultimately show ?thesis using fwd rev by simp
qed

theorem ResolveHostList_reversed_witness:
  "\<exists>fwd rev. ResolveHostList (range_text ''10.0.0'' 3 5) = Some fwd \<and> ResolveHostList (range_text ''10.0.0'' 5 3) = Some rev
      \<and> set fwd = insert (address ''10.0.0'' 3) (set rev) \<and> address ''10.0.0'' 3 \<notin> set rev"
  using ResolveHostList_reversed [of "''10.0.0''" 3 5]
  by (simp add: host_part_def ToLower_def to_lower_char_def)

text \<open>
  A range up to the largest 64-bit number never returns: its loop counter wraps around
  before it exceeds the upper end.
\<close>

theorem ResolveHostList_diverges:
  assumes "host_part p" "int (max m n) = max_i64"
  shows "ResolveHostList (range_text p m n) = None"
proof -
  have "plain_field (range_text p m n)"
    using assms by (auto simp: plain_field_def host_part_def range_text_def address_def)
  then have "host_fields (range_text p m n) = [range_text p m n]"
    using host_fields_join [of "[range_text p m n]"] by simp
  moreover have "resolve_one (range_text p m n) [] = None"
    using resolve_one_range_eq [of p m n "[]"] assms range_loop_diverges
    by (simp del: of_int_of_nat_eq add: max_def min_def split: if_splits)
  ultimately show ?thesis by (simp add: ResolveHostList_def)
qed

theorem ResolveHostList_diverges_witness:
  "ResolveHostList (range_text ''10.0.0'' 1 (nat max_i64)) = None"
  using ResolveHostList_diverges [of "''10.0.0''" 1 "nat max_i64"]
  by (simp add: host_part_def ToLower_def to_lower_char_def)

text \<open>
  A host given as a URL is resolved to the name of its scheme: the code keeps what
  stands before \<open>://\<close> and drops the rest.
\<close>

theorem ResolveHostList_scheme:
  assumes "host_part sch" "sch \<noteq> []" "CHR '' '' \<notin> set rest" "CHR '','' \<notin> set rest"
  shows "ResolveHostList (sch @ ''://'' @ rest) = Some [sch]"
proof -
  let ?v = "sch @ ''://'' @ rest"
  have "plain_field ?v" using assms by (auto simp: plain_field_def host_part_def)
  then have f: "host_fields ?v = [?v]" using host_fields_join [of "[?v]"] by simp
  have low: "ToLower ?v = sch @ ''://'' @ ToLower rest"
    using assms by (simp add: ToLower_append ToLower_sep host_part_def) (simp add: ToLower_def to_lower_char_def)
  have "Index (a @ ''://'' @ b) ''://'' = Some (length a)" if "CHR '':'' \<notin> set a" for a b
    using that by (induction a) auto
  then have "cut_scheme (ToLower ?v) = sch"
    unfolding low using assms(1) by (simp add: cut_scheme_def host_part_def del: append_Cons)
  moreover have "Index sch ''-'' = None"
    using assms(1) by (simp add: Index_single host_part_def)
  ultimately show ?thesis
    using f by (simp add: ResolveHostList_def resolve_one_def put_def Let_def)
qed

theorem ResolveHostList_scheme_witness:
  "ResolveHostList ''http://www.163.com'' = Some [''http'']"
  using ResolveHostList_scheme [of "''http''" "''www.163.com''"]
  by (simp add: host_part_def ToLower_def to_lower_char_def)

end
