(* ===== verification/Tcp_Config.thy ===== *)
theory Tcp_Config
  imports Host_List
begin

text \<open>
  The parts of \<open>src/tcpengine/tcpengine.go\<close> that compute before or beside the connections:
  the command line (\<open>NewCmdConfig\<close>), the local addresses (\<open>addressParse\<close>) and their pools
  (\<open>Start\<close>), the pacing of \<open>qpsctl\<close>, and the reports of \<open>stat\<close> and \<open>gcRunner\<close>.

  \<open>net.ResolveTCPAddr\<close> is a parameter.  Counters and limits are 64-bit words where the code
  computes with them.
\<close>

section \<open>Config and the command line\<close>

record config =
  hostport :: bytes
  showhelp :: bool
  listenMode :: bool
  monoMode :: bool
  noworkload :: bool
  exitmax :: bool
  nomap :: bool
  twoway :: bool
  gctest :: bool
  cpus :: i64
  QPSLimit :: i64
  duration :: i64
  interval :: i64
  maxConcurrent :: i64
  laddrlist :: bytes
  cprofile :: bool
  httpprofile :: bytes
  notifys :: "nat list"
  exits :: "nat list"

text \<open>A setting of the command line, as package \<open>flag\<close> hands it to the variable.\<close>

datatype flag_value = BoolFlag bool | IntFlag i64 | StringFlag bytes

definition flag_defaults :: "nat list \<Rightarrow> nat list \<Rightarrow> config" where
  "flag_defaults ns es =
     \<lparr>hostport = ''127.0.0.1:5180'', showhelp = False, listenMode = False, monoMode = False,
      noworkload = False, exitmax = False, nomap = False, twoway = False, gctest = False,
      cpus = 0, QPSLimit = 0, duration = 0, interval = 0, maxConcurrent = 0,
      laddrlist = ''127.0.0.10-180'', cprofile = False, httpprofile = [],
      notifys = ns, exits = es\<rparr>"

fun set_flag :: "config \<Rightarrow> bytes \<times> flag_value \<Rightarrow> config option" where
  "set_flag c (name, BoolFlag b) =
     (if name = ''h'' then Some (c\<lparr>showhelp := b\<rparr>)
      else if name = ''l'' then Some (c\<lparr>listenMode := b\<rparr>)
      else if name = ''F'' then Some (c\<lparr>monoMode := b\<rparr>)
      else if name = ''E'' then Some (c\<lparr>exitmax := b\<rparr>)
      else if name = ''P'' then Some (c\<lparr>cprofile := b\<rparr>)
      else if name = ''N'' then Some (c\<lparr>noworkload := b\<rparr>)
      else if name = ''W'' then Some (c\<lparr>twoway := b\<rparr>)
      else if name = ''G'' then Some (c\<lparr>gctest := b\<rparr>)
      else if name = ''M'' then Some (c\<lparr>nomap := b\<rparr>)
      else None)"
| "set_flag c (name, IntFlag i) =
     (if name = ''t'' then Some (c\<lparr>cpus := i\<rparr>)
      else if name = ''c'' then Some (c\<lparr>maxConcurrent := i\<rparr>)
      else if name = ''q'' then Some (c\<lparr>QPSLimit := i\<rparr>)
      else if name = ''I'' then Some (c\<lparr>interval := i\<rparr>)
      else if name = ''d'' then Some (c\<lparr>duration := i\<rparr>)
      else None)"
| "set_flag c (name, StringFlag s) =
     (if name = ''T'' then Some (c\<lparr>hostport := s\<rparr>)
      else if name = ''i'' then Some (c\<lparr>laddrlist := s\<rparr>)
      else if name = ''H'' then Some (c\<lparr>httpprofile := s\<rparr>)
      else None)"

fun parse_flags :: "config \<Rightarrow> (bytes \<times> flag_value) list \<Rightarrow> config option" where
  "parse_flags c [] = Some c"
| "parse_flags c (a # as) = (case set_flag c a of None \<Rightarrow> None | Some c' \<Rightarrow> parse_flags c' as)"

text \<open>\<open>Inl\<close> is the exit code of the process: 2 from \<open>flag.Parse\<close>, 1 after the usage text.\<close>

definition NewCmdConfig :: "nat list \<Rightarrow> nat list \<Rightarrow> (bytes \<times> flag_value) list \<Rightarrow> nat + config" where
  "NewCmdConfig ns es args =
     (case parse_flags (flag_defaults ns es) args of
        None \<Rightarrow> Inl 2
      | Some c \<Rightarrow>
          if length (hostport c) = 0 \<or> showhelp c then Inl 1
          else (let c1 = (if maxConcurrent c <s 0 then c\<lparr>maxConcurrent := 0\<rparr> else c);
                    c2 = (if QPSLimit c1 \<le>s 0 then c1\<lparr>QPSLimit := 0\<rparr> else c1)
                in Inr c2))"

section \<open>addressParse\<close>

type_synonym 'a resolver = "bytes \<Rightarrow> 'a option"

text \<open>The ports of one address; the flag tells that the limit was reached.\<close>

fun port_loop :: "'a resolver \<Rightarrow> bytes \<Rightarrow> i64 \<Rightarrow> nat list \<Rightarrow> i64 \<Rightarrow> 'a list \<Rightarrow> i64 \<times> 'a list" where
  "port_loop rslv ip maxaddr [] cnt acc = (cnt, acc)"
| "port_loop rslv ip maxaddr (lport # ports) cnt acc =
     (case rslv (ip @ '':'' @ Itoa (int lport)) of
        None \<Rightarrow> port_loop rslv ip maxaddr ports cnt acc
      | Some addr \<Rightarrow>
          if maxaddr \<le>s cnt + 1 then (cnt + 1, acc @ [addr])
          else port_loop rslv ip maxaddr ports (cnt + 1) (acc @ [addr]))"

fun ip_loop :: "'a resolver \<Rightarrow> i64 \<Rightarrow> nat list \<Rightarrow> bytes list \<Rightarrow> i64 \<Rightarrow> 'a list \<Rightarrow> 'a list" where
  "ip_loop rslv maxaddr ports [] cnt acc = acc"
| "ip_loop rslv maxaddr ports (ip # ips) cnt acc =
     (case port_loop rslv ip maxaddr ports cnt acc of
        (cnt', acc') \<Rightarrow> if maxaddr \<le>s cnt' then acc' else ip_loop rslv maxaddr ports ips cnt' acc')"

definition local_ports :: "nat list" where
  "local_ports = [8535..<65536]"

definition reduce_max :: "i64 \<Rightarrow> nat \<Rightarrow> i64" where
  "reduce_max maxc len =
     (let laddrcnt = of_nat len
      in if laddrcnt <s maxc then (if 10000 <s maxc then laddrcnt - 500 else laddrcnt) else maxc)"

text \<open>The addresses for the map of hosts in the order in which it is iterated, and the new limit.\<close>

definition address_list :: "'a resolver \<Rightarrow> bytes list \<Rightarrow> nat list \<Rightarrow> i64 \<Rightarrow> 'a list \<times> i64" where
  "address_list rslv localips ports maxc =
     (let maxaddr = (if maxc = 0 then word_of_int max_i64 else maxc * 2);
          laddrList = ip_loop rslv maxaddr ports localips 0 []
      in (laddrList, reduce_max maxc (length laddrList)))"

text \<open>\<open>order\<close> is the order in which Go iterates over the map this time.\<close>

definition addressParse ::
  "'a resolver \<Rightarrow> (bytes list \<Rightarrow> bytes list) \<Rightarrow> bytes \<Rightarrow> i64 \<Rightarrow> ('a list \<times> i64) option"
where
  "addressParse rslv order laddrs maxc =
     (case ResolveHostList (if length laddrs = 0 then ''0.0.0.0'' else laddrs) of
        None \<Rightarrow> None
      | Some localips \<Rightarrow> Some (address_list rslv (order localips) local_ports maxc))"

section \<open>Start: the pools of local addresses\<close>

text \<open>
  One buffered channel per worker.  A send on a full channel blocks: nothing receives yet,
  so the start would hang, which is \<open>None\<close>.
\<close>

definition pool_send :: "nat \<Rightarrow> nat \<Rightarrow> nat \<Rightarrow> nat list list \<Rightarrow> nat list list option" where
  "pool_send cap i x pools =
     (if length (pools ! i) < cap then Some (pools[i := pools ! i @ [x]]) else None)"

fun preload_loop :: "nat \<Rightarrow> nat \<Rightarrow> nat list \<Rightarrow> nat list list \<Rightarrow> nat list list option" where
  "preload_loop cap ncpu [] pools = Some pools"
| "preload_loop cap ncpu (connidx # is) pools =
     (case pool_send cap (connidx mod ncpu) connidx pools of
        None \<Rightarrow> None
      | Some pools' \<Rightarrow> preload_loop cap ncpu is pools')"

definition avglen :: "nat \<Rightarrow> nat \<Rightarrow> nat" where
  "avglen naddr ncpu = naddr div ncpu + ncpu"

definition preload :: "nat \<Rightarrow> nat \<Rightarrow> nat list list option" where
  "preload naddr ncpu = preload_loop (avglen naddr ncpu) ncpu [0..<naddr] (replicate ncpu [])"

section \<open>qpsctl\<close>

text \<open>
  The search for a batch: the delay grows by a millisecond until the limit divided by the
  ticks per second is at least one.  Times are nanoseconds.  A division by zero panics.
\<close>

datatype qps_plan = Plan nat nat nat | DivideByZero

partial_function (option) qps_search :: "nat \<Rightarrow> nat \<Rightarrow> qps_plan option" where
  "qps_search limit qpsdelay =
     (let split = 1000000000 div qpsdelay
      in if split = 0 then Some DivideByZero
         else let batch = limit div split
              in if batch > 0 then Some (Plan qpsdelay split batch)
                 else qps_search limit (qpsdelay + 1000000))"

definition qpsctl_plan :: "nat \<Rightarrow> qps_plan option" where
  "qpsctl_plan limit = qps_search limit 1000000"

text \<open>One round of the sender: a batch of tokens, as far as the channel has room.\<close>

definition qps_round :: "nat \<Rightarrow> nat \<Rightarrow> nat \<Rightarrow> nat option" where
  "qps_round cap batch tokens = (if tokens + batch \<le> cap then Some (tokens + batch) else None)"

section \<open>stat and gcRunner\<close>

record rates =
  rpre :: i64
  riopre :: i64
  rrwpre :: i64

text \<open>
  A tick of \<open>stat\<close>: a report when a counter has changed.  The three rates are fractions: the
  numerator wrapped at 64 bits and the elapsed time.
\<close>

definition stat_tick :: "rates \<Rightarrow> i64 \<Rightarrow> i64 \<Rightarrow> i64 \<Rightarrow> i64 \<Rightarrow> rates \<times> (i64 \<times> i64 \<times> i64 \<times> i64 \<times> i64) option" where
  "stat_tick r cnt iocnt rwcnt elapsed =
     (if rpre r \<noteq> cnt \<or> riopre r \<noteq> iocnt \<or> rrwpre r \<noteq> rwcnt then
        (let esp = (if elapsed \<le>s 0 then 1 else elapsed)
         in (\<lparr>rpre = cnt, riopre = iocnt, rrwpre = rwcnt\<rparr>,
             Some (cnt, esp, (cnt - rpre r) * 1000000000, (iocnt - riopre r) * 1000000000,
                   (rwcnt - rrwpre r) * 1000000000)))
      else (r, None))"

datatype gc_action = RunGC | FreeOSMemory

record gc_state =
  gpre :: i64
  giopre :: i64
  grwpre :: i64
  norepeatgc :: bool

definition gc_tick :: "bool \<Rightarrow> gc_state \<Rightarrow> i64 \<Rightarrow> i64 \<Rightarrow> i64 \<Rightarrow> gc_state \<times> gc_action option" where
  "gc_tick gct g cnt iocnt rwcnt =
     (if 0 <s cnt then
        (if gct \<and> (gpre g \<noteq> cnt \<or> giopre g \<noteq> iocnt \<or> grwpre g \<noteq> rwcnt)
         then (g\<lparr>gpre := cnt, norepeatgc := False\<rparr>, Some RunGC)
         else (g\<lparr>norepeatgc := False\<rparr>, None))
      else if \<not> norepeatgc g then (g\<lparr>norepeatgc := True, gpre := cnt\<rparr>, Some FreeOSMemory)
      else (g, None))"

end
