(* ===== verification/Tcp_Engine.thy ===== *)
theory Tcp_Engine
  imports Tcp_Config "HOL-Library.Multiset"
begin

text \<open>
  The goroutines of \<open>src/tcpengine/tcpengine.go\<close> and the state they share: connectors or
  acceptors, the handles of the connections, signals, closing and waiting.

  A section of code between \<open>maxLock.Lock\<close> and the unlock (or \<open>maxCond.Wait\<close>) is one step; so is
  every channel operation, atomic addition or system call outside.  Any interleaving of
  the goroutines is a path of \<open>eng_step\<close>.  A file descriptor is the number of its dial or accept.
\<close>

section \<open>State\<close>

record engine_conf =
  emax :: int
  eexitmax :: bool
  enomap :: bool
  elisten :: bool
  ncpu :: nat
  elfds :: "nat list"

text \<open>
  The place of a connector or acceptor: at the top of its loop, with the new connection if
  there is one; in \<open>maxCond.Wait\<close>; waiting for an address index; dialling from that
  address; in \<open>AcceptTCP\<close>; returned.
\<close>

datatype worker_pc =
    WTop "(nat \<times> nat) option" | WWait | WTake | WDial nat | WAccept | WExit

text \<open>A handle runs, has to give its address back, has to leave the map.\<close>

datatype handle_phase = HRun | HPut | HDel

type_synonym handle = "nat \<times> nat \<times> nat \<times> handle_phase"

record engine =
  closing :: bool
  engclosed :: bool
  aliveCount :: int
  newCount :: nat
  rwCount :: nat
  conns :: "nat \<rightharpoonup> nat"
  laddrPool :: "nat list list"
  switchCloses :: nat
  workloadon :: bool
  closedListeners :: "nat set"
  openfds :: "nat list"
  hands :: "handle list"
  works :: "worker_pc list"
  waited :: bool

section \<open>The sections under the lock\<close>

text \<open>\<open>maxCond.Broadcast\<close>: every waiter goes back to the top of its loop.\<close>

definition wake :: "worker_pc \<Rightarrow> worker_pc" where
  "wake w = (case w of WWait \<Rightarrow> WTop None | _ \<Rightarrow> w)"

definition broadcast :: "engine \<Rightarrow> engine" where
  "broadcast e = e\<lparr>works := map wake (works e)\<rparr>"

definition close_fd :: "nat \<Rightarrow> engine \<Rightarrow> engine" where
  "close_fd c e = e\<lparr>openfds := removeAll c (openfds e)\<rparr>"

definition pool_put :: "nat \<Rightarrow> nat \<Rightarrow> engine \<Rightarrow> engine" where
  "pool_put i ci e = e\<lparr>laddrPool := (laddrPool e)[i := laddrPool e ! i @ [ci]]\<rparr>"

definition set_pc :: "nat \<Rightarrow> worker_pc \<Rightarrow> engine \<Rightarrow> engine" where
  "set_pc i w e = e\<lparr>works := (works e)[i := w]\<rparr>"

text \<open>Returning from the loop runs the broadcast after it.\<close>

definition leave :: "nat \<Rightarrow> engine \<Rightarrow> engine" where
  "leave i e = broadcast (set_pc i WExit e)"

text \<open>
  An acceptor closes its own listener when it returns.  The listeners of the acceptors are
  \<open>elfds\<close>; several acceptors may share one.
\<close>

definition close_listener :: "engine_conf \<Rightarrow> nat \<Rightarrow> engine \<Rightarrow> engine" where
  "close_listener cf i e = e\<lparr>closedListeners := insert (elfds cf ! i) (closedListeners e)\<rparr>"

definition close_listeners :: "engine_conf \<Rightarrow> engine \<Rightarrow> engine" where
  "close_listeners cf e = e\<lparr>closedListeners := closedListeners e \<union> set (elfds cf)\<rparr>"

definition full :: "engine_conf \<Rightarrow> engine \<Rightarrow> bool" where
  "full cf e \<longleftrightarrow> emax cf > 0 \<and> aliveCount e \<ge> emax cf"

definition hold_on :: "engine_conf \<Rightarrow> nat \<Rightarrow> engine \<Rightarrow> engine" where
  "hold_on cf i e =
     (if eexitmax cf then leave i (e\<lparr>closing := True\<rparr>)
      else if \<not> workloadon e then set_pc i WWait (e\<lparr>workloadon := True, switchCloses := switchCloses e + 1\<rparr>)
      else set_pc i WWait e)"

definition start_handle :: "engine_conf \<Rightarrow> nat \<Rightarrow> nat \<times> nat \<Rightarrow> engine \<Rightarrow> engine" where
  "start_handle cf i nc e =
     (case nc of (ci, c) \<Rightarrow>
        e\<lparr>conns := (if enomap cf then conns e else (conns e)(ci \<mapsto> c)),
          aliveCount := aliveCount e + 1, hands := hands e @ [(i, ci, c, HRun)]\<rparr>)"

definition connector_section :: "engine_conf \<Rightarrow> nat \<Rightarrow> (nat \<times> nat) option \<Rightarrow> engine \<Rightarrow> engine" where
  "connector_section cf i nc e =
     (if closing e then leave i e
      else if full cf e then
        hold_on cf i (case nc of None \<Rightarrow> e | Some (ci, c) \<Rightarrow> pool_put i ci (close_fd c e))
      else set_pc i WTake (case nc of None \<Rightarrow> e | Some x \<Rightarrow> start_handle cf i x e))"

definition acceptor_section :: "engine_conf \<Rightarrow> nat \<Rightarrow> (nat \<times> nat) option \<Rightarrow> engine \<Rightarrow> engine" where
  "acceptor_section cf i nc e =
     (if closing e then leave i (close_listener cf i e)
      else if full cf e then
        (let e1 = (case nc of None \<Rightarrow> e | Some (ci, c) \<Rightarrow> close_fd c e)
         in if eexitmax cf then leave i (close_listener cf i (e1\<lparr>closing := True\<rparr>)) else hold_on cf i e1)
      else set_pc i WAccept (case nc of None \<Rightarrow> e | Some x \<Rightarrow> start_handle cf i x e))"

section \<open>Dialling and accepting\<close>

datatype dial_result = DialOk | DialInUse | DialTimeout | DialError

definition take_index :: "nat \<Rightarrow> engine \<Rightarrow> engine option" where
  "take_index i e =
     (case laddrPool e ! i of
        [] \<Rightarrow> None
      | ci # q \<Rightarrow> Some (set_pc i (WDial ci) (e\<lparr>laddrPool := (laddrPool e)[i := q]\<rparr>)))"

definition dialled :: "nat \<Rightarrow> nat \<Rightarrow> dial_result \<Rightarrow> engine \<Rightarrow> engine" where
  "dialled i ci r e =
     (case r of
        DialOk \<Rightarrow> set_pc i (WTop (Some (ci, newCount e)))
          (e\<lparr>openfds := openfds e @ [newCount e], newCount := newCount e + 1\<rparr>)
      | DialInUse \<Rightarrow> set_pc i (WTop None) e
      | DialTimeout \<Rightarrow> set_pc i (WTop None) e
      | DialError \<Rightarrow> leave i (e\<lparr>closing := True\<rparr>))"

definition accepted :: "engine_conf \<Rightarrow> nat \<Rightarrow> bool \<Rightarrow> engine \<Rightarrow> engine" where
  "accepted cf i ok e =
     (if ok then set_pc i (WTop (Some (newCount e + 1, newCount e)))
        (e\<lparr>openfds := openfds e @ [newCount e], newCount := newCount e + 1\<rparr>)
      else leave i (close_listener cf i (e\<lparr>closing := True\<rparr>)))"

section \<open>Handles\<close>

datatype io = IoOk | IoErr

text \<open>
  One round of the loop of \<open>serverHandle\<close> and of \<open>clientHandle\<close>: whether it is completed, which
  counts it.  \<open>rd\<close> and \<open>wr\<close> are the results of \<open>Read\<close> and \<open>Write\<close>.
\<close>

definition server_round :: "config \<Rightarrow> io \<Rightarrow> io \<Rightarrow> bool" where
  "server_round conf rd wr =
     (if noworkload conf then rd = IoOk
      else if rd = IoErr then False
      else if twoway conf then wr = IoOk
      else True)"

definition client_round :: "config \<Rightarrow> io \<Rightarrow> io \<Rightarrow> bool" where
  "client_round conf rd wr =
     (if noworkload conf then rd = IoOk
      else if wr = IoErr then False
      else if twoway conf then rd = IoOk
      else True)"

text \<open>
  The loop until an error or the closing flag: the rounds counted and the tokens of
  \<open>qpschannel\<close> taken.  Each element is the flag seen and the results of the round.
\<close>

fun handle_loop :: "(config \<Rightarrow> io \<Rightarrow> io \<Rightarrow> bool) \<Rightarrow> config \<Rightarrow> (bool \<times> io \<times> io) list \<Rightarrow> nat \<times> nat" where
  "handle_loop round_ok conf [] = (0, 0)"
| "handle_loop round_ok conf ((closing_seen, rd, wr) # es) =
     (if closing_seen then (0, 0)
      else let tok = (if \<not> noworkload conf \<and> 0 <s QPSLimit conf then 1 else 0)
           in if round_ok conf rd wr
              then (case handle_loop round_ok conf es of (n, t) \<Rightarrow> (n + 1, t + tok))
              else (0, tok))"

definition serverHandle :: "config \<Rightarrow> (bool \<times> io \<times> io) list \<Rightarrow> nat \<times> nat" where
  "serverHandle conf es = handle_loop server_round conf es"

definition clientHandle :: "config \<Rightarrow> (bool \<times> io \<times> io) list \<Rightarrow> nat \<times> nat" where
  "clientHandle conf es = handle_loop client_round conf es"

definition set_hand :: "nat \<Rightarrow> handle \<Rightarrow> engine \<Rightarrow> engine" where
  "set_hand k h e = e\<lparr>hands := (hands e)[k := h]\<rparr>"

text \<open>The end of a handle: the connection is closed and counted off.\<close>

definition handle_end :: "engine_conf \<Rightarrow> nat \<Rightarrow> handle \<Rightarrow> engine \<Rightarrow> engine" where
  "handle_end cf k h e =
     (case h of (i, ci, c, _) \<Rightarrow>
        set_hand k (i, ci, c, if elisten cf then HDel else HPut)
          ((close_fd c e)\<lparr>aliveCount := aliveCount e - 1\<rparr>))"

definition handle_put :: "nat \<Rightarrow> handle \<Rightarrow> engine \<Rightarrow> engine" where
  "handle_put k h e = (case h of (i, ci, c, _) \<Rightarrow> set_hand k (i, ci, c, HDel) (pool_put i ci e))"

definition handle_del :: "engine_conf \<Rightarrow> nat \<Rightarrow> handle \<Rightarrow> engine \<Rightarrow> engine" where
  "handle_del cf k h e =
     (case h of (i, ci, c, _) \<Rightarrow>
        e\<lparr>conns := (if enomap cf then conns e else (conns e)(ci := None)),
          hands := take k (hands e) @ drop (Suc k) (hands e)\<rparr>)"

section \<open>Signals, Close, workerWait\<close>

record sig_state =
  exitcnt :: nat
  forced :: bool

definition sig_exit :: "engine_conf \<Rightarrow> engine \<Rightarrow> engine" where
  "sig_exit cf e = broadcast (close_listeners cf (e\<lparr>closing := True\<rparr>))"

definition sigHandle :: "config \<Rightarrow> engine_conf \<Rightarrow> sig_state \<times> engine \<Rightarrow> nat \<Rightarrow> sig_state \<times> engine" where
  "sigHandle conf cf st sg =
     (case st of (s, e) \<Rightarrow>
        if forced s then (s, e)
        else let (s1, e1) = (if \<not> closing e
                   then (s, if sg \<in> set (exits conf) then sig_exit cf e else e)
                   else (s\<lparr>exitcnt := exitcnt s + 1\<rparr>, e))
             in if closing e1 \<and> exitcnt s1 > 5 then (s1\<lparr>forced := True\<rparr>, e1) else (s1, e1))"

definition Close :: "engine_conf \<Rightarrow> engine \<Rightarrow> bool \<times> engine" where
  "Close cf e = (if engclosed e then (False, e) else (True, (close_listeners cf e)\<lparr>closing := True\<rparr>))"

text \<open>\<open>workerWait\<close> after \<open>wg.Wait\<close> up to the polling loop, and the end of that loop.\<close>

definition close_conns :: "engine \<Rightarrow> engine" where
  "close_conns e = e\<lparr>openfds := filter (\<lambda>c. c \<notin> ran (conns e)) (openfds e)\<rparr>"

definition workerWait :: "engine_conf \<Rightarrow> engine \<Rightarrow> engine" where
  "workerWait cf e =
     (let e1 = broadcast (close_listeners cf (e\<lparr>closing := True\<rparr>));
          e2 = close_conns e1
      in e2\<lparr>switchCloses := (if switchCloses e2 > 0 then switchCloses e2 else 1), waited := True\<rparr>)"

definition destroy :: "engine \<Rightarrow> engine" where
  "destroy e = (if aliveCount e = 0 then e\<lparr>engclosed := True\<rparr> else e)"

definition maxUnlock :: "engine_conf \<Rightarrow> engine \<Rightarrow> engine" where
  "maxUnlock cf e = (if emax cf = 0 then e else if aliveCount e < emax cf then broadcast e else e)"

section \<open>NewEngine and Start\<close>

text \<open>The signals an engine listens to.\<close>

definition NewEngine_sigList :: "config \<Rightarrow> nat list" where
  "NewEngine_sigList conf =
     (if length (notifys conf) > 0 then notifys conf else []) @ (if length (exits conf) > 0 then exits conf else [])"

text \<open>
  What the system answers to \<open>Start\<close>: the target resolves, \<open>GOMAXPROCS(-1)\<close>, the order in which
  the map of local addresses is iterated, \<open>ResolveTCPAddr\<close> for a local address, the profile
  files open, and the results of the \<open>ListenTCP\<close> calls.
\<close>

record 'a start_env =
  resolves :: bool
  gomaxprocs :: nat
  iteration :: "bytes list \<Rightarrow> bytes list"
  resolver :: "'a resolver"
  profile_ok :: bool
  listens :: "nat option list"

datatype goroutine =
    GSigHandle | GConnector nat | GAcceptor nat nat | GMaxUnlock | GQpsctl | GGcRunner | GStat
  | GWorkerWait | GAutoClose

record started =
  scpus :: nat
  spools :: "nat list list"
  slistenfds :: "nat list"
  smax :: i64
  sswitchClosed :: bool
  sqpscap :: i64
  sgos :: "goroutine list"

text \<open>
  The process exits, \<open>Start\<close> returns an error, never returns, panics (a channel of negative
  capacity), or the engine runs.
\<close>

datatype start_result = StartExit | StartErr | StartHangs | StartPanic | Running started

text \<open>\<open>GOMAXPROCS\<close> ignores an argument below one and then returns the setting in force.\<close>

definition start_cpus :: "bool \<Rightarrow> i64 \<Rightarrow> nat \<Rightarrow> nat" where
  "start_cpus listening want gomax =
     (let w = (if want = 0 then (if listening then int gomax div 4 + 1 else int gomax div 2 + 1) else sint want)
      in if w < 1 then gomax else nat w)"

text \<open>The first listener serves every worker for which another one cannot be opened.\<close>

fun listen_loop :: "nat \<Rightarrow> nat option list \<Rightarrow> nat \<Rightarrow> nat list" where
  "listen_loop l rs 0 = []"
| "listen_loop l [] (Suc n) = l # listen_loop l [] n"
| "listen_loop l (r # rs) (Suc n) = (case r of None \<Rightarrow> l | Some nl \<Rightarrow> nl) # listen_loop l rs n"

definition start_tail :: "config \<Rightarrow> started \<Rightarrow> start_result" where
  "start_tail conf st =
     (let st1 = (if 0 <s smax st then st\<lparr>sgos := sgos st @ [GMaxUnlock]\<rparr> else st\<lparr>sswitchClosed := True\<rparr>)
      in if 0 <s QPSLimit conf \<and> QPSLimit conf * 2 <s 0 then StartPanic
         else (let st2 = (if 0 <s QPSLimit conf
                          then st1\<lparr>sqpscap := QPSLimit conf * 2, sgos := sgos st1 @ [GQpsctl]\<rparr> else st1);
                   st3 = st2\<lparr>sgos := sgos st2 @ [GGcRunner]\<rparr>;
                   st4 = (if 0 <s interval conf then st3\<lparr>sgos := sgos st3 @ [GStat]\<rparr> else st3);
                   st5 = st4\<lparr>sgos := sgos st4 @ [GWorkerWait]\<rparr>
               in Running (if 0 <s duration conf then st5\<lparr>sgos := sgos st5 @ [GAutoClose]\<rparr> else st5)))"

definition start_client :: "config \<Rightarrow> 'a start_env \<Rightarrow> goroutine list \<Rightarrow> start_result" where
  "start_client conf env gos =
     (let n = start_cpus False (cpus conf) (gomaxprocs env)
      in case addressParse (resolver env) (iteration env) (laddrlist conf) (maxConcurrent conf) of
           None \<Rightarrow> StartHangs
         | Some (laddrList, maxc) \<Rightarrow>
             if length laddrList = 0 then StartExit
             else (case preload (length laddrList) n of
                 None \<Rightarrow> StartHangs
               | Some pl \<Rightarrow>
                   if cprofile conf \<and> \<not> profile_ok env then StartExit
                   else start_tail conf
                     \<lparr>scpus = n, spools = pl, slistenfds = [], smax = maxc, sswitchClosed = False, sqpscap = 0,
                      sgos = gos @ map GConnector [0..<n]\<rparr>))"

definition start_server :: "config \<Rightarrow> 'a start_env \<Rightarrow> goroutine list \<Rightarrow> start_result" where
  "start_server conf env gos =
     (let n = start_cpus True (cpus conf) (gomaxprocs env)
      in case listens env of
           Some l # rs \<Rightarrow>
             if cprofile conf \<and> \<not> profile_ok env then StartExit
             else (let fds = l # listen_loop l rs (n - 1)
                   in start_tail conf
                     \<lparr>scpus = n, spools = [], slistenfds = fds, smax = maxConcurrent conf,
                      sswitchClosed = False, sqpscap = 0,
                      sgos = gos @ map (\<lambda>(i, fd). GAcceptor i fd) (zip [0..<length fds] fds)\<rparr>)
         | _ \<Rightarrow> StartErr)"

definition Start :: "config \<Rightarrow> 'a start_env \<Rightarrow> start_result" where
  "Start conf env =
     (if \<not> resolves env then StartErr
      else let gos = (if length (NewEngine_sigList conf) > 0 then [GSigHandle] else [])
           in if \<not> listenMode conf then start_client conf env gos else start_server conf env gos)"

section \<open>The step relation\<close>

text \<open>
  The state in which \<open>Start\<close> leaves the engine.  With no limit the work load is on: the channel is
  closed after the workers are started, which only delays the first handles.
\<close>

definition start_state :: "engine_conf \<Rightarrow> nat list list \<Rightarrow> engine" where
  "start_state cf pl =
     \<lparr>closing = False, engclosed = False, aliveCount = 0, newCount = 0, rwCount = 0, conns = Map.empty,
      laddrPool = pl, switchCloses = (if emax cf > 0 then 0 else 1), workloadon = (emax cf \<le> 0),
      closedListeners = {}, openfds = [], hands = [], works = replicate (ncpu cf) (WTop None),
      waited = False\<rparr>"

inductive eng_step :: "engine_conf \<Rightarrow> engine \<Rightarrow> engine \<Rightarrow> bool" for cf where
  step_connector: "\<not> elisten cf \<Longrightarrow> i < length (works e) \<Longrightarrow> works e ! i = WTop nc \<Longrightarrow>
     eng_step cf e (connector_section cf i nc e)"
| step_acceptor: "elisten cf \<Longrightarrow> i < length (works e) \<Longrightarrow> works e ! i = WTop nc \<Longrightarrow>
     eng_step cf e (acceptor_section cf i nc e)"
| step_take: "i < length (works e) \<Longrightarrow> works e ! i = WTake \<Longrightarrow> take_index i e = Some e' \<Longrightarrow>
     eng_step cf e e'"
| step_dial: "i < length (works e) \<Longrightarrow> works e ! i = WDial ci \<Longrightarrow> eng_step cf e (dialled i ci r e)"
| step_accept: "i < length (works e) \<Longrightarrow> works e ! i = WAccept \<Longrightarrow>
     (ok \<longrightarrow> elfds cf ! i \<notin> closedListeners e) \<Longrightarrow> eng_step cf e (accepted cf i ok e)"
| step_round: "k < length (hands e) \<Longrightarrow> hands e ! k = (i, ci, c, HRun) \<Longrightarrow> switchCloses e > 0 \<Longrightarrow>
     eng_step cf e (e\<lparr>rwCount := rwCount e + 1\<rparr>)"
| step_handle_end: "k < length (hands e) \<Longrightarrow> hands e ! k = (i, ci, c, HRun) \<Longrightarrow> switchCloses e > 0 \<Longrightarrow>
     eng_step cf e (handle_end cf k (hands e ! k) e)"
| step_handle_put: "k < length (hands e) \<Longrightarrow> hands e ! k = (i, ci, c, HPut) \<Longrightarrow>
     eng_step cf e (handle_put k (hands e ! k) e)"
| step_handle_del: "k < length (hands e) \<Longrightarrow> hands e ! k = (i, ci, c, HDel) \<Longrightarrow>
     eng_step cf e (handle_del cf k (hands e ! k) e)"
| step_signal: "eng_step cf e (sig_exit cf e)"
| step_close: "(waited e \<longrightarrow> engclosed e) \<Longrightarrow> eng_step cf e (snd (Close cf e))"
| step_wait: "\<forall>w \<in> set (works e). w = WExit \<Longrightarrow> \<not> waited e \<Longrightarrow> eng_step cf e (workerWait cf e)"
| step_destroy: "waited e \<Longrightarrow> eng_step cf e (destroy e)"
| step_unlock: "eng_step cf e (maxUnlock cf e)"

inductive_cases eng_stepE: "eng_step cf e e'"

end
