(* ===== verification/Tcp_Engine_Inv.thy ===== *)
theory Tcp_Engine_Inv
  imports Tcp_Engine
begin

text \<open>
  Invariants of the goroutines of \<open>tcpengine.go\<close>: the counter of live connections and its
  limit, the work switch that may be closed only once, and the ownership of the local
  addresses.
\<close>

section \<open>Counting handles\<close>

definition is_run :: "handle \<Rightarrow> bool" where
  "is_run h = (case h of (_, _, _, p) \<Rightarrow> p = HRun)"

definition running_handles :: "handle list \<Rightarrow> int" where
  "running_handles hs = int (length (filter is_run hs))"

lemma is_run_simps [simp]: "is_run (i, ci, c, p) = (p = HRun)"
  by (simp add: is_run_def)

lemma running_simps [simp]:
  "running_handles [] = 0" "running_handles (h # hs) = of_bool (is_run h) + running_handles hs"
  "running_handles (hs @ hs') = running_handles hs + running_handles hs'" "0 \<le> running_handles hs"
  by (simp_all add: running_handles_def)

lemma running_split:
  "k < length hs \<Longrightarrow>
     running_handles hs = running_handles (take k hs) + of_bool (is_run (hs ! k)) + running_handles (drop (Suc k) hs)"
  by (metis id_take_nth_drop running_simps(2,3) add.assoc)

lemma running_update:
  "k < length hs \<Longrightarrow>
     running_handles (hs[k := h]) = running_handles hs - of_bool (is_run (hs ! k)) + of_bool (is_run h)"
  using running_split [of k hs] by (simp add: upd_conv_take_nth_drop)

lemma running_remove:
  "k < length hs \<Longrightarrow>
     running_handles (take k hs) + running_handles (drop (Suc k) hs) = running_handles hs - of_bool (is_run (hs ! k))"
  using running_split [of k hs] by simp

section \<open>Frames\<close>

named_theorems eng_frame \<open>what the steps leave alone\<close>

lemma broadcast_frame [eng_frame, simp]:
  "closing (broadcast e) = closing e" "aliveCount (broadcast e) = aliveCount e"
  "switchCloses (broadcast e) = switchCloses e" "workloadon (broadcast e) = workloadon e"
  "hands (broadcast e) = hands e" "laddrPool (broadcast e) = laddrPool e" "conns (broadcast e) = conns e"
  "waited (broadcast e) = waited e" "works (broadcast e) = map wake (works e)" "openfds (broadcast e) = openfds e"
  "newCount (broadcast e) = newCount e" "engclosed (broadcast e) = engclosed e"
  by (simp_all add: broadcast_def)

lemma set_pc_frame [eng_frame, simp]:
  "closing (set_pc i w e) = closing e" "aliveCount (set_pc i w e) = aliveCount e"
  "switchCloses (set_pc i w e) = switchCloses e" "workloadon (set_pc i w e) = workloadon e"
  "hands (set_pc i w e) = hands e" "laddrPool (set_pc i w e) = laddrPool e" "conns (set_pc i w e) = conns e"
  "waited (set_pc i w e) = waited e" "works (set_pc i w e) = (works e)[i := w]" "openfds (set_pc i w e) = openfds e"
  "newCount (set_pc i w e) = newCount e" "engclosed (set_pc i w e) = engclosed e"
  by (simp_all add: set_pc_def)

lemma leave_frame [eng_frame, simp]:
  "closing (leave i e) = closing e" "aliveCount (leave i e) = aliveCount e"
  "switchCloses (leave i e) = switchCloses e" "workloadon (leave i e) = workloadon e"
  "hands (leave i e) = hands e" "laddrPool (leave i e) = laddrPool e" "conns (leave i e) = conns e"
  "waited (leave i e) = waited e" "works (leave i e) = (map wake (works e))[i := WExit]" "openfds (leave i e) = openfds e"
  "newCount (leave i e) = newCount e" "engclosed (leave i e) = engclosed e"
  by (simp_all add: leave_def map_update wake_def)

lemma close_listener_frame [eng_frame, simp]:
  "closing (close_listener cf i e) = closing e" "aliveCount (close_listener cf i e) = aliveCount e"
  "switchCloses (close_listener cf i e) = switchCloses e" "workloadon (close_listener cf i e) = workloadon e"
  "hands (close_listener cf i e) = hands e" "waited (close_listener cf i e) = waited e"
  "works (close_listener cf i e) = works e"
  by (simp_all add: close_listener_def)

lemma close_fd_frame [eng_frame, simp]:
  "closing (close_fd c e) = closing e" "aliveCount (close_fd c e) = aliveCount e"
  "switchCloses (close_fd c e) = switchCloses e" "workloadon (close_fd c e) = workloadon e"
  "hands (close_fd c e) = hands e" "laddrPool (close_fd c e) = laddrPool e" "conns (close_fd c e) = conns e"
  "waited (close_fd c e) = waited e" "works (close_fd c e) = works e" "newCount (close_fd c e) = newCount e"
  by (simp_all add: close_fd_def)

lemma pool_put_frame [eng_frame, simp]:
  "closing (pool_put i ci e) = closing e" "aliveCount (pool_put i ci e) = aliveCount e"
  "switchCloses (pool_put i ci e) = switchCloses e" "workloadon (pool_put i ci e) = workloadon e"
  "hands (pool_put i ci e) = hands e" "conns (pool_put i ci e) = conns e"
  "waited (pool_put i ci e) = waited e" "works (pool_put i ci e) = works e" "newCount (pool_put i ci e) = newCount e"
  "laddrPool (pool_put i ci e) = (laddrPool e)[i := laddrPool e ! i @ [ci]]"
  by (simp_all add: pool_put_def)

lemma start_handle_frame [eng_frame, simp]:
  "closing (start_handle cf i x e) = closing e" "aliveCount (start_handle cf i x e) = aliveCount e + 1"
  "switchCloses (start_handle cf i x e) = switchCloses e" "workloadon (start_handle cf i x e) = workloadon e"
  "hands (start_handle cf i x e) = hands e @ [(i, fst x, snd x, HRun)]"
  "laddrPool (start_handle cf i x e) = laddrPool e"
  "waited (start_handle cf i x e) = waited e" "works (start_handle cf i x e) = works e"
  by (simp_all add: start_handle_def split: prod.split)

lemma set_hand_frame [eng_frame, simp]:
  "closing (set_hand k h e) = closing e" "aliveCount (set_hand k h e) = aliveCount e"
  "switchCloses (set_hand k h e) = switchCloses e" "workloadon (set_hand k h e) = workloadon e"
  "hands (set_hand k h e) = (hands e)[k := h]" "laddrPool (set_hand k h e) = laddrPool e"
  "waited (set_hand k h e) = waited e" "works (set_hand k h e) = works e" "conns (set_hand k h e) = conns e"
  by (simp_all add: set_hand_def)

lemmas eng_defs = connector_section_def acceptor_section_def hold_on_def full_def dialled_def accepted_def
  handle_end_def handle_put_def handle_del_def sig_exit_def close_listeners_def Close_def workerWait_def close_conns_def
  destroy_def maxUnlock_def Let_def

section \<open>The limit\<close>

definition alive_inv :: "engine_conf \<Rightarrow> engine \<Rightarrow> bool" where
  "alive_inv cf e \<longleftrightarrow> aliveCount e = running_handles (hands e) \<and> (0 < emax cf \<longrightarrow> aliveCount e \<le> emax cf)"

lemma alive_inv_step:
  assumes "eng_step cf e e'" "alive_inv cf e"
  shows "alive_inv cf e'"
  using assms
proof (cases rule: eng_step.cases)
  case (step_take i)
  then show ?thesis using assms(2)
    by (auto simp: alive_inv_def take_index_def split: list.splits)
next
  case (step_dial i ci r)
  then show ?thesis using assms(2) by (cases r) (auto simp: alive_inv_def eng_defs)
next
  case (step_connector i nc)
  then show ?thesis using assms(2) by (cases nc) (auto simp: alive_inv_def eng_defs)
next
  case (step_acceptor i nc)
  then show ?thesis using assms(2) by (cases nc) (auto simp: alive_inv_def eng_defs)
qed (use assms(2) in \<open>auto simp: alive_inv_def eng_defs running_update running_remove\<close>)

interpretation live_count: transition_invariant "eng_step cf" "alive_inv cf"
  by unfold_locales (rule alive_inv_step)

section \<open>The work switch\<close>

definition switch_inv :: "engine_conf \<Rightarrow> engine \<Rightarrow> bool" where
  "switch_inv cf e \<longleftrightarrow> switchCloses e \<le> 1 \<and> (workloadon e \<longrightarrow> switchCloses e = 1)
     \<and> (switchCloses e = 1 \<and> \<not> workloadon e \<longrightarrow> waited e)
     \<and> (waited e \<longrightarrow> (\<forall>w \<in> set (works e). w = WExit))"

lemma wake_exit [simp]: "wake WExit = WExit"
  by (simp add: wake_def)

lemma all_exit_no_top:
  "switch_inv cf e \<Longrightarrow> i < length (works e) \<Longrightarrow> works e ! i \<noteq> WExit \<Longrightarrow> \<not> waited e"
  by (auto simp: switch_inv_def)

lemma switch_inv_step:
  assumes "eng_step cf e e'" "switch_inv cf e"
  shows "switch_inv cf e'"
  using assms
proof (cases rule: eng_step.cases)
  case (step_take i)
  then show ?thesis using assms(2) all_exit_no_top [OF assms(2), of i]
    by (auto simp: switch_inv_def take_index_def split: list.splits)
next
  case (step_dial i ci r)
  then show ?thesis using assms(2) all_exit_no_top [OF assms(2), of i]
    by (cases r) (auto simp: switch_inv_def eng_defs)
next
  case (step_connector i nc)
  then show ?thesis using assms(2) all_exit_no_top [OF assms(2), of i]
    by (cases nc) (auto simp: switch_inv_def eng_defs)
next
  case (step_acceptor i nc)
  then show ?thesis using assms(2) all_exit_no_top [OF assms(2), of i]
    by (cases nc) (auto simp: switch_inv_def eng_defs)
next
  case (step_accept i ok)
  then show ?thesis using assms(2) all_exit_no_top [OF assms(2), of i]
    by (simp add: switch_inv_def eng_defs)
next
  case step_wait
  then show ?thesis using assms(2) by (auto simp: switch_inv_def eng_defs)
qed (use assms(2) in \<open>auto simp: switch_inv_def eng_defs\<close>)

interpretation switch: transition_invariant "eng_step cf" "switch_inv cf"
  by unfold_locales (rule switch_inv_step)

section \<open>Ownership of the local addresses\<close>

text \<open>
  The address indices of worker \<open>i\<close>: in its pool, with the worker itself, or with one of its
  handles until it gives the index back.
\<close>

definition worker_owns :: "worker_pc \<Rightarrow> nat multiset" where
  "worker_owns w = (case w of WTop (Some (ci, _)) \<Rightarrow> {#ci#} | WDial ci \<Rightarrow> {#ci#} | _ \<Rightarrow> {#})"

definition handle_owns :: "nat \<Rightarrow> handle \<Rightarrow> nat multiset" where
  "handle_owns i h = (case h of (j, ci, _, p) \<Rightarrow> if j = i \<and> p \<noteq> HDel then {#ci#} else {#})"

definition handles_own :: "nat \<Rightarrow> handle list \<Rightarrow> nat multiset" where
  "handles_own i hs = sum_list (map (handle_owns i) hs)"

definition owned :: "engine \<Rightarrow> nat \<Rightarrow> nat multiset" where
  "owned e i = mset (laddrPool e ! i) + worker_owns (works e ! i) + handles_own i (hands e)"

lemma worker_owns_simps [simp]:
  "worker_owns (WTop None) = {#}" "worker_owns (WTop (Some x)) = {#fst x#}" "worker_owns WWait = {#}"
  "worker_owns WTake = {#}" "worker_owns (WDial ci) = {#ci#}" "worker_owns WAccept = {#}" "worker_owns WExit = {#}"
  by (simp_all add: worker_owns_def split: prod.split)

lemma worker_owns_wake [simp]: "worker_owns (wake w) = worker_owns w"
  by (cases w) (simp_all add: wake_def)

lemma handle_owns_simps [simp]:
  "handle_owns i (j, ci, c, HDel) = {#}"
  "p \<noteq> HDel \<Longrightarrow> handle_owns i (j, ci, c, p) = (if j = i then {#ci#} else {#})"
  by (simp_all add: handle_owns_def)

lemma handles_own_simps [simp]:
  "handles_own i [] = {#}" "handles_own i (h # hs) = handle_owns i h + handles_own i hs"
  "handles_own i (hs @ hs') = handles_own i hs + handles_own i hs'"
  by (simp_all add: handles_own_def)

lemma handles_own_split:
  assumes "k < length hs"
  shows "handles_own i hs = handles_own i (take k hs) + handle_owns i (hs ! k) + handles_own i (drop (Suc k) hs)"
proof -
  have "handles_own i hs = handles_own i (take k hs @ hs ! k # drop (Suc k) hs)"
    using id_take_nth_drop [OF assms] by simp
  then show ?thesis by (simp only: handles_own_simps add.assoc)
qed

lemma handles_own_update:
  "k < length hs \<Longrightarrow> handles_own i (hs[k := h]) + handle_owns i (hs ! k) = handles_own i hs + handle_owns i h"
  using handles_own_split [of k hs i] by (simp add: upd_conv_take_nth_drop add_ac)

lemma handles_own_keep:
  "k < length hs \<Longrightarrow> handle_owns i h = handle_owns i (hs ! k) \<Longrightarrow> handles_own i (hs[k := h]) = handles_own i hs"
  using handles_own_update [of k hs i h] by simp

lemma handles_own_remove:
  "k < length hs \<Longrightarrow> handle_owns i (hs ! k) = {#} \<Longrightarrow>
     handles_own i (take k hs) + handles_own i (drop (Suc k) hs) = handles_own i hs"
  using handles_own_split [of k hs i] by simp

text \<open>No step adds an index to what a worker owns.\<close>

lemma own_connector:
  assumes "i < length (works e)" "works e ! i = WTop nc" "length (laddrPool e) = length (works e)"
  shows "j < length (works e) \<Longrightarrow> owned (connector_section cf i nc e) j \<subseteq># owned e j"
  using assms
  by (cases nc; cases "i = j")
     (auto simp: owned_def connector_section_def hold_on_def nth_list_update)

lemma own_take:
  assumes "i < length (works e)" "works e ! i = WTake" "length (laddrPool e) = length (works e)"
    "take_index i e = Some e'"
  shows "j < length (works e) \<Longrightarrow> owned e' j = owned e j"
  using assms
  by (cases "i = j") (auto simp: owned_def take_index_def nth_list_update split: list.splits)

lemma own_dial:
  assumes "i < length (works e)" "works e ! i = WDial ci"
  shows "j < length (works e) \<Longrightarrow> owned (dialled i ci r e) j \<subseteq># owned e j"
  using assms
  by (cases r; cases "i = j") (auto simp: owned_def dialled_def nth_list_update)

lemma own_put:
  assumes "k < length (hands e)" "hands e ! k = (i, ci, c, HPut)" "i < length (laddrPool e)"
  shows "owned (handle_put k (hands e ! k) e) j = owned e j"
proof -
  have "handles_own j ((hands e)[k := (i, ci, c, HDel)]) + (if i = j then {#ci#} else {#}) = handles_own j (hands e)"
    using handles_own_update [OF assms(1), of j "(i, ci, c, HDel)"] assms(2) by simp
  then show ?thesis
    using assms by (auto simp: owned_def handle_put_def nth_list_update add_ac split: if_splits)
qed

lemma own_handle_end:
  assumes "k < length (hands e)" "hands e ! k = (i, ci, c, HRun)" "\<not> elisten cf"
  shows "owned (handle_end cf k (hands e ! k) e) j = owned e j"
  using assms by (simp add: owned_def handle_end_def handles_own_keep)

lemma own_handle_del:
  assumes "k < length (hands e)" "hands e ! k = (i, ci, c, HDel)"
  shows "owned (handle_del cf k (hands e ! k) e) j = owned e j"
  using assms by (simp add: owned_def handle_del_def handles_own_remove)

lemma own_broadcast [simp]: "j < length (works e) \<Longrightarrow> owned (broadcast e) j = owned e j"
  by (simp add: owned_def)

lemma own_update [simp]:
  "owned (e\<lparr>closing := a\<rparr>) j = owned e j" "owned (e\<lparr>closedListeners := ls\<rparr>) j = owned e j"
  "owned (e\<lparr>rwCount := n\<rparr>) j = owned e j" "owned (e\<lparr>engclosed := a\<rparr>) j = owned e j"
  "owned (e\<lparr>openfds := fds\<rparr>) j = owned e j" "owned (e\<lparr>switchCloses := n\<rparr>) j = owned e j"
  "owned (e\<lparr>waited := a\<rparr>) j = owned e j"
  by (simp_all add: owned_def)

text \<open>The shape that the ownership lemmas rely on.\<close>

definition shape_inv :: "engine_conf \<Rightarrow> engine \<Rightarrow> bool" where
  "shape_inv cf e \<longleftrightarrow> \<not> elisten cf \<and> length (works e) = ncpu cf \<and> length (laddrPool e) = ncpu cf
     \<and> (\<forall>h \<in> set (hands e). fst h < ncpu cf) \<and> (\<forall>w \<in> set (works e). w \<noteq> WAccept)"

lemma wake_WAccept: "wake w = WAccept \<longleftrightarrow> w = WAccept"
  by (cases w) (simp_all add: wake_def)

lemma shape_update [simp]:
  "shape_inv cf (e\<lparr>closing := a\<rparr>) = shape_inv cf e" "shape_inv cf (e\<lparr>closedListeners := ls\<rparr>) = shape_inv cf e"
  "shape_inv cf (e\<lparr>rwCount := n\<rparr>) = shape_inv cf e" "shape_inv cf (e\<lparr>engclosed := a\<rparr>) = shape_inv cf e"
  "shape_inv cf (e\<lparr>openfds := fds\<rparr>) = shape_inv cf e" "shape_inv cf (e\<lparr>switchCloses := n\<rparr>) = shape_inv cf e"
  "shape_inv cf (e\<lparr>waited := a\<rparr>) = shape_inv cf e" "shape_inv cf (e\<lparr>newCount := n\<rparr>) = shape_inv cf e"
  "shape_inv cf (e\<lparr>workloadon := a\<rparr>) = shape_inv cf e" "shape_inv cf (close_fd c e) = shape_inv cf e"
  "shape_inv cf (broadcast e) = shape_inv cf e" "shape_inv cf (pool_put i ci e) = shape_inv cf e"
  "shape_inv cf (e\<lparr>aliveCount := m\<rparr>) = shape_inv cf e"
  by (auto simp: shape_inv_def wake_WAccept)

lemma shape_set_pc: "shape_inv cf e \<Longrightarrow> w \<noteq> WAccept \<Longrightarrow> shape_inv cf (set_pc i w e)"
  using set_update_subset_insert [of "works e" i w] by (auto simp: shape_inv_def)

lemma shape_leave: "shape_inv cf e \<Longrightarrow> shape_inv cf (leave i e)"
  by (simp add: leave_def shape_set_pc)

lemma shape_start: "shape_inv cf e \<Longrightarrow> i < ncpu cf \<Longrightarrow> shape_inv cf (start_handle cf i x e)"
  by (simp add: shape_inv_def)

lemma shape_set_hand: "shape_inv cf e \<Longrightarrow> fst h < ncpu cf \<Longrightarrow> shape_inv cf (set_hand k h e)"
  using set_update_subset_insert [of "hands e" k h] by (auto simp: shape_inv_def)

lemma shape_pool: "shape_inv cf (e\<lparr>laddrPool := (laddrPool e)[i := q]\<rparr>) = shape_inv cf e"
  by (simp add: shape_inv_def)

lemma shape_hand: "shape_inv cf e \<Longrightarrow> k < length (hands e) \<Longrightarrow> hands e ! k = (i, r) \<Longrightarrow> i < ncpu cf"
  by (metis shape_inv_def nth_mem fst_conv)

lemma shape_inv_step:
  assumes "eng_step cf e e'" "shape_inv cf e"
  shows "shape_inv cf e'"
  using assms
proof (cases rule: eng_step.cases)
  case (step_connector i nc)
  then have "i < ncpu cf" using assms(2) by (simp add: shape_inv_def)
  with step_connector show ?thesis using assms(2)
    by (cases nc) (auto simp: connector_section_def hold_on_def shape_start intro!: shape_set_pc shape_leave)
next
  case (step_take i)
  then show ?thesis using assms(2)
    by (auto simp: take_index_def shape_pool shape_set_pc split: list.splits)
next
  case (step_dial i ci r)
  then show ?thesis using assms(2) by (cases r) (auto simp: dialled_def intro!: shape_set_pc shape_leave)
next
  case (step_accept i ok)
  then show ?thesis using assms(2) by (auto simp: shape_inv_def)
next
  case (step_handle_end k i ci c)
  then show ?thesis using assms(2) shape_hand [OF assms(2)]
    by (simp add: handle_end_def shape_set_hand)
next
  case (step_handle_put k i ci c)
  then show ?thesis using assms(2) shape_hand [OF assms(2)]
    by (simp add: handle_put_def shape_set_hand)
next
  case (step_handle_del k i ci c)
  then show ?thesis using assms(2)
    by (auto simp: handle_del_def shape_inv_def dest!: in_set_takeD in_set_dropD)
qed (use assms(2) in \<open>auto simp: sig_exit_def close_listeners_def Close_def workerWait_def close_conns_def destroy_def
       maxUnlock_def Let_def shape_inv_def [of cf e]\<close>)

lemma owned_step:
  assumes "eng_step cf e e'" "shape_inv cf e" "j < ncpu cf"
  shows "owned e' j \<subseteq># owned e j"
  using assms(1)
proof (cases rule: eng_step.cases)
  case (step_connector i nc)
  then show ?thesis using assms own_connector [of i e nc j cf] by (simp add: shape_inv_def)
next
  case (step_take i)
  then show ?thesis using assms own_take [of i e e' j] by (simp add: shape_inv_def)
next
  case (step_dial i ci r)
  then show ?thesis using assms own_dial [of i e ci j r] by (simp add: shape_inv_def)
next
  case (step_handle_end k i ci c)
  then show ?thesis using assms own_handle_end [of k e i ci c cf j] by (simp add: shape_inv_def)
next
  case (step_handle_put k i ci c)
  then show ?thesis
    using assms own_put [of k e i ci c j] shape_hand [OF assms(2), of k] by (simp add: shape_inv_def)
next
  case (step_handle_del k i ci c)
  then show ?thesis using own_handle_del [of k e i ci c cf j] by simp
next
  case (step_accept i ok)
  then show ?thesis using assms(2) by (auto simp: shape_inv_def)
qed (use assms(2,3) in \<open>auto simp: sig_exit_def close_listeners_def Close_def workerWait_def close_conns_def destroy_def
       maxUnlock_def Let_def shape_inv_def\<close>)

definition pools_inv :: "engine_conf \<Rightarrow> nat list list \<Rightarrow> engine \<Rightarrow> bool" where
  "pools_inv cf pl e \<longleftrightarrow> shape_inv cf e \<and> (\<forall>j < ncpu cf. owned e j \<subseteq># mset (pl ! j))"

interpretation addresses: transition_invariant "eng_step cf" "pools_inv cf pl"
  by unfold_locales
     (auto simp: pools_inv_def intro: shape_inv_step subset_mset.order_trans [OF owned_step])

end
