(* ===== verification/Tcp_Config_Props.thy ===== *)
theory Tcp_Config_Props
  imports Tcp_Config
begin

text \<open>
  Properties of the configuration of \<open>tcpengine.go\<close>: the number of local addresses and the
  limit derived from it, the filling of the address pools, the pacing plan of \<open>qpsctl\<close>, and
  the repeated collections of \<open>gcRunner\<close>.
\<close>

section \<open>Local addresses\<close>








lemma ResolveHostList_one: "ResolveHostList ''127.0.0.1'' = Some [''127.0.0.1'']"
  using host_fields_join [of "[''127.0.0.1'']"] resolve_one_plain [of "''127.0.0.1''" "[]"]
  by (simp add: ResolveHostList_def plain_field_def host_part_def ToLower_def to_lower_char_def put_def)



text \<open>
  For a limit of \<open>2 ^ 62\<close> the doubled limit wraps to a negative number, the search stops at
  the first address, and the limit becomes -499, which the engine takes for no limit.
\<close>

theorem addressParse_wraps:
  assumes "ResolveHostList laddrs = Some hosts" "laddrs \<noteq> []" "order hosts = ip # ips"
    and "rslv (ip @ '':'' @ Itoa 8535) = Some a"
  shows "addressParse rslv order laddrs (2 ^ 62) = Some ([a], - 499) \<and> (- 499 :: i64) <s 0"
proof -
  have "[8535..<65536] = 8535 # [Suc 8535..<65536]" by (rule upt_conv_Cons) simp
  then obtain ps where "local_ports = 8535 # ps" unfolding local_ports_def by blast
  moreover have "address_list rslv (ip # ips) (8535 # ports) (2 ^ 62) = ([a], - 499)" for ports
    using assms(4) by (simp add: address_list_def reduce_max_def Let_def word_sle_eq word_sless_alt)
  ultimately have "address_list rslv (ip # ips) local_ports (2 ^ 62) = ([a], - 499)" by metis
  with assms(1,2,3) show ?thesis
    by (simp add: addressParse_def word_sless_alt del: power_numeral)
qed

theorem addressParse_wraps_witness:
  "addressParse (\<lambda>a. Some a) id ''127.0.0.1'' (2 ^ 62) = Some ([''127.0.0.1:'' @ Itoa 8535], - 499)"
  using addressParse_wraps [of "''127.0.0.1''" "[''127.0.0.1'']" id "''127.0.0.1''" "[]" "\<lambda>a. Some a"
    "''127.0.0.1:'' @ Itoa 8535"] ResolveHostList_one by simp

section \<open>Address pools\<close>

lemma preload_loop_fill:
  assumes "0 < ncpu" "k + length is = n" "is = [k..<n]"
    and "length pools = ncpu" "\<forall>i < ncpu. pools ! i = filter (\<lambda>x. x mod ncpu = i) [0..<k]"
    and "\<forall>i < ncpu. length (filter (\<lambda>x. x mod ncpu = i) [0..<n]) \<le> cap"
  shows "\<exists>pools'. preload_loop cap ncpu is pools = Some pools' \<and> length pools' = ncpu
     \<and> (\<forall>i < ncpu. pools' ! i = filter (\<lambda>x. x mod ncpu = i) [0..<n])"
  using assms
proof (induction "is" arbitrary: k pools)
  case Nil
  then show ?case by simp
next
  case (Cons x xs)
  have kn: "k < n" using Cons.prems(2) by simp
  then have x: "x = k" "xs = [Suc k..<n]" using Cons.prems(3) by (simp_all add: upt_rec)
  let ?i = "k mod ncpu"
  let ?f = "\<lambda>i. filter (\<lambda>x. x mod ncpu = i)"
  have i: "?i < ncpu" using Cons.prems(1) by simp
  have "[0..<n] = [0..<k] @ k # [Suc k..<n]"
    using upt_add_eq_append [of 0 k "n - k"] upt_conv_Cons [OF kn] kn by simp
  then have "length (?f ?i [0..<k]) < length (?f ?i [0..<n])" by simp
  then have room: "length (pools ! ?i) < cap" using Cons.prems(5,6) i by (metis order.strict_trans2)
  have next_pools: "\<forall>i < ncpu. (pools[?i := pools ! ?i @ [k]]) ! i = ?f i [0..<Suc k]"
    using Cons.prems(4,5) i by (auto simp: nth_list_update)
  have "\<exists>pools'. preload_loop cap ncpu xs (pools[?i := pools ! ?i @ [k]]) = Some pools' \<and> length pools' = ncpu
      \<and> (\<forall>i < ncpu. pools' ! i = ?f i [0..<n])"
    using Cons.prems x kn by (intro Cons.IH [of "Suc k"] next_pools) simp_all
  then show ?case using x room by (simp add: pool_send_def)
qed

lemma length_residues: "0 < n \<Longrightarrow> length (filter (\<lambda>x. x mod n = i) [0..<m]) \<le> m div n + 1"
proof -
  assume n: "0 < n"
  have inj: "inj_on (\<lambda>x. x div n) {x. x < m \<and> x mod n = i}"
  proof (rule inj_onI)
    fix x y
    assume "x \<in> {x. x < m \<and> x mod n = i}" "y \<in> {x. x < m \<and> x mod n = i}" "x div n = y div n"
    then have "x = n * (y div n) + i" "y = n * (y div n) + i"
      using mult_div_mod_eq [of n x] mult_div_mod_eq [of n y] by simp_all
    then show "x = y" by simp
  qed
  have "(\<lambda>x. x div n) ` {x. x < m \<and> x mod n = i} \<subseteq> {..m div n}"
    by (auto intro: div_le_mono)
  then have "card {x. x < m \<and> x mod n = i} \<le> card {..m div n}"
    using inj by (metis card_inj_on_le finite_atMost)
  moreover have "set (filter (\<lambda>x. x mod n = i) [0..<m]) = {x. x < m \<and> x mod n = i}" by auto
  ultimately show ?thesis
    using distinct_card [of "filter (\<lambda>x. x mod n = i) [0..<m]"] by simp
qed

lemma preload_fills:
  assumes "0 < ncpu"
  shows "\<exists>pools. preload n ncpu = Some pools \<and> length pools = ncpu
     \<and> (\<forall>i < ncpu. pools ! i = filter (\<lambda>x. x mod ncpu = i) [0..<n]
          \<and> length (pools ! i) + (ncpu - 1) \<le> avglen n ncpu)"
proof -
  have cap: "length (filter (\<lambda>x. x mod ncpu = i) [0..<n]) + (ncpu - 1) \<le> avglen n ncpu" for i
    using length_residues [OF assms, of i n] assms by (simp add: avglen_def)
  have "\<exists>pools'. preload_loop (avglen n ncpu) ncpu [0..<n] (replicate ncpu []) = Some pools' \<and> length pools' = ncpu
     \<and> (\<forall>i < ncpu. pools' ! i = filter (\<lambda>x. x mod ncpu = i) [0..<n])"
    using assms add_leD1 [OF cap] by (intro preload_loop_fill [of _ 0]) auto
  then show ?thesis using cap by (auto simp: preload_def)
qed

text \<open>
  Filling the address pools never blocks: the capacity given to each channel suffices,
  every address goes to the pool of its residue, and each pool keeps room for as many more
  addresses as there are workers less one.
\<close>

theorem preload_never_blocks:
  assumes "0 < ncpu"
  shows "\<exists>pools. preload n ncpu = Some pools \<and> length pools = ncpu
     \<and> (\<forall>i < ncpu. pools ! i = filter (\<lambda>x. x mod ncpu = i) [0..<n]
          \<and> length (pools ! i) + (ncpu - 1) \<le> avglen n ncpu)"
  using assms by (rule preload_fills)

theorem preload_never_blocks_witness:
  "\<exists>pools. preload 5 2 = Some pools \<and> length pools = 2 \<and> pools ! 0 = [0, 2, 4] \<and> pools ! 1 = [1, 3]"
  using preload_never_blocks [of 2 5] by (auto simp: upt_rec)

section \<open>Pacing\<close>

lemma qps_search_unfold:
  assumes "0 < k" "k \<le> 1000"
  shows "qps_search limit (k * 1000000) =
     (if 0 < limit div (1000 div k) then Some (Plan (k * 1000000) (1000 div k) (limit div (1000 div k)))
      else qps_search limit (Suc k * 1000000))"
proof -
  have "(1000 * 1000000) div (k * 1000000) = 1000 div k" by (rule div_mult_mult2) simp
  then have e: "1000000000 div (k * 1000000) = 1000 div k" by simp
  have "1000 div k \<noteq> 0" using assms by (simp add: div_eq_0_iff)
  then show ?thesis by (subst qps_search.simps) (simp add: Let_def e add.commute)
qed

lemma qps_search_finds:
  assumes "0 < limit" "0 < k" "k \<le> 501"
  shows "\<exists>j. k \<le> j \<and> j \<le> 501 \<and> 0 < limit div (1000 div j)
     \<and> qps_search limit (k * 1000000) = Some (Plan (j * 1000000) (1000 div j) (limit div (1000 div j)))"
  using assms(2,3)
proof (induction "501 - k" arbitrary: k)
  case 0
  then have "k = 501" by simp
  then show ?case using assms(1) qps_search_unfold [of 501 limit] by (intro exI [of _ 501]) simp
next
  case (Suc n)
  show ?case
  proof (cases "0 < limit div (1000 div k)")
    case True
    then show ?thesis using Suc.prems qps_search_unfold [of k limit] by (intro exI [of _ k]) simp
  next
    case False
    have "\<exists>j. Suc k \<le> j \<and> j \<le> 501 \<and> 0 < limit div (1000 div j)
       \<and> qps_search limit (Suc k * 1000000) = Some (Plan (j * 1000000) (1000 div j) (limit div (1000 div j)))"
      using Suc.hyps(2) by (intro Suc.hyps(1)) simp_all
    moreover have "qps_search limit (k * 1000000) = qps_search limit (Suc k * 1000000)"
      using False Suc.prems qps_search_unfold [of k limit] by simp
    ultimately show ?thesis by (metis Suc_leD)
  qed
qed

lemma less_div_Suc_mult: "0 < b \<Longrightarrow> a < (a div b + 1) * b" for a b :: nat
  using dividend_less_div_times [of b a] by (simp add: add_mult_distrib add.commute)

lemma plan_rate:
  fixes limit j :: nat
  assumes "0 < j" "j \<le> 1000" "0 < limit div (1000 div j)"
  shows "limit div (1000 div j) * 1000 < 2 * limit * j"
proof -
  let ?s = "1000 div j" and ?b = "limit div (1000 div j)"
  have "1000 < (?s + 1) * j" using assms(1) by (rule less_div_Suc_mult)
  then have "?b * 1000 < ?b * ((?s + 1) * j)" using assms(3) by simp
  also have "\<dots> = (?b * ?s + ?b) * j" by (simp add: algebra_simps)
  also have "\<dots> \<le> (limit + limit) * j"
    by (intro mult_le_mono1 add_mono) (simp_all add: times_div_less_eq_dividend mult.commute)
  finally show ?thesis by (simp add: algebra_simps)
qed

text \<open>
  For every positive limit \<open>qpsctl\<close> finds a plan without a division by zero: a delay of at
  most 501 ms, at least one token per batch, batches per second times tokens within the
  limit, and a rate below twice the limit.
\<close>

theorem qpsctl_plans:
  assumes "0 < limit"
  shows "\<exists>ms split batch. qpsctl_plan limit = Some (Plan (ms * 1000000) split batch)
     \<and> 1 \<le> ms \<and> ms \<le> 501 \<and> 1 \<le> split \<and> 1 \<le> batch
     \<and> batch * split \<le> limit \<and> limit < (batch + 1) * split \<and> batch * 1000 < 2 * limit * ms"
proof -
  obtain j where j: "1 \<le> j" "j \<le> 501" "0 < limit div (1000 div j)"
    "qpsctl_plan limit = Some (Plan (j * 1000000) (1000 div j) (limit div (1000 div j)))"
    using qps_search_finds [of limit 1] assms by (auto simp: qpsctl_plan_def)
  have s: "1 \<le> 1000 div j" using j by (simp add: Suc_le_eq div_greater_zero_iff)
  have "limit < (limit div (1000 div j) + 1) * (1000 div j)"
    using s by (intro less_div_Suc_mult) simp
  moreover have "limit div (1000 div j) * (1000 div j) \<le> limit" by (simp add: div_times_less_eq_dividend)
  moreover have "limit div (1000 div j) * 1000 < 2 * limit * j" using j by (intro plan_rate) simp_all
  ultimately show ?thesis using j s by (intro exI conjI) (rule j(4), simp_all)
qed

theorem qpsctl_plans_witness:
  "\<exists>ms split batch. qpsctl_plan 2500 = Some (Plan (ms * 1000000) split batch) \<and> batch * split \<le> 2500 \<and> 1 \<le> batch"
  using qpsctl_plans [of 2500] by auto

text \<open>
  The limit is not a limit: for one operation per second the plan sends one token every
  501 milliseconds.
\<close>

theorem qpsctl_overshoots:
  "qpsctl_plan 1 = Some (Plan 501000000 1 1)"
proof -
  obtain j :: nat where j: "1 \<le> j" "j \<le> 501" "0 < 1 div (1000 div j)"
    "qpsctl_plan 1 = Some (Plan (j * 1000000) (1000 div j) (1 div (1000 div j)))"
    using qps_search_finds [of 1 1] by (auto simp: qpsctl_plan_def)
  have "1000 div j \<noteq> 0" using j by (simp add: div_eq_0_iff)
  moreover have "1000 div j \<le> 1" using j(3) by (metis div_less less_numeral_extra(3) not_le)
  ultimately have one: "1000 div j = 1" by simp
  have "j \<noteq> 0" "\<not> j \<le> 500"
  proof -
    show "j \<noteq> 0" using j by simp
    show "\<not> j \<le> 500"
    proof
      assume "j \<le> 500"
      then have "1000 div 500 \<le> 1000 div j" using j by (intro div_le_mono2) simp_all
      with one show False by simp
    qed
  qed
  then have "j = 501" using j by simp
  with j(4) show ?thesis by simp
qed

section \<open>Command line and collections\<close>

text \<open>
  A configuration that the command line yields has a target and no negative limit;
  asking for help or clearing the target ends the process.
\<close>

theorem NewCmdConfig_valid:
  assumes "NewCmdConfig ns es args = Inr c"
  shows "hostport c \<noteq> [] \<and> \<not> showhelp c \<and> 0 \<le>s maxConcurrent c \<and> 0 \<le>s QPSLimit c"
  using assms
  by (auto simp: NewCmdConfig_def Let_def word_sle_eq word_sless_alt not_le not_less
      split: option.splits if_splits)

theorem NewCmdConfig_valid_witness:
  "case NewCmdConfig [] [] [(''c'', IntFlag (- 5)), (''l'', BoolFlag True)] of
     Inr c \<Rightarrow> listenMode c \<and> maxConcurrent c = 0 \<and> 0 \<le>s QPSLimit c | Inl _ \<Rightarrow> False"
proof -
  have "\<exists>c. NewCmdConfig [] [] [(''c'', IntFlag (- 5)), (''l'', BoolFlag True)] = Inr c \<and> listenMode c \<and> maxConcurrent c = 0"
    by (simp add: NewCmdConfig_def flag_defaults_def Let_def word_sless_alt word_sle_eq)
  then show ?thesis
    using NewCmdConfig_valid [of "[]" "[]" "[(''c'', IntFlag (- 5)), (''l'', BoolFlag True)]"] by auto
qed

text \<open>
  With \<open>gctest\<close> a tick collects although no counter has changed since the last one: the
  previous values of the accept and read-write counters are never stored.
\<close>

theorem gcRunner_repeats:
  assumes "giopre g = 0" "iocnt \<noteq> 0" "0 <s cnt"
  shows "snd (gc_tick True g cnt iocnt rwcnt) = Some RunGC
     \<and> snd (gc_tick True (fst (gc_tick True g cnt iocnt rwcnt)) cnt iocnt rwcnt) = Some RunGC"
  using assms by (simp add: gc_tick_def)

theorem gcRunner_repeats_witness:
  "snd (gc_tick True \<lparr>gpre = 0, giopre = 0, grwpre = 0, norepeatgc = False\<rparr> 3 7 0) = Some RunGC"
  using gcRunner_repeats [of "\<lparr>gpre = 0, giopre = 0, grwpre = 0, norepeatgc = False\<rparr>" 7 3 0]
  by (simp add: word_sless_alt)

end
