(* ===== verification/Tcp_Engine_Props.thy ===== *)
theory Tcp_Engine_Props
  imports Tcp_Engine_Inv Tcp_Config_Props
begin

text \<open>
  Properties of every interleaving of the goroutines of \<open>tcpengine.go\<close>: the limit on live
  connections, the work switch, the exclusive use of local addresses, and three ways in
  which a connection or an address is lost.
\<close>

section \<open>Start\<close>

lemma alive_start: "alive_inv cf (start_state cf pl)"
  by (simp add: alive_inv_def start_state_def)

lemma switch_start: "switch_inv cf (start_state cf pl)"
  by (auto simp: switch_inv_def start_state_def)

lemma handles_own_empty [simp]: "handles_own i [] = {#}"
  by (simp add: handles_own_def)

lemma pools_start:
  "\<not> elisten cf \<Longrightarrow> length pl = ncpu cf \<Longrightarrow> pools_inv cf pl (start_state cf pl)"
  by (auto simp: pools_inv_def shape_inv_def start_state_def owned_def)

lemma two_owners:
  "k < l \<Longrightarrow> l < length hs \<Longrightarrow> handle_owns i (hs ! k) + handle_owns i (hs ! l) \<subseteq># handles_own i hs"
proof (induction hs arbitrary: k l)
  case (Cons h hs)
  then obtain l' where l: "l = Suc l'" by (cases l) auto
  have one: "m < length hs \<Longrightarrow> handle_owns i (hs ! m) \<subseteq># handles_own i hs" for m
    using handles_own_split [of m hs i] by simp
  show ?case
  proof (cases k)
    case 0
    then show ?thesis using one [of l'] Cons.prems l by simp
  next
    case (Suc k')
    then show ?thesis using Cons.IH [of k' l'] Cons.prems l
      by (simp add: subset_mset.add_increasing)
  qed
qed simp

section \<open>Properties\<close>

text \<open>
  C3. In every interleaving the counter of live connections is the number of handles that
  have not ended, and with a limit there are never more of them than the limit.
\<close>

theorem engine_limit:
  assumes "reaches (eng_step cf) (start_state cf pl) e"
  shows "aliveCount e = int (length (filter (\<lambda>(_, _, _, p). p = HRun) (hands e)))
     \<and> (0 < emax cf \<longrightarrow> aliveCount e \<le> emax cf)"
proof -
  have "alive_inv cf e" using live_count.inv_reaches [OF assms alive_start] .
  moreover have "(\<lambda>(_, _, _, p). p = HRun) = is_run" by (auto simp: is_run_def fun_eq_iff)
  ultimately show ?thesis by (auto simp: alive_inv_def running_handles_def)
qed

text \<open>A connector with one worker, one address and a limit of one.\<close>

definition cf1 :: engine_conf where
  "cf1 = \<lparr>emax = 1, eexitmax = False, enomap = False, elisten = False, ncpu = 1, elfds = []\<rparr>"

definition cf0 :: engine_conf where
  "cf0 = \<lparr>emax = 0, eexitmax = False, enomap = False, elisten = False, ncpu = 1, elfds = []\<rparr>"

lemmas run_simps = cf0_def cf1_def start_state_def connector_section_def full_def set_pc_def take_index_def dialled_def
  start_handle_def handle_end_def handle_put_def handle_del_def set_hand_def pool_put_def close_fd_def
  leave_def broadcast_def wake_def sig_exit_def close_listeners_def hold_on_def

theorem engine_limit_witness:
  "aliveCount (connector_section cf1 0 None (start_state cf1 [[0]])) \<le> 1"
proof -
  have "eng_step cf1 (start_state cf1 [[0]]) (connector_section cf1 0 None (start_state cf1 [[0]]))"
    by (rule step_connector) (simp_all add: run_simps)
  then have "reaches (eng_step cf1) (start_state cf1 [[0]]) (connector_section cf1 0 None (start_state cf1 [[0]]))"
    by (rule reaches_one)
  from engine_limit [OF this] show ?thesis by (simp add: cf1_def)
qed

text \<open>
  In every interleaving the channel \<open>workswitch\<close> is closed at most once (closing it twice
  would panic), and no handle works before it is closed.
\<close>

theorem engine_switch:
  assumes "reaches (eng_step cf) (start_state cf pl) e"
  shows "switchCloses e \<le> 1 \<and> (workloadon e \<longrightarrow> switchCloses e = 1)"
  using switch.inv_reaches [OF assms switch_start] by (simp add: switch_inv_def)

theorem engine_switch_witness:
  "switchCloses (connector_section cf1 0 None (start_state cf1 [[0]])) \<le> 1"
proof -
  have "eng_step cf1 (start_state cf1 [[0]]) (connector_section cf1 0 None (start_state cf1 [[0]]))"
    by (rule step_connector) (simp_all add: run_simps)
  then have "reaches (eng_step cf1) (start_state cf1 [[0]]) (connector_section cf1 0 None (start_state cf1 [[0]]))"
    by (rule reaches_one)
  from engine_switch [OF this] show ?thesis by simp
qed

text \<open>
  C11. In every interleaving of connectors started with the pools that \<open>Start\<close> fills, two live
  connections never use the same local address, and giving an address back never blocks:
  a pool has room whenever its worker or one of its handles holds an address.
\<close>

theorem engine_addresses:
  assumes "reaches (eng_step cf) (start_state cf pl) e" "\<not> elisten cf" "0 < ncpu cf"
    and "preload n (ncpu cf) = Some pl"
  shows "(\<forall>k l i ci c j c'. k < l \<and> l < length (hands e) \<and> hands e ! k = (i, ci, c, HRun)
            \<longrightarrow> hands e ! l \<noteq> (j, ci, c', HRun))
     \<and> (\<forall>i < ncpu cf. worker_owns (works e ! i) + handles_own i (hands e) \<noteq> {#}
            \<longrightarrow> length (laddrPool e ! i) < avglen n (ncpu cf))"
proof -
  from preload_fills [OF assms(3), of n] assms(4)
  have pl: "length pl = ncpu cf" "\<And>i. i < ncpu cf \<Longrightarrow> pl ! i = filter (\<lambda>x. x mod ncpu cf = i) [0..<n]"
    "\<And>i. i < ncpu cf \<Longrightarrow> length (pl ! i) + (ncpu cf - 1) \<le> avglen n (ncpu cf)"
    by auto
  have inv: "pools_inv cf pl e"
    using addresses.inv_reaches [OF assms(1) pools_start [OF assms(2) pl(1)]] .
  have own: "i < ncpu cf \<Longrightarrow> owned e i \<subseteq># mset (pl ! i)" for i using inv by (simp add: pools_inv_def)
  have shape: "shape_inv cf e" using inv by (simp add: pools_inv_def)
  have "False" if h: "k < l" "l < length (hands e)" "hands e ! k = (i, ci, c, HRun)" "hands e ! l = (j, ci, c', HRun)"
    for k l i ci c j c'
  proof -
    have ij: "i < ncpu cf" "j < ncpu cf" using shape_hand [OF shape, of k] shape_hand [OF shape, of l] h by simp_all
    have in_pool: "m < ncpu cf \<Longrightarrow> handle_owns m (hands e ! q) = {#x#} \<Longrightarrow> q < length (hands e) \<Longrightarrow> x \<in> set (pl ! m)" for m q x
      using own [of m] handles_own_split [of q "hands e" m]
      by (metis (no_types, lifting) owned_def set_mset_mset mset_subset_eqD union_iff union_single_eq_member add.commute)
    have "ci \<in> set (pl ! i)" "ci \<in> set (pl ! j)" using in_pool [of i k ci] in_pool [of j l ci] h ij by simp_all
    then have eq: "i = j" using pl(2) ij by auto
    have "{#ci, ci#} \<subseteq># handles_own i (hands e)"
      using two_owners [OF h(1,2), of i] h(3,4) eq by (simp add: add_mset_commute)
    then have "{#ci, ci#} \<subseteq># mset (pl ! i)"
      using own [OF ij(1)] unfolding owned_def by (metis mset_subset_eq_add_right subset_mset.order_trans)
    then have "2 \<le> count (mset (pl ! i)) ci"
      by (metis count_add_mset count_empty mset_subset_eq_count numeral_2_eq_2)
    moreover have "distinct (pl ! i)" using pl(2) ij by simp
    ultimately show False by (simp add: distinct_count_atmost_1 split: if_splits)
  qed
  moreover have "length (laddrPool e ! i) < avglen n (ncpu cf)"
    if "i < ncpu cf" "worker_owns (works e ! i) + handles_own i (hands e) \<noteq> {#}" for i
  proof -
    have "size (owned e i) \<le> length (pl ! i)"
      using size_mset_mono [OF own [OF that(1)]] by simp
    moreover have "0 < size (worker_owns (works e ! i) + handles_own i (hands e))"
      using that(2) by (metis nonempty_has_size)
    ultimately show ?thesis using pl(3) [OF that(1)] by (auto simp: owned_def)
  qed
  ultimately show ?thesis by blast
qed

section \<open>What can be lost\<close>

text \<open>The first connection of the single connector, up to its handle.\<close>

definition opened :: engine where
  "opened = \<lparr>closing = False, engclosed = False, aliveCount = 1, newCount = 1, rwCount = 0, conns = [0 \<mapsto> 0],
     laddrPool = [[]], switchCloses = 1, workloadon = True, closedListeners = {}, openfds = [0],
     hands = [(0, 0, 0, HRun)], works = [WTake], waited = False\<rparr>"

definition dialing :: engine where
  "dialing = \<lparr>closing = False, engclosed = False, aliveCount = 0, newCount = 0, rwCount = 0, conns = Map.empty,
     laddrPool = [[]], switchCloses = 1, workloadon = True, closedListeners = {}, openfds = [],
     hands = [], works = [WDial 0], waited = False\<rparr>"

lemma reach_dialing: "reaches (eng_step cf0) (start_state cf0 [[0]]) dialing"
proof -
  let ?a = "connector_section cf0 0 None (start_state cf0 [[0]])"
  have "eng_step cf0 (start_state cf0 [[0]]) ?a"
    by (rule step_connector) (simp_all add: run_simps)
  moreover have "eng_step cf0 ?a dialing"
    by (rule step_take [of 0]) (simp_all add: run_simps dialing_def)
  ultimately show ?thesis by (meson reaches_refl reaches_step)
qed

lemma reach_connected: "reaches (eng_step cf0) (start_state cf0 [[0]]) (dialled 0 0 DialOk dialing)"
  by (rule reaches_step [OF reach_dialing], rule step_dial) (simp_all add: dialing_def)

lemma reach_opened: "reaches (eng_step cf0) (start_state cf0 [[0]]) opened"
proof (rule reaches_step [OF reach_connected])
  have "opened = connector_section cf0 0 (Some (0, 0)) (dialled 0 0 DialOk dialing)"
    by (simp add: opened_def dialing_def run_simps)
  moreover have "eng_step cf0 (dialled 0 0 DialOk dialing) (connector_section cf0 0 (Some (0, 0)) (dialled 0 0 DialOk dialing))"
    by (rule step_connector) (simp_all add: dialing_def run_simps)
  ultimately show "eng_step cf0 (dialled 0 0 DialOk dialing) opened" by simp
qed

theorem engine_addresses_witness:
  "length (laddrPool opened ! 0) < avglen 1 (ncpu cf0)"
proof -
  have "preload 1 (ncpu cf0) = Some [[0]]"
    by (simp add: preload_def avglen_def pool_send_def cf0_def)
  then show ?thesis
    using engine_addresses [of cf0 "[[0]]" opened 1] reach_opened
    by (simp add: cf0_def opened_def handles_own_def)
qed

text \<open>
  A live connection can vanish from the map of connections: a handle gives its address
  back before it deletes its entry, and the entry it then deletes is that of the next
  connection from this address.  The engine does not close that connection when it ends.
\<close>

theorem engine_map_race:
  "\<exists>e c. reaches (eng_step cf0) (start_state cf0 [[0]]) e \<and> \<not> enomap cf0
     \<and> hands e = [(0, 0, c, HRun)] \<and> c \<in> set (openfds e) \<and> conns e = Map.empty
     \<and> c \<in> set (openfds (workerWait cf0 e))"
proof -
  let ?b = "handle_end cf0 0 (hands opened ! 0) opened"
  let ?c = "handle_put 0 (hands ?b ! 0) ?b"
  let ?d = "the (take_index 0 ?c)"
  let ?e = "dialled 0 0 DialOk ?d"
  let ?f = "connector_section cf0 0 (Some (0, 1)) ?e"
  let ?g = "handle_del cf0 0 (hands ?f ! 0) ?f"
  have "reaches (eng_step cf0) (start_state cf0 [[0]]) ?b"
    by (rule reaches_step [OF reach_opened], rule step_handle_end) (simp_all add: opened_def)
  then have "reaches (eng_step cf0) (start_state cf0 [[0]]) ?c"
    by (rule reaches_step, intro step_handle_put) (simp_all add: opened_def run_simps)
  then have "reaches (eng_step cf0) (start_state cf0 [[0]]) ?d"
    by (rule reaches_step, intro step_take [of 0]) (simp_all add: opened_def run_simps)
  then have "reaches (eng_step cf0) (start_state cf0 [[0]]) ?e"
    by (rule reaches_step, intro step_dial) (simp_all add: opened_def run_simps)
  then have "reaches (eng_step cf0) (start_state cf0 [[0]]) ?f"
    by (rule reaches_step, intro step_connector) (simp_all add: opened_def run_simps)
  then have "reaches (eng_step cf0) (start_state cf0 [[0]]) ?g"
    by (rule reaches_step, intro step_handle_del) (simp_all add: opened_def run_simps)
  moreover have "hands ?g = [(0, 0, 1, HRun)] \<and> 1 \<in> set (openfds ?g) \<and> conns ?g = Map.empty"
    by (simp add: opened_def run_simps)
  moreover have "1 \<in> set (openfds (workerWait cf0 ?g))"
    by (simp add: opened_def run_simps workerWait_def close_conns_def Let_def)
  ultimately show ?thesis by (intro exI [of _ ?g] exI [of _ 1]) (simp add: cf0_def)
qed

text \<open>
  An address is lost when dialling from it fails with an address in use or a timeout: the
  connector takes the next index without giving this one back, and with its last address
  it waits for ever although it has no connection.
\<close>

theorem engine_address_leak:
  "\<exists>e. reaches (eng_step cf0) (start_state cf0 [[0]]) e \<and> works e = [WTake] \<and> hands e = []
     \<and> laddrPool e = [[]] \<and> take_index 0 e = None \<and> \<not> closing e"
proof -
  let ?a = "dialled 0 0 DialInUse dialing"
  let ?b = "connector_section cf0 0 None ?a"
  have "reaches (eng_step cf0) (start_state cf0 [[0]]) ?a"
    by (rule reaches_step [OF reach_dialing], rule step_dial) (simp_all add: dialing_def)
  then have "reaches (eng_step cf0) (start_state cf0 [[0]]) ?b"
    by (rule reaches_step, intro step_connector) (simp_all add: dialing_def run_simps)
  moreover have "works ?b = [WTake] \<and> hands ?b = [] \<and> laddrPool ?b = [[]] \<and> take_index 0 ?b = None \<and> \<not> closing ?b"
    by (simp add: dialing_def run_simps)
  ultimately show ?thesis by blast
qed

text \<open>
  A connection that is established while the engine begins to close is neither closed nor
  handed to a handle: its connector leaves its loop with the connection open.
\<close>

theorem engine_connection_leak:
  "\<exists>e. reaches (eng_step cf0) (start_state cf0 [[0]]) e \<and> works e = [WExit] \<and> hands e = []
     \<and> openfds (workerWait cf0 e) = [0]"
proof -
  let ?a = "sig_exit cf0 (dialled 0 0 DialOk dialing)"
  let ?b = "connector_section cf0 0 (Some (0, 0)) ?a"
  have "reaches (eng_step cf0) (start_state cf0 [[0]]) ?a"
    by (rule reaches_step [OF reach_connected], rule step_signal)
  then have "reaches (eng_step cf0) (start_state cf0 [[0]]) ?b"
    by (rule reaches_step, intro step_connector) (simp_all add: dialing_def run_simps)
  moreover have "works ?b = [WExit] \<and> hands ?b = [] \<and> openfds (workerWait cf0 ?b) = [0]"
    by (simp add: dialing_def run_simps workerWait_def close_conns_def Let_def)
  ultimately show ?thesis by blast
qed

section \<open>Handles and signals\<close>

text \<open>
  A handle counts exactly the rounds before the first failed one and before the closing
  flag is seen; with a limit and a work load it takes one token per round begun, so it
  never counts more rounds than tokens.
\<close>

theorem handle_rounds:
  assumes "\<not> noworkload conf" "0 <s QPSLimit conf"
  shows "fst (handle_loop r conf es) = length (takeWhile (\<lambda>(seen, rd, wr). \<not> seen \<and> r conf rd wr) es)
     \<and> fst (handle_loop r conf es) \<le> snd (handle_loop r conf es)
     \<and> snd (handle_loop r conf es) \<le> fst (handle_loop r conf es) + 1"
  using assms
  by (induction es rule: handle_loop.induct [of _ r conf]) (auto simp: Let_def split: prod.splits if_splits)

theorem handle_rounds_witness:
  "let conf = (flag_defaults [] [])\<lparr>QPSLimit := 5, twoway := True\<rparr>
   in fst (handle_loop server_round conf [(False, IoOk, IoOk), (False, IoOk, IoErr)]) = 1"
  using handle_rounds [of "(flag_defaults [] [])\<lparr>QPSLimit := 5, twoway := True\<rparr>" server_round
    "[(False, IoOk, IoOk), (False, IoOk, IoErr)]"]
  by (simp add: flag_defaults_def word_sless_alt server_round_def Let_def)

section \<open>Starting\<close>






end
