(* ===== verification/Qps_Tables.thy ===== *)
theory Qps_Tables
  imports Go_Strings
begin

text \<open>
  The tables of \<open>src/qps-http-app-server/qps-http-app-server.go\<close>: the HTTP status codes with their
  texts, and the events of a connection with their numbers and texts.
\<close>

abbreviation httpStatusContinue :: nat where "httpStatusContinue \<equiv> 100"
abbreviation httpStatusOK :: nat where "httpStatusOK \<equiv> 200"
abbreviation httpStatusBadRequest :: nat where "httpStatusBadRequest \<equiv> 400"
abbreviation httpStatusMethodNotAllowed :: nat where "httpStatusMethodNotAllowed \<equiv> 405"
abbreviation httpStatusServiceUnavailable :: nat where "httpStatusServiceUnavailable \<equiv> 503"

definition status_table :: "(nat \<times> bytes) list" where
  "status_table =
    [(100, '' 100 Continue''),
     (101, '' 101 Switching Protocols''),
     (200, '' 200 OK''),
     (201, '' 201 Created''),
     (202, '' 202 Accepted''),
     (203, '' 203 Non Authoritative Info''),
     (204, '' 204 No Content''),
     (205, '' 205 Reset Content''),
     (206, '' 206 Partial Content''),
     (300, '' 300 Multiple Choices''),
     (301, '' 301 Moved Permanently''),
     (302, '' 302 Found''),
     (303, '' 303 See Other''),
     (304, '' 304 NotModified''),
     (305, '' 305 Use Proxy''),
     (307, '' 307 Temporary Redirect''),
     (400, '' 400 Bad Request''),
     (401, '' 401 Unauthorized''),
     (402, '' 402 Payment Required''),
     (403, '' 403 Forbidden''),
     (404, '' 404 Not Found''),
     (405, '' 405 Method NotAllowed''),
     (406, '' 406 Not Acceptable''),
     (407, '' 407 Proxy Auth Required''),
     (408, '' 408 Request Timeout''),
     (409, '' 409 Conflict''),
     (410, '' 410 Gone''),
     (411, '' 411 Length Required''),
     (412, '' 412 Precondition Failed''),
     (413, '' 413 Request Entity Too Large''),
     (414, '' 414 Request URI Too Long''),
     (415, '' 415 Unsupported Media Type''),
     (416, '' 416 Requested Range Not Satisfiable''),
     (417, '' 417 Expectation Failed''),
     (418, '' 418 Teapot''),
     (499, '' 499 Client Disconnected''),
     (500, '' 500 Internal Server Error''),
     (501, '' 501 Not Implemented''),
     (502, '' 502 Bad Gateway''),
     (503, '' 503 Service Unavailable''),
     (504, '' 504 Gateway Timeout''),
     (505, '' 505 HTTP Version Not Supported'')]"

text \<open>A code without an entry has Go's zero value, the empty text.\<close>

definition httpStatusText :: "nat \<Rightarrow> bytes" where
  "httpStatusText c = (case map_of status_table c of Some t \<Rightarrow> t | None \<Rightarrow> [])"

text \<open>The events, in the order of their numbers.\<close>

datatype qevent =
    EVENT_START | TOTAL_TIME_ESP | TOTAL_CONN_MAX
  | TOTAL_CONN_RUNNING | TOTAL_CONN_IDLE | TOTAL_CONN_INIT
  | TOTAL_CONN_KEEPALIVE | TOTAL_CONN_REQUEST | TOTAL_CONN_RESPONSE
  | TOTAL_CONN_CLOSED | HttpRequestStateReadInit | HttpRequestStateReadWaiting
  | HttpRequestStateReadHeader | HttpRequestStateReadBody | HttpRequestStatePaseError
  | HttpRequestStateReadHeaderError | HttpRequestStateReadHeaderTimeOut | HttpRequestStateReadBodyError
  | HttpRequestStatePaseDone | HttpRequestStateWriteInit | HttpRequestStateWriteHeader
  | HttpRequestStateWriteHeaderDone | HttpRequestStateWriteHeaderError | HttpRequestStateWriteHeaderTimeOut
  | HttpRequestStateWriteWaiting | HttpRequestStateWriteBody | HttpRequestStateWriteBodyDone
  | HttpRequestStateWriteBodyError | HttpRequestStateWriteBodyTimeOut | HttpRequestStateRawProxy
  | HttpRequestStateRawProxyReadError | HttpRequestStateRawProxyWriteError | HttpRequestStatefinished
  | HttpRequestStateKeepalive | HttpRequestStateDestroyed | HttpRequestStateInvalid
  | HttpRequestStateReadTimeOut | HttpRequestStateReadError | HttpRequestStateReadDone
  | HttpRequestStateWriteTimeOut | HttpRequestStateWriteError | HttpRequestStateWriteDone
  | EVENT_LAST

definition all_events :: "qevent list" where
  "all_events =
    [EVENT_START, TOTAL_TIME_ESP, TOTAL_CONN_MAX,
     TOTAL_CONN_RUNNING, TOTAL_CONN_IDLE, TOTAL_CONN_INIT,
     TOTAL_CONN_KEEPALIVE, TOTAL_CONN_REQUEST, TOTAL_CONN_RESPONSE,
     TOTAL_CONN_CLOSED, HttpRequestStateReadInit, HttpRequestStateReadWaiting,
     HttpRequestStateReadHeader, HttpRequestStateReadBody, HttpRequestStatePaseError,
     HttpRequestStateReadHeaderError, HttpRequestStateReadHeaderTimeOut, HttpRequestStateReadBodyError,
     HttpRequestStatePaseDone, HttpRequestStateWriteInit, HttpRequestStateWriteHeader,
     HttpRequestStateWriteHeaderDone, HttpRequestStateWriteHeaderError, HttpRequestStateWriteHeaderTimeOut,
     HttpRequestStateWriteWaiting, HttpRequestStateWriteBody, HttpRequestStateWriteBodyDone,
     HttpRequestStateWriteBodyError, HttpRequestStateWriteBodyTimeOut, HttpRequestStateRawProxy,
     HttpRequestStateRawProxyReadError, HttpRequestStateRawProxyWriteError, HttpRequestStatefinished,
     HttpRequestStateKeepalive, HttpRequestStateDestroyed, HttpRequestStateInvalid,
     HttpRequestStateReadTimeOut, HttpRequestStateReadError, HttpRequestStateReadDone,
     HttpRequestStateWriteTimeOut, HttpRequestStateWriteError, HttpRequestStateWriteDone,
     EVENT_LAST]"

primrec event_no :: "qevent \<Rightarrow> nat" where
  "event_no EVENT_START = 0"
| "event_no TOTAL_TIME_ESP = 1"
| "event_no TOTAL_CONN_MAX = 2"
| "event_no TOTAL_CONN_RUNNING = 3"
| "event_no TOTAL_CONN_IDLE = 4"
| "event_no TOTAL_CONN_INIT = 5"
| "event_no TOTAL_CONN_KEEPALIVE = 6"
| "event_no TOTAL_CONN_REQUEST = 7"
| "event_no TOTAL_CONN_RESPONSE = 8"
| "event_no TOTAL_CONN_CLOSED = 9"
| "event_no HttpRequestStateReadInit = 10"
| "event_no HttpRequestStateReadWaiting = 11"
| "event_no HttpRequestStateReadHeader = 12"
| "event_no HttpRequestStateReadBody = 13"
| "event_no HttpRequestStatePaseError = 14"
| "event_no HttpRequestStateReadHeaderError = 15"
| "event_no HttpRequestStateReadHeaderTimeOut = 16"
| "event_no HttpRequestStateReadBodyError = 17"
| "event_no HttpRequestStatePaseDone = 18"
| "event_no HttpRequestStateWriteInit = 19"
| "event_no HttpRequestStateWriteHeader = 20"
| "event_no HttpRequestStateWriteHeaderDone = 21"
| "event_no HttpRequestStateWriteHeaderError = 22"
| "event_no HttpRequestStateWriteHeaderTimeOut = 23"
| "event_no HttpRequestStateWriteWaiting = 24"
| "event_no HttpRequestStateWriteBody = 25"
| "event_no HttpRequestStateWriteBodyDone = 26"
| "event_no HttpRequestStateWriteBodyError = 27"
| "event_no HttpRequestStateWriteBodyTimeOut = 28"
| "event_no HttpRequestStateRawProxy = 29"
| "event_no HttpRequestStateRawProxyReadError = 30"
| "event_no HttpRequestStateRawProxyWriteError = 31"
| "event_no HttpRequestStatefinished = 32"
| "event_no HttpRequestStateKeepalive = 33"
| "event_no HttpRequestStateDestroyed = 34"
| "event_no HttpRequestStateInvalid = 35"
| "event_no HttpRequestStateReadTimeOut = 36"
| "event_no HttpRequestStateReadError = 37"
| "event_no HttpRequestStateReadDone = 38"
| "event_no HttpRequestStateWriteTimeOut = 39"
| "event_no HttpRequestStateWriteError = 40"
| "event_no HttpRequestStateWriteDone = 41"
| "event_no EVENT_LAST = 42"

primrec EventChangeString :: "qevent \<Rightarrow> bytes" where
  "EventChangeString EVENT_START = ''event cont start''"
| "EventChangeString TOTAL_TIME_ESP = ''time esp secondss''"
| "EventChangeString TOTAL_CONN_MAX = ''maximum connections''"
| "EventChangeString TOTAL_CONN_RUNNING = ''connections running''"
| "EventChangeString TOTAL_CONN_IDLE = ''idle connections''"
| "EventChangeString TOTAL_CONN_INIT = ''new connections''"
| "EventChangeString TOTAL_CONN_KEEPALIVE = ''keepalive requests''"
| "EventChangeString TOTAL_CONN_REQUEST = ''total requests''"
| "EventChangeString TOTAL_CONN_RESPONSE = ''total response''"
| "EventChangeString TOTAL_CONN_CLOSED = ''connections closed''"
| "EventChangeString HttpRequestStateReadInit = ''http read init''"
| "EventChangeString HttpRequestStateReadWaiting = ''http read waiting''"
| "EventChangeString HttpRequestStateReadHeader = ''http read header''"
| "EventChangeString HttpRequestStateReadBody = ''http read body''"
| "EventChangeString HttpRequestStatePaseError = ''http parse error''"
| "EventChangeString HttpRequestStateReadHeaderError = ''http read header error''"
| "EventChangeString HttpRequestStateReadHeaderTimeOut = ''http read header time out''"
| "EventChangeString HttpRequestStateReadBodyError = ''http read header error''"
| "EventChangeString HttpRequestStatePaseDone = ''http parse done ''"
| "EventChangeString HttpRequestStateWriteInit = ''http write init''"
| "EventChangeString HttpRequestStateWriteHeader = ''http write header''"
| "EventChangeString HttpRequestStateWriteHeaderDone = ''http write header done''"
| "EventChangeString HttpRequestStateWriteHeaderError = ''http write header error''"
| "EventChangeString HttpRequestStateWriteHeaderTimeOut = ''http write header time out''"
| "EventChangeString HttpRequestStateWriteWaiting = ''http write waiting''"
| "EventChangeString HttpRequestStateWriteBody = ''http write body''"
| "EventChangeString HttpRequestStateWriteBodyDone = ''http write body done''"
| "EventChangeString HttpRequestStateWriteBodyError = ''http write body error''"
| "EventChangeString HttpRequestStateWriteBodyTimeOut = ''http write body timeout ''"
| "EventChangeString HttpRequestStateRawProxy = ''raw proxy''"
| "EventChangeString HttpRequestStateRawProxyReadError = ''raw proxy read error''"
| "EventChangeString HttpRequestStateRawProxyWriteError = ''raw proxy write error''"
| "EventChangeString HttpRequestStatefinished = ''http finished''"
| "EventChangeString HttpRequestStateKeepalive = ''http keepalive''"
| "EventChangeString HttpRequestStateDestroyed = ''http destroyed''"
| "EventChangeString HttpRequestStateInvalid = ''http invalid''"
| "EventChangeString HttpRequestStateReadTimeOut = ''http read timeout ''"
| "EventChangeString HttpRequestStateReadError = ''http read error ''"
| "EventChangeString HttpRequestStateReadDone = ''http read done ''"
| "EventChangeString HttpRequestStateWriteTimeOut = ''http write timeout ''"
| "EventChangeString HttpRequestStateWriteError = ''http write error ''"
| "EventChangeString HttpRequestStateWriteDone = ''http write done ''"
| "EventChangeString EVENT_LAST = ''event cont last''"

section \<open>Lemmas\<close>

text \<open>The numbers are the positions in the enumeration, so no two events share one.\<close>

lemma event_no_position: "all_events ! event_no e = e \<and> event_no e < length all_events"
  by (cases e) (simp_all add: all_events_def)

lemma event_no_inj: "event_no a = event_no b \<Longrightarrow> a = b"
  by (metis event_no_position)

lemma all_events_complete: "set all_events = UNIV"
  using event_no_position by (metis UNIV_eq_I nth_mem)

instantiation qevent :: linorder
begin

definition less_eq_qevent :: "qevent \<Rightarrow> qevent \<Rightarrow> bool" where
  "less_eq_qevent a b \<longleftrightarrow> event_no a \<le> event_no b"

definition less_qevent :: "qevent \<Rightarrow> qevent \<Rightarrow> bool" where
  "less_qevent a b \<longleftrightarrow> event_no a < event_no b"

instance
  by standard (auto simp: less_eq_qevent_def less_qevent_def event_no_inj)

end

text \<open>Every text starts with a blank and its code.\<close>

lemma status_table_codes:
  "distinct (map fst status_table) \<and>
   list_all (\<lambda>(c, t). 100 \<le> c \<and> c < 600 \<and> t \<noteq> [] \<and> hd t = CHR '' '') status_table"
  by (simp add: status_table_def)

end
