(* ===== verification/Qps_Conn.thy ===== *)
theory Qps_Conn
  imports Qps_Tables
begin

text \<open>
  One connection of \<open>src/qps-http-app-server/qps-http-app-server.go\<close>: reading and parsing a request
  (\<open>httpReadRawStream\<close>, \<open>httpReadRequest\<close>), sending the response (\<open>httpWriteResponser\<close>,
  \<open>httpSendResponse\<close>) and the keep-alive loop (\<open>httpConnectionHandler\<close>).

  The peer is a script of results of \<open>Read\<close> and \<open>Write\<close>; an exhausted script is a closed peer.
  The events sent to the main goroutine are collected in order.  The search for the end of
  the header and the keep-alive loop may run for ever: not returning is \<open>None\<close>.
\<close>

section \<open>State\<close>

text \<open>An error of the network layer is temporary (a timeout counts as such) or not.\<close>

datatype net_err = NetTemporary | NetOther | NotNet

type_synonym read_result = "bytes \<times> net_err option"
type_synonym write_result = "nat \<times> net_err option"

record qconf =
  qmode :: bytes
  net_timeout :: nat
  net_keepalive_timeout :: nat
  read_delay :: int
  write_delay :: int
  qdate :: bytes

record qinfo =
  qstate :: qevent
  ioError :: bool
  ReadRawStream :: bytes
  ReadProcotolStream :: bytes
  ReadHeaderStream :: bytes
  ReadBodyStream :: bytes
  qmethod :: bytes
  qkeepalive :: bool
  requestCount :: nat
  responseStatusCode :: nat
  responseHeaderText :: bytes
  responseBodyText :: bytes
  qevents :: "qevent list"
  qreads :: "read_result list"
  qwrites :: "write_result list"
  qsent :: bytes
  qclosed :: bool

definition httpConnectionSetState :: "qevent \<Rightarrow> qinfo \<Rightarrow> qinfo" where
  "httpConnectionSetState e c = c\<lparr>qevents := qevents c @ [e], qstate := e\<rparr>"

definition notify :: "qevent \<Rightarrow> qinfo \<Rightarrow> qinfo" where
  "notify e c = c\<lparr>qevents := qevents c @ [e]\<rparr>"

text \<open>
  A new request gets a fresh structure; what belongs to the connection (the peer, the bytes
  sent, the events) stays.
\<close>

definition httpConnectionInit :: "nat \<Rightarrow> bytes \<Rightarrow> nat \<Rightarrow> qinfo \<Rightarrow> qinfo" where
  "httpConnectionInit initStatusCode bodyText count c =
     (httpConnectionSetState HttpRequestStateReadInit
        \<lparr>qstate = EVENT_START, ioError = False, ReadRawStream = [], ReadProcotolStream = [], ReadHeaderStream = [],
         ReadBodyStream = [], qmethod = [], qkeepalive = False, requestCount = 0, responseStatusCode = 0,
         responseHeaderText = [], responseBodyText = [], qevents = qevents c, qreads = qreads c,
         qwrites = qwrites c, qsent = qsent c, qclosed = qclosed c\<rparr>)
     \<lparr>responseBodyText := bodyText, responseStatusCode := initStatusCode, requestCount := count\<rparr>"

definition httpConnectionKeepalive :: "qinfo \<Rightarrow> bool \<times> qinfo" where
  "httpConnectionKeepalive c =
     (qkeepalive c,
      if \<not> qkeepalive c then httpConnectionSetState HttpRequestStateDestroyed (c\<lparr>qclosed := True\<rparr>) else c)"

section \<open>Reading\<close>

text \<open>The first result of the script; the buffer of 64 KiB splits a longer piece.\<close>

abbreviation RECV_BUF_LEN :: nat where "RECV_BUF_LEN \<equiv> 65536"

fun raw_loop :: "nat \<Rightarrow> nat \<Rightarrow> read_result list \<Rightarrow> qinfo \<Rightarrow> nat \<times> qinfo" where
  "raw_loop ioTimeOut tries [] c =
     (0, (httpConnectionSetState HttpRequestStateReadError c)\<lparr>ioError := True, qreads := []\<rparr>)"
| "raw_loop ioTimeOut tries ((d, err) # rs) c =
     (let io_try_count = tries + 1;
          n = min (length d) RECV_BUF_LEN;
          e = (if length d > RECV_BUF_LEN then None else err);
          rest = (if length d > RECV_BUF_LEN then (drop RECV_BUF_LEN d, err) # rs else rs);
          c1 = c\<lparr>qreads := rest\<rparr>
      in if e = Some NetTemporary \<and> ioTimeOut > 0 \<and> io_try_count \<ge> 5 then
           (n, (httpConnectionSetState HttpRequestStateReadTimeOut c1)\<lparr>ioError := True\<rparr>)
         else if e \<noteq> None \<and> \<not> (e = Some NetTemporary \<and> ioTimeOut > 0) then
           (n, (httpConnectionSetState HttpRequestStateReadError c1)\<lparr>ioError := True\<rparr>)
         else if n = 0 then raw_loop ioTimeOut io_try_count rs c1
         else (n, httpConnectionSetState HttpRequestStateReadDone
                    (c1\<lparr>ReadRawStream := ReadRawStream c1 @ take n d\<rparr>)))"

definition httpReadRawStream :: "nat \<Rightarrow> qinfo \<Rightarrow> nat \<times> qinfo" where
  "httpReadRawStream ioTimeOut c = raw_loop ioTimeOut 0 (qreads c) (c\<lparr>ioError := False\<rparr>)"

section \<open>Writing\<close>

fun write_loop :: "nat \<Rightarrow> bytes \<Rightarrow> nat \<Rightarrow> nat \<Rightarrow> write_result list \<Rightarrow> qinfo \<Rightarrow> qinfo" where
  "write_loop ioTimeOut txt tries written [] c =
     (let c1 = (httpConnectionSetState HttpRequestStateWriteError c)\<lparr>ioError := True, qwrites := []\<rparr>
      in if written = length txt then httpConnectionSetState HttpRequestStateWriteDone c1 else c1)"
| "write_loop ioTimeOut txt tries written ((k, err) # ws) c =
     (let io_try_count = tries + 1;
          n = min k (length txt - written);
          c1 = c\<lparr>qwrites := ws, qsent := qsent c @ take n (drop written txt)\<rparr>;
          c2 = (if err = Some NetTemporary \<and> ioTimeOut > 0 then
                  (if io_try_count \<ge> 5
                   then (httpConnectionSetState HttpRequestStateWriteTimeOut c1)\<lparr>ioError := True\<rparr> else c1)
                else if err \<noteq> None
                   then (httpConnectionSetState HttpRequestStateWriteError c1)\<lparr>ioError := True\<rparr> else c1)
      in if written + n = length txt then httpConnectionSetState HttpRequestStateWriteDone c2
         else if ioError c2 then c2
         else write_loop ioTimeOut txt io_try_count (written + n) ws c2)"

definition httpWriteResponser :: "bytes \<Rightarrow> nat \<Rightarrow> qinfo \<Rightarrow> qinfo" where
  "httpWriteResponser txt ioTimeOut c = write_loop ioTimeOut txt 0 0 (qwrites c) (c\<lparr>ioError := False\<rparr>)"

abbreviation eol :: bytes where "eol \<equiv> [CHR 0x0D, CHR 0x0A]"

definition static_header :: "bytes \<Rightarrow> nat \<Rightarrow> bytes" where
  "static_header date len =
     ''Cache-Control: no-cache, must-revalidate'' @ eol @
     ''Content-Type: text/plain; charset=UTF-8'' @ eol @
     ''Pragma: no-cache'' @ eol @
     ''Content-Length: '' @ Itoa (int len) @ eol @
     ''Date: '' @ date @ eol @
     ''Expires: Fri, 01 Jan 1990 00: 00: 00 GMT'' @ eol @
     ''Server: Wheelcomplex-Go-Qps-Server v1.0'' @ eol @ eol"

definition response_head :: "qconf \<Rightarrow> qinfo \<Rightarrow> qinfo" where
  "response_head cf c =
     (if qmode cf = ''short'' then
        c\<lparr>qkeepalive := False,
          responseHeaderText := responseHeaderText c @ ''HTTP/1.0'' @ httpStatusText (responseStatusCode c) @ eol
            @ ''Connection: close'' @ eol\<rparr>
      else if responseStatusCode c < httpStatusBadRequest then
        c\<lparr>qkeepalive := True,
          responseHeaderText := responseHeaderText c @ ''HTTP/1.1'' @ httpStatusText (responseStatusCode c) @ eol
            @ ''Connection: keep-alive'' @ eol\<rparr>
      else
        c\<lparr>qkeepalive := False,
          responseHeaderText := responseHeaderText c @ ''HTTP/1.1'' @ httpStatusText (responseStatusCode c) @ eol
            @ ''Connection: close'' @ eol\<rparr>)"

definition send_body :: "qconf \<Rightarrow> qinfo \<Rightarrow> qinfo" where
  "send_body cf c =
     (let c1 = (if write_delay cf > 0 then httpConnectionSetState HttpRequestStateWriteWaiting c else c);
          c2 = httpConnectionSetState HttpRequestStateWriteBody c1;
          c3 = httpWriteResponser (responseBodyText c2) (net_timeout cf) c2
      in if qstate c3 = HttpRequestStateWriteDone
         then notify TOTAL_CONN_RESPONSE (httpConnectionSetState HttpRequestStateWriteBodyDone c3)
         else if qstate c3 = HttpRequestStateWriteTimeOut
         then httpConnectionSetState HttpRequestStateWriteBodyTimeOut c3
         else httpConnectionSetState HttpRequestStateWriteBodyError c3)"

definition httpSendResponse :: "qconf \<Rightarrow> qinfo \<Rightarrow> qinfo" where
  "httpSendResponse cf c =
     (let c1 = c\<lparr>responseBodyText := responseBodyText c @ ''/'' @ qdate cf @ ''/'' @ Itoa (int (requestCount c)) @ eol\<rparr>
      in if qmode cf = ''readlonly'' then c1
         else (let c2 = response_head cf c1;
                   c3 = c2\<lparr>responseHeaderText := responseHeaderText c2
                          @ static_header (qdate cf) (length (responseBodyText c2))\<rparr>;
                   c4 = httpWriteResponser (responseHeaderText c3) (net_timeout cf) c3
               in if qstate c4 = HttpRequestStateWriteDone
                  then send_body cf (httpConnectionSetState HttpRequestStateWriteHeaderDone c4)
                  else if qstate c4 = HttpRequestStateWriteTimeOut
                  then httpConnectionSetState HttpRequestStateWriteHeaderTimeOut c4
                  else httpConnectionSetState HttpRequestStateWriteHeaderError c4))"

section \<open>httpReadRequest\<close>

abbreviation NL :: char where "NL \<equiv> CHR 0x0A"
abbreviation CR :: char where "CR \<equiv> CHR 0x0D"

text \<open>
  The search for the end of the header among the bytes read so far.  The result is the new
  position and, when the blank line is found, the header and the rest.
\<close>

partial_function (option) header_loop ::
  "bytes \<Rightarrow> nat \<Rightarrow> nat \<Rightarrow> nat \<Rightarrow> (nat \<times> (bytes \<times> bytes) option) option"
where
  "header_loop raw totalread startPos seek =
     (if seek < totalread then
        (case IndexByte (drop seek raw) NL of
           None \<Rightarrow> header_loop raw totalread startPos seek
         | Some r \<Rightarrow>
             if r = 0 \<or> r = 1 \<and> raw ! seek = CR
             then Some (seek, Some (subslice startPos (seek + r) raw,
                                    if r < length raw then drop (seek + r + 1) raw else []))
             else header_loop raw totalread startPos (seek + r + 1))
      else Some (seek, None))"

text \<open>
  The search for the request line.  \<open>Inl\<close> is a request that was answered with an error;
  \<open>Inr\<close> the position, the start of the header and whether the method is known.
\<close>

definition reject :: "qconf \<Rightarrow> nat \<Rightarrow> qinfo \<Rightarrow> qinfo" where
  "reject cf code c = httpSendResponse cf (c\<lparr>qstate := HttpRequestStatePaseError, responseStatusCode := code\<rparr>)"

definition method_step :: "qconf \<Rightarrow> nat \<Rightarrow> nat \<Rightarrow> nat \<Rightarrow> qinfo \<Rightarrow> qinfo + nat \<times> nat \<times> bool \<times> qinfo" where
  "method_step cf totalread seek startPos c =
     (case IndexByte (drop seek (ReadRawStream c)) NL of
        None \<Rightarrow> Inr (seek, startPos, False, c)
      | Some r \<Rightarrow>
          if r = 0 \<or> r = 1 \<and> ReadRawStream c ! seek = CR then
            (if seek > 14 then Inl (reject cf httpStatusBadRequest c) else Inr (seek + r + 1, startPos, False, c))
          else if totalread < 16 then Inl (reject cf httpStatusBadRequest c)
          else (let c1 = c\<lparr>ReadProcotolStream := subslice seek (seek + r) (ReadRawStream c)\<rparr>
                in if prefix ''GET /'' (drop seek (ReadRawStream c))
                   then Inr (seek + r + 1, r + 1, True, c1\<lparr>qmethod := ''GET''\<rparr>)
                   else if prefix ''POST /'' (drop seek (ReadRawStream c))
                   then Inr (seek + r + 1, r + 1, True, c1\<lparr>qmethod := ''POST''\<rparr>)
                   else Inl (reject cf httpStatusMethodNotAllowed c1)))"

text \<open>The switch on the state after a read: \<open>Inl\<close> is the early return.\<close>

definition after_read :: "nat \<Rightarrow> nat \<Rightarrow> nat \<Rightarrow> qinfo \<Rightarrow> qinfo + qinfo" where
  "after_read totalread tries readTimeOut c =
     (if qstate c = HttpRequestStateReadDone then Inr (httpConnectionSetState HttpRequestStateReadHeader c)
      else if qstate c = HttpRequestStateReadTimeOut then
        (if totalread < 16 \<and> tries = readTimeOut
         then Inl (httpConnectionSetState HttpRequestStateReadHeaderTimeOut c)
         else Inr (httpConnectionSetState HttpRequestStateReadHeader c))
      else if totalread < 16 \<or> tries = readTimeOut
         then Inl (httpConnectionSetState HttpRequestStateReadHeaderError c)
         else Inr (httpConnectionSetState HttpRequestStateReadHeader c))"

fun read_loop ::
  "qconf \<Rightarrow> nat \<Rightarrow> nat \<Rightarrow> nat \<Rightarrow> nat \<Rightarrow> nat \<Rightarrow> bool \<Rightarrow> qinfo \<Rightarrow> qinfo option"
where
  "read_loop cf 0 readTimeOut totalread seek startPos ok c = Some c"
| "read_loop cf (Suc left) readTimeOut totalread seek startPos ok c =
     (if ioError c then Some c
      else let (n, c1) = httpReadRawStream 1 c;
               tot = totalread + n
           in case after_read tot (readTimeOut - left) readTimeOut c1 of
                Inl c2 \<Rightarrow> Some c2
              | Inr c2 \<Rightarrow>
                  (case (if ok then Inr (seek, startPos, True, c2) else method_step cf tot seek startPos c2) of
                     Inl c3 \<Rightarrow> Some c3
                   | Inr (seek', start', ok', c3) \<Rightarrow>
                       if \<not> ok' then read_loop cf left readTimeOut tot seek' start' False c3
                       else (case header_loop (ReadRawStream c3) tot start' seek' of
                           None \<Rightarrow> None
                         | Some (seek'', None) \<Rightarrow> read_loop cf left readTimeOut tot seek'' start' True c3
                         | Some (seek'', Some (hdr, body)) \<Rightarrow>
                             Some (notify TOTAL_CONN_REQUEST
                               (c3\<lparr>qstate := HttpRequestStatePaseDone, ReadHeaderStream := hdr,
                                   ReadBodyStream := body\<rparr>)))))"

definition httpReadRequest :: "qconf \<Rightarrow> qinfo \<Rightarrow> qinfo option" where
  "httpReadRequest cf c =
     (let c1 = httpConnectionSetState HttpRequestStateReadInit c;
          c2 = (if read_delay cf > 0 then httpConnectionSetState HttpRequestStateReadWaiting c1 else c1);
          c3 = (httpConnectionSetState HttpRequestStateReadHeader c2)\<lparr>ioError := False\<rparr>;
          readTimeOut = (if requestCount c3 > 1 then net_keepalive_timeout cf else net_timeout cf)
      in read_loop cf readTimeOut readTimeOut 0 0 0 False c3)"

section \<open>httpConnectionHandler\<close>

text \<open>The loop of the mode \<open>readlonly\<close>: read until the peer ends, and leave without closing.\<close>

partial_function (option) readlonly_loop :: "qinfo \<Rightarrow> qinfo option" where
  "readlonly_loop c =
     (let (n, c1) = httpReadRawStream 0 c
      in if qstate c1 \<noteq> HttpRequestStateReadDone
         then Some (httpConnectionSetState HttpRequestStateReadBodyError c1)
         else readlonly_loop c1)"

definition close_down :: "qinfo \<Rightarrow> qinfo" where
  "close_down c = snd (httpConnectionKeepalive (c\<lparr>qkeepalive := False\<rparr>))"

partial_function (option) keepalive_loop :: "qconf \<Rightarrow> bytes \<Rightarrow> nat \<Rightarrow> qinfo \<Rightarrow> qinfo option" where
  "keepalive_loop cf bodyText count c =
     (case httpReadRequest cf (httpConnectionInit (event_no HttpRequestStateReadInit) bodyText (count + 1) c) of
        None \<Rightarrow> None
      | Some c1 \<Rightarrow>
          if qstate c1 \<noteq> HttpRequestStatePaseDone then Some (close_down c1)
          else let c2 = (if requestCount c1 > 1 then notify TOTAL_CONN_KEEPALIVE c1 else c1);
                   c3 = c2\<lparr>responseStatusCode := httpStatusOK\<rparr>
               in if qmode cf = ''readlonly'' then readlonly_loop c3
                  else let (k, c4) = httpConnectionKeepalive (httpSendResponse cf c3)
                       in if \<not> k then Some c4 else keepalive_loop cf bodyText (count + 1) c4)"

definition busy_response :: "qconf \<Rightarrow> nat \<Rightarrow> bytes \<Rightarrow> qinfo \<Rightarrow> qinfo option" where
  "busy_response cf code bodyText c =
     (case httpReadRequest cf (httpConnectionInit code bodyText 1 c) of
        None \<Rightarrow> None
      | Some c1 \<Rightarrow>
          Some (close_down (if qstate c1 = HttpRequestStatePaseDone then httpSendResponse cf c1 else c1)))"

definition httpConnectionHandler :: "qconf \<Rightarrow> nat \<Rightarrow> bytes \<Rightarrow> qinfo \<Rightarrow> qinfo option" where
  "httpConnectionHandler cf initStatusCode bodyText c =
     (if initStatusCode = httpStatusServiceUnavailable then busy_response cf initStatusCode bodyText c
      else keepalive_loop cf bodyText 0 c)"

definition new_conn :: "read_result list \<Rightarrow> write_result list \<Rightarrow> qinfo" where
  "new_conn rd wr =
     \<lparr>qstate = EVENT_START, ioError = False, ReadRawStream = [], ReadProcotolStream = [], ReadHeaderStream = [],
      ReadBodyStream = [], qmethod = [], qkeepalive = False, requestCount = 0, responseStatusCode = 0,
      responseHeaderText = [], responseBodyText = [], qevents = [], qreads = rd, qwrites = wr, qsent = [],
      qclosed = False\<rparr>"

end
