(* ===== verification/Qps_Conn_Props.thy ===== *)
theory Qps_Conn_Props
  imports Qps_Conn
begin

text \<open>
  Properties of a connection of the QPS server: the search for the end of the header, what
  it answers, when it never returns, and that it reports its end exactly once.
\<close>

section \<open>The end of the header\<close>

text \<open>A header line as the parser sees it, with its carriage return if it has one.\<close>

definition hline :: "bytes \<Rightarrow> bool" where
  "hline l \<longleftrightarrow> NL \<notin> set l \<and> l \<noteq> [] \<and> l \<noteq> [CR]"

definition hlines :: "bytes list \<Rightarrow> bytes" where
  "hlines ls = concat (map (\<lambda>l. l @ [NL]) ls)"

lemma hlines_simps [simp]: "hlines [] = []" "hlines (l # ls) = l @ NL # hlines ls"
  by (simp_all add: hlines_def)

lemma header_loop_blank:
  assumes "blank = [] \<or> blank = [CR]" "seek = length pre" "raw = pre @ blank @ NL # rest" "seek < totalread"
  shows "header_loop raw totalread startPos seek =
     Some (seek, Some (subslice startPos (length (pre @ blank)) raw, rest))"
  using assms by (subst header_loop.simps) (auto simp: nth_append)

lemma header_loop_line:
  assumes "hline l" "seek = length pre" "raw = pre @ l @ NL # rest" "seek < totalread"
  shows "header_loop raw totalread startPos seek = header_loop raw totalread startPos (seek + length l + 1)"
proof -
  have "IndexByte (drop seek raw) NL = Some (length l)"
    using assms by (simp add: IndexByte_first hline_def)
  moreover have "length l \<noteq> 0" "\<not> (length l = 1 \<and> raw ! seek = CR)"
    using assms by (auto simp: hline_def nth_append length_Suc_conv)
  ultimately show ?thesis using assms(4) by (subst header_loop.simps) auto
qed

lemma header_loop_finds:
  assumes "\<forall>l \<in> set ls. hline l" "blank = [] \<or> blank = [CR]"
    and "raw = pre @ hlines ls @ blank @ NL # rest" "length raw \<le> totalread"
  shows "header_loop raw totalread startPos (length pre) =
     Some (length (pre @ hlines ls), Some (subslice startPos (length (pre @ hlines ls @ blank)) raw, rest))"
  using assms
proof (induction ls arbitrary: pre)
  case Nil
  then show ?case using header_loop_blank [of blank "length pre" pre raw rest totalread startPos] by simp
next
  case (Cons l ls)
  have raw: "raw = (pre @ l @ [NL]) @ hlines ls @ blank @ NL # rest" using Cons.prems by simp
  have "header_loop raw totalread startPos (length pre) = header_loop raw totalread startPos (length (pre @ l @ [NL]))"
    using header_loop_line [of l "length pre" pre raw "hlines ls @ blank @ NL # rest" totalread startPos] Cons.prems by simp
  also have "\<dots> = Some (length ((pre @ l @ [NL]) @ hlines ls),
      Some (subslice startPos (length ((pre @ l @ [NL]) @ hlines ls @ blank)) raw, rest))"
    using Cons.prems raw by (intro Cons.IH) auto
  finally show ?case by (simp add: add.assoc)
qed

lemma header_loop_spins:
  assumes "NL \<notin> set (drop seek raw)" "seek < totalread"
  shows "header_loop raw totalread startPos seek = None"
proof (rule ccontr)
  assume "header_loop raw totalread startPos seek \<noteq> None"
  then obtain r where r: "header_loop raw totalread startPos seek = Some r" by blast
  have "\<not> (s = seek \<and> rw = raw \<and> t = totalread)"
    if "header_loop rw t st s = Some x" for rw t st s x
  proof (rule header_loop.raw_induct [where P = "\<lambda>rw t st s x. \<not> (s = seek \<and> rw = raw \<and> t = totalread)", OF _ that])
    fix hl :: "bytes \<Rightarrow> nat \<Rightarrow> nat \<Rightarrow> nat \<Rightarrow> (nat \<times> (bytes \<times> bytes) option) option" and rw t st s x
    assume ih: "\<And>rw t st s x. hl rw t st s = Some x \<Longrightarrow> \<not> (s = seek \<and> rw = raw \<and> t = totalread)"
      and e: "(if s < t then
        (case IndexByte (drop s rw) NL of None \<Rightarrow> hl rw t st s
         | Some r \<Rightarrow> if r = 0 \<or> r = 1 \<and> rw ! s = CR
             then Some (s, Some (subslice st (s + r) rw, if r < length rw then drop (s + r + 1) rw else []))
             else hl rw t st (s + r + 1))
      else Some (s, None)) = Some x"
    show "\<not> (s = seek \<and> rw = raw \<and> t = totalread)"
      using ih [of rw t st s x] e assms by auto
  qed
  from this [OF r] show False by simp
qed

section \<open>Events and frames\<close>

definition destroyed :: "qinfo \<Rightarrow> nat" where
  "destroyed c = count_list (qevents c) HttpRequestStateDestroyed"

lemma set_state_frame [simp]:
  "qstate (httpConnectionSetState e c) = e" "qevents (httpConnectionSetState e c) = qevents c @ [e]"
  "ioError (httpConnectionSetState e c) = ioError c" "ReadRawStream (httpConnectionSetState e c) = ReadRawStream c"
  "qreads (httpConnectionSetState e c) = qreads c" "qwrites (httpConnectionSetState e c) = qwrites c"
  "qsent (httpConnectionSetState e c) = qsent c" "qclosed (httpConnectionSetState e c) = qclosed c"
  "qkeepalive (httpConnectionSetState e c) = qkeepalive c" "requestCount (httpConnectionSetState e c) = requestCount c"
  "responseStatusCode (httpConnectionSetState e c) = responseStatusCode c"
  "responseHeaderText (httpConnectionSetState e c) = responseHeaderText c"
  "responseBodyText (httpConnectionSetState e c) = responseBodyText c"
  by (simp_all add: httpConnectionSetState_def)

lemma notify_frame [simp]:
  "qstate (notify e c) = qstate c" "qevents (notify e c) = qevents c @ [e]"
  "ioError (notify e c) = ioError c" "qreads (notify e c) = qreads c" "qwrites (notify e c) = qwrites c"
  "qsent (notify e c) = qsent c" "qclosed (notify e c) = qclosed c" "qkeepalive (notify e c) = qkeepalive c"
  "requestCount (notify e c) = requestCount c" "responseStatusCode (notify e c) = responseStatusCode c"
  "responseHeaderText (notify e c) = responseHeaderText c" "responseBodyText (notify e c) = responseBodyText c"
  by (simp_all add: notify_def)

lemma destroyed_simps [simp]:
  "destroyed (httpConnectionSetState e c) = destroyed c + of_bool (e = HttpRequestStateDestroyed)"
  "destroyed (notify e c) = destroyed c + of_bool (e = HttpRequestStateDestroyed)"
  "destroyed (c\<lparr>ioError := b\<rparr>) = destroyed c" "destroyed (c\<lparr>qreads := rs\<rparr>) = destroyed c"
  "destroyed (c\<lparr>qwrites := ws\<rparr>) = destroyed c" "destroyed (c\<lparr>qsent := t\<rparr>) = destroyed c"
  "destroyed (c\<lparr>ReadRawStream := t\<rparr>) = destroyed c" "destroyed (c\<lparr>qstate := st\<rparr>) = destroyed c"
  "destroyed (c\<lparr>responseStatusCode := n\<rparr>) = destroyed c" "destroyed (c\<lparr>responseHeaderText := t\<rparr>) = destroyed c"
  "destroyed (c\<lparr>responseBodyText := t\<rparr>) = destroyed c" "destroyed (c\<lparr>qkeepalive := b\<rparr>) = destroyed c"
  "destroyed (c\<lparr>ReadProcotolStream := t\<rparr>) = destroyed c" "destroyed (c\<lparr>qmethod := t\<rparr>) = destroyed c"
  "destroyed (c\<lparr>ReadHeaderStream := t\<rparr>) = destroyed c" "destroyed (c\<lparr>ReadBodyStream := t\<rparr>) = destroyed c"
  "destroyed (c\<lparr>requestCount := n\<rparr>) = destroyed c" "destroyed (c\<lparr>qclosed := b\<rparr>) = destroyed c"
  by (simp_all add: destroyed_def)

lemma raw_loop_frame:
  "destroyed (snd (raw_loop t k rs c)) = destroyed c \<and> qclosed (snd (raw_loop t k rs c)) = qclosed c"
proof (induction rs arbitrary: k c)
  case (Cons a rs)
  then show ?case by (cases a) (simp add: Let_def)
qed simp

lemma httpReadRawStream_frame [simp]:
  "destroyed (snd (httpReadRawStream t c)) = destroyed c" "qclosed (snd (httpReadRawStream t c)) = qclosed c"
  by (simp_all add: httpReadRawStream_def raw_loop_frame)

lemma write_loop_frame:
  "destroyed (write_loop t x k n ws c) = destroyed c \<and> qclosed (write_loop t x k n ws c) = qclosed c
   \<and> qreads (write_loop t x k n ws c) = qreads c"
proof (induction ws arbitrary: k n c)
  case (Cons a ws)
  then show ?case by (cases a) (simp add: Let_def)
qed (simp add: Let_def)

lemma httpWriteResponser_frame [simp]:
  "destroyed (httpWriteResponser x t c) = destroyed c" "qclosed (httpWriteResponser x t c) = qclosed c"
  "qreads (httpWriteResponser x t c) = qreads c"
  by (simp_all add: httpWriteResponser_def write_loop_frame)

lemma send_body_frame [simp]:
  "destroyed (send_body cf c) = destroyed c" "qclosed (send_body cf c) = qclosed c"
  "qreads (send_body cf c) = qreads c"
  by (simp_all add: send_body_def Let_def)

lemma response_head_frame [simp]:
  "destroyed (response_head cf c) = destroyed c" "qclosed (response_head cf c) = qclosed c"
  "qreads (response_head cf c) = qreads c" "responseBodyText (response_head cf c) = responseBodyText c"
  "qwrites (response_head cf c) = qwrites c" "qsent (response_head cf c) = qsent c"
  "ioError (response_head cf c) = ioError c"
  by (simp_all add: response_head_def)

lemma httpSendResponse_frame [simp]:
  "destroyed (httpSendResponse cf c) = destroyed c" "qclosed (httpSendResponse cf c) = qclosed c"
  "qreads (httpSendResponse cf c) = qreads c"
  by (simp_all add: httpSendResponse_def Let_def)

lemma reject_frame [simp]:
  "destroyed (reject cf code c) = destroyed c" "qclosed (reject cf code c) = qclosed c"
  by (simp_all add: reject_def)

lemma method_step_frame:
  "(\<forall>c'. method_step cf t s p c = Inl c' \<longrightarrow> destroyed c' = destroyed c \<and> qclosed c' = qclosed c)
   \<and> (\<forall>x y z c'. method_step cf t s p c = Inr (x, y, z, c') \<longrightarrow> destroyed c' = destroyed c \<and> qclosed c' = qclosed c)"
  by (auto simp: method_step_def Let_def split: option.splits if_splits)

lemma after_read_frame:
  "(\<forall>c'. after_read t k r c = Inl c' \<longrightarrow> destroyed c' = destroyed c \<and> qclosed c' = qclosed c)
   \<and> (\<forall>c'. after_read t k r c = Inr c' \<longrightarrow> destroyed c' = destroyed c \<and> qclosed c' = qclosed c)"
  by (auto simp: after_read_def split: if_splits)

lemma read_loop_frame:
  "read_loop cf left r t s p ok c = Some c' \<Longrightarrow> destroyed c' = destroyed c \<and> qclosed c' = qclosed c"
proof (induction left arbitrary: t s p ok c)
  case (Suc left)
  obtain n c1 where rd: "httpReadRawStream 1 c = (n, c1)" by (cases "httpReadRawStream 1 c")
  have c1: "destroyed c1 = destroyed c" "qclosed c1 = qclosed c"
    using httpReadRawStream_frame [of 1 c] unfolding rd by simp_all
  show ?case
  proof (cases "ioError c")
    case True
    with Suc.prems show ?thesis by simp
  next
    case False
    show ?thesis
    proof (cases "after_read (t + n) (r - left) r c1")
      case (Inl c2)
      have "read_loop cf (Suc left) r t s p ok c = Some c2"
        by (simp only: read_loop.simps rd prod.case Let_def False if_False Inl sum.case)
      then show ?thesis
        using Suc.prems c1 Inl after_read_frame [of "t + n" "r - left" r c1] by simp
    next
      case (Inr c2)
      have c2: "destroyed c2 = destroyed c" "qclosed c2 = qclosed c"
        using Inr c1 after_read_frame [of "t + n" "r - left" r c1] by simp_all
      show ?thesis
      proof (cases "if ok then Inr (s, p, True, c2) else method_step cf (t + n) s p c2")
        case m: (Inl c3)
        have "read_loop cf (Suc left) r t s p ok c = Some c3"
          by (simp only: read_loop.simps rd prod.case Let_def False if_False Inr sum.case m)
        moreover have "method_step cf (t + n) s p c2 = Inl c3" using m by (simp split: if_splits)
        ultimately show ?thesis
          using Suc.prems c2 method_step_frame [of cf "t + n" s p c2] by simp
      next
        case m: (Inr q)
        obtain s' p' ok' c3 where q: "q = (s', p', ok', c3)" by (cases q)
        have c3: "destroyed c3 = destroyed c" "qclosed c3 = qclosed c"
          using m q c2 method_step_frame [of cf "t + n" s p c2] by (auto split: if_splits)
        have "read_loop cf (Suc left) r t s p ok c =
            (if \<not> ok' then read_loop cf left r (t + n) s' p' False c3
             else (case header_loop (ReadRawStream c3) (t + n) p' s' of
                 None \<Rightarrow> None
               | Some (s'', None) \<Rightarrow> read_loop cf left r (t + n) s'' p' True c3
               | Some (s'', Some (hdr, body)) \<Rightarrow>
                   Some (notify TOTAL_CONN_REQUEST
                     (c3\<lparr>qstate := HttpRequestStatePaseDone, ReadHeaderStream := hdr, ReadBodyStream := body\<rparr>))))"
          by (simp only: read_loop.simps rd prod.case Let_def False if_False Inr sum.case m q prod.case)
        then show ?thesis
          using Suc.prems c3 Suc.IH [of "t + n" s' p' False c3] Suc.IH [of "t + n" _ p' True c3]
          by (auto split: if_splits option.splits)
      qed
    qed
  qed
qed simp

lemma httpReadRequest_frame:
  "httpReadRequest cf c = Some c' \<Longrightarrow> destroyed c' = destroyed c \<and> qclosed c' = qclosed c"
  by (auto simp: httpReadRequest_def Let_def dest!: read_loop_frame split: if_splits)

lemma httpConnectionInit_frame [simp]:
  "destroyed (httpConnectionInit code b n c) = destroyed c" "qclosed (httpConnectionInit code b n c) = qclosed c"
  "qreads (httpConnectionInit code b n c) = qreads c" "qwrites (httpConnectionInit code b n c) = qwrites c"
  "qsent (httpConnectionInit code b n c) = qsent c" "requestCount (httpConnectionInit code b n c) = n"
  "responseBodyText (httpConnectionInit code b n c) = b" "ReadRawStream (httpConnectionInit code b n c) = []"
  "responseHeaderText (httpConnectionInit code b n c) = []"
  by (simp_all add: httpConnectionInit_def destroyed_def)

lemma new_conn_frame [simp]:
  "destroyed (new_conn rd wr) = 0" "\<not> qclosed (new_conn rd wr)" "qreads (new_conn rd wr) = rd"
  "qwrites (new_conn rd wr) = wr" "qsent (new_conn rd wr) = []" "qstate (new_conn rd wr) = EVENT_START"
  by (simp_all add: new_conn_def destroyed_def)

lemma close_down_frame [simp]:
  "destroyed (close_down c) = destroyed c + 1" "qclosed (close_down c)" "qsent (close_down c) = qsent c"
  by (simp_all add: close_down_def httpConnectionKeepalive_def)

lemma keepalive_loop_ends:
  assumes "keepalive_loop cf b n c = Some c'" "qmode cf \<noteq> ''readlonly''"
  shows "destroyed c' = destroyed c + 1 \<and> qclosed c'"
proof -
  have "qmode cf \<noteq> ''readlonly'' \<longrightarrow> destroyed c' = destroyed c + 1 \<and> qclosed c'"
  proof (rule keepalive_loop.raw_induct
      [where P = "\<lambda>cf b n c c'. qmode cf \<noteq> ''readlonly'' \<longrightarrow> destroyed c' = destroyed c + 1 \<and> qclosed c'", OF _ assms(1)])
    fix kl :: "qconf \<Rightarrow> bytes \<Rightarrow> nat \<Rightarrow> qinfo \<Rightarrow> qinfo option" and cf b n c c'
    assume ih: "\<And>cf b n c c'. kl cf b n c = Some c' \<Longrightarrow>
        qmode cf \<noteq> ''readlonly'' \<longrightarrow> destroyed c' = destroyed c + 1 \<and> qclosed c'"
      and e: "(case httpReadRequest cf (httpConnectionInit (event_no HttpRequestStateReadInit) b (n + 1) c) of
        None \<Rightarrow> None
      | Some c1 \<Rightarrow>
          if qstate c1 \<noteq> HttpRequestStatePaseDone then Some (close_down c1)
          else let c2 = (if requestCount c1 > 1 then notify TOTAL_CONN_KEEPALIVE c1 else c1);
                   c3 = c2\<lparr>responseStatusCode := httpStatusOK\<rparr>
               in if qmode cf = ''readlonly'' then readlonly_loop c3
                  else let (k, c4) = httpConnectionKeepalive (httpSendResponse cf c3)
                       in if \<not> k then Some c4 else kl cf b (n + 1) c4) = Some c'"
    show "qmode cf \<noteq> ''readlonly'' \<longrightarrow> destroyed c' = destroyed c + 1 \<and> qclosed c'"
      using e
      by (auto simp: Let_def httpConnectionKeepalive_def dest!: httpReadRequest_frame ih
          split: option.splits if_splits)
  qed
  then show ?thesis using assms(2) by simp
qed

section \<open>A request that arrives in one piece\<close>

definition one_read :: "bytes \<Rightarrow> bool" where
  "one_read d \<longleftrightarrow>
     (\<exists>l0 ls blank rest. d = l0 @ NL # hlines ls @ blank @ NL # rest \<and> hline l0
        \<and> (prefix ''GET /'' l0 \<or> prefix ''POST /'' l0) \<and> (\<forall>l \<in> set ls. hline l)
        \<and> (blank = [] \<or> blank = [CR]) \<and> 16 \<le> length d \<and> length d \<le> RECV_BUF_LEN)"

lemma method_step_line:
  assumes "ReadRawStream c = l0 @ NL # t" "hline l0" "prefix ''GET /'' l0 \<or> prefix ''POST /'' l0" "16 \<le> totalread"
  shows "\<exists>c'. method_step cf totalread 0 p c = Inr (length l0 + 1, length l0 + 1, True, c')
     \<and> ReadRawStream c' = ReadRawStream c \<and> qreads c' = qreads c \<and> qwrites c' = qwrites c
     \<and> qsent c' = qsent c \<and> requestCount c' = requestCount c \<and> responseBodyText c' = responseBodyText c
     \<and> responseHeaderText c' = responseHeaderText c"
proof -
  have i: "IndexByte (ReadRawStream c) NL = Some (length l0)"
    using assms by (simp add: IndexByte_first hline_def)
  have b: "\<not> (length l0 = 0 \<or> length l0 = 1 \<and> ReadRawStream c ! 0 = CR)"
    using assms by (auto simp: hline_def nth_append length_Suc_conv)
  have "prefix ''GET /'' (ReadRawStream c) \<or> prefix ''POST /'' (ReadRawStream c)"
    using assms(1,3) by (auto intro: prefix_prefix)
  then show ?thesis
    using i b assms(4) by (cases "prefix ''GET /'' (ReadRawStream c)") (auto simp: method_step_def Let_def)
qed

lemma raw_read_piece:
  assumes "qreads c = (d, None) # rs" "d \<noteq> []" "length d \<le> RECV_BUF_LEN"
  shows "httpReadRawStream t c = (length d, httpConnectionSetState HttpRequestStateReadDone
     (c\<lparr>ioError := False, qreads := rs, ReadRawStream := ReadRawStream c @ d\<rparr>))"
  using assms by (simp add: httpReadRawStream_def Let_def min_def)

lemma read_loop_one:
  assumes "one_read d" "qreads c = (d, None) # rs" "ReadRawStream c = []" "\<not> ioError c"
  shows "\<exists>c'. read_loop cf (Suc left) r 0 0 0 False c = Some c' \<and> qstate c' = HttpRequestStatePaseDone
     \<and> qreads c' = rs \<and> qwrites c' = qwrites c \<and> qsent c' = qsent c \<and> requestCount c' = requestCount c
     \<and> responseBodyText c' = responseBodyText c \<and> responseHeaderText c' = responseHeaderText c"
proof -
  obtain l0 ls blank rest where d: "d = l0 @ NL # hlines ls @ blank @ NL # rest" "hline l0"
      "prefix ''GET /'' l0 \<or> prefix ''POST /'' l0" "\<forall>l \<in> set ls. hline l" "blank = [] \<or> blank = [CR]"
      "16 \<le> length d" "length d \<le> RECV_BUF_LEN"
    using assms(1) unfolding one_read_def by blast
  let ?c1 = "httpConnectionSetState HttpRequestStateReadDone
     (c\<lparr>ioError := False, qreads := rs, ReadRawStream := ReadRawStream c @ d\<rparr>)"
  let ?c2 = "httpConnectionSetState HttpRequestStateReadHeader ?c1"
  have rd: "httpReadRawStream 1 c = (length d, ?c1)"
    using assms(2) d by (intro raw_read_piece) auto
  have ar: "after_read (0 + length d) (r - left) r ?c1 = Inr ?c2" by (simp add: after_read_def)
  have raw: "ReadRawStream ?c2 = l0 @ NL # hlines ls @ blank @ NL # rest" using assms(3) d(1) by simp
  obtain c3 where m: "method_step cf (0 + length d) 0 0 ?c2 = Inr (length l0 + 1, length l0 + 1, True, c3)"
     "ReadRawStream c3 = d" "qreads c3 = rs" "qwrites c3 = qwrites c" "qsent c3 = qsent c"
     "requestCount c3 = requestCount c" "responseBodyText c3 = responseBodyText c"
     "responseHeaderText c3 = responseHeaderText c"
    using method_step_line [OF raw d(2,3), of "0 + length d" cf 0] d(6) assms(3) by auto
  have "header_loop d (0 + length d) (length l0 + 1) (length l0 + 1) =
      Some (length ((l0 @ [NL]) @ hlines ls), Some (subslice (length l0 + 1) (length ((l0 @ [NL]) @ hlines ls @ blank)) d, rest))"
    using header_loop_finds [of ls blank d "l0 @ [NL]" rest "length d" "length l0 + 1"] d by simp
  then show ?thesis
    using m
    by (simp only: read_loop.simps assms(4) if_False rd prod.case Let_def ar sum.case m(1,2) option.case not_True_eq_False)
       simp
qed

lemma httpReadRequest_one:
  assumes "one_read d" "qreads c = (d, None) # rs" "ReadRawStream c = []"
    "0 < net_timeout cf" "0 < net_keepalive_timeout cf"
  shows "\<exists>c'. httpReadRequest cf c = Some c' \<and> qstate c' = HttpRequestStatePaseDone
     \<and> qreads c' = rs \<and> qwrites c' = qwrites c \<and> qsent c' = qsent c \<and> requestCount c' = requestCount c
     \<and> responseBodyText c' = responseBodyText c \<and> responseHeaderText c' = responseHeaderText c"
proof -
  let ?c2 = "if read_delay cf > 0 then httpConnectionSetState HttpRequestStateReadWaiting
      (httpConnectionSetState HttpRequestStateReadInit c) else httpConnectionSetState HttpRequestStateReadInit c"
  let ?c3 = "(httpConnectionSetState HttpRequestStateReadHeader ?c2)\<lparr>ioError := False\<rparr>"
  let ?r = "if requestCount ?c3 > 1 then net_keepalive_timeout cf else net_timeout cf"
  obtain left where left: "?r = Suc left" using assms(4,5) by (cases ?r) (auto split: if_splits)
  have one: "\<exists>c'. read_loop cf (Suc left) ?r 0 0 0 False ?c3 = Some c' \<and> qstate c' = HttpRequestStatePaseDone
     \<and> qreads c' = rs \<and> qwrites c' = qwrites ?c3 \<and> qsent c' = qsent ?c3 \<and> requestCount c' = requestCount ?c3
     \<and> responseBodyText c' = responseBodyText ?c3 \<and> responseHeaderText c' = responseHeaderText ?c3"
    using assms by (intro read_loop_one) auto
  have e: "httpReadRequest cf c = read_loop cf (Suc left) ?r 0 0 0 False ?c3"
    unfolding httpReadRequest_def Let_def left ..
  show ?thesis
    unfolding e using one by (elim exE conjE, intro exI conjI) (assumption | simp del: read_loop.simps)+
qed

lemma httpWriteResponser_all:
  assumes "qwrites c = (k, None) # ws" "length txt \<le> k"
  shows "httpWriteResponser txt t c = httpConnectionSetState HttpRequestStateWriteDone
     (c\<lparr>ioError := False, qwrites := ws, qsent := qsent c @ txt\<rparr>)"
  using assms by (simp add: httpWriteResponser_def Let_def min_def)

definition response_body :: "qconf \<Rightarrow> bytes \<Rightarrow> nat \<Rightarrow> bytes" where
  "response_body cf b n = b @ ''/'' @ qdate cf @ ''/'' @ Itoa (int n) @ eol"

definition response_ok :: "qconf \<Rightarrow> bytes \<Rightarrow> nat \<Rightarrow> bytes" where
  "response_ok cf b n =
     ''HTTP/1.1 200 OK'' @ eol @ ''Connection: keep-alive'' @ eol
     @ static_header (qdate cf) (length (response_body cf b n)) @ response_body cf b n"

lemma httpStatusText_OK: "httpStatusText 200 = '' 200 OK''"
  by (simp add: httpStatusText_def status_table_def)

lemma httpSendResponse_ok:
  assumes "qmode cf \<noteq> ''readlonly''" "qmode cf \<noteq> ''short''" "responseStatusCode c = 200"
    "responseHeaderText c = []" "qwrites c = (k1, None) # (k2, None) # ws"
    "length (response_ok cf (responseBodyText c) (requestCount c)) \<le> k1"
    "length (response_ok cf (responseBodyText c) (requestCount c)) \<le> k2"
  shows "qsent (httpSendResponse cf c) = qsent c @ response_ok cf (responseBodyText c) (requestCount c)
     \<and> qkeepalive (httpSendResponse cf c) \<and> qwrites (httpSendResponse cf c) = ws"
proof -
  let ?b = "response_body cf (responseBodyText c) (requestCount c)"
  let ?h = "''HTTP/1.1 200 OK'' @ eol @ ''Connection: keep-alive'' @ eol @ static_header (qdate cf) (length ?b)"
  have r: "response_ok cf (responseBodyText c) (requestCount c) = ?h @ ?b" by (simp add: response_ok_def)
  let ?c1 = "c\<lparr>responseBodyText := ?b\<rparr>"
  have h: "response_head cf ?c1 = ?c1\<lparr>qkeepalive := True,
      responseHeaderText := ''HTTP/1.1 200 OK'' @ eol @ ''Connection: keep-alive'' @ eol\<rparr>"
    using assms(2,3,4) by (simp add: response_head_def httpStatusText_OK)
  let ?c3 = "?c1\<lparr>qkeepalive := True, responseHeaderText := ?h\<rparr>"
  have lens: "length ?h \<le> k1" "length ?b \<le> k2" using assms(6,7) unfolding r by simp_all
  have w1: "httpWriteResponser ?h (net_timeout cf) ?c3 = httpConnectionSetState HttpRequestStateWriteDone
     (?c3\<lparr>ioError := False, qwrites := (k2, None) # ws, qsent := qsent c @ ?h\<rparr>)"
    using assms(5) lens(1) httpWriteResponser_all [of ?c3 k1 "(k2, None) # ws" ?h "net_timeout cf"] by simp
  have "httpSendResponse cf c = send_body cf (httpConnectionSetState HttpRequestStateWriteHeaderDone
      (httpConnectionSetState HttpRequestStateWriteDone
        (?c3\<lparr>ioError := False, qwrites := (k2, None) # ws, qsent := qsent c @ ?h\<rparr>)))"
    using assms(1) h w1 by (simp add: httpSendResponse_def Let_def response_body_def)
  then show ?thesis
    using lens(2) r by (simp add: send_body_def Let_def httpWriteResponser_all)
qed

section \<open>Keep-alive\<close>

lemma keepalive_loop_serves:
  assumes "one_read d" "qreads c = (d, None) # rs" "qwrites c = (k1, None) # (k2, None) # ws"
    and "length (response_ok cf b (n + 1)) \<le> k1" "length (response_ok cf b (n + 1)) \<le> k2"
    and "qmode cf \<noteq> ''readlonly''" "qmode cf \<noteq> ''short''" "0 < net_timeout cf" "0 < net_keepalive_timeout cf"
  shows "\<exists>c'. keepalive_loop cf b n c = keepalive_loop cf b (n + 1) c' \<and> qreads c' = rs \<and> qwrites c' = ws
     \<and> qsent c' = qsent c @ response_ok cf b (n + 1)"
proof -
  let ?i = "httpConnectionInit (event_no HttpRequestStateReadInit) b (n + 1) c"
  obtain c1 where c1: "httpReadRequest cf ?i = Some c1" "qstate c1 = HttpRequestStatePaseDone" "qreads c1 = rs"
      "qwrites c1 = qwrites c" "qsent c1 = qsent c" "requestCount c1 = n + 1" "responseBodyText c1 = b"
      "responseHeaderText c1 = []"
    using httpReadRequest_one [OF assms(1), of ?i rs cf] assms by auto
  let ?c3 = "(if requestCount c1 > 1 then notify TOTAL_CONN_KEEPALIVE c1 else c1)\<lparr>responseStatusCode := httpStatusOK\<rparr>"
  have f: "responseBodyText ?c3 = b" "requestCount ?c3 = n + 1" "responseHeaderText ?c3 = []" "qreads ?c3 = rs"
    "qwrites ?c3 = (k1, None) # (k2, None) # ws" "qsent ?c3 = qsent c" "responseStatusCode ?c3 = 200"
    using c1 assms(3) by simp_all
  let ?c4 = "httpSendResponse cf ?c3"
  have s: "qsent ?c4 = qsent c @ response_ok cf b (n + 1)" "qkeepalive ?c4" "qwrites ?c4 = ws" "qreads ?c4 = rs"
    using httpSendResponse_ok [OF assms(6,7) f(7,3,5)] f assms(4,5) by simp_all
  have k: "httpConnectionKeepalive ?c4 = (True, ?c4)" using s(2) by (simp add: httpConnectionKeepalive_def)
  have "keepalive_loop cf b n c = keepalive_loop cf b (n + 1) ?c4"
    by (subst keepalive_loop.simps)
       (simp only: c1(1,2) option.case assms(6) if_False Let_def k prod.case not_True_eq_False simp_thms)
  then show ?thesis using s by blast
qed

lemma httpReadRequest_eof:
  assumes "qreads c = []" "0 < net_timeout cf" "0 < net_keepalive_timeout cf"
  shows "\<exists>c'. httpReadRequest cf c = Some c' \<and> qstate c' \<noteq> HttpRequestStatePaseDone \<and> qsent c' = qsent c"
proof -
  have eof: "\<exists>c'. read_loop cf (Suc left) r 0 0 0 False c = Some c' \<and> qstate c' = HttpRequestStateReadHeaderError
      \<and> qsent c' = qsent c" if "qreads c = []" "\<not> ioError c" for left r c
    using that by (simp add: httpReadRawStream_def after_read_def Let_def)
  let ?c2 = "if read_delay cf > 0 then httpConnectionSetState HttpRequestStateReadWaiting
      (httpConnectionSetState HttpRequestStateReadInit c) else httpConnectionSetState HttpRequestStateReadInit c"
  let ?c3 = "(httpConnectionSetState HttpRequestStateReadHeader ?c2)\<lparr>ioError := False\<rparr>"
  let ?r = "if requestCount ?c3 > 1 then net_keepalive_timeout cf else net_timeout cf"
  obtain left where left: "?r = Suc left" using assms(2,3) by (cases ?r) (auto split: if_splits)
  have e: "httpReadRequest cf c = read_loop cf (Suc left) ?r 0 0 0 False ?c3"
    unfolding httpReadRequest_def Let_def left ..
  have q: "qreads ?c3 = []" "\<not> ioError ?c3" "qsent ?c3 = qsent c" using assms(1) by simp_all
  obtain c' where "httpReadRequest cf c = Some c'" "qstate c' = HttpRequestStateReadHeaderError" "qsent c' = qsent c"
    using eof [OF q(1,2), of left ?r] unfolding e [symmetric] q(3) by blast
  then show ?thesis by auto
qed

lemma keepalive_loop_eof:
  assumes "qreads c = []" "0 < net_timeout cf" "0 < net_keepalive_timeout cf"
  shows "\<exists>c'. keepalive_loop cf b n c = Some c' \<and> qsent c' = qsent c"
proof -
  obtain c1 where "httpReadRequest cf (httpConnectionInit (event_no HttpRequestStateReadInit) b (n + 1) c) = Some c1"
      "qstate c1 \<noteq> HttpRequestStatePaseDone" "qsent c1 = qsent c"
    using httpReadRequest_eof [of "httpConnectionInit (event_no HttpRequestStateReadInit) b (n + 1) c" cf] assms
    by auto
  then show ?thesis by (subst keepalive_loop.simps) simp
qed

lemma keepalive_run:
  assumes "\<forall>d \<in> set ds. one_read d" "qreads c = map (\<lambda>d. (d, None)) ds" "qwrites c = map (\<lambda>k. (k, None)) ks"
    and "length ks = 2 * length ds" "\<forall>k \<in> set ks. \<forall>m \<le> n + length ds. length (response_ok cf b m) \<le> k"
    and "qmode cf \<noteq> ''readlonly''" "qmode cf \<noteq> ''short''" "0 < net_timeout cf" "0 < net_keepalive_timeout cf"
  shows "\<exists>c'. keepalive_loop cf b n c = Some c'
     \<and> qsent c' = qsent c @ concat (map (response_ok cf b) [n + 1..<n + 1 + length ds])"
  using assms(1-5)
proof (induction ds arbitrary: n c ks)
  case Nil
  then show ?case using keepalive_loop_eof [OF _ assms(8,9), of c b n] by simp
next
  case (Cons d ds)
  obtain k1 k2 ks' where ks: "ks = k1 # k2 # ks'"
    using Cons.prems(4) by (cases ks; cases "tl ks") auto
  have "\<exists>c'. keepalive_loop cf b n c = keepalive_loop cf b (n + 1) c' \<and> qreads c' = map (\<lambda>d. (d, None)) ds
      \<and> qwrites c' = map (\<lambda>k. (k, None)) ks' \<and> qsent c' = qsent c @ response_ok cf b (n + 1)"
    using Cons.prems ks by (intro keepalive_loop_serves [OF _ _ _ _ _ assms(6-9)]) auto
  then obtain c1 where c1: "keepalive_loop cf b n c = keepalive_loop cf b (n + 1) c1"
      "qreads c1 = map (\<lambda>d. (d, None)) ds" "qwrites c1 = map (\<lambda>k. (k, None)) ks'"
      "qsent c1 = qsent c @ response_ok cf b (n + 1)" by blast
  have "\<exists>c'. keepalive_loop cf b (n + 1) c1 = Some c'
     \<and> qsent c' = qsent c1 @ concat (map (response_ok cf b) [n + 1 + 1..<n + 1 + 1 + length ds])"
    using Cons.prems ks c1 by (intro Cons.IH [of c1 ks' "n + 1"]) auto
  moreover have "[n + 1..<n + 1 + length (d # ds)] = (n + 1) # [n + 1 + 1..<n + 1 + 1 + length ds]"
    by (simp add: upt_rec)
  ultimately show ?case using c1 by auto
qed

section \<open>Headers that are cut, and writes\<close>

lemma header_loop_lines:
  assumes "\<forall>l \<in> set ls. hline l" "raw = pre @ hlines ls @ part" "length raw \<le> totalread"
  shows "header_loop raw totalread startPos (length pre) = header_loop raw totalread startPos (length (pre @ hlines ls))"
  using assms
proof (induction ls arbitrary: pre)
  case (Cons l ls)
  have "header_loop raw totalread startPos (length pre) = header_loop raw totalread startPos (length (pre @ l @ [NL]))"
    using header_loop_line [of l "length pre" pre raw "hlines ls @ part" totalread startPos] Cons.prems by simp
  also have "\<dots> = header_loop raw totalread startPos (length ((pre @ l @ [NL]) @ hlines ls))"
    using Cons.prems by (intro Cons.IH) simp_all
  finally show ?case by (simp add: add.assoc)
qed simp

definition cut_read :: "bytes \<Rightarrow> bool" where
  "cut_read d \<longleftrightarrow>
     (\<exists>l0 ls part. d = l0 @ NL # hlines ls @ part \<and> hline l0 \<and> (prefix ''GET /'' l0 \<or> prefix ''POST /'' l0)
        \<and> (\<forall>l \<in> set ls. hline l) \<and> part \<noteq> [] \<and> NL \<notin> set part \<and> 16 \<le> length d \<and> length d \<le> RECV_BUF_LEN)"

lemma read_loop_cut:
  assumes "cut_read d" "qreads c = (d, None) # rs" "ReadRawStream c = []" "\<not> ioError c"
  shows "read_loop cf (Suc left) r 0 0 0 False c = None"
proof -
  obtain l0 ls part where d: "d = l0 @ NL # hlines ls @ part" "hline l0"
      "prefix ''GET /'' l0 \<or> prefix ''POST /'' l0" "\<forall>l \<in> set ls. hline l" "part \<noteq> []" "NL \<notin> set part"
      "16 \<le> length d" "length d \<le> RECV_BUF_LEN"
    using assms(1) unfolding cut_read_def by blast
  let ?c1 = "httpConnectionSetState HttpRequestStateReadDone
     (c\<lparr>ioError := False, qreads := rs, ReadRawStream := ReadRawStream c @ d\<rparr>)"
  let ?c2 = "httpConnectionSetState HttpRequestStateReadHeader ?c1"
  have rd: "httpReadRawStream 1 c = (length d, ?c1)"
    using assms(2) d by (intro raw_read_piece) auto
  have ar: "after_read (0 + length d) (r - left) r ?c1 = Inr ?c2" by (simp add: after_read_def)
  have raw: "ReadRawStream ?c2 = l0 @ NL # hlines ls @ part" using assms(3) d(1) by simp
  obtain c3 where m: "method_step cf (0 + length d) 0 0 ?c2 = Inr (length l0 + 1, length l0 + 1, True, c3)"
     "ReadRawStream c3 = d"
    using method_step_line [OF raw d(2,3), of "0 + length d" cf 0] d(7) assms(3) by auto
  have "header_loop d (0 + length d) (length l0 + 1) (length l0 + 1) =
      header_loop d (0 + length d) (length l0 + 1) (length ((l0 @ [NL]) @ hlines ls))"
    using header_loop_lines [of ls d "l0 @ [NL]" part "length d" "length l0 + 1"] d by simp
  also have "\<dots> = None"
    using d by (intro header_loop_spins) simp_all
  finally show ?thesis
    by (simp only: read_loop.simps assms(4) if_False rd prod.case Let_def ar sum.case m option.case not_True_eq_False)
qed

lemma httpReadRequest_cut:
  assumes "cut_read d" "qreads c = (d, None) # rs" "ReadRawStream c = []"
    "0 < net_timeout cf" "0 < net_keepalive_timeout cf"
  shows "httpReadRequest cf c = None"
proof -
  let ?c2 = "if read_delay cf > 0 then httpConnectionSetState HttpRequestStateReadWaiting
      (httpConnectionSetState HttpRequestStateReadInit c) else httpConnectionSetState HttpRequestStateReadInit c"
  let ?c3 = "(httpConnectionSetState HttpRequestStateReadHeader ?c2)\<lparr>ioError := False\<rparr>"
  let ?r = "if requestCount ?c3 > 1 then net_keepalive_timeout cf else net_timeout cf"
  obtain left where left: "?r = Suc left" using assms(4,5) by (cases ?r) (auto split: if_splits)
  have "httpReadRequest cf c = read_loop cf (Suc left) ?r 0 0 0 False ?c3"
    unfolding httpReadRequest_def Let_def left ..
  also have "\<dots> = None" using assms by (intro read_loop_cut) auto
  finally show ?thesis .
qed

lemma write_loop_prefix:
  assumes "w \<le> length txt"
  shows "\<exists>m. w \<le> m \<and> m \<le> length txt \<and> qsent (write_loop t txt k w ws c) = qsent c @ take (m - w) (drop w txt)
     \<and> (qstate (write_loop t txt k w ws c) = HttpRequestStateWriteDone \<longrightarrow> m = length txt
          \<or> qstate c = HttpRequestStateWriteDone)
     \<and> (m = length txt \<longrightarrow> qstate (write_loop t txt k w ws c) = HttpRequestStateWriteDone)"
  using assms
proof (induction ws arbitrary: k w c)
  case Nil
  then show ?case by (intro exI [of _ w]) (auto simp: Let_def)
next
  case (Cons a ws)
  obtain j err where a: "a = (j, err)" by (cases a)
  let ?n = "min j (length txt - w)"
  let ?c1 = "c\<lparr>qwrites := ws, qsent := qsent c @ take ?n (drop w txt)\<rparr>"
  define c2 where "c2 = (if err = Some NetTemporary \<and> t > 0 then
                (if k + 1 \<ge> 5 then (httpConnectionSetState HttpRequestStateWriteTimeOut ?c1)\<lparr>ioError := True\<rparr> else ?c1)
             else if err \<noteq> None then (httpConnectionSetState HttpRequestStateWriteError ?c1)\<lparr>ioError := True\<rparr> else ?c1)"
  have f: "qsent c2 = qsent c @ take ?n (drop w txt)"
    "qstate c2 = HttpRequestStateWriteDone \<Longrightarrow> qstate c = HttpRequestStateWriteDone"
    unfolding c2_def by (auto split: if_splits)
  have e: "write_loop t txt k w (a # ws) c =
      (if w + ?n = length txt then httpConnectionSetState HttpRequestStateWriteDone c2
       else if ioError c2 then c2 else write_loop t txt (k + 1) (w + ?n) ws c2)"
    unfolding a c2_def by (simp only: write_loop.simps Let_def)
  show ?case
  proof (cases "w + ?n = length txt \<or> ioError c2")
    case True
    then show ?thesis
      unfolding e using f Cons.prems by (intro exI [of _ "w + ?n"]) auto
  next
    case False
    have "w + ?n \<le> length txt" using Cons.prems by simp
    from Cons.IH [OF this, of "k + 1" c2] obtain m where m: "w + ?n \<le> m" "m \<le> length txt"
      "qsent (write_loop t txt (k + 1) (w + ?n) ws c2) = qsent c2 @ take (m - (w + ?n)) (drop (w + ?n) txt)"
      "qstate (write_loop t txt (k + 1) (w + ?n) ws c2) = HttpRequestStateWriteDone \<longrightarrow> m = length txt
          \<or> qstate c2 = HttpRequestStateWriteDone"
      "m = length txt \<longrightarrow> qstate (write_loop t txt (k + 1) (w + ?n) ws c2) = HttpRequestStateWriteDone"
      by blast
    have "m - w = ?n + (m - (w + ?n))" using m(1) by simp
    then have "take (m - w) (drop w txt) = take ?n (drop w txt) @ take (m - (w + ?n)) (drop (w + ?n) txt)"
      by (metis take_add drop_drop add.commute)
    moreover have "write_loop t txt k w (a # ws) c = write_loop t txt (k + 1) (w + ?n) ws c2"
      unfolding e using False by simp
    ultimately show ?thesis
      using m f by (intro exI [of _ m]) auto
  qed
qed

section \<open>Properties\<close>

text \<open>
  C4. In the keep-alive mode requests that arrive one per read are answered in order, each
  with a complete response that carries its number; when the peer ends, the handler
  returns, closes the connection and reports it destroyed once.
\<close>

theorem httpConnectionHandler_serves:
  assumes "\<forall>d \<in> set ds. one_read d" "length ks = 2 * length ds"
    and "\<forall>k \<in> set ks. \<forall>m \<le> length ds. length (response_ok cf b m) \<le> k"
    and "qmode cf \<noteq> ''readlonly''" "qmode cf \<noteq> ''short''" "0 < net_timeout cf" "0 < net_keepalive_timeout cf"
  shows "\<exists>c. httpConnectionHandler cf httpStatusContinue b
        (new_conn (map (\<lambda>d. (d, None)) ds) (map (\<lambda>k. (k, None)) ks)) = Some c
     \<and> qsent c = concat (map (response_ok cf b) [1..<1 + length ds])
     \<and> qclosed c \<and> count_list (qevents c) HttpRequestStateDestroyed = 1"
proof -
  let ?c = "new_conn (map (\<lambda>d. (d, None)) ds) (map (\<lambda>k. (k, None)) ks)"
  have "\<exists>c'. keepalive_loop cf b 0 ?c = Some c'
     \<and> qsent c' = qsent ?c @ concat (map (response_ok cf b) [0 + 1..<0 + 1 + length ds])"
    using assms by (intro keepalive_run [of ds _ ks]) (simp_all add: new_conn_def)
  then obtain c' where c': "keepalive_loop cf b 0 ?c = Some c'"
      "qsent c' = concat (map (response_ok cf b) [1..<1 + length ds])"
    by (auto simp: new_conn_def)
  have "destroyed c' = 1" "qclosed c'"
    using keepalive_loop_ends [OF c'(1) assms(4)] by (simp_all add: destroyed_def new_conn_def)
  then show ?thesis using c' by (simp add: httpConnectionHandler_def destroyed_def)
qed

definition demo_conf :: "bytes \<Rightarrow> qconf" where
  "demo_conf m = \<lparr>qmode = m, net_timeout = 15, net_keepalive_timeout = 5, read_delay = - 1, write_delay = - 1,
     qdate = ''now''\<rparr>"

definition demo_request :: bytes where
  "demo_request = ''GET / HTTP/1.0'' @ [CR, NL, CR, NL]"

lemma one_read_demo: "one_read demo_request"
  unfolding one_read_def
  by (rule exI [of _ "''GET / HTTP/1.0'' @ [CR]"], rule exI [of _ "[]"], rule exI [of _ "[CR]"], rule exI [of _ "[]"])
     (simp add: demo_request_def hline_def)

theorem httpConnectionHandler_serves_witness:
  "\<exists>k c. httpConnectionHandler (demo_conf ''keepalive'') httpStatusContinue ''mode'' (new_conn [(demo_request, None)] [(k, None), (k, None)]) = Some c
     \<and> qsent c = response_ok (demo_conf ''keepalive'') ''mode'' 1"
proof -
  let ?cf = "demo_conf ''keepalive''"
  let ?k = "length (response_ok ?cf ''mode'' 0) + length (response_ok ?cf ''mode'' 1)"
  have "\<forall>m \<le> 1. length (response_ok ?cf ''mode'' m) \<le> ?k"
    by (auto simp: le_Suc_eq)
  then show ?thesis
    using httpConnectionHandler_serves [of "[demo_request]" "[?k, ?k]" ?cf "''mode''"] one_read_demo
    by (intro exI [of _ ?k]) (auto simp: demo_conf_def)
qed

lemma handler_destroys_once:
  assumes "httpConnectionHandler cf code b (new_conn rd wr) = Some c" "qmode cf \<noteq> ''readlonly''"
  shows "qclosed c \<and> count_list (qevents c) HttpRequestStateDestroyed = 1"
proof -
  have start: "destroyed (new_conn rd wr) = 0" by (simp add: destroyed_def new_conn_def)
  have "destroyed c = destroyed (new_conn rd wr) + 1 \<and> qclosed c"
  proof (cases "code = httpStatusServiceUnavailable")
    case True
    then show ?thesis
      using assms(1) by (auto simp: httpConnectionHandler_def busy_response_def dest!: httpReadRequest_frame
          split: option.splits)
  next
    case False
    then show ?thesis
      using assms keepalive_loop_ends [of cf b 0 "new_conn rd wr" c] by (simp add: httpConnectionHandler_def)
  qed
  then show ?thesis using start by (simp add: destroyed_def)
qed

text \<open>
  C19. A handler that returns has closed its connection and has reported it destroyed exactly
  once, whatever the peer does, in every mode but \<open>readlonly\<close>; the counter of running
  connections relies on it.
\<close>

theorem httpConnectionHandler_destroys:
  assumes "httpConnectionHandler cf code b (new_conn rd wr) = Some c" "qmode cf \<noteq> ''readlonly''"
  shows "qclosed c \<and> count_list (qevents c) HttpRequestStateDestroyed = 1"
  using assms by (rule handler_destroys_once)

theorem httpConnectionHandler_destroys_witness:
  "\<exists>c. httpConnectionHandler (demo_conf ''short'') httpStatusContinue ''mode'' (new_conn [] []) = Some c
     \<and> count_list (qevents c) HttpRequestStateDestroyed = 1"
proof -
  have "\<exists>c. httpConnectionHandler (demo_conf ''short'') httpStatusContinue ''mode'' (new_conn [] []) = Some c"
    using keepalive_loop_eof [of "new_conn [] []" "demo_conf ''short''" "''mode''" 0]
    by (auto simp: httpConnectionHandler_def demo_conf_def new_conn_def)
  then show ?thesis
    using httpConnectionHandler_destroys [of "demo_conf ''short''" httpStatusContinue "''mode''" "[]" "[]"]
    by (auto simp: demo_conf_def)
qed

text \<open>
  C39. A request whose first read ends inside a header line is never answered and its
  goroutine never returns, whatever arrives later: the search for the next newline repeats
  without reading.
\<close>

theorem httpConnectionHandler_hangs:
  assumes "cut_read d" "0 < net_timeout cf" "0 < net_keepalive_timeout cf"
  shows "httpConnectionHandler cf code b (new_conn ((d, None) # rs) wr) = None"
proof -
  have "httpReadRequest cf (httpConnectionInit c' b n (new_conn ((d, None) # rs) wr)) = None" for c' n
    using assms by (intro httpReadRequest_cut [of d _ rs]) (simp_all add: new_conn_def)
  then show ?thesis
    by (simp add: httpConnectionHandler_def busy_response_def keepalive_loop.simps [of _ _ 0])
qed

theorem httpConnectionHandler_hangs_witness:
  "httpConnectionHandler (demo_conf ''keepalive'') httpStatusContinue ''mode''
     (new_conn [(''GET / HTTP/1.1'' @ [CR, NL] @ ''Host: lo'', None), (''calhost'' @ [CR, NL, CR, NL], None)] []) = None"
proof -
  have "cut_read (''GET / HTTP/1.1'' @ [CR, NL] @ ''Host: lo'')"
    unfolding cut_read_def
    by (rule exI [of _ "''GET / HTTP/1.1'' @ [CR]"], rule exI [of _ "[]"], rule exI [of _ "''Host: lo''"])
       (simp add: hline_def)
  then show ?thesis
    using httpConnectionHandler_hangs [of "''GET / HTTP/1.1'' @ [CR, NL] @ ''Host: lo''" "demo_conf ''keepalive''"]
    by (simp add: demo_conf_def)
qed

text \<open>
  In the mode \<open>readlonly\<close> a served connection is left open and never reported destroyed, so
  it stays counted as running.
\<close>

theorem httpConnectionHandler_readlonly_leaks:
  assumes "one_read d" "qmode cf = ''readlonly''" "0 < net_timeout cf" "0 < net_keepalive_timeout cf"
  shows "\<exists>c. httpConnectionHandler cf httpStatusContinue b (new_conn [(d, None)] wr) = Some c
     \<and> \<not> qclosed c \<and> count_list (qevents c) HttpRequestStateDestroyed = 0"
proof -
  let ?c = "new_conn [(d, None)] wr"
  let ?i = "httpConnectionInit (event_no HttpRequestStateReadInit) b (0 + 1) ?c"
  obtain c1 where c1: "httpReadRequest cf ?i = Some c1" "qstate c1 = HttpRequestStatePaseDone" "qreads c1 = []"
    using httpReadRequest_one [OF assms(1), of ?i "[]" cf] assms by (auto simp: new_conn_def)
  have f: "destroyed c1 = 0" "\<not> qclosed c1"
    using httpReadRequest_frame [OF c1(1)] by simp_all
  let ?c3 = "(if requestCount c1 > 1 then notify TOTAL_CONN_KEEPALIVE c1 else c1)\<lparr>responseStatusCode := httpStatusOK\<rparr>"
  have "keepalive_loop cf b 0 ?c = readlonly_loop ?c3"
    by (subst keepalive_loop.simps) (simp only: c1(1,2) option.case assms(2) if_True Let_def simp_thms if_False)
  also have "\<dots> = Some (httpConnectionSetState HttpRequestStateReadBodyError (snd (httpReadRawStream 0 ?c3)))"
  proof -
    have "qstate (snd (httpReadRawStream 0 ?c3)) = HttpRequestStateReadError"
      using c1(3) by (simp add: httpReadRawStream_def)
    then show ?thesis by (subst readlonly_loop.simps) (simp only: split_beta Let_def, simp)
  qed
  finally show ?thesis
    using f by (simp add: httpConnectionHandler_def destroyed_def [symmetric])
qed

theorem httpConnectionHandler_readlonly_leaks_witness:
  "\<exists>c. httpConnectionHandler (demo_conf ''readlonly'') httpStatusContinue ''mode'' (new_conn [(demo_request, None)] []) = Some c
     \<and> \<not> qclosed c"
  using httpConnectionHandler_readlonly_leaks [OF one_read_demo, of "demo_conf ''readlonly''" "''mode''" "[]"]
  by (auto simp: demo_conf_def)

text \<open>
  \<open>httpWriteResponser\<close> sends a prefix of the text, without gaps or repetitions, whatever the
  sizes and errors of the writes; it reports \<open>WriteDone\<close> exactly when the prefix is the whole
  text.
\<close>

theorem httpWriteResponser_prefix:
  assumes "qstate c \<noteq> HttpRequestStateWriteDone"
  shows "\<exists>m \<le> length txt. qsent (httpWriteResponser txt t c) = qsent c @ take m txt
     \<and> (qstate (httpWriteResponser txt t c) = HttpRequestStateWriteDone \<longleftrightarrow> m = length txt)"
  using write_loop_prefix [of 0 "txt" t 0 "qwrites c" "c\<lparr>ioError := False\<rparr>"] assms
  by (auto simp: httpWriteResponser_def)

theorem httpWriteResponser_prefix_witness:
  "\<exists>m \<le> 3. qsent (httpWriteResponser ''abc'' 15 (new_conn [] [(2, None), (0, Some NetOther)])) = take m ''abc''
     \<and> (qstate (httpWriteResponser ''abc'' 15 (new_conn [] [(2, None), (0, Some NetOther)])) = HttpRequestStateWriteDone \<longleftrightarrow> m = 3)"
  using httpWriteResponser_prefix [of "new_conn [] [(2, None), (0, Some NetOther)]" "''abc''" 15]
  by (auto simp: numeral_eq_Suc)

end
