(* ===== verification/Qps_Main.thy ===== *)
theory Qps_Main
  imports Qps_Conn_Props
begin

text \<open>
  The rest of \<open>src/qps-http-app-server/qps-http-app-server.go\<close>: the command line
  (\<open>commandArgsParser\<close>, \<open>netListenStringFormat\<close>), the goroutines of \<open>main\<close> that accept connections
  and count events, and the display of the rates.

  The options that the package \<open>optargex\<close> delivers and \<open>net.SplitHostPort\<close> are parameters.
\<close>

section \<open>The listen address\<close>

text \<open>\<open>last s b\<close> counts down from the end; below zero is \<open>None\<close>.\<close>

fun last_loop :: "bytes \<Rightarrow> char \<Rightarrow> nat \<Rightarrow> nat option" where
  "last_loop s b 0 = None"
| "last_loop s b (Suc i) = (if s ! i = b then Some i else last_loop s b i)"

definition last_index :: "bytes \<Rightarrow> char \<Rightarrow> nat option" where
  "last_index s b = last_loop s b (length s)"

type_synonym splitter = "bytes \<Rightarrow> (bytes \<times> bytes) option"

definition complete_listen :: "bytes \<Rightarrow> bytes" where
  "complete_listen s =
     (let pos = (case last_index s (CHR '']'') of Some i \<Rightarrow> i | None \<Rightarrow> 0)
      in if Index (drop pos s) '':'' = None
         then (if fst (Atoi s) > 0 then '':'' @ s else s @ '':8080'')
         else s)"

definition netListenStringFormat :: "splitter \<Rightarrow> bytes \<Rightarrow> bytes \<times> bool" where
  "netListenStringFormat splitHostPort s =
     (case splitHostPort (complete_listen s) of
        None \<Rightarrow> ([], False)
      | Some (host, port) \<Rightarrow> (host @ '':'' @ port, True))"

section \<open>commandArgsParser\<close>

record qserver_conf =
  cfg_listen :: bytes
  cfg_max_connections :: int
  cfg_use_cpu_num :: int
  cfg_net_timeout :: int
  cfg_net_keepalive_timeout :: int
  cfg_qps_interval :: int
  cfg_read_delay :: int
  cfg_write_delay :: int
  cfg_mode :: bytes
  cfg_show_help :: bool
  cfg_show_version :: bool
  cfg_debug_level :: int

definition cfg_defaults :: qserver_conf where
  "cfg_defaults =
     \<lparr>cfg_listen = ''0.0.0.0:8080'', cfg_max_connections = 10240, cfg_use_cpu_num = 0, cfg_net_timeout = 15,
      cfg_net_keepalive_timeout = 5, cfg_qps_interval = 5, cfg_read_delay = - 1, cfg_write_delay = - 1,
      cfg_mode = ''keepalive'', cfg_show_help = False, cfg_show_version = False, cfg_debug_level = 0\<rparr>"

text \<open>An option as \<open>optargex.Parse\<close> delivers it: its names and what its accessors return.\<close>

record qoption =
  ShortName :: bytes
  OptName :: bytes
  OptBool :: bool
  OptInt :: int
  OptString :: bytes

definition short_option :: "qoption \<Rightarrow> qserver_conf \<Rightarrow> qserver_conf" where
  "short_option opt c =
     (if ShortName opt = ''v'' then c\<lparr>cfg_show_version := OptBool opt\<rparr>
      else if ShortName opt = ''h'' then c\<lparr>cfg_show_help := OptBool opt\<rparr>
      else if ShortName opt = ''l'' then c\<lparr>cfg_listen := OptString opt\<rparr>
      else if ShortName opt = ''m'' then c\<lparr>cfg_mode := OptString opt\<rparr>
      else if ShortName opt = ''c'' then c\<lparr>cfg_max_connections := OptInt opt\<rparr>
      else if ShortName opt = ''C'' then c\<lparr>cfg_use_cpu_num := OptInt opt\<rparr>
      else if ShortName opt = ''d'' then c\<lparr>cfg_debug_level := OptInt opt\<rparr>
      else if ShortName opt = ''t'' then c\<lparr>cfg_net_timeout := OptInt opt\<rparr>
      else if ShortName opt = ''k'' then c\<lparr>cfg_net_keepalive_timeout := OptInt opt\<rparr>
      else if ShortName opt = ''R'' then c\<lparr>cfg_read_delay := OptInt opt\<rparr>
      else if ShortName opt = ''W'' then c\<lparr>cfg_write_delay := OptInt opt\<rparr>
      else if ShortName opt = ''q'' then c\<lparr>cfg_qps_interval := OptInt opt\<rparr>
      else c)"

definition long_option :: "qoption \<Rightarrow> qserver_conf \<Rightarrow> qserver_conf" where
  "long_option opt c =
     (if OptName opt = ''version'' then c\<lparr>cfg_show_version := OptBool opt\<rparr>
      else if OptName opt = ''help'' then c\<lparr>cfg_show_help := OptBool opt\<rparr>
      else if OptName opt = ''listen'' then c\<lparr>cfg_listen := OptString opt\<rparr>
      else if OptName opt = ''mode'' then c\<lparr>cfg_mode := OptString opt\<rparr>
      else if OptName opt = ''connections'' then c\<lparr>cfg_max_connections := OptInt opt\<rparr>
      else if OptName opt = ''cpus'' then c\<lparr>cfg_use_cpu_num := OptInt opt\<rparr>
      else if OptName opt = ''debug-level'' then c\<lparr>cfg_debug_level := OptInt opt\<rparr>
      else if OptName opt = ''timeout'' then c\<lparr>cfg_net_timeout := OptInt opt\<rparr>
      else if OptName opt = ''keepalive'' then c\<lparr>cfg_net_keepalive_timeout := OptInt opt\<rparr>
      else if OptName opt = ''read-delay'' then c\<lparr>cfg_read_delay := OptInt opt\<rparr>
      else if OptName opt = ''write-delay'' then c\<lparr>cfg_write_delay := OptInt opt\<rparr>
      else if OptName opt = ''qps-interval'' then c\<lparr>cfg_qps_interval := OptInt opt\<rparr>
      else c)"

definition choose_cpus :: "int \<Rightarrow> int \<Rightarrow> int option" where
  "choose_cpus numCPU use =
     (if numCPU > 1 then
        (if use < 0 \<or> numCPU = 2 then Some numCPU
         else if use < 2 then Some (numCPU - 1)
         else if numCPU \<ge> use then Some use
         else Some numCPU)
      else None)"

text \<open>The configuration and the argument of \<open>GOMAXPROCS\<close>, or \<open>None\<close> when the process exits.\<close>

definition commandArgsParser ::
  "splitter \<Rightarrow> int \<Rightarrow> qoption list \<Rightarrow> (qserver_conf \<times> int option) option"
where
  "commandArgsParser splitHostPort numCPU opts =
     (let c0 = foldl (\<lambda>c opt. long_option opt (short_option opt c)) cfg_defaults opts;
          c1 = (if cfg_debug_level c0 < 0 then c0\<lparr>cfg_debug_level := 0\<rparr> else c0);
          c2 = (if cfg_net_keepalive_timeout c1 < 1 then c1\<lparr>cfg_net_keepalive_timeout := 1\<rparr> else c1);
          c3 = (if cfg_net_timeout c2 < 1 then c2\<lparr>cfg_net_timeout := 1\<rparr> else c2)
      in if cfg_max_connections c3 < 1 then None
         else if cfg_show_version c3 then None
         else if cfg_show_help c3 then None
         else (let l = fst (netListenStringFormat splitHostPort (cfg_listen c3))
               in if l = [] then None
                  else Some (c3\<lparr>cfg_listen := l\<rparr>, choose_cpus numCPU (cfg_use_cpu_num c3))))"

section \<open>main: counting\<close>

text \<open>
  The goroutine that counts events.  A destroyed connection lowers the counter of running
  connections and queues a further event on the same channel.
\<close>

record qcounters =
  status_counter :: "qevent \<Rightarrow> int"
  conn_counter :: int
  queued :: "qevent list"

definition count_event :: "qcounters \<Rightarrow> qevent \<Rightarrow> qcounters" where
  "count_event q e =
     (let q1 = (if e = HttpRequestStateDestroyed
                then q\<lparr>conn_counter := conn_counter q - 1, queued := queued q @ [TOTAL_CONN_CLOSED]\<rparr> else q)
      in q1\<lparr>status_counter := (status_counter q1)(e := status_counter q1 e + 1)\<rparr>)"

text \<open>A connection is accepted: it is counted and gets its handler, or the answer 503.\<close>

definition accept_conn :: "int \<Rightarrow> qcounters \<Rightarrow> nat \<times> qcounters" where
  "accept_conn max_connections q =
     (let q1 = q\<lparr>queued := queued q @ [TOTAL_CONN_INIT], conn_counter := conn_counter q + 1\<rparr>
      in (if conn_counter q1 > max_connections then httpStatusServiceUnavailable else httpStatusContinue, q1))"

definition counters_init :: "int \<Rightarrow> qcounters" where
  "counters_init max_connections =
     \<lparr>status_counter = (\<lambda>_. 0)(TOTAL_CONN_MAX := max_connections, TOTAL_CONN_IDLE := max_connections),
      conn_counter = 0, queued = []\<rparr>"

text \<open>What \<open>main\<close> sees: an accepted connection, or an event of a handler or of the queue.\<close>

datatype main_event = Accept | Event qevent

definition main_step :: "int \<Rightarrow> qcounters \<Rightarrow> main_event \<Rightarrow> qcounters" where
  "main_step max_connections q e =
     (case e of Accept \<Rightarrow> snd (accept_conn max_connections q) | Event v \<Rightarrow> count_event q v)"

section \<open>main: the display\<close>

text \<open>
  The first line says whether connections are available.  A line shows a count; a line with rates shows it with two fractions: the count over the
  seconds since the start, and the change over the interval.
\<close>

datatype qline =
    StatusLine bool
  | CountLine qevent int
  | RateLine qevent int "int \<times> int" "int \<times> int"
  | DebugLine qevent int "int \<times> int" "int \<times> int"

record qdisplay =
  snapshot :: "qevent \<Rightarrow> int"
  initPre :: int

definition display_line :: "int \<Rightarrow> int \<Rightarrow> (qevent \<Rightarrow> int) \<Rightarrow> (qevent \<Rightarrow> int) \<Rightarrow> qevent \<Rightarrow> qline list" where
  "display_line interval_s debug cnt snap key =
     (let diff = (if cnt key = 0 then 0 else cnt key - snap key);
          secs = (if cnt key = 0 then 1 else cnt TOTAL_TIME_ESP)
      in if key = EVENT_START then []
         else if key \<in> {TOTAL_TIME_ESP, TOTAL_CONN_MAX, TOTAL_CONN_RUNNING, TOTAL_CONN_IDLE}
         then [CountLine key (cnt key)]
         else if key \<in> {TOTAL_CONN_INIT, TOTAL_CONN_CLOSED, TOTAL_CONN_REQUEST, TOTAL_CONN_KEEPALIVE, TOTAL_CONN_RESPONSE}
         then [RateLine key (cnt key) (cnt key, secs) (diff, interval_s)]
         else if cnt key \<le> 0 then []
         else if debug > 1 then [DebugLine key (cnt key) (cnt key, secs) (diff, interval_s)] else [])"

definition qps_tick :: "int \<Rightarrow> int \<Rightarrow> int \<Rightarrow> qcounters \<Rightarrow> qdisplay \<Rightarrow> qline list option \<times> qcounters \<times> qdisplay" where
  "qps_tick max_connections interval_s debug q s =
     (let cnt = (status_counter q)(TOTAL_CONN_RUNNING := conn_counter q,
                  TOTAL_CONN_IDLE := max_connections - conn_counter q);
          keys = filter (\<lambda>k. k \<noteq> EVENT_LAST) all_events;
          out = StatusLine (cnt TOTAL_CONN_RUNNING < max_connections)
                  # concat (map (display_line interval_s debug cnt (snapshot s)) keys);
          s1 = s\<lparr>snapshot := (\<lambda>k. if k \<in> set keys then cnt k else snapshot s k)\<rparr>
      in if cnt TOTAL_CONN_REQUEST \<noteq> initPre s
         then (Some out, q\<lparr>status_counter := cnt\<rparr>, s1\<lparr>initPre := cnt TOTAL_CONN_REQUEST\<rparr>)
         else (None, q\<lparr>status_counter := cnt\<rparr>, s1))"

section \<open>Lemmas\<close>

lemma last_loop_take: "n \<le> length s \<Longrightarrow> last_loop s b n = LastIndexByte (take n s) b"
proof (induction n)
  case (Suc n)
  have "take (Suc n) s = take n s @ [s ! n]" using Suc.prems by (simp add: take_Suc_conv_app_nth)
  moreover have "LastIndexByte (xs @ [y]) b = (if y = b then Some (length xs) else LastIndexByte xs b)" for xs y
    by (induction xs) (auto split: option.splits)
  ultimately show ?case using Suc by (auto simp: min_def)
qed simp

lemma last_index_eq: "last_index s b = LastIndexByte s b"
  using last_loop_take [of "length s" s b] by (simp add: last_index_def)

definition conn_weight :: "main_event \<Rightarrow> int" where
  "conn_weight e = (case e of Accept \<Rightarrow> 1 | Event v \<Rightarrow> if v = HttpRequestStateDestroyed then - 1 else 0)"

definition event_weight :: "qevent \<Rightarrow> main_event \<Rightarrow> int" where
  "event_weight k e = (case e of Accept \<Rightarrow> 0 | Event v \<Rightarrow> of_bool (v = k))"

interpretation running_ledger: step_ledger "main_step m" "\<lambda>_. True" conn_counter conn_weight
  by unfold_locales
     (auto simp: main_step_def accept_conn_def count_event_def conn_weight_def Let_def split: main_event.split)

interpretation event_ledger: step_ledger "main_step m" "\<lambda>_. True" "\<lambda>q. status_counter q k" "event_weight k"
  by unfold_locales
     (auto simp: main_step_def accept_conn_def count_event_def event_weight_def Let_def split: main_event.split)

lemma sum_conn_weight:
  "sum_list (map conn_weight es) =
     int (count_list es Accept) - int (count_list es (Event HttpRequestStateDestroyed))"
  by (induction es) (auto simp: conn_weight_def split: main_event.split)

lemma sum_event_weight: "sum_list (map (event_weight k) es) = int (count_list es (Event k))"
  by (induction es) (auto simp: event_weight_def split: main_event.split)

lemma run_conn_counter:
  "conn_counter (foldl (main_step m) (counters_init m) es) =
     int (count_list es Accept) - int (count_list es (Event HttpRequestStateDestroyed))"
  by (simp add: running_ledger.total_run sum_conn_weight) (simp add: counters_init_def)

lemma run_status_counter:
  "k \<noteq> TOTAL_CONN_MAX \<Longrightarrow> k \<noteq> TOTAL_CONN_IDLE \<Longrightarrow>
     status_counter (foldl (main_step m) (counters_init m) es) k = int (count_list es (Event k))"
  by (simp add: event_ledger.total_run sum_event_weight) (simp add: counters_init_def)

lemma accept_conn_busy: "fst (accept_conn m q) = httpStatusServiceUnavailable \<longleftrightarrow> conn_counter q \<ge> m"
  by (simp add: accept_conn_def)

lemma choose_cpus_range: "choose_cpus n use = Some k \<Longrightarrow> 1 \<le> k \<and> k \<le> n"
  by (auto simp: choose_cpus_def split: if_splits)

lemma netListenStringFormat_shape:
  "fst (netListenStringFormat split s) \<noteq> [] \<Longrightarrow>
     \<exists>h p. split (complete_listen s) = Some (h, p) \<and> fst (netListenStringFormat split s) = h @ '':'' @ p"
  by (auto simp: netListenStringFormat_def split: option.splits prod.splits)

section \<open>Properties\<close>

text \<open>
  The counter of running connections is the number of accepted less the number of
  destroyed connections, every other event is counted exactly, and a new connection is
  answered 503 exactly when the limit is already reached.
\<close>

theorem main_counts:
  "let q = foldl (main_step m) (counters_init m) es
   in conn_counter q = int (count_list es Accept) - int (count_list es (Event HttpRequestStateDestroyed))
    \<and> (\<forall>k. k = TOTAL_CONN_MAX \<or> k = TOTAL_CONN_IDLE \<or> status_counter q k = int (count_list es (Event k)))
    \<and> (fst (accept_conn m q) = httpStatusServiceUnavailable \<longleftrightarrow> conn_counter q \<ge> m)"
  using run_status_counter [of _ m es] by (simp only: Let_def run_conn_counter accept_conn_busy) blast

text \<open>
  When every accepted connection has been handled (in a mode other than \<open>readlonly\<close>) and
  its events have been counted, the counter of running connections is back at zero.
\<close>

theorem all_handled_none_running:
  assumes "\<forall>(code, b, rd, wr, c) \<in> set hs. httpConnectionHandler cf code b (new_conn rd wr) = Some c"
    and "qmode cf \<noteq> ''readlonly''" "count_list es Accept = length hs"
    and "count_list es (Event HttpRequestStateDestroyed)
         = (\<Sum>(code, b, rd, wr, c) \<leftarrow> hs. count_list (qevents c) HttpRequestStateDestroyed)"
  shows "conn_counter (foldl (main_step m) (counters_init m) es) = 0"
proof -
  have "(\<Sum>(code, b, rd, wr, c) \<leftarrow> hs. count_list (qevents c) HttpRequestStateDestroyed) = length hs"
    using assms(1)
  proof (induction hs)
    case (Cons h hs)
    obtain code b rd wr c where h: "h = (code, b, rd, wr, c)" by (cases h)
    then have "count_list (qevents c) HttpRequestStateDestroyed = 1"
      using handler_destroys_once [of cf code b rd wr c] Cons.prems assms(2) by simp
    then show ?case using Cons h by simp
  qed simp
  then show ?thesis using run_conn_counter [of m es] assms(3,4) by simp
qed

theorem all_handled_none_running_witness:
  "conn_counter (foldl (main_step 5) (counters_init 5) [Accept, Event HttpRequestStateDestroyed]) = 0"
proof -
  obtain c where c: "httpConnectionHandler (demo_conf ''short'') httpStatusContinue [] (new_conn [] []) = Some c"
    using keepalive_loop_eof [of "new_conn [] []" "demo_conf ''short''" "[]" 0]
    by (auto simp: httpConnectionHandler_def demo_conf_def)
  have "count_list (qevents c) HttpRequestStateDestroyed = 1"
    using handler_destroys_once [OF c] by (simp add: demo_conf_def)
  then show ?thesis
    using c all_handled_none_running [of "[(httpStatusContinue, [], [], [], c)]" "demo_conf ''short''"
      "[Accept, Event HttpRequestStateDestroyed]" 5]
    by (simp add: demo_conf_def)
qed

text \<open>
  C38. A configuration that \<open>commandArgsParser\<close> returns has positive timeouts and at least one
  connection, a nonempty listen address that ends in the port the library split off, and
  asks for at least one processor.
\<close>

theorem commandArgsParser_valid:
  assumes "commandArgsParser split numCPU opts = Some (c, g)"
  shows "1 \<le> cfg_net_timeout c \<and> 1 \<le> cfg_net_keepalive_timeout c \<and> 1 \<le> cfg_max_connections c
     \<and> 0 \<le> cfg_debug_level c \<and> \<not> cfg_show_help c
     \<and> (\<exists>s h p. split (complete_listen s) = Some (h, p) \<and> cfg_listen c = h @ '':'' @ p)
     \<and> (\<forall>k. g = Some k \<longrightarrow> 1 \<le> k \<and> k \<le> numCPU)"
proof -
  define c0 where "c0 = foldl (\<lambda>c opt. long_option opt (short_option opt c)) cfg_defaults opts"
  have "1 \<le> cfg_net_timeout c \<and> 1 \<le> cfg_net_keepalive_timeout c \<and> 1 \<le> cfg_max_connections c
     \<and> 0 \<le> cfg_debug_level c \<and> \<not> cfg_show_help c \<and> cfg_listen c \<noteq> []
     \<and> cfg_listen c = fst (netListenStringFormat split (cfg_listen c0))
     \<and> g = choose_cpus numCPU (cfg_use_cpu_num c0)"
    using assms unfolding commandArgsParser_def c0_def [symmetric]
    by (cases "cfg_debug_level c0 < 0"; cases "cfg_net_keepalive_timeout c0 < 1"; cases "cfg_net_timeout c0 < 1")
       (auto simp: Let_def split: if_splits)
  then show ?thesis
    using netListenStringFormat_shape [of split "cfg_listen c0"] choose_cpus_range [of numCPU "cfg_use_cpu_num c0"]
    by metis
qed

theorem commandArgsParser_valid_witness:
  "\<exists>c g. commandArgsParser (\<lambda>s. Some ([], ''8080'')) 4 [] = Some (c, g) \<and> 1 \<le> cfg_net_timeout c"
proof -
  have "\<exists>c g. commandArgsParser (\<lambda>s. Some ([], ''8080'')) 4 [] = Some (c, g)"
    by (simp add: commandArgsParser_def cfg_defaults_def netListenStringFormat_def Let_def)
  then show ?thesis using commandArgsParser_valid [of "\<lambda>s. Some ([], ''8080'')" 4 "[]"] by blast
qed

text \<open>
  A listen address without a port is completed: a positive number becomes the port, any
  other address gets port 8080; an address that has a port after its last bracket stays.
\<close>

theorem complete_listen_cases:
  "complete_listen s =
     (if CHR '':'' \<in> set (drop (case LastIndexByte s (CHR '']'') of Some i \<Rightarrow> i | None \<Rightarrow> 0) s) then s
      else if fst (Atoi s) > 0 then '':'' @ s else s @ '':8080'')"
  by (simp add: complete_listen_def last_index_eq Let_def Index_None sublist_def in_set_conv_decomp
      split: option.split)

end
