(* ===== verification/Splice_Pipe.thy ===== *)
theory Splice_Pipe
  imports Go_Prelude
begin

text \<open>
  Copying from one socket to another through a pipe with the system call \<open>splice\<close>
  (\<open>src/netsplice-echo-proxy/dada-funny/splice_linux.go\<close>).

  The two sockets are scripts of what the kernel answers to \<open>rawsplice\<close>.  A script that is used
  up is a peer from which nothing more comes: the goroutine waits for ever, which is \<open>None\<close>.
  An error of the system call is reported as the count \<open>-1\<close> and an error number.
\<close>

section \<open>State\<close>

datatype splice_err = EpollError | SpliceErrno | UnexpectedEOF | PipeError | CloseError

text \<open>
  The source has data, is at its end, would block (and the wait that follows succeeds or
  not), or fails.  The destination has room for some bytes, with the result of the wait in
  case nothing can be moved, or fails.
\<close>

datatype src_event = SrcData bytes | SrcEOF | SrcAgain bool | SrcErr
datatype dst_event = DstRoom nat bool | DstErr

record splicePipe =
  toread :: int
  written :: int
  inbuf :: int
  pipe :: bytes
  received :: bytes
  delivered :: bytes
  src :: "src_event list"
  dst :: "dst_event list"

abbreviation pipeBuf :: int where "pipeBuf \<equiv> 65535"

definition init_pipe :: "int \<Rightarrow> src_event list \<Rightarrow> dst_event list \<Rightarrow> splicePipe" where
  "init_pipe max_read ss ds =
     \<lparr>toread = max_read, written = 0, inbuf = 0, pipe = [], received = [], delivered = [], src = ss, dst = ds\<rparr>"

section \<open>readFrom\<close>

text \<open>The end of the source, in the two readings of the limit.\<close>

definition read_eof :: "splicePipe \<Rightarrow> splice_err option \<times> splicePipe" where
  "read_eof s = (if toread s < 0 then (None, s\<lparr>toread := 0\<rparr>) else (Some UnexpectedEOF, s))"

text \<open>The label \<open>read\<close> and the jump back to it.\<close>

fun read_retry :: "bool \<Rightarrow> nat \<Rightarrow> src_event list \<Rightarrow> splicePipe \<Rightarrow> (splice_err option \<times> splicePipe) option" where
  "read_retry canRead amt [] s = None"
| "read_retry canRead amt (SrcAgain ok # evs) s =
     (if canRead then Some (None, s\<lparr>src := evs\<rparr>)
      else if ok then read_retry True amt evs s
      else Some (Some EpollError, s\<lparr>src := evs\<rparr>))"
| "read_retry canRead amt (SrcEOF # evs) s = Some (read_eof (s\<lparr>src := evs\<rparr>))"
| "read_retry canRead amt (SrcErr # evs) s =
     Some (Some SpliceErrno, s\<lparr>src := evs, inbuf := wrap64 (inbuf s + - 1), toread := wrap64 (toread s - - 1)\<rparr>)"
| "read_retry canRead amt (SrcData d # evs) s =
     (let n = min amt (length d);
          s1 = s\<lparr>src := (if n < length d then SrcData (drop n d) # evs else evs)\<rparr>
      in if n = 0 then Some (read_eof s1)
         else Some (None, s1\<lparr>pipe := pipe s1 @ take n d, received := received s1 @ take n d,
                             inbuf := wrap64 (inbuf s1 + int n), toread := wrap64 (toread s1 - int n)\<rparr>))"

definition readFrom :: "splicePipe \<Rightarrow> (splice_err option \<times> splicePipe) option" where
  "readFrom s =
     (if toread s = 0 then Some (None, s)
      else let amt = (if toread s > 0 \<and> toread s < pipeBuf - inbuf s then toread s else pipeBuf - inbuf s)
           in read_retry False (nat amt) (src s) s)"

section \<open>writeTo and flush\<close>

text \<open>The label \<open>write\<close>: an empty pipe or a full socket gives \<open>EAGAIN\<close>.\<close>

fun write_retry :: "dst_event list \<Rightarrow> splicePipe \<Rightarrow> (splice_err option \<times> splicePipe) option" where
  "write_retry [] s = None"
| "write_retry (DstErr # evs) s =
     Some (Some SpliceErrno, s\<lparr>dst := evs, inbuf := wrap64 (inbuf s - - 1), written := wrap64 (written s + - 1)\<rparr>)"
| "write_retry (DstRoom k ok # evs) s =
     (let amt = (if inbuf s < 0 then length (pipe s) else nat (inbuf s));
          n = min k (min amt (length (pipe s)))
      in if n = 0 then (if ok then write_retry evs s else Some (Some EpollError, s\<lparr>dst := evs\<rparr>))
         else Some (None, s\<lparr>dst := evs, pipe := drop n (pipe s), delivered := delivered s @ take n (pipe s),
                            inbuf := wrap64 (inbuf s - int n), written := wrap64 (written s + int n)\<rparr>))"

definition writeTo :: "splicePipe \<Rightarrow> (splice_err option \<times> splicePipe) option" where
  "writeTo s = (if inbuf s = 0 then Some (None, s) else write_retry (dst s) s)"

lemma write_retry_room:
  "\<exists>n s1. write_retry (DstRoom k ok # evs) s =
     (if n = (0::nat) then (if ok then write_retry evs s else Some (Some EpollError, s\<lparr>dst := evs\<rparr>)) else Some (None, s1))
     \<and> dst s1 = evs \<and> src s1 = src s \<and> toread s1 = toread s"
  unfolding write_retry.simps Let_def by (intro exI conjI, rule refl) simp_all

lemma write_retry_consumes:
  "write_retry evs s = Some (e, s') \<Longrightarrow>
     length (dst s') < length evs \<and> src s' = src s \<and> toread s' = toread s"
proof (induction evs)
  case (Cons ev evs)
  show ?case
  proof (cases ev)
    case (DstRoom k ok)
    then show ?thesis
      using write_retry_room [of k ok evs s] Cons by (auto split: if_splits)
  qed (use Cons.prems in auto)
qed simp

function flush :: "splicePipe \<Rightarrow> (splice_err option \<times> splicePipe) option" where
  "flush s =
     (if inbuf s > 0 then
        (case writeTo s of
           None \<Rightarrow> None
         | Some (Some e, s') \<Rightarrow> Some (Some e, s')
         | Some (None, s') \<Rightarrow> flush s')
      else Some (None, s))"
  by pat_completeness auto
termination
  by (relation "measure (length \<circ> dst)") (auto simp: writeTo_def dest: write_retry_consumes)

declare flush.simps [simp del]

section \<open>The loop of splice\<close>

definition src_size :: "src_event list \<Rightarrow> nat" where
  "src_size evs = (\<Sum>e \<leftarrow> evs. case e of SrcData d \<Rightarrow> Suc (length d) | _ \<Rightarrow> 1)"

lemma src_size_simps [simp]:
  "src_size [] = 0" "src_size (SrcData d # evs) = Suc (length d) + src_size evs"
  "src_size (SrcEOF # evs) = Suc (src_size evs)" "src_size (SrcAgain ok # evs) = Suc (src_size evs)"
  "src_size (SrcErr # evs) = Suc (src_size evs)"
  by (simp_all add: src_size_def)

lemma read_retry_consumes:
  "read_retry canRead amt evs s = Some (None, s') \<Longrightarrow> toread s' = 0 \<or> src_size (src s') < src_size evs"
  by (induction canRead amt evs s rule: read_retry.induct)
     (auto simp: Let_def read_eof_def split: if_splits)

definition loop_size :: "splicePipe \<Rightarrow> nat" where
  "loop_size s = (if toread s = 0 then 0 else Suc (src_size (src s)))"

lemma loop_size_decreases:
  assumes "toread s \<noteq> 0" "readFrom s = Some (None, s1)" "writeTo s1 = Some (None, s2)"
  shows "loop_size s2 < loop_size s"
proof -
  have "toread s1 = 0 \<or> src_size (src s1) < src_size (src s)"
    using assms(1,2) by (auto simp: readFrom_def Let_def dest!: read_retry_consumes)
  moreover have "src s2 = src s1 \<and> toread s2 = toread s1"
    using assms(3) by (auto simp: writeTo_def dest!: write_retry_consumes split: if_splits)
  ultimately show ?thesis using assms(1) by (auto simp: loop_size_def)
qed

function splice_loop :: "splicePipe \<Rightarrow> (splice_err option \<times> splicePipe) option" where
  "splice_loop s =
     (if toread s \<noteq> 0 then
        (case readFrom s of
           None \<Rightarrow> None
         | Some (Some e, s1) \<Rightarrow> Some (Some e, s1)
         | Some (None, s1) \<Rightarrow>
             (case writeTo s1 of
                None \<Rightarrow> None
              | Some (Some e, s2) \<Rightarrow> Some (Some e, s2)
              | Some (None, s2) \<Rightarrow> splice_loop s2))
      else Some (None, s))"
  by pat_completeness auto
termination
  by (relation "measure loop_size") (auto dest: loop_size_decreases)

declare splice_loop.simps [simp del]

section \<open>splice\<close>

text \<open>What the locks of the two descriptors, \<open>pipe2\<close> and the two \<open>close\<close> calls answer.\<close>

datatype pipe2_result = PipeOk | PipeENOSYS | PipeFails

record splice_env =
  wlock_ok :: bool
  rlock_ok :: bool
  pipe2 :: pipe2_result
  close_r_ok :: bool
  close_w_ok :: bool

definition destroy_pipe :: "splice_env \<Rightarrow> splice_err option" where
  "destroy_pipe env = (if close_r_ok env then (if close_w_ok env then None else Some CloseError) else Some CloseError)"

text \<open>The bytes written, the error, whether the call was handled, and the state at the end.\<close>

definition splice ::
  "splice_env \<Rightarrow> int \<Rightarrow> src_event list \<Rightarrow> dst_event list \<Rightarrow> ((int \<times> splice_err option \<times> bool) \<times> splicePipe) option"
where
  "splice env amt ss ds =
     (let s0 = init_pipe amt ss ds
      in if \<not> wlock_ok env then Some ((0, Some EpollError, True), s0)
         else if \<not> rlock_ok env then Some ((0, Some EpollError, True), s0)
         else if pipe2 env \<noteq> PipeOk then Some ((0, Some PipeError, pipe2 env \<noteq> PipeENOSYS), s0)
         else (case splice_loop s0 of
             None \<Rightarrow> None
           | Some (err, s1) \<Rightarrow>
               (case flush s1 of
                  None \<Rightarrow> None
                | Some (err1, s2) \<Rightarrow>
                    (let err' = (if err = None then err1 else err);
                         closerr = destroy_pipe env
                     in Some ((written s2, if err' = None then closerr else err', True), s2)))))"

end
