(* ===== verification/Net_Poll.thy ===== *)
theory Net_Poll
  imports Splice_Pipe
begin

text \<open>
  The descriptors, the event loop and \<open>Transfer\<close> of
  \<open>src/netsplice-echo-proxy/dada-funny/proxy_linux.go\<close>.

  Each direction of a descriptor has a flag: 0 free, 1 locked, 2 locked and waiting, 3 closed.
  The flag changes by compare-and-swap only.  \<open>pd_step\<close> interleaves the goroutines that lock
  and wait, the event loop that signals, and the goroutines that close.  A goroutine in the
  loop of \<open>Close\<close> may leave it by any of the three atomic operations that ends it, and may
  signal at any time, which includes every order the code can take.  The condition variable
  has no lock of its own, so a signal reaches only a goroutine that is already in its list of
  waiters.
\<close>

section \<open>netPD: the flags\<close>

definition cas :: "nat \<Rightarrow> nat \<Rightarrow> nat \<Rightarrow> bool \<times> nat" where
  "cas old new v = (if v = old then (True, new) else (False, v))"

record netPD =
  rWaitFlag :: nat
  wWaitFlag :: nat
  pd_err :: bool

text \<open>\<open>True\<close> is the result \<open>nil\<close>, \<open>False\<close> is \<open>EpollError\<close>.\<close>

definition writeLock :: "netPD \<Rightarrow> bool \<times> netPD" where
  "writeLock pd = (let (ok, v) = cas 0 1 (wWaitFlag pd) in (ok, pd\<lparr>wWaitFlag := v\<rparr>))"

definition writeUnlock :: "netPD \<Rightarrow> bool \<times> netPD" where
  "writeUnlock pd = (let (ok, v) = cas 1 0 (wWaitFlag pd) in (ok, pd\<lparr>wWaitFlag := v\<rparr>))"

definition readLock :: "netPD \<Rightarrow> bool \<times> netPD" where
  "readLock pd = (let (ok, v) = cas 0 1 (rWaitFlag pd) in (ok, pd\<lparr>rWaitFlag := v\<rparr>))"

definition readUnlock :: "netPD \<Rightarrow> bool \<times> netPD" where
  "readUnlock pd = (let (ok, v) = cas 1 0 (rWaitFlag pd) in (ok, pd\<lparr>rWaitFlag := v\<rparr>))"

text \<open>\<open>WaitWrite\<close> and \<open>WaitRead\<close>: what stands before the wait, and what follows it.\<close>

definition WaitWrite_enter :: "netPD \<Rightarrow> bool \<times> netPD" where
  "WaitWrite_enter pd = (let (ok, v) = cas 1 2 (wWaitFlag pd) in (ok, pd\<lparr>wWaitFlag := v\<rparr>))"

definition WaitWrite_leave :: "netPD \<Rightarrow> bool \<times> netPD" where
  "WaitWrite_leave pd = (let (ok, v) = cas 2 1 (wWaitFlag pd) in (ok \<and> \<not> pd_err pd, pd\<lparr>wWaitFlag := v\<rparr>))"

definition WaitRead_enter :: "netPD \<Rightarrow> bool \<times> netPD" where
  "WaitRead_enter pd = (let (ok, v) = cas 1 2 (rWaitFlag pd) in (ok, pd\<lparr>rWaitFlag := v\<rparr>))"

definition WaitRead_leave :: "netPD \<Rightarrow> bool \<times> netPD" where
  "WaitRead_leave pd = (let (ok, v) = cas 2 1 (rWaitFlag pd) in (ok \<and> \<not> pd_err pd, pd\<lparr>rWaitFlag := v\<rparr>))"

text \<open>One pass through a loop of \<open>Close\<close>: whether it ends, and the flag.\<close>

definition close_pass :: "nat \<Rightarrow> bool \<times> nat" where
  "close_pass v =
     (if v = 3 then (True, v)
      else if fst (cas 1 3 v) then (True, snd (cas 1 3 v))
      else if fst (cas 0 3 v) then (True, snd (cas 0 3 v))
      else (False, v))"

section \<open>The goroutines around the write side\<close>

text \<open>
  A user of the descriptor: not started; holding the lock; past the first swap of \<open>WaitWrite\<close>
  but not yet a waiter; a waiter; signalled; about to unlock; returned.
\<close>

datatype user_pc = UIdle | ULocked | UEntering | UWaiting | UWoken | UUnlock | UEnd
datatype closer_pc = CIdle | CLoop | CDone

record pd_state =
  pd :: netPD
  users :: "user_pc list"
  closers :: "closer_pc list"
  signals :: nat
  wakeups :: nat

text \<open>\<open>Signal\<close> moves one waiter on, if there is one.\<close>

definition signal :: "nat option \<Rightarrow> pd_state \<Rightarrow> pd_state" where
  "signal w s =
     (case w of
        None \<Rightarrow> s\<lparr>signals := signals s + 1\<rparr>
      | Some i \<Rightarrow> s\<lparr>signals := signals s + 1, wakeups := wakeups s + 1, users := (users s)[i := UWoken]\<rparr>)"

definition may_signal :: "nat option \<Rightarrow> pd_state \<Rightarrow> bool" where
  "may_signal w s =
     (case w of
        None \<Rightarrow> UWaiting \<notin> set (users s)
      | Some i \<Rightarrow> i < length (users s) \<and> users s ! i = UWaiting)"

definition user_goes :: "nat \<Rightarrow> user_pc \<Rightarrow> netPD \<Rightarrow> pd_state \<Rightarrow> pd_state" where
  "user_goes i u p s = s\<lparr>pd := p, users := (users s)[i := u]\<rparr>"

inductive pd_step :: "pd_state \<Rightarrow> pd_state \<Rightarrow> bool" where
  user_lock: "i < length (users s) \<Longrightarrow> users s ! i = UIdle \<Longrightarrow> writeLock (pd s) = (ok, p) \<Longrightarrow>
     pd_step s (user_goes i (if ok then ULocked else UEnd) p s)"
| user_wait: "i < length (users s) \<Longrightarrow> users s ! i = ULocked \<Longrightarrow> WaitWrite_enter (pd s) = (ok, p) \<Longrightarrow>
     pd_step s (user_goes i (if ok then UEntering else UUnlock) p s)"
| user_enqueue: "i < length (users s) \<Longrightarrow> users s ! i = UEntering \<Longrightarrow>
     pd_step s (user_goes i UWaiting (pd s) s)"
| user_wake: "i < length (users s) \<Longrightarrow> users s ! i = UWoken \<Longrightarrow> WaitWrite_leave (pd s) = (ok, p) \<Longrightarrow>
     pd_step s (user_goes i (if ok then ULocked else UUnlock) p s)"
| user_done: "i < length (users s) \<Longrightarrow> users s ! i = ULocked \<Longrightarrow> pd_step s (user_goes i UUnlock (pd s) s)"
| user_unlock: "i < length (users s) \<Longrightarrow> users s ! i = UUnlock \<Longrightarrow> writeUnlock (pd s) = (ok, p) \<Longrightarrow>
     pd_step s (user_goes i UEnd p s)"
| event_signal: "may_signal w s \<Longrightarrow> pd_step s (signal w s)"
| close_start: "j < length (closers s) \<Longrightarrow> closers s ! j = CIdle \<Longrightarrow>
     pd_step s (s\<lparr>pd := (pd s)\<lparr>pd_err := True\<rparr>, closers := (closers s)[j := CLoop]\<rparr>)"
| close_end: "j < length (closers s) \<Longrightarrow> closers s ! j = CLoop \<Longrightarrow> close_pass (wWaitFlag (pd s)) = (True, v) \<Longrightarrow>
     pd_step s (s\<lparr>pd := (pd s)\<lparr>wWaitFlag := v\<rparr>, closers := (closers s)[j := CDone]\<rparr>)"
| close_signal: "j < length (closers s) \<Longrightarrow> closers s ! j = CLoop \<Longrightarrow> may_signal w s \<Longrightarrow> pd_step s (signal w s)"

definition pd_start :: "nat \<Rightarrow> nat \<Rightarrow> pd_state" where
  "pd_start n m =
     \<lparr>pd = \<lparr>rWaitFlag = 0, wWaitFlag = 0, pd_err = False\<rparr>, users = replicate n UIdle, closers = replicate m CIdle,
      signals = 0, wakeups = 0\<rparr>"

section \<open>Proxy: the table of connections\<close>

text \<open>
  A descriptor is known by its number.  The epoll set and the numbers handed to
  \<open>syscall.Close\<close> are part of the state.
\<close>

record proxy =
  pconns :: "nat \<rightharpoonup> netPD"
  epollset :: "nat set"
  closedfds :: "nat list"

definition newPD :: netPD where
  "newPD = \<lparr>rWaitFlag = 0, wWaitFlag = 0, pd_err = False\<rparr>"

definition newProxy :: "bool \<Rightarrow> proxy option" where
  "newProxy create_ok = (if create_ok then Some \<lparr>pconns = Map.empty, epollset = {}, closedfds = []\<rparr> else None)"

definition addFD :: "nat \<Rightarrow> netPD \<Rightarrow> proxy \<Rightarrow> proxy" where
  "addFD fd p px = px\<lparr>pconns := (pconns px)(fd \<mapsto> p)\<rparr>"

definition delFD :: "nat \<Rightarrow> proxy \<Rightarrow> proxy" where
  "delFD fd px = (case pconns px fd of None \<Rightarrow> px | Some _ \<Rightarrow> px\<lparr>pconns := (pconns px)(fd := None)\<rparr>)"

definition getFD :: "nat \<Rightarrow> proxy \<Rightarrow> netPD option" where
  "getFD fd px = pconns px fd"

text \<open>What the system answers when a connection is taken over.\<close>

record conn_env =
  file_fd :: "nat option"
  nonblock_ok :: bool
  epolladd_ok :: bool

definition addConn :: "conn_env \<Rightarrow> proxy \<Rightarrow> nat option \<times> proxy" where
  "addConn env px =
     (case file_fd env of
        None \<Rightarrow> (None, px)
      | Some sysfd \<Rightarrow>
          if \<not> nonblock_ok env then (None, px)
          else let px1 = addFD sysfd newPD px
               in if \<not> epolladd_ok env then (None, delFD sysfd px1)
                  else (Some sysfd, px1\<lparr>epollset := insert sysfd (epollset px1)\<rparr>))"

text \<open>What \<open>Close\<close> leaves behind when it has returned: both loops end with the flag at 3 only.\<close>

definition closePD :: "netPD \<Rightarrow> netPD" where
  "closePD p = p\<lparr>pd_err := True, wWaitFlag := 3, rWaitFlag := 3\<rparr>"

text \<open>\<open>nfd.Close\<close>: the descriptor is handed to \<open>close\<close> whether or not it was closed before.\<close>

definition closeFD :: "nat \<Rightarrow> proxy \<Rightarrow> proxy" where
  "closeFD fd px = px\<lparr>closedfds := closedfds px @ [fd], epollset := epollset px - {fd}\<rparr>"

definition delConn :: "nat \<Rightarrow> proxy \<Rightarrow> proxy" where
  "delConn fd px = closeFD fd (delFD fd (px\<lparr>epollset := epollset px - {fd}\<rparr>))"

section \<open>eventLoop\<close>

unbundle bit_operations_syntax

abbreviation EPOLLIN :: "32 word" where "EPOLLIN \<equiv> 1"
abbreviation EPOLLOUT :: "32 word" where "EPOLLOUT \<equiv> 4"
abbreviation EPOLLERR :: "32 word" where "EPOLLERR \<equiv> 8"
abbreviation EPOLLHUP :: "32 word" where "EPOLLHUP \<equiv> 16"
abbreviation EPOLLRDHUP :: "32 word" where "EPOLLRDHUP \<equiv> 0x2000"

datatype loop_action = CloseNow nat | SignalRead nat | SignalWrite nat

text \<open>What the event loop does for one event, and for the events of one \<open>EpollWait\<close>.\<close>

definition handle_event :: "nat \<times> 32 word \<Rightarrow> proxy \<Rightarrow> loop_action list \<times> proxy" where
  "handle_event ev px =
     (case ev of (fd, evs) \<Rightarrow>
        (case getFD fd px of
           None \<Rightarrow> ([], px)
         | Some p \<Rightarrow>
             if evs AND (EPOLLERR OR EPOLLHUP OR EPOLLRDHUP) \<noteq> 0
             then ([CloseNow fd], closeFD fd (px\<lparr>pconns := (pconns px)(fd \<mapsto> closePD p)\<rparr>))
             else ((if evs AND EPOLLIN \<noteq> 0 then [SignalRead fd] else [])
                   @ (if evs AND EPOLLOUT \<noteq> 0 then [SignalWrite fd] else []), px)))"

fun eventLoop :: "(nat \<times> 32 word) list \<Rightarrow> proxy \<Rightarrow> loop_action list \<times> proxy" where
  "eventLoop [] px = ([], px)"
| "eventLoop (ev # evs) px =
     (let (as, px1) = handle_event ev px; (bs, px2) = eventLoop evs px1 in (as @ bs, px2))"

section \<open>Transfer\<close>

text \<open>
  The two directions run at the same time, each against its own scripts; \<open>None\<close> is a
  transfer that does not return.  The result is the error of \<open>addConn\<close>, or the error
  of the transfer with the bytes that were delivered to the second and the first connection.
  The first direction to end removes and closes both descriptors, and so does the other.
\<close>

record direction =
  denv :: splice_env
  dsrc :: "src_event list"
  ddst :: "dst_event list"

datatype transfer_result = NotAdded | Transferred "splice_err option" bytes bytes

definition Transfer ::
  "conn_env \<Rightarrow> conn_env \<Rightarrow> direction \<Rightarrow> direction \<Rightarrow> proxy \<Rightarrow> (transfer_result \<times> proxy) option"
where
  "Transfer c1 c2 d21 d12 px =
     (case addConn c1 px of
        (None, px1) \<Rightarrow> Some (NotAdded, px1)
      | (Some fd1, px1) \<Rightarrow>
          (case addConn c2 px1 of
             (None, px2) \<Rightarrow> Some (NotAdded, px2)
           | (Some fd2, px2) \<Rightarrow>
               (case (splice (denv d12) max_i64 (dsrc d12) (ddst d12), splice (denv d21) max_i64 (dsrc d21) (ddst d21)) of
                  (Some ((n12, err2, h12), s12), Some ((n21, err, h21), s21)) \<Rightarrow>
                    Some (Transferred (if err \<noteq> None then err else err2) (delivered s12) (delivered s21),
                          delConn fd2 (delConn fd1 (delConn fd2 (delConn fd1 px2))))
                | _ \<Rightarrow> None)))"

end
