(* ===== verification/Splice_Pipe_Props.thy ===== *)
theory Splice_Pipe_Props
  imports Splice_Pipe
begin

text \<open>
  Properties of \<open>splice\<close>: with sockets that do not fail the bytes arrive complete and in order,
  up to the limit; after a failed read a byte that is already in the pipe is lost.
\<close>

section \<open>Sockets that do not fail\<close>

definition src_bytes :: "src_event list \<Rightarrow> bytes" where
  "src_bytes evs = concat (map (\<lambda>e. case e of SrcData d \<Rightarrow> d | _ \<Rightarrow> []) evs)"

definition sound_src :: "src_event list \<Rightarrow> bool" where
  "sound_src evs \<longleftrightarrow> (\<forall>e \<in> set evs. case e of SrcData d \<Rightarrow> d \<noteq> [] | SrcAgain ok \<Rightarrow> ok | _ \<Rightarrow> False)"

definition ready_dst :: "dst_event list \<Rightarrow> bool" where
  "ready_dst ds \<longleftrightarrow> (\<forall>e \<in> set ds. case e of DstRoom k ok \<Rightarrow> 0 < k | DstErr \<Rightarrow> False)"

lemma src_bytes_simps [simp]:
  "src_bytes [] = []" "src_bytes (SrcData d # evs) = d @ src_bytes evs"
  "src_bytes (SrcAgain ok # evs) = src_bytes evs" "src_bytes (SrcEOF # evs) = src_bytes evs"
  by (simp_all add: src_bytes_def)

lemma sound_src_simps [simp]:
  "sound_src []" "sound_src (SrcData d # evs) \<longleftrightarrow> d \<noteq> [] \<and> sound_src evs"
  "sound_src (SrcAgain ok # evs) \<longleftrightarrow> ok \<and> sound_src evs" "\<not> sound_src (SrcEOF # evs)" "\<not> sound_src (SrcErr # evs)"
  by (simp_all add: sound_src_def)

lemma ready_dst_simps [simp]:
  "ready_dst []" "ready_dst (DstRoom k ok # ds) \<longleftrightarrow> 0 < k \<and> ready_dst ds" "\<not> ready_dst (DstErr # ds)"
  by (simp_all add: ready_dst_def)

lemma ready_dst_tl: "ready_dst ds \<Longrightarrow> ready_dst (tl ds)"
  by (cases ds) (auto simp: ready_dst_def)

text \<open>The counters agree with the bytes they count.\<close>

definition counted :: "splicePipe \<Rightarrow> bool" where
  "counted s \<longleftrightarrow> inbuf s = int (length (pipe s)) \<and> written s = int (length (delivered s))
     \<and> received s = delivered s @ pipe s \<and> length (delivered s) + length (pipe s) \<le> nat max_i64"

section \<open>One read, one write, flush\<close>

lemma read_retry_sound:
  assumes "sound_src evs" "0 < amt" "wrap64 (inbuf s) = inbuf s" "wrap64 (toread s) = toread s"
  shows "(\<exists>evs' chunk. read_retry c amt (evs @ [SrcEOF]) s =
            Some (None, s\<lparr>src := evs' @ [SrcEOF], pipe := pipe s @ chunk, received := received s @ chunk,
              inbuf := wrap64 (inbuf s + int (length chunk)), toread := wrap64 (toread s - int (length chunk))\<rparr>)
          \<and> sound_src evs' \<and> src_bytes evs = chunk @ src_bytes evs' \<and> length chunk \<le> amt)
     \<or> src_bytes evs = [] \<and> read_retry c amt (evs @ [SrcEOF]) s = Some (read_eof (s\<lparr>src := []\<rparr>))"
  using assms
proof (induction evs arbitrary: c)
  case (Cons ev evs)
  show ?case
  proof (cases ev)
    case (SrcData d)
    let ?n = "min amt (length d)"
    let ?evs' = "(if ?n < length d then SrcData (drop ?n d) # evs else evs)"
    have "take ?n d @ src_bytes ?evs' = src_bytes (ev # evs)" "sound_src ?evs'" "?n \<noteq> 0"
      using Cons.prems SrcData by (auto simp: min_def append_assoc [symmetric] simp del: append_assoc)
    moreover have "min (length d) amt = ?n" by simp
    ultimately show ?thesis
      using SrcData by (intro disjI1 exI [of _ ?evs'] exI [of _ "take ?n d"]) (auto simp: Let_def)
  next
    case (SrcAgain ok)
    then have "ok" "sound_src evs" using Cons.prems by simp_all
    show ?thesis
    proof (cases c)
      case True
      then show ?thesis
        using SrcAgain Cons.prems by (intro disjI1 exI [of _ evs] exI [of _ "[]"]) auto
    next
      case False
      then show ?thesis using Cons.IH [of True] Cons.prems SrcAgain by simp
    qed
  qed (use Cons.prems in simp_all)
qed simp

lemma writeTo_ready:
  assumes "counted s" "pipe s \<noteq> []" "ready_dst (dst s)" "dst s \<noteq> []"
  shows "\<exists>n. 0 < n \<and> n \<le> length (pipe s) \<and>
     writeTo s = Some (None, s\<lparr>dst := tl (dst s), pipe := drop n (pipe s), delivered := delivered s @ take n (pipe s),
       inbuf := inbuf s - int n, written := written s + int n\<rparr>)"
proof -
  obtain k ok ds where d: "dst s = DstRoom k ok # ds" "0 < k"
    using assms(3,4) by (cases "dst s"; cases "hd (dst s)") auto
  obtain n where n: "0 < n" "n \<le> length (pipe s)" "n = min k (length (pipe s))"
    using d(2) assms(2) by auto
  have "length (delivered s) + length (pipe s) \<le> nat max_i64"
    using assms(1) by (simp add: counted_def)
  then have "wrap64 (inbuf s - int n) = inbuf s - int n" "wrap64 (written s + int n) = written s + int n"
    using assms(1) n(1,2) by (auto simp: counted_def)
  then show ?thesis
    using d(1) assms(1,2) n(1,2)
    by (intro exI [of _ n]) (simp add: writeTo_def counted_def Let_def n(3) [symmetric])
qed

lemma counted_move:
  "counted s \<Longrightarrow> n \<le> length (pipe s) \<Longrightarrow>
     counted (s\<lparr>dst := ds, pipe := drop n (pipe s), delivered := delivered s @ take n (pipe s),
       inbuf := inbuf s - int n, written := written s + int n\<rparr>)"
  by (auto simp: counted_def of_nat_diff)

lemma flush_empty [simp]: "inbuf s = 0 \<Longrightarrow> flush s = Some (None, s)"
  by (subst flush.simps) simp

lemma flush_ready:
  assumes "counted s" "ready_dst (dst s)" "length (pipe s) \<le> length (dst s)"
  shows "\<exists>s'. flush s = Some (None, s') \<and> counted s' \<and> pipe s' = [] \<and> received s' = received s"
  using assms
proof (induction "length (pipe s)" arbitrary: s rule: less_induct)
  case less
  show ?case
  proof (cases "pipe s = []")
    case True
    then show ?thesis using less.prems by (subst flush.simps) (simp add: counted_def)
  next
    case False
    then have "dst s \<noteq> []" using less.prems by auto
    then obtain n where n: "0 < n" "n \<le> length (pipe s)"
      "writeTo s = Some (None, s\<lparr>dst := tl (dst s), pipe := drop n (pipe s), delivered := delivered s @ take n (pipe s),
         inbuf := inbuf s - int n, written := written s + int n\<rparr>)" (is "_ = Some (None, ?s)")
      using writeTo_ready [OF less.prems(1) False less.prems(2)] by blast
    have "ready_dst (tl (dst s))" using less.prems(2) by (rule ready_dst_tl)
    then have "\<exists>s'. flush ?s = Some (None, s') \<and> counted s' \<and> pipe s' = [] \<and> received s' = received ?s"
      using less.prems n by (intro less.hyps counted_move) auto
    moreover have "inbuf s > 0" using less.prems(1) False by (simp add: counted_def)
    ultimately show ?thesis using n(3) by (subst flush.simps) simp
  qed
qed

section \<open>The loop\<close>

definition streaming :: "int \<Rightarrow> bytes \<Rightarrow> splicePipe \<Rightarrow> bool" where
  "streaming m data s \<longleftrightarrow> counted s \<and> length (pipe s) < 65535
     \<and> (\<exists>evs. src s = evs @ [SrcEOF] \<and> sound_src evs \<and> received s @ src_bytes evs = data)
     \<and> toread s = m - int (length (received s)) \<and> (0 \<le> m \<longrightarrow> 0 \<le> toread s)
     \<and> ready_dst (dst s) \<and> length data \<le> length (delivered s) + length (dst s)"

text \<open>After a read the pipe is written once; the loop goes on with a state as before.\<close>

lemma streaming_write:
  assumes "counted s" "length (pipe s) \<le> 65535" "src s = evs @ [SrcEOF]" "sound_src evs"
    "received s @ src_bytes evs = data" "toread s = m - int (length (received s))" "0 \<le> m \<longrightarrow> 0 \<le> toread s"
    "ready_dst (dst s)" "length data \<le> length (delivered s) + length (dst s)"
  shows "\<exists>s'. writeTo s = Some (None, s') \<and> streaming m data s'"
proof (cases "pipe s = []")
  case True
  then show ?thesis using assms by (auto simp: writeTo_def streaming_def counted_def)
next
  case False
  have len: "length data = length (delivered s) + length (pipe s) + length (src_bytes evs)"
    using assms(1,5) by (auto simp: counted_def)
  then have "dst s \<noteq> []" using assms(9) False by auto
  then obtain n where n: "0 < n" "n \<le> length (pipe s)"
    "writeTo s = Some (None, s\<lparr>dst := tl (dst s), pipe := drop n (pipe s), delivered := delivered s @ take n (pipe s),
       inbuf := inbuf s - int n, written := written s + int n\<rparr>)" (is "_ = Some (None, ?s)")
    using writeTo_ready [OF assms(1) False assms(8)] by blast
  have "counted ?s" by (rule counted_move [OF assms(1) n(2)])
  moreover have "length data \<le> length (delivered ?s) + length (dst ?s)"
    using assms(9) n \<open>dst s \<noteq> []\<close> by (cases "dst s") auto
  ultimately have "streaming m data ?s"
    using assms n ready_dst_tl [OF assms(8)] by (auto simp: streaming_def)
  with n(3) show ?thesis by blast
qed

lemma splice_loop_streams:
  assumes "streaming m data s" "length data \<le> 2 ^ 62" "- (2 ^ 62) \<le> m" "m \<le> max_i64"
  shows "\<exists>e s'. splice_loop s = Some (e, s') \<and> counted s' \<and> ready_dst (dst s') \<and> length (pipe s') \<le> length (dst s')
     \<and> received s' = (if m < 0 then data else take (nat m) data)
     \<and> e = (if m < 0 \<or> m \<le> int (length data) then None else Some UnexpectedEOF)"
  using assms(1)
proof (induction "loop_size s" arbitrary: s rule: less_induct)
  case less
  obtain evs where evs: "src s = evs @ [SrcEOF]" "sound_src evs" "received s @ src_bytes evs = data"
    and cnt: "counted s" and tr: "toread s = m - int (length (received s))" "0 \<le> m \<longrightarrow> 0 \<le> toread s"
    and ds: "ready_dst (dst s)" "length data \<le> length (delivered s) + length (dst s)"
    and small: "length (pipe s) < 65535"
    using less.prems unfolding streaming_def by blast
  have rcv: "length (received s) = length (delivered s) + length (pipe s)" using cnt by (simp add: counted_def)
  have data: "length data = length (received s) + length (src_bytes evs)" using evs(3) by auto
  have room: "length (pipe s) \<le> length (dst s)" using ds(2) data rcv by linarith
  show ?case
  proof (cases "toread s = 0")
    case True
    then have "0 \<le> m" "nat m = length (received s)" using tr by auto
    then have "received s = take (nat m) data" using evs(3) by auto
    moreover have "m \<le> int (length data)" using \<open>nat m = _\<close> data by linarith
    moreover have "splice_loop s = Some (None, s)" using True by (subst splice_loop.simps) simp
    ultimately show ?thesis using cnt ds(1) room \<open>0 \<le> m\<close> by simp
  next
    case False
    define amt where "amt = nat (if toread s > 0 \<and> toread s < pipeBuf - inbuf s then toread s else pipeBuf - inbuf s)"
    have rd: "readFrom s = read_retry False amt (evs @ [SrcEOF]) s"
      using False evs(1) by (simp add: readFrom_def amt_def Let_def)
    have inb: "inbuf s = int (length (pipe s))" using cnt by (simp add: counted_def)
    have "0 < amt" "length (pipe s) + amt \<le> 65535" "0 \<le> m \<Longrightarrow> int amt \<le> toread s"
      using small False tr(2) by (auto simp: amt_def inb)
    moreover have "wrap64 (inbuf s) = inbuf s" "wrap64 (toread s) = toread s"
      using small tr(1) assms(2-4) data by (simp_all add: inb)
    ultimately consider
      (chunk) evs' chunk where "readFrom s = Some (None, s\<lparr>src := evs' @ [SrcEOF], pipe := pipe s @ chunk,
          received := received s @ chunk, inbuf := wrap64 (inbuf s + int (length chunk)),
          toread := wrap64 (toread s - int (length chunk))\<rparr>)"
        "sound_src evs'" "src_bytes evs = chunk @ src_bytes evs'" "length chunk \<le> amt"
    | (eof) "src_bytes evs = []" "readFrom s = Some (read_eof (s\<lparr>src := []\<rparr>))"
      using read_retry_sound [OF evs(2), of amt s False] rd by auto
    then show ?thesis
    proof cases
      case chunk
      let ?s1 = "s\<lparr>src := evs' @ [SrcEOF], pipe := pipe s @ chunk, received := received s @ chunk,
          inbuf := wrap64 (inbuf s + int (length chunk)), toread := wrap64 (toread s - int (length chunk))\<rparr>"
      have w: "wrap64 (inbuf s + int (length chunk)) = int (length (pipe s @ chunk))"
        "wrap64 (toread s - int (length chunk)) = m - int (length (received s @ chunk))"
        using \<open>length (pipe s) + amt \<le> 65535\<close> chunk(4) tr(1) assms(2-4) data chunk(3) by (simp_all add: inb)
      have "\<exists>s2. writeTo ?s1 = Some (None, s2) \<and> streaming m data s2"
      proof (rule streaming_write)
        show "counted ?s1" using cnt data chunk(3) assms(2) w(1) by (simp add: counted_def)
        show "0 \<le> m \<longrightarrow> 0 \<le> toread ?s1"
          using w(2) chunk(4) \<open>0 \<le> m \<Longrightarrow> int amt \<le> toread s\<close> tr(1) by auto
      qed (use w chunk evs(3) ds \<open>length (pipe s) + amt \<le> 65535\<close> in auto)
      then obtain s2 where s2: "writeTo ?s1 = Some (None, s2)" "streaming m data s2" by blast
      have "loop_size s2 < loop_size s" using loop_size_decreases [OF False chunk(1) s2(1)] .
      from less.hyps [OF this s2(2)] show ?thesis
        using False chunk(1) s2(1) by (subst splice_loop.simps) simp
    next
      case eof
      then have all: "received s = data" using evs(3) by simp
      show ?thesis
      proof (cases "m < 0")
        case True
        let ?s1 = "s\<lparr>src := [], toread := 0\<rparr>"
        have "toread s < 0" using True tr by simp
        then have r: "readFrom s = Some (None, ?s1)" using eof by (simp add: read_eof_def)
        have "\<exists>s2. writeTo ?s1 = Some (None, s2) \<and> counted s2 \<and> ready_dst (dst s2) \<and> received s2 = data
            \<and> toread s2 = 0 \<and> length (pipe s2) \<le> length (dst s2)"
        proof (cases "pipe s = []")
          case True
          then show ?thesis using cnt ds all by (auto simp: writeTo_def counted_def)
        next
          case False
          then have ne: "dst s \<noteq> []" using room by auto
          have "counted ?s1" using cnt by (simp add: counted_def)
          from writeTo_ready [OF this] False ds(1) ne obtain n where n: "0 < n" "n \<le> length (pipe s)"
            "writeTo ?s1 = Some (None, ?s1\<lparr>dst := tl (dst s), pipe := drop n (pipe s),
               delivered := delivered s @ take n (pipe s), inbuf := inbuf s - int n, written := written s + int n\<rparr>)"
            by auto
          show ?thesis
            using n counted_move [OF \<open>counted ?s1\<close>, of n "tl (dst s)"] ready_dst_tl [OF ds(1)] all room by auto
        qed
        then obtain s2 where s2: "writeTo ?s1 = Some (None, s2)" "counted s2" "ready_dst (dst s2)" "received s2 = data"
            "toread s2 = 0" "length (pipe s2) \<le> length (dst s2)" by blast
        have "splice_loop s2 = Some (None, s2)" using s2(5) by (subst splice_loop.simps) simp
        then have "splice_loop s = Some (None, s2)"
          using False r s2(1) by (subst splice_loop.simps) simp
        then show ?thesis using s2 True by simp
      next
        case nonneg: False
        then have "readFrom s = Some (Some UnexpectedEOF, s\<lparr>src := []\<rparr>)"
          using eof tr(2) by (simp add: read_eof_def)
        moreover have "int (length data) < m" using False tr all nonneg by simp
        ultimately show ?thesis
          using False cnt ds(1) room all nonneg by (subst splice_loop.simps) (simp add: counted_def)
      qed
    qed
  qed
qed

section \<open>Properties\<close>

definition env_ok :: "splice_env \<Rightarrow> bool" where
  "env_ok env \<longleftrightarrow> wlock_ok env \<and> rlock_ok env \<and> pipe2 env = PipeOk \<and> close_r_ok env \<and> close_w_ok env"

lemma splice_env_ok:
  assumes "env_ok env" "splice_loop (init_pipe m ss ds) = Some (err, s1)" "flush s1 = Some (err1, s2)"
  shows "splice env m ss ds = Some ((written s2, if err = None then err1 else err, True), s2)"
  using assms by (auto simp: splice_def env_ok_def destroy_pipe_def Let_def)

lemma splice_streams:
  assumes "env_ok env" "sound_src evs" "ready_dst ds" "length (src_bytes evs) \<le> length ds"
    and "length (src_bytes evs) \<le> 2 ^ 62" "- (2 ^ 62) \<le> m" "m \<le> max_i64"
  shows "\<exists>s. splice env m (evs @ [SrcEOF]) ds =
       Some ((int (length (delivered s)), if m < 0 \<or> m \<le> int (length (src_bytes evs)) then None else Some UnexpectedEOF, True), s)
     \<and> delivered s = (if m < 0 then src_bytes evs else take (nat m) (src_bytes evs)) \<and> pipe s = []"
proof -
  let ?s = "init_pipe m (evs @ [SrcEOF]) ds"
  have "streaming m (src_bytes evs) ?s"
    using assms by (auto simp: streaming_def counted_def init_pipe_def)
  then obtain e s1 where s1: "splice_loop ?s = Some (e, s1)" "counted s1" "ready_dst (dst s1)"
      "length (pipe s1) \<le> length (dst s1)" "received s1 = (if m < 0 then src_bytes evs else take (nat m) (src_bytes evs))"
      "e = (if m < 0 \<or> m \<le> int (length (src_bytes evs)) then None else Some UnexpectedEOF)"
    using splice_loop_streams [of m "src_bytes evs" ?s] assms by blast
  then obtain s2 where s2: "flush s1 = Some (None, s2)" "counted s2" "pipe s2 = []" "received s2 = received s1"
    using flush_ready by blast
  then have "delivered s2 = received s1" "written s2 = int (length (delivered s2))" by (simp_all add: counted_def)
  then show ?thesis
    using splice_env_ok [OF assms(1) s1(1) s2(1)] s1(5,6) s2(3) by (intro exI [of _ s2]) simp
qed

text \<open>
  C9. Between sockets that do not fail \<open>splice\<close> returns and delivers the bytes of the source
  complete and in order: all of them without a limit, as many as the limit says otherwise.
  The count it returns is the number of bytes delivered, and it reports an unexpected end
  exactly when the source ends before the limit.
\<close>

theorem splice_delivers:
  assumes "env_ok env" "sound_src evs" "ready_dst ds" "length (src_bytes evs) \<le> length ds"
    and "length (src_bytes evs) \<le> 2 ^ 62" "- (2 ^ 62) \<le> m" "m \<le> max_i64"
  shows "\<exists>s. splice env m (evs @ [SrcEOF]) ds =
       Some ((int (length (delivered s)), if m < 0 \<or> m \<le> int (length (src_bytes evs)) then None else Some UnexpectedEOF, True), s)
     \<and> delivered s = (if m < 0 then src_bytes evs else take (nat m) (src_bytes evs)) \<and> pipe s = []"
  using assms by (rule splice_streams)

definition plain_env :: splice_env where
  "plain_env = \<lparr>wlock_ok = True, rlock_ok = True, pipe2 = PipeOk, close_r_ok = True, close_w_ok = True\<rparr>"

lemma env_ok_plain [simp]: "env_ok plain_env"
  by (simp add: env_ok_def plain_env_def)

theorem splice_delivers_witness:
  "\<exists>s. splice plain_env 4 ([SrcData ''ab'', SrcAgain True, SrcData ''cdef''] @ [SrcEOF])
        [DstRoom 3 True, DstRoom 1 True, DstRoom 3 True, DstRoom 1 True, DstRoom 2 True, DstRoom 9 True] = Some ((4, None, True), s) \<and> delivered s = ''abcd''"
  using splice_delivers [of plain_env "[SrcData ''ab'', SrcAgain True, SrcData ''cdef'']" 
    "[DstRoom 3 True, DstRoom 1 True, DstRoom 3 True, DstRoom 1 True, DstRoom 2 True, DstRoom 9 True]" 4]
  by auto

text \<open>
  After a read that fails while bytes are in the pipe, the last of them is lost: the count
  \<open>-1\<close> of the failed call is added to the number of bytes in the pipe.
\<close>

theorem splice_loses_byte:
  assumes "env_ok env" "0 < k" "k < length d" "length d \<le> 65535"
  shows "\<exists>s. splice env max_i64 [SrcData d, SrcErr] [DstRoom k True, DstRoom (length d) True] =
       Some ((int (length d) - 1, Some SpliceErrno, True), s)
     \<and> received s = d \<and> delivered s = butlast d \<and> pipe s = [last d]"
proof -
  let ?n = "length d"
  let ?s0 = "init_pipe max_i64 [SrcData d, SrcErr] [DstRoom k True, DstRoom ?n True]"
  let ?s1 = "?s0\<lparr>src := [SrcErr], pipe := d, received := d, inbuf := int ?n, toread := max_i64 - int ?n\<rparr>"
  let ?s2 = "?s1\<lparr>dst := [DstRoom ?n True], pipe := drop k d, delivered := take k d, inbuf := int ?n - int k, written := int k\<rparr>"
  let ?s3 = "?s2\<lparr>src := [], inbuf := int ?n - int k - 1, toread := max_i64 - int ?n + 1\<rparr>"
  have ne: "d \<noteq> []" using assms by auto
  have "readFrom ?s0 = Some (None, ?s1)"
    using assms ne by (simp add: readFrom_def init_pipe_def Let_def)
  moreover have "writeTo ?s1 = Some (None, ?s2)"
    using assms ne by (simp add: writeTo_def init_pipe_def Let_def)
  moreover have "splice_loop ?s2 = Some (Some SpliceErrno, ?s3)"
    using assms by (subst splice_loop.simps) (simp add: readFrom_def init_pipe_def Let_def)
  ultimately have loop: "splice_loop ?s0 = Some (Some SpliceErrno, ?s3)"
    by (subst splice_loop.simps) (simp add: init_pipe_def)
  have last: "drop (?n - 1) d = [last d]" "take (?n - 1) d = butlast d"
    using append_butlast_last_id [OF ne] by (metis append_eq_conv_conj length_butlast)+
  show ?thesis
  proof (cases "Suc k = ?n")
    case True
    then have "flush ?s3 = Some (None, ?s3)" by (subst flush.simps) simp
    moreover have "k = ?n - 1" "int k = int ?n - 1" using True by simp_all
    ultimately show ?thesis
      using splice_env_ok [OF assms(1) loop] last by (intro exI [of _ ?s3]) (simp add: init_pipe_def)
  next
    case False
    let ?m = "?n - k - 1"
    have m: "0 < ?m" "int ?m = int ?n - int k - 1" "?m \<le> ?n - k" "k + ?m = ?n - 1" using False assms(3) by auto
    let ?s4 = "?s3\<lparr>dst := [], pipe := drop (?n - 1) d, delivered := take (?n - 1) d, inbuf := 0, written := int ?n - 1\<rparr>"
    have "take k d @ take ?m (drop k d) = take (?n - 1) d"
      using m(4) by (metis take_add)
    then have "writeTo ?s3 = Some (None, ?s4)"
      using m assms by (simp add: writeTo_def Let_def init_pipe_def min_def nat_diff_distrib add.commute)
    moreover have "inbuf ?s3 > 0" using m by simp
    ultimately have "flush ?s3 = Some (None, ?s4)"
      by (subst flush.simps) simp
    then show ?thesis
      using splice_env_ok [OF assms(1) loop] last by (intro exI [of _ ?s4]) (simp add: init_pipe_def)
  qed
qed

theorem splice_loses_byte_witness:
  "\<exists>s. splice plain_env max_i64 [SrcData ''abc'', SrcErr] [DstRoom 1 True, DstRoom (length ''abc'') True] =
       Some ((2, Some SpliceErrno, True), s) \<and> received s = ''abc'' \<and> delivered s = ''ab''"
  using splice_loses_byte [of plain_env 1 "''abc''"] by auto

end
