(* ===== verification/Net_Poll_Props.thy ===== *)
theory Net_Poll_Props
  imports Net_Poll Splice_Pipe_Props
begin

text \<open>
  Properties of the descriptors of the splice proxy: the flag keeps users apart and records
  what the one that holds it does; \<open>Close\<close> can always finish and leaves the descriptor
  unusable; a signal can be lost; and what \<open>Transfer\<close> reports and leaves behind.
\<close>

section \<open>The invariant of the flag\<close>

definition active :: "user_pc \<Rightarrow> bool" where
  "active u \<longleftrightarrow> u \<noteq> UIdle \<and> u \<noteq> UEnd"

definition waiting :: "user_pc \<Rightarrow> bool" where
  "waiting u \<longleftrightarrow> u = UEntering \<or> u = UWaiting \<or> u = UWoken"

lemma active_simps [simp]:
  "\<not> active UIdle" "active ULocked" "active UEntering" "active UWaiting" "active UWoken" "active UUnlock" "\<not> active UEnd"
  "\<not> waiting UIdle" "\<not> waiting ULocked" "waiting UEntering" "waiting UWaiting" "waiting UWoken" "\<not> waiting UUnlock" "\<not> waiting UEnd"
  by (simp_all add: active_def waiting_def)

abbreviation flag :: "pd_state \<Rightarrow> nat" where "flag s \<equiv> wWaitFlag (pd s)"

definition one_holder :: "user_pc list \<Rightarrow> bool" where
  "one_holder us \<longleftrightarrow> (\<forall>i j. i < length us \<longrightarrow> j < length us \<longrightarrow> active (us ! i) \<longrightarrow> active (us ! j) \<longrightarrow> i = j)"

definition flag_holder :: "nat \<Rightarrow> user_pc list \<Rightarrow> bool" where
  "flag_holder v us \<longleftrightarrow> v \<le> 3
     \<and> (\<forall>i < length us. active (us ! i) \<longrightarrow> v \<noteq> 0 \<and> (waiting (us ! i) \<longleftrightarrow> v = 2))
     \<and> (v = 1 \<or> v = 2 \<longrightarrow> (\<exists>i < length us. active (us ! i)))"

definition pd_inv :: "pd_state \<Rightarrow> bool" where
  "pd_inv s \<longleftrightarrow> one_holder (users s) \<and> flag_holder (flag s) (users s) \<and> (CDone \<in> set (closers s) \<longrightarrow> flag s = 3)"

lemmas pd_ops = writeLock_def writeUnlock_def WaitWrite_enter_def WaitWrite_leave_def cas_def

text \<open>The three ways in which a user changes the flag: it takes it, it moves on, it returns it.\<close>

lemma one_holder_take:
  "flag_holder 0 us \<Longrightarrow> i < length us \<Longrightarrow> one_holder (us[i := u])"
  by (auto simp: one_holder_def flag_holder_def nth_list_update)

lemma one_holder_move:
  "one_holder us \<Longrightarrow> i < length us \<Longrightarrow> active (us ! i) \<or> \<not> active u \<Longrightarrow> one_holder (us[i := u])"
  by (auto simp: one_holder_def nth_list_update)

lemma flag_holder_take:
  "flag_holder 0 us \<Longrightarrow> i < length us \<Longrightarrow> active u \<Longrightarrow> \<not> waiting u \<Longrightarrow> flag_holder 1 (us[i := u])"
  by (auto simp: flag_holder_def nth_list_update)

lemma flag_holder_move:
  assumes "one_holder us" "flag_holder v us" "i < length us" "active (us ! i)" "active u"
    and "v' \<noteq> 0" "v' \<le> 3" "waiting u \<longleftrightarrow> v' = 2"
  shows "flag_holder v' (us[i := u])"
  using assms by (auto simp: flag_holder_def one_holder_def nth_list_update)

lemma flag_holder_free:
  assumes "one_holder us" "flag_holder v us" "i < length us" "active (us ! i)" "\<not> active u" "v' = 0 \<or> v' = 3"
  shows "flag_holder v' (us[i := u])"
  using assms by (auto simp: flag_holder_def one_holder_def nth_list_update)

lemma flag_holder_end:
  "flag_holder v us \<Longrightarrow> i < length us \<Longrightarrow> \<not> active (us ! i) \<Longrightarrow> \<not> active u \<Longrightarrow> flag_holder v (us[i := u])"
  by (auto simp: flag_holder_def nth_list_update split: if_splits)

lemma flag_holder_close:
  "flag_holder v us \<Longrightarrow> v \<noteq> 2 \<Longrightarrow> flag_holder 3 us"
  by (auto simp: flag_holder_def)

lemma flag_holder_at:
  "flag_holder v us \<Longrightarrow> i < length us \<Longrightarrow> active (us ! i) \<Longrightarrow> v \<le> 3 \<and> v \<noteq> 0 \<and> (waiting (us ! i) \<longleftrightarrow> v = 2)"
  by (auto simp: flag_holder_def)

lemma signal_inv:
  "may_signal w s \<Longrightarrow> pd_inv s \<Longrightarrow> pd_inv (signal w s)"
  using flag_holder_move [of "users s" "flag s" _ UWoken "flag s"]
  by (auto simp: pd_inv_def signal_def may_signal_def dest: flag_holder_at intro!: one_holder_move split: option.splits)

lemma user_goes_fields [simp]: "users (user_goes i u p s) = (users s)[i := u]" "pd (user_goes i u p s) = p"
  "closers (user_goes i u p s) = closers s" "signals (user_goes i u p s) = signals s" "wakeups (user_goes i u p s) = wakeups s"
  by (simp_all add: user_goes_def)

lemma pd_inv_move:
  assumes "pd_inv s" "i < length (users s)" "active (users s ! i)" "active u"
    and "wWaitFlag p \<noteq> 0" "wWaitFlag p \<le> 3" "waiting u \<longleftrightarrow> wWaitFlag p = 2" "flag s = 3 \<Longrightarrow> wWaitFlag p = 3"
  shows "pd_inv (user_goes i u p s)"
  using assms one_holder_move [of "users s" i u] flag_holder_move [of "users s" "flag s" i u "wWaitFlag p"]
  by (simp add: pd_inv_def)

lemma pd_inv_free:
  assumes "pd_inv s" "i < length (users s)" "active (users s ! i)" "\<not> active u"
    and "wWaitFlag p = 0 \<or> wWaitFlag p = 3" "flag s = 3 \<Longrightarrow> wWaitFlag p = 3"
  shows "pd_inv (user_goes i u p s)"
  using assms one_holder_move [of "users s" i u] flag_holder_free [of "users s" "flag s" i u "wWaitFlag p"]
  by (simp add: pd_inv_def)

lemma pd_inv_at:
  "pd_inv s \<Longrightarrow> i < length (users s) \<Longrightarrow> active (users s ! i) \<Longrightarrow>
     (if waiting (users s ! i) then flag s = 2 else flag s = 1 \<or> flag s = 3)"
  using flag_holder_at [of "flag s" "users s" i] by (auto simp: pd_inv_def)

lemma pd_step_inv: "pd_step s t \<Longrightarrow> pd_inv s \<Longrightarrow> pd_inv t"
proof (induction rule: pd_step.induct)
  case (user_lock i s ok p)
  then show ?case
    using flag_holder_take [of "users s" i ULocked]
    by (cases "flag s = 0")
       (auto simp: pd_inv_def pd_ops intro: one_holder_take one_holder_move flag_holder_end)
next
  case (user_wait i s ok p)
  then show ?case
    using pd_inv_at [of s i] by (intro pd_inv_move) (auto simp: pd_ops)
next
  case (user_enqueue i s)
  then show ?case
    using pd_inv_at [of s i] by (intro pd_inv_move) auto
next
  case (user_wake i s ok p)
  then show ?case
    using pd_inv_at [of s i] by (intro pd_inv_move) (auto simp: pd_ops)
next
  case (user_done i s)
  then show ?case
    using pd_inv_at [of s i] by (intro pd_inv_move) auto
next
  case (user_unlock i s ok p)
  then show ?case
    using pd_inv_at [of s i] by (intro pd_inv_free) (auto simp: pd_ops)
next
  case (close_start j s)
  then show ?case by (auto simp: pd_inv_def dest!: set_update_subset_insert [THEN subsetD])
next
  case (close_end j s v)
  then have "v = 3" "flag s \<noteq> 2"
    by (auto simp: close_pass_def cas_def split: if_splits)
  then show ?case
    using close_end by (auto simp: pd_inv_def intro: flag_holder_close)
qed (auto intro: signal_inv)

interpretation pd: transition_invariant pd_step pd_inv
  by unfold_locales (rule pd_step_inv)

lemma pd_inv_start: "pd_inv (pd_start n m)"
  by (auto simp: pd_inv_def pd_start_def one_holder_def flag_holder_def)

section \<open>Properties of the flag\<close>

text \<open>
  C18. Whatever the order of the goroutines, at most one user is between \<open>writeLock\<close> and
  \<open>writeUnlock\<close>, it waits exactly when the flag is 2, and once a \<open>Close\<close> has returned the flag
  is 3, nobody waits and every later \<open>writeLock\<close> fails.
\<close>

theorem pd_exclusive:
  assumes "reaches pd_step (pd_start n m) s"
  shows "one_holder (users s)
    \<and> (\<forall>u \<in> set (users s). active u \<longrightarrow> (waiting u \<longleftrightarrow> flag s = 2))
    \<and> (CDone \<in> set (closers s) \<longrightarrow>
         flag s = 3 \<and> fst (writeLock (pd s)) = False \<and> (\<forall>u \<in> set (users s). \<not> waiting u))"
proof -
  have inv: "pd_inv s" using pd.inv_reaches [OF assms pd_inv_start] .
  have w: "active u \<longrightarrow> (waiting u \<longleftrightarrow> flag s = 2)" if "u \<in> set (users s)" for u
    using inv that by (auto simp: pd_inv_def in_set_conv_nth dest: flag_holder_at)
  moreover have "waiting u \<Longrightarrow> active u" for u by (auto simp: waiting_def)
  ultimately have "\<forall>u \<in> set (users s). \<not> waiting u" if "flag s = 3" using that by force
  then show ?thesis
    using inv w by (auto simp: pd_inv_def pd_ops)
qed



text \<open>
  A wake-up can be lost: when the socket becomes writable after the first swap of \<open>WaitWrite\<close>
  and before the wait, the one signal of that event wakes nobody, and the goroutine waits with
  no further signal on its way.
\<close>

theorem wakeup_lost:
  "\<exists>s. reaches pd_step (pd_start 1 0) s \<and> users s = [UWaiting] \<and> flag s = 2 \<and> signals s = 1 \<and> wakeups s = 0"
proof -
  let ?s0 = "pd_start 1 0"
  let ?s1 = "user_goes 0 ULocked (snd (writeLock (pd ?s0))) ?s0"
  let ?s2 = "user_goes 0 UEntering (snd (WaitWrite_enter (pd ?s1))) ?s1"
  let ?s3 = "signal None ?s2"
  let ?s4 = "user_goes 0 UWaiting (pd ?s3) ?s3"
  have s1: "pd_step ?s0 ?s1"
    using user_lock [of 0 ?s0 True] by (simp add: pd_start_def pd_ops)
  have s2: "pd_step ?s1 ?s2"
    using user_wait [of 0 ?s1 True] by (simp add: pd_start_def pd_ops)
  have s3: "pd_step ?s2 ?s3"
    by (rule event_signal) (simp add: may_signal_def pd_start_def)
  have s4: "pd_step ?s3 ?s4"
    by (rule user_enqueue) (simp_all add: signal_def pd_start_def)
  have "reaches pd_step ?s0 ?s2" using s1 s2 by (blast intro: reaches_step reaches_one)
  then have "reaches pd_step ?s0 ?s4"
    by (rule reaches_step [of pd_step, OF reaches_step [of pd_step, OF _ s3] s4])
  then show ?thesis
    by (intro exI [of _ ?s4]) (simp add: signal_def pd_start_def pd_ops)
qed

theorem pd_exclusive_witness:
  "\<exists>s. reaches pd_step (pd_start 2 1) s \<and> users s = [ULocked, UEnd] \<and> one_holder (users s)"
proof -
  let ?s1 = "user_goes 0 ULocked (snd (writeLock (pd (pd_start 2 1)))) (pd_start 2 1)"
  let ?s2 = "user_goes 1 UEnd (pd ?s1) ?s1"
  have s1: "pd_step (pd_start 2 1) ?s1"
    using user_lock [of 0 "pd_start 2 1" True] by (simp add: pd_start_def pd_ops)
  have s2: "pd_step ?s1 ?s2"
    using user_lock [of 1 ?s1 False] by (simp add: pd_start_def pd_ops numeral_2_eq_2)
  have r: "reaches pd_step (pd_start 2 1) ?s2" using s1 s2 by (blast intro: reaches_step reaches_one)
  moreover have "users ?s2 = [ULocked, UEnd]" by (simp add: pd_start_def numeral_2_eq_2)
  ultimately show ?thesis using pd_exclusive [OF r] by blast
qed


section \<open>Transfer\<close>

definition sound_direction :: "direction \<Rightarrow> src_event list \<Rightarrow> bool" where
  "sound_direction d evs \<longleftrightarrow> env_ok (denv d) \<and> sound_src evs \<and> dsrc d = evs @ [SrcEOF] \<and> ready_dst (ddst d)
     \<and> length (src_bytes evs) \<le> length (ddst d) \<and> length (src_bytes evs) \<le> 2 ^ 62"

definition conn_ok :: "conn_env \<Rightarrow> nat \<Rightarrow> bool" where
  "conn_ok c fd \<longleftrightarrow> file_fd c = Some fd \<and> nonblock_ok c \<and> epolladd_ok c"

lemma addConn_ok:
  "conn_ok c fd \<Longrightarrow> addConn c px = (Some fd, (addFD fd newPD px)\<lparr>epollset := insert fd (epollset px)\<rparr>)"
  by (simp add: conn_ok_def addConn_def Let_def addFD_def)

lemma delConn_fields [simp]:
  "pconns (delConn fd px) = (pconns px)(fd := None)" "epollset (delConn fd px) = epollset px - {fd}"
  "closedfds (delConn fd px) = closedfds px @ [fd]"
  by (auto simp: delConn_def delFD_def closeFD_def split: option.splits)

lemma splice_direction:
  assumes "sound_direction d evs"
  shows "\<exists>n s. splice (denv d) max_i64 (dsrc d) (ddst d) = Some ((n, Some UnexpectedEOF, True), s) \<and> delivered s = src_bytes evs"
proof -
  have len: "length (src_bytes evs) \<le> 2 ^ 62" using assms by (simp add: sound_direction_def)
  then have "int (length (src_bytes evs)) \<le> 2 ^ 62" by (simp add: nat_le_iff [symmetric])
  then have "\<not> max_i64 \<le> int (length (src_bytes evs))" "length (src_bytes evs) \<le> nat max_i64" by simp_all
  then show ?thesis
    using splice_streams [of "denv d" evs "ddst d" max_i64] assms by (auto simp: sound_direction_def)
qed

text \<open>
  \<open>Transfer\<close> between two connections whose peers send and then close delivers all bytes
  both ways, takes both descriptors out of the table and the epoll set, and still reports an
  unexpected end: the limit \<open>1<<63-1\<close> is positive, so the end of a stream always comes too
  early.  Each descriptor number is passed to \<open>close\<close> twice.
\<close>

theorem Transfer_delivers:
  assumes "conn_ok c1 fd1" "conn_ok c2 fd2" "sound_direction d12 evs1" "sound_direction d21 evs2"
  shows "\<exists>px'. Transfer c1 c2 d21 d12 px = Some (Transferred (Some UnexpectedEOF) (src_bytes evs1) (src_bytes evs2), px')
     \<and> pconns px' = (pconns px)(fd1 := None, fd2 := None) \<and> epollset px' = epollset px - {fd1, fd2}
     \<and> closedfds px' = closedfds px @ [fd1, fd2, fd1, fd2]"
proof -
  obtain n12 s12 n21 s21 where s:
    "splice (denv d12) max_i64 (dsrc d12) (ddst d12) = Some ((n12, Some UnexpectedEOF, True), s12)" "delivered s12 = src_bytes evs1"
    "splice (denv d21) max_i64 (dsrc d21) (ddst d21) = Some ((n21, Some UnexpectedEOF, True), s21)" "delivered s21 = src_bytes evs2"
    using splice_direction assms(3,4) by metis
  then show ?thesis
    using assms(1,2) by (auto simp: Transfer_def addConn_ok addFD_def)
qed

definition plain_conn :: "nat \<Rightarrow> conn_env" where
  "plain_conn fd = \<lparr>file_fd = Some fd, nonblock_ok = True, epolladd_ok = True\<rparr>"

definition plain_direction :: "src_event list \<Rightarrow> dst_event list \<Rightarrow> direction" where
  "plain_direction ss ds = \<lparr>denv = plain_env, dsrc = ss, ddst = ds\<rparr>"

theorem Transfer_delivers_witness:
  "\<exists>px'. Transfer (plain_conn 7) (plain_conn 9) (plain_direction [SrcData ''x'', SrcEOF] [DstRoom 5 True])
       (plain_direction [SrcData ''ab'', SrcEOF] [DstRoom 1 True, DstRoom 5 True]) (the (newProxy True))
     = Some (Transferred (Some UnexpectedEOF) ''ab'' ''x'', px') \<and> closedfds px' = [7, 9, 7, 9] \<and> pconns px' = Map.empty"
  using Transfer_delivers [of "plain_conn 7" 7 "plain_conn 9" 9
      "plain_direction [SrcData ''ab'', SrcEOF] [DstRoom 1 True, DstRoom 5 True]" "[SrcData ''ab'']"
      "plain_direction [SrcData ''x'', SrcEOF] [DstRoom 5 True]" "[SrcData ''x'']" "the (newProxy True)"]
  by (auto simp: conn_ok_def plain_conn_def sound_direction_def plain_direction_def newProxy_def)

lemma addConn_fails:
  assumes "addConn c px = (None, px')"
  shows "px' = px \<or> (\<exists>fd. file_fd c = Some fd \<and> px' = px\<lparr>pconns := (pconns px)(fd := None)\<rparr>)"
proof (cases "file_fd c")
  case None
  then show ?thesis using assms by (simp add: addConn_def)
next
  case (Some fd)
  then show ?thesis
    using assms by (cases "nonblock_ok c"; cases "epolladd_ok c") (simp_all add: addConn_def addFD_def delFD_def Let_def)
qed

text \<open>
  When the second connection cannot be added, \<open>Transfer\<close> returns the error and leaves the
  first descriptor behind: it stays in the table and the epoll set, and nothing closes it.
\<close>

theorem Transfer_leaks_first:
  assumes "conn_ok c1 fd1" "fst (addConn c2 (snd (addConn c1 px))) = None" "file_fd c2 \<noteq> Some fd1"
  shows "\<exists>px'. Transfer c1 c2 d21 d12 px = Some (NotAdded, px') \<and> pconns px' fd1 = Some newPD
     \<and> fd1 \<in> epollset px' \<and> closedfds px' = closedfds px"
proof -
  let ?px1 = "(addFD fd1 newPD px)\<lparr>epollset := insert fd1 (epollset px)\<rparr>"
  have a: "addConn c1 px = (Some fd1, ?px1)" using assms(1) by (rule addConn_ok)
  then obtain px2 where b: "addConn c2 ?px1 = (None, px2)"
    using assms(2) by (cases "addConn c2 ?px1") auto
  then have "pconns px2 fd1 = Some newPD \<and> fd1 \<in> epollset px2 \<and> closedfds px2 = closedfds px"
    using addConn_fails [OF b] assms(3) by (auto simp: addFD_def)
  then show ?thesis using a b by (simp add: Transfer_def)
qed

theorem Transfer_leaks_first_witness:
  "\<exists>px'. Transfer (plain_conn 7) ((plain_conn 9)\<lparr>epolladd_ok := False\<rparr>) (plain_direction [] []) (plain_direction [] []) (the (newProxy True))
     = Some (NotAdded, px') \<and> pconns px' 7 = Some newPD \<and> closedfds px' = []"
  using Transfer_leaks_first [of "plain_conn 7" 7 "(plain_conn 9)\<lparr>epolladd_ok := False\<rparr>" "the (newProxy True)"
      "plain_direction [] []" "plain_direction [] []"]
  by (auto simp: conn_ok_def plain_conn_def newProxy_def addConn_def addFD_def Let_def)

section \<open>The event loop\<close>

text \<open>
  An event for a number that is not in the table does nothing; one with an error or a hang-up
  closes the descriptor and signals nobody; the others signal the readers and writers they
  name.  No event removes an entry: only \<open>delConn\<close> does.
\<close>

lemma handle_event_cases:
  "handle_event (fd, evs) px =
     (if pconns px fd = None then ([], px)
      else if evs AND (EPOLLERR OR EPOLLHUP OR EPOLLRDHUP) \<noteq> 0
      then ([CloseNow fd], closeFD fd (px\<lparr>pconns := (pconns px)(fd \<mapsto> closePD (the (pconns px fd)))\<rparr>))
      else (map snd (filter fst [(evs AND EPOLLIN \<noteq> 0, SignalRead fd), (evs AND EPOLLOUT \<noteq> 0, SignalWrite fd)]), px))"
  by (auto simp: handle_event_def getFD_def split: option.splits)

lemma eventLoop_dom: "dom (pconns (snd (eventLoop evs px))) = dom (pconns px)"
proof (induction evs arbitrary: px)
  case (Cons ev evs)
  have "dom (pconns (snd (handle_event ev px))) = dom (pconns px)"
    by (cases ev) (auto simp: handle_event_cases closeFD_def)
  then show ?case using Cons.IH [of "snd (handle_event ev px)"] by (simp add: split_def Let_def)
qed simp

end
