(* ===== verification/Event_Proxy.thy ===== *)
theory Event_Proxy
  imports Go_Prelude
begin

text \<open>
  The event-driven proxy of \<open>src/netsplice-echo-proxy/dada-funny/proxy-main/proxy_linux.go\<close>: two
  connections are linked through their field \<open>other\<close>, each has a pipe for the bytes read from
  it, and one event loop moves bytes into and out of the pipes.

  Connections are objects of a heap, known by a number, and the table maps descriptors to
  them, because an object stays reachable through \<open>other\<close> after it has left the table.  Each call
  of \<open>rawsplice\<close> takes its result from a script; a script that is used up answers \<open>EAGAIN\<close>.
  \<open>None\<close> is a panic: the dereference of an \<open>other\<close> that is nil.
\<close>

section \<open>proxyConn\<close>

text \<open>
  \<open>cpipe\<close> is what the pipe holds, \<open>creceived\<close> what was read from the descriptor and \<open>cdelivered\<close>
  what was written to it.
\<close>

record proxyConn =
  cfd :: nat
  rPipe :: nat
  wPipe :: nat
  inBuf :: int
  other :: "nat option"
  canRead :: bool
  canWrite :: bool
  cpipe :: bytes
  creceived :: bytes
  cdelivered :: bytes

abbreviation pipe_max :: int where "pipe_max \<equiv> 65535"

datatype in_answer = InData bytes | InEOF | InAgain | InErr
datatype out_answer = OutMoved nat | OutAgain | OutErr

section \<open>MoveIn and MoveOut\<close>

fun moveIn_loop :: "in_answer list \<Rightarrow> proxyConn \<Rightarrow> bool \<times> proxyConn" where
  "moveIn_loop [] p = (True, p)"
| "moveIn_loop (a # as) p =
     (if inBuf p < pipe_max then
        (case a of
           InEOF \<Rightarrow> (False, p)
         | InAgain \<Rightarrow> (True, p)
         | InErr \<Rightarrow> (False, p)
         | InData d \<Rightarrow>
             (let n = min (nat (pipe_max - inBuf p)) (length d)
              in if n = 0 then (False, p)
                 else moveIn_loop as
                   (p\<lparr>inBuf := wrap64 (inBuf p + int n), cpipe := cpipe p @ take n d, creceived := creceived p @ take n d,
                      canRead := False\<rparr>)))
      else (True, p))"

definition MoveIn :: "in_answer list \<Rightarrow> proxyConn \<Rightarrow> bool \<times> proxyConn" where
  "MoveIn as p = moveIn_loop as (p\<lparr>canRead := True\<rparr>)"

text \<open>The second connection is \<open>p.other\<close>.\<close>

fun moveOut_loop :: "out_answer list \<Rightarrow> proxyConn \<Rightarrow> proxyConn \<Rightarrow> bool \<times> proxyConn \<times> proxyConn" where
  "moveOut_loop [] p q = (True, p, q)"
| "moveOut_loop (a # as) p q =
     (if inBuf q > 0 then
        (case a of
           OutAgain \<Rightarrow> (True, p, q)
         | OutErr \<Rightarrow> (False, p, q)
         | OutMoved k \<Rightarrow>
             (let n = min k (min (nat (inBuf q)) (length (cpipe q)))
              in if n = 0 then (True, p, q)
                 else moveOut_loop as
                   (p\<lparr>cdelivered := cdelivered p @ take n (cpipe q), canWrite := False\<rparr>)
                   (q\<lparr>inBuf := wrap64 (inBuf q - int n), cpipe := drop n (cpipe q)\<rparr>)))
      else (True, p, q))"

definition MoveOut :: "out_answer list \<Rightarrow> proxyConn \<Rightarrow> proxyConn \<Rightarrow> bool \<times> proxyConn \<times> proxyConn" where
  "MoveOut as p q = moveOut_loop as (p\<lparr>canWrite := True\<rparr>) q"

section \<open>Proxy\<close>

record eproxy =
  heap :: "nat \<rightharpoonup> proxyConn"
  conns :: "nat \<rightharpoonup> nat"
  epoll :: "nat set"
  closed :: "nat list"
  next_obj :: nat

definition newProxy :: "bool \<Rightarrow> eproxy option" where
  "newProxy create_ok =
     (if create_ok then Some \<lparr>heap = Map.empty, conns = Map.empty, epoll = {}, closed = [], next_obj = 0\<rparr> else None)"

definition Dispose :: "proxyConn \<Rightarrow> eproxy \<Rightarrow> eproxy" where
  "Dispose p s = s\<lparr>closed := closed s @ [cfd p, rPipe p, wPipe p]\<rparr>"

definition Close :: "proxyConn \<Rightarrow> eproxy \<Rightarrow> eproxy" where
  "Close p s = Dispose p (s\<lparr>epoll := epoll s - {cfd p}\<rparr>)"

definition addConn :: "nat \<Rightarrow> eproxy \<Rightarrow> eproxy" where
  "addConn i s = (case heap s i of None \<Rightarrow> s | Some p \<Rightarrow> s\<lparr>conns := (conns s)(cfd p \<mapsto> i)\<rparr>)"

definition getConn :: "nat \<Rightarrow> eproxy \<Rightarrow> nat option" where
  "getConn fd s = conns s fd"

definition delConn :: "proxyConn \<Rightarrow> eproxy \<Rightarrow> eproxy" where
  "delConn p s =
     (case conns s (cfd p) of
        None \<Rightarrow> s
      | Some _ \<Rightarrow> (Close p s)\<lparr>conns := (conns s)(cfd p := None)\<rparr>)"

text \<open>What the system answers while a connection is set up.\<close>

record new_env =
  file_fd :: "nat option"
  pipe_fds :: "(nat \<times> nat) option"
  nonblock_ok :: bool
  epolladd_ok :: bool

definition newConn :: "new_env \<Rightarrow> eproxy \<Rightarrow> nat option \<times> eproxy" where
  "newConn env s =
     (case file_fd env of
        None \<Rightarrow> (None, s)
      | Some f \<Rightarrow>
          (case pipe_fds env of
             None \<Rightarrow> (None, s)
           | Some (r, w) \<Rightarrow>
               (let pc = \<lparr>cfd = f, rPipe = r, wPipe = w, inBuf = 0, other = None, canRead = False, canWrite = False,
                          cpipe = [], creceived = [], cdelivered = []\<rparr>;
                    i = next_obj s
                in if \<not> nonblock_ok env then (None, s)
                   else if \<not> epolladd_ok env then (None, Dispose pc s)
                   else (Some i, s\<lparr>heap := (heap s)(i \<mapsto> pc), conns := (conns s)(f \<mapsto> i),
                                   epoll := insert f (epoll s), next_obj := i + 1\<rparr>))))"

definition link_conn :: "nat \<Rightarrow> nat \<Rightarrow> eproxy \<Rightarrow> eproxy" where
  "link_conn i j s =
     s\<lparr>heap := (heap s)(i := map_option (\<lambda>p. p\<lparr>other := Some j\<rparr>) (heap s i),
                        j := map_option (\<lambda>p. p\<lparr>other := Some i\<rparr>) (heap s j))\<rparr>"

definition Transfer :: "new_env \<Rightarrow> new_env \<Rightarrow> eproxy \<Rightarrow> bool \<times> eproxy" where
  "Transfer c1 c2 s =
     (case newConn c1 s of
        (None, s1) \<Rightarrow> (False, s1)
      | (Some i, s1) \<Rightarrow>
          (case newConn c2 s1 of
             (None, s2) \<Rightarrow> (False, s2)
           | (Some j, s2) \<Rightarrow> (True, link_conn i j s2)))"

section \<open>eventLoop\<close>

text \<open>The two calls on objects of the heap; \<open>None\<close> when an object is nil.\<close>

definition do_MoveIn :: "in_answer list \<Rightarrow> nat \<Rightarrow> eproxy \<Rightarrow> (bool \<times> eproxy) option" where
  "do_MoveIn as i s =
     (case heap s i of
        None \<Rightarrow> None
      | Some p \<Rightarrow> (let (ok, p') = MoveIn as p in Some (ok, s\<lparr>heap := (heap s)(i \<mapsto> p')\<rparr>)))"

definition do_MoveOut :: "out_answer list \<Rightarrow> nat \<Rightarrow> eproxy \<Rightarrow> (bool \<times> eproxy) option" where
  "do_MoveOut as i s =
     (case heap s i of
        None \<Rightarrow> None
      | Some p \<Rightarrow>
          (case other p of
             None \<Rightarrow> None
           | Some j \<Rightarrow>
               (case heap s j of
                  None \<Rightarrow> None
                | Some q \<Rightarrow>
                    (let (ok, p', q') = MoveOut as p q in Some (ok, s\<lparr>heap := (heap s)(i \<mapsto> p', j \<mapsto> q')\<rparr>)))))"

definition do_delConn :: "nat \<Rightarrow> eproxy \<Rightarrow> eproxy option" where
  "do_delConn i s = map_option (\<lambda>p. delConn p s) (heap s i)"

definition other_of :: "nat \<Rightarrow> eproxy \<Rightarrow> (nat \<times> proxyConn) option" where
  "other_of i s =
     (case heap s i of
        None \<Rightarrow> None
      | Some p \<Rightarrow> (case other p of None \<Rightarrow> None | Some j \<Rightarrow> map_option (Pair j) (heap s j)))"

text \<open>
  The two halves of the loop body: the flag is \<open>False\<close> where the code says \<open>continue\<close>.
\<close>

definition readable :: "in_answer list \<Rightarrow> out_answer list \<Rightarrow> nat \<Rightarrow> eproxy \<Rightarrow> (bool \<times> eproxy) option" where
  "readable ins outs i s =
     (case do_MoveIn ins i s of
        None \<Rightarrow> None
      | Some (False, s1) \<Rightarrow> map_option (Pair False) (do_delConn i s1)
      | Some (True, s1) \<Rightarrow>
          (case other_of i s1 of
             None \<Rightarrow> None
           | Some (j, q) \<Rightarrow>
               if canWrite q then
                 (case do_MoveOut outs j s1 of
                    None \<Rightarrow> None
                  | Some (False, s2) \<Rightarrow> map_option (Pair False) (do_delConn j s2)
                  | Some (True, s2) \<Rightarrow> Some (True, s2))
               else Some (True, s1)))"

definition writable :: "out_answer list \<Rightarrow> in_answer list \<Rightarrow> nat \<Rightarrow> eproxy \<Rightarrow> (bool \<times> eproxy) option" where
  "writable outs ins i s =
     (case do_MoveOut outs i s of
        None \<Rightarrow> None
      | Some (False, s1) \<Rightarrow> map_option (Pair False) (do_delConn i s1)
      | Some (True, s1) \<Rightarrow>
          (case other_of i s1 of
             None \<Rightarrow> None
           | Some (j, q) \<Rightarrow>
               if canRead q then
                 (case do_MoveIn ins j s1 of
                    None \<Rightarrow> None
                  | Some (False, s2) \<Rightarrow> map_option (Pair False) (do_delConn j s2)
                  | Some (True, s2) \<Rightarrow> Some (True, s2))
               else Some (True, s1)))"

unbundle bit_operations_syntax

abbreviation EPOLLIN :: "32 word" where "EPOLLIN \<equiv> 1"
abbreviation EPOLLOUT :: "32 word" where "EPOLLOUT \<equiv> 4"
abbreviation EPOLLERR :: "32 word" where "EPOLLERR \<equiv> 8"
abbreviation EPOLLHUP :: "32 word" where "EPOLLHUP \<equiv> 16"
abbreviation EPOLLRDHUP :: "32 word" where "EPOLLRDHUP \<equiv> 0x2000"

text \<open>One event, with the answers to the splice calls that handling it makes.\<close>

record epoll_event =
  ev_fd :: nat
  ev_bits :: "32 word"
  ins :: "in_answer list"
  outs_other :: "out_answer list"
  outs :: "out_answer list"
  ins_other :: "in_answer list"

definition handle_event :: "epoll_event \<Rightarrow> eproxy \<Rightarrow> eproxy option" where
  "handle_event e s =
     (case getConn (ev_fd e) s of
        None \<Rightarrow> Some s
      | Some i \<Rightarrow>
          if ev_bits e AND (EPOLLERR OR EPOLLHUP OR EPOLLRDHUP) \<noteq> 0 then do_delConn i s
          else
            (case (if ev_bits e AND EPOLLIN \<noteq> 0 then readable (ins e) (outs_other e) i s else Some (True, s)) of
               None \<Rightarrow> None
             | Some (False, s1) \<Rightarrow> Some s1
             | Some (True, s1) \<Rightarrow>
                 if ev_bits e AND EPOLLOUT \<noteq> 0 then map_option snd (writable (outs e) (ins_other e) i s1)
                 else Some s1))"

fun eventLoop :: "epoll_event list \<Rightarrow> eproxy \<Rightarrow> eproxy option" where
  "eventLoop [] s = Some s"
| "eventLoop (e # es) s = (case handle_event e s of None \<Rightarrow> None | Some s1 \<Rightarrow> eventLoop es s1)"

end
