(* ===== verification/Event_Proxy_Props.thy ===== *)
theory Event_Proxy_Props
  imports Event_Proxy
begin

text \<open>
  Properties of the event-driven proxy: no byte is lost, repeated or reordered between the
  two connections of a pair, the pipes stay within their bound, pairs that were linked never
  make the loop panic; a pair that was only half set up does, and bytes can be left in the pipe
  while the peer could take them.
\<close>

section \<open>The invariant\<close>

definition buf_ok :: "proxyConn \<Rightarrow> bool" where
  "buf_ok p \<longleftrightarrow> inBuf p = int (length (cpipe p)) \<and> length (cpipe p) \<le> 65535"

definition stream_ok :: "(nat \<rightharpoonup> proxyConn) \<Rightarrow> nat \<Rightarrow> proxyConn \<Rightarrow> bool" where
  "stream_ok h i p \<longleftrightarrow>
     (case other p of
        None \<Rightarrow> creceived p = cpipe p \<and> cdelivered p = []
      | Some j \<Rightarrow> j \<noteq> i \<and> (\<exists>q. h j = Some q \<and> other q = Some i \<and> creceived p = cdelivered q @ cpipe p))"

definition ep_ok :: "eproxy \<Rightarrow> bool" where
  "ep_ok s \<longleftrightarrow> (\<forall>i p. heap s i = Some p \<longrightarrow> buf_ok p \<and> stream_ok (heap s) i p \<and> i < next_obj s)"

definition ep_linked :: "eproxy \<Rightarrow> bool" where
  "ep_linked s \<longleftrightarrow> (\<forall>i p. heap s i = Some p \<longrightarrow> other p \<noteq> None) \<and> ran (conns s) \<subseteq> dom (heap s)"

lemma ep_okD: "ep_ok s \<Longrightarrow> heap s i = Some p \<Longrightarrow> buf_ok p \<and> stream_ok (heap s) i p \<and> i < next_obj s"
  by (simp add: ep_ok_def)

lemma ep_ok_other:
  assumes "ep_ok s" "heap s i = Some p" "other p = Some j"
  shows "j \<noteq> i \<and> (\<exists>q. heap s j = Some q \<and> other q = Some i \<and> buf_ok q)"
  using assms ep_okD [of s i p] by (auto simp: stream_ok_def dest: ep_okD)

section \<open>MoveIn and MoveOut\<close>

lemma moveIn_loop_data:
  "inBuf p < pipe_max \<Longrightarrow> n = min (nat (pipe_max - inBuf p)) (length d) \<Longrightarrow>
     moveIn_loop (InData d # as) p = (if n = 0 then (False, p) else moveIn_loop as
       (p\<lparr>inBuf := wrap64 (inBuf p + int n), cpipe := cpipe p @ take n d, creceived := creceived p @ take n d, canRead := False\<rparr>))"
  by (simp only: moveIn_loop.simps Let_def in_answer.case if_True)

lemma moveOut_loop_moved:
  "inBuf q > 0 \<Longrightarrow> n = min k (min (nat (inBuf q)) (length (cpipe q))) \<Longrightarrow>
     moveOut_loop (OutMoved k # as) p q = (if n = 0 then (True, p, q) else moveOut_loop as
       (p\<lparr>cdelivered := cdelivered p @ take n (cpipe q), canWrite := False\<rparr>)
       (q\<lparr>inBuf := wrap64 (inBuf q - int n), cpipe := drop n (cpipe q)\<rparr>))"
  by (simp only: moveOut_loop.simps Let_def out_answer.case if_True)

lemma moveIn_loop_stream:
  assumes "buf_ok p" "moveIn_loop as p = (ok, p')"
  shows "buf_ok p' \<and> (\<exists>d. cpipe p' = cpipe p @ d \<and> creceived p' = creceived p @ d)
     \<and> other p' = other p \<and> cdelivered p' = cdelivered p \<and> cfd p' = cfd p \<and> canWrite p' = canWrite p"
  using assms
proof (induction as arbitrary: p)
  case (Cons a as)
  show ?case
  proof (cases "inBuf p < pipe_max")
    case True
    show ?thesis
    proof (cases a)
      case (InData d)
      obtain n where n: "n = min (nat (pipe_max - inBuf p)) (length d)" by blast
      then have le: "int n \<le> pipe_max - inBuf p" "n \<le> length d" using True by simp_all
      let ?p = "p\<lparr>inBuf := wrap64 (inBuf p + int n), cpipe := cpipe p @ take n d, creceived := creceived p @ take n d, canRead := False\<rparr>"
      show ?thesis
      proof (cases "n = 0")
        case True
        then show ?thesis using Cons.prems InData moveIn_loop_data [OF \<open>inBuf p < pipe_max\<close> n] by auto
      next
        case False
        then have "moveIn_loop as ?p = (ok, p')"
          using Cons.prems(2) InData moveIn_loop_data [OF True n] by simp
        moreover have "buf_ok ?p" using le Cons.prems(1) by (auto simp: buf_ok_def)
        ultimately show ?thesis using Cons.IH [of ?p] by auto
      qed
    qed (use True Cons.prems in auto)
  qed (use Cons.prems in auto)
qed auto

lemma moveOut_loop_stream:
  assumes "buf_ok q" "moveOut_loop as p q = (ok, p', q')"
  shows "buf_ok q' \<and> (\<exists>d. cdelivered p' = cdelivered p @ d \<and> cpipe q = d @ cpipe q')
     \<and> other p' = other p \<and> cpipe p' = cpipe p \<and> creceived p' = creceived p \<and> inBuf p' = inBuf p \<and> cfd p' = cfd p
     \<and> other q' = other q \<and> creceived q' = creceived q \<and> cdelivered q' = cdelivered q \<and> cfd q' = cfd q"
  using assms
proof (induction as arbitrary: p q)
  case (Cons a as)
  show ?case
  proof (cases "inBuf q > 0")
    case True
    show ?thesis
    proof (cases a)
      case (OutMoved k)
      obtain n where n: "n = min k (min (nat (inBuf q)) (length (cpipe q)))" by blast
      then have le: "n \<le> length (cpipe q)" by simp
      let ?p = "p\<lparr>cdelivered := cdelivered p @ take n (cpipe q), canWrite := False\<rparr>"
      let ?q = "q\<lparr>inBuf := wrap64 (inBuf q - int n), cpipe := drop n (cpipe q)\<rparr>"
      show ?thesis
      proof (cases "n = 0")
        case True
        then show ?thesis using Cons.prems OutMoved moveOut_loop_moved [OF \<open>inBuf q > 0\<close> n] by auto
      next
        case False
        then have "moveOut_loop as ?p ?q = (ok, p', q')"
          using Cons.prems(2) OutMoved moveOut_loop_moved [OF True n] by simp
        moreover have "buf_ok ?q" using le Cons.prems(1) by (auto simp: buf_ok_def of_nat_diff)
        ultimately obtain d where "cdelivered p' = cdelivered ?p @ d" "drop n (cpipe q) = d @ cpipe q'"
            and rest: "buf_ok q' \<and> other p' = other p \<and> cpipe p' = cpipe p \<and> creceived p' = creceived p \<and> inBuf p' = inBuf p
              \<and> cfd p' = cfd p \<and> other q' = other q \<and> creceived q' = creceived q \<and> cdelivered q' = cdelivered q \<and> cfd q' = cfd q"
          using Cons.IH [of ?q ?p] by auto
        moreover from this have "cpipe q = (take n (cpipe q) @ d) @ cpipe q'"
          by (metis append_assoc append_take_drop_id)
        ultimately show ?thesis using rest by (intro conjI exI [of _ "take n (cpipe q) @ d"]) simp_all
      qed
    qed (use True Cons.prems in auto)
  qed (use Cons.prems in auto)
qed auto

lemma buf_ok_flags [simp]: "buf_ok (p\<lparr>canRead := b\<rparr>) = buf_ok p" "buf_ok (p\<lparr>canWrite := b\<rparr>) = buf_ok p"
  by (simp_all add: buf_ok_def)

lemma MoveIn_stream:
  "buf_ok p \<Longrightarrow> MoveIn as p = (ok, p') \<Longrightarrow>
     buf_ok p' \<and> (\<exists>d. cpipe p' = cpipe p @ d \<and> creceived p' = creceived p @ d)
     \<and> other p' = other p \<and> cdelivered p' = cdelivered p \<and> cfd p' = cfd p \<and> canWrite p' = canWrite p"
  unfolding MoveIn_def by (drule moveIn_loop_stream [rotated]) simp_all

lemma MoveOut_stream:
  "buf_ok q \<Longrightarrow> MoveOut as p q = (ok, p', q') \<Longrightarrow>
     buf_ok q' \<and> (\<exists>d. cdelivered p' = cdelivered p @ d \<and> cpipe q = d @ cpipe q')
     \<and> other p' = other p \<and> cpipe p' = cpipe p \<and> creceived p' = creceived p \<and> inBuf p' = inBuf p \<and> cfd p' = cfd p
     \<and> other q' = other q \<and> creceived q' = creceived q \<and> cdelivered q' = cdelivered q \<and> cfd q' = cfd q"
  unfolding MoveOut_def by (drule moveOut_loop_stream [rotated]) simp_all

section \<open>The heap\<close>

text \<open>Two heaps with the same objects and the same links.\<close>

definition same_shape :: "eproxy \<Rightarrow> eproxy \<Rightarrow> bool" where
  "same_shape s t \<longleftrightarrow> conns t = conns s \<and> next_obj t = next_obj s \<and>
     (\<forall>i. map_option other (heap t i) = map_option other (heap s i))"

lemma same_shape_at:
  "same_shape s t \<Longrightarrow> heap t i = Some p \<Longrightarrow> \<exists>q. heap s i = Some q \<and> other q = other p"
  unfolding same_shape_def by (metis map_option_eq_Some)

lemma same_shape_sym: "same_shape s t \<Longrightarrow> same_shape t s"
  by (simp add: same_shape_def)

lemma same_shape_linked:
  assumes "same_shape s t" "ep_linked s"
  shows "ep_linked t"
proof -
  have "dom (heap s) \<subseteq> dom (heap t)"
    using same_shape_at [OF same_shape_sym [OF assms(1)]] by auto
  moreover have "conns t = conns s" using assms(1) by (simp add: same_shape_def)
  ultimately show ?thesis
    using assms(2) same_shape_at [OF assms(1)] by (fastforce simp: ep_linked_def)
qed

lemma do_MoveIn_ok:
  assumes "ep_ok s" "do_MoveIn as i s = Some (ok, t)"
  shows "ep_ok t \<and> same_shape s t"
proof -
  obtain p where p: "heap s i = Some p"
    using assms(2) by (auto simp: do_MoveIn_def split: option.splits)
  obtain p' where p': "MoveIn as p = (ok, p')" "t = s\<lparr>heap := (heap s)(i \<mapsto> p')\<rparr>"
    using assms(2) p by (auto simp: do_MoveIn_def Let_def split: prod.splits)
  have st: "buf_ok p'" "\<exists>d. cpipe p' = cpipe p @ d \<and> creceived p' = creceived p @ d" "other p' = other p"
      "cdelivered p' = cdelivered p"
    using MoveIn_stream [OF _ p'(1)] ep_okD [OF assms(1) p] by blast+
  have "buf_ok r \<and> stream_ok (heap t) k r \<and> k < next_obj t" if "heap t k = Some r" for k r
  proof (cases "k = i")
    case True
    then have "r = p'" using that p'(2) by simp
    then show ?thesis
      using True ep_okD [OF assms(1) p] st p'(2) by (auto simp: stream_ok_def split: option.splits)
  next
    case False
    then have "heap s k = Some r" using that p'(2) by simp
    then show ?thesis
      using False ep_okD [OF assms(1), of k r] st p p'(2) by (auto simp: stream_ok_def split: option.splits)
  qed
  then show ?thesis using p st(3) p'(2) by (auto simp: ep_ok_def same_shape_def)
qed

lemma do_MoveOut_ok:
  assumes "ep_ok s" "do_MoveOut as i s = Some (ok, t)"
  shows "ep_ok t \<and> same_shape s t"
proof -
  obtain p j q where p: "heap s i = Some p" "other p = Some j" "heap s j = Some q"
    using assms(2) by (auto simp: do_MoveOut_def split: option.splits)
  have q: "j \<noteq> i" "other q = Some i" "buf_ok q" using ep_ok_other [OF assms(1) p(1,2)] p(3) by auto
  obtain p' q' where m: "MoveOut as p q = (ok, p', q')" "t = s\<lparr>heap := (heap s)(i \<mapsto> p', j \<mapsto> q')\<rparr>"
    using assms(2) p by (auto simp: do_MoveOut_def Let_def split: prod.splits)
  note st = MoveOut_stream [OF q(3) m(1)]
  note ip = ep_okD [OF assms(1) p(1)] and iq = ep_okD [OF assms(1) p(3)]
  have "buf_ok r \<and> stream_ok (heap t) k r \<and> k < next_obj t" if r: "heap t k = Some r" for k r
  proof -
    consider "k = i" "r = p'" | "k = j" "r = q'" | "k \<noteq> i" "k \<noteq> j" "heap s k = Some r"
      using r m(2) q(1) by (auto split: if_splits)
    then show ?thesis
    proof cases
      case 1
      then show ?thesis using ip st p q m(2) by (auto simp: stream_ok_def buf_ok_def)
    next
      case 2
      then show ?thesis using iq st p q m(2) by (auto simp: stream_ok_def)
    next
      case 3
      have "other r \<noteq> Some i" "other r \<noteq> Some j"
        using ep_ok_other [OF assms(1) 3(3)] p q 3(1,2) by auto
      then show ?thesis
        using ep_okD [OF assms(1) 3(3)] 3 m(2) by (auto simp: stream_ok_def split: option.splits)
    qed
  qed
  then show ?thesis using p q st m(2) by (auto simp: ep_ok_def same_shape_def)
qed

lemma do_delConn_ok:
  assumes "do_delConn i s = Some t"
  shows "heap t = heap s \<and> next_obj t = next_obj s \<and> ran (conns t) \<subseteq> ran (conns s)"
  using assms by (auto simp: do_delConn_def delConn_def Close_def Dispose_def ran_def split: option.splits if_splits)

text \<open>Both together: what every part of the loop keeps.\<close>

definition keeps :: "eproxy \<Rightarrow> eproxy \<Rightarrow> bool" where
  "keeps s t \<longleftrightarrow> (ep_ok s \<longrightarrow> ep_ok t) \<and> (ep_ok s \<and> ep_linked s \<longrightarrow> ep_linked t) \<and> dom (heap s) \<subseteq> dom (heap t)"

lemma keeps_trans: "keeps s t \<Longrightarrow> keeps t u \<Longrightarrow> keeps s u"
  by (auto simp: keeps_def)

lemma same_shape_dom: "same_shape s t \<Longrightarrow> dom (heap t) = dom (heap s)"
  using same_shape_at [of s t] same_shape_at [of t s] same_shape_sym [of s t] by blast

lemma do_MoveIn_dom: "do_MoveIn as i s = Some (ok, t) \<Longrightarrow> dom (heap s) \<subseteq> dom (heap t)"
  by (auto simp: do_MoveIn_def Let_def split: option.splits prod.splits)

lemma do_MoveOut_dom: "do_MoveOut as i s = Some (ok, t) \<Longrightarrow> dom (heap s) \<subseteq> dom (heap t)"
  by (auto simp: do_MoveOut_def Let_def split: option.splits prod.splits)

lemma keeps_MoveIn: "do_MoveIn as i s = Some (ok, t) \<Longrightarrow> keeps s t"
  unfolding keeps_def using do_MoveIn_ok do_MoveIn_dom same_shape_linked by metis

lemma keeps_MoveOut: "do_MoveOut as i s = Some (ok, t) \<Longrightarrow> keeps s t"
  unfolding keeps_def using do_MoveOut_ok do_MoveOut_dom same_shape_linked by metis

lemma keeps_delConn: "do_delConn i s = Some t \<Longrightarrow> keeps s t"
  using do_delConn_ok [of i s t] by (auto simp: keeps_def ep_ok_def ep_linked_def)

lemmas keeps_rules = keeps_MoveIn keeps_MoveOut keeps_delConn

lemma readable_keeps: "readable as bs i s = Some (c, t) \<Longrightarrow> keeps s t"
  by (auto simp: readable_def split: option.splits prod.splits bool.splits if_splits
      dest!: keeps_rules intro: keeps_trans)

lemma writable_keeps: "writable as bs i s = Some (c, t) \<Longrightarrow> keeps s t"
  by (auto simp: writable_def split: option.splits prod.splits bool.splits if_splits
      dest!: keeps_rules intro: keeps_trans)

lemma keeps_refl: "keeps s s"
  by (simp add: keeps_def)

lemma handle_event_keeps: "handle_event e s = Some t \<Longrightarrow> keeps s t"
  by (auto simp: handle_event_def split: option.splits prod.splits bool.splits if_splits
      dest!: readable_keeps writable_keeps keeps_delConn intro: keeps_trans keeps_refl)

section \<open>Setting up a pair\<close>

definition fresh_conn :: "proxyConn \<Rightarrow> bool" where
  "fresh_conn p \<longleftrightarrow> inBuf p = 0 \<and> other p = None \<and> cpipe p = [] \<and> creceived p = [] \<and> cdelivered p = []"

lemma newConn_cases:
  assumes "newConn env s = (r, t)"
  shows "(r = None \<and> heap t = heap s \<and> conns t = conns s \<and> next_obj t = next_obj s)
     \<or> (\<exists>p. r = Some (next_obj s) \<and> fresh_conn p \<and> next_obj t = Suc (next_obj s)
            \<and> heap t = (heap s)(next_obj s \<mapsto> p) \<and> conns t = (conns s)(cfd p \<mapsto> next_obj s))"
proof (cases "\<exists>f r w. file_fd env = Some f \<and> pipe_fds env = Some (r, w)")
  case True
  then obtain f rp wp where [simp]: "file_fd env = Some f" "pipe_fds env = Some (rp, wp)" by blast
  show ?thesis
    using assms by (cases "nonblock_ok env"; cases "epolladd_ok env")
      (force simp: newConn_def Let_def Dispose_def fresh_conn_def)+
next
  case False
  then show ?thesis using assms by (auto simp: newConn_def split: option.splits)
qed

lemma ep_ok_fresh: "ep_ok s \<Longrightarrow> heap s (next_obj s) = None"
  using ep_okD [of s "next_obj s"] by (cases "heap s (next_obj s)") auto

lemma ep_ok_alloc:
  assumes "ep_ok s" "fresh_conn p" "heap t = (heap s)(next_obj s \<mapsto> p)" "next_obj t = Suc (next_obj s)"
  shows "ep_ok t"
  unfolding ep_ok_def
proof (intro allI impI)
  fix i q
  assume q: "heap t i = Some q"
  show "buf_ok q \<and> stream_ok (heap t) i q \<and> i < next_obj t"
  proof (cases "i = next_obj s")
    case True
    then show ?thesis using q assms by (auto simp: fresh_conn_def buf_ok_def stream_ok_def)
  next
    case False
    then have old: "heap s i = Some q" using q assms(3) by simp
    have "other q \<noteq> Some (next_obj s)"
      using ep_ok_other [OF assms(1) old] ep_ok_fresh [OF assms(1)] by auto
    then show ?thesis
      using ep_okD [OF assms(1) old] assms(3,4) by (auto simp: stream_ok_def split: option.splits)
  qed
qed

lemma newConn_ok: "ep_ok s \<Longrightarrow> newConn env s = (r, t) \<Longrightarrow> ep_ok t"
  using newConn_cases [of env s r t] ep_ok_alloc [of s _ t] by (auto simp: ep_ok_def)

lemma link_conn_ok:
  assumes "ep_ok s" "heap s i = Some p" "heap s j = Some q" "i \<noteq> j" "fresh_conn p" "fresh_conn q"
  shows "ep_ok (link_conn i j s)"
  unfolding ep_ok_def
proof (intro allI impI)
  fix k r
  assume r: "heap (link_conn i j s) k = Some r"
  show "buf_ok r \<and> stream_ok (heap (link_conn i j s)) k r \<and> k < next_obj (link_conn i j s)"
  proof (cases "k = i \<or> k = j")
    case True
    then show ?thesis
      using r assms ep_okD [OF assms(1,2)] ep_okD [OF assms(1,3)]
      by (auto simp: link_conn_def fresh_conn_def buf_ok_def stream_ok_def)
  next
    case False
    then have old: "heap s k = Some r" using r by (simp add: link_conn_def)
    have "other r \<noteq> Some i" "other r \<noteq> Some j"
      using ep_ok_other [OF assms(1) old] assms by (auto simp: fresh_conn_def)
    then show ?thesis
      using ep_okD [OF assms(1) old] by (auto simp: stream_ok_def link_conn_def split: option.splits)
  qed
qed

lemma Transfer_ok:
  assumes "ep_ok s"
  shows "ep_ok (snd (Transfer c1 c2 s))"
    and "fst (Transfer c1 c2 s) \<Longrightarrow> ep_linked s \<Longrightarrow> ep_linked (snd (Transfer c1 c2 s))"
proof -
  obtain r1 s1 r2 s2 where n: "newConn c1 s = (r1, s1)" "newConn c2 s1 = (r2, s2)" by fastforce
  have ok: "ep_ok s1" "ep_ok s2" using newConn_ok n assms by blast+
  have "ep_ok (snd (Transfer c1 c2 s)) \<and> (fst (Transfer c1 c2 s) \<longrightarrow> ep_linked s \<longrightarrow> ep_linked (snd (Transfer c1 c2 s)))"
  proof (cases "\<exists>i j. r1 = Some i \<and> r2 = Some j")
    case False
    then show ?thesis using n ok by (auto simp: Transfer_def split: option.splits)
  next
    case True
    then obtain p q where pq: "r1 = Some (next_obj s)" "r2 = Some (Suc (next_obj s))" "fresh_conn p" "fresh_conn q"
        "heap s2 = (heap s)(next_obj s \<mapsto> p, Suc (next_obj s) \<mapsto> q)"
        "conns s2 = (conns s)(cfd p \<mapsto> next_obj s, cfd q \<mapsto> Suc (next_obj s))"
      using newConn_cases [OF n(1)] newConn_cases [OF n(2)] by auto
    let ?t = "link_conn (next_obj s) (Suc (next_obj s)) s2"
    have "Transfer c1 c2 s = (True, ?t)" using n pq by (simp add: Transfer_def)
    moreover have "ep_ok ?t" using ok(2) pq by (intro link_conn_ok [of s2 _ p _ q]) auto
    moreover have "ep_linked s \<Longrightarrow> ep_linked ?t"
      using pq by (auto simp: ep_linked_def link_conn_def ran_def)
    ultimately show ?thesis by simp
  qed
  then show "ep_ok (snd (Transfer c1 c2 s))"
    and "fst (Transfer c1 c2 s) \<Longrightarrow> ep_linked s \<Longrightarrow> ep_linked (snd (Transfer c1 c2 s))" by simp_all
qed

section \<open>Linked pairs do not panic\<close>

definition ep_good :: "eproxy \<Rightarrow> bool" where
  "ep_good s \<longleftrightarrow> ep_ok s \<and> ep_linked s"

lemma keeps_good: "keeps s t \<Longrightarrow> ep_good s \<Longrightarrow> ep_good t \<and> dom (heap s) \<subseteq> dom (heap t)"
  by (auto simp: keeps_def ep_good_def)

lemma other_of_total:
  "ep_good s \<Longrightarrow> i \<in> dom (heap s) \<Longrightarrow> \<exists>j q. other_of i s = Some (j, q) \<and> j \<in> dom (heap s)"
  using ep_ok_other [of s i] by (fastforce simp: ep_good_def ep_linked_def other_of_def)

lemma do_MoveIn_total: "i \<in> dom (heap s) \<Longrightarrow> \<exists>ok t. do_MoveIn as i s = Some (ok, t)"
  by (auto simp: do_MoveIn_def split: prod.splits)

lemma do_MoveOut_total: "ep_good s \<Longrightarrow> i \<in> dom (heap s) \<Longrightarrow> \<exists>ok t. do_MoveOut as i s = Some (ok, t)"
  using ep_ok_other [of s i] by (fastforce simp: ep_good_def ep_linked_def do_MoveOut_def split: prod.splits)

lemma do_delConn_total: "i \<in> dom (heap s) \<Longrightarrow> \<exists>t. do_delConn i s = Some t"
  by (auto simp: do_delConn_def)

lemma readable_total:
  assumes "ep_good s" "i \<in> dom (heap s)"
  shows "\<exists>c t. readable as bs i s = Some (c, t)"
proof -
  obtain ok s1 where s1: "do_MoveIn as i s = Some (ok, s1)" using do_MoveIn_total assms(2) by blast
  then have g: "ep_good s1" "i \<in> dom (heap s1)" using keeps_good keeps_MoveIn assms by blast+
  then obtain j q where j: "other_of i s1 = Some (j, q)" "j \<in> dom (heap s1)" using other_of_total by blast
  then obtain ok2 s2 where s2: "do_MoveOut bs j s1 = Some (ok2, s2)" using do_MoveOut_total g by blast
  then have "j \<in> dom (heap s2)" using keeps_good keeps_MoveOut g j by blast
  then obtain t1 t2 where "do_delConn i s1 = Some t1" "do_delConn j s2 = Some t2" using do_delConn_total g(2) by metis
  then show ?thesis using s1 j s2 by (cases ok; cases ok2; cases "canWrite q") (auto simp: readable_def)
qed

lemma writable_total:
  assumes "ep_good s" "i \<in> dom (heap s)"
  shows "\<exists>c t. writable as bs i s = Some (c, t)"
proof -
  obtain ok s1 where s1: "do_MoveOut as i s = Some (ok, s1)" using do_MoveOut_total assms by blast
  then have g: "ep_good s1" "i \<in> dom (heap s1)" using keeps_good keeps_MoveOut assms by blast+
  then obtain j q where j: "other_of i s1 = Some (j, q)" "j \<in> dom (heap s1)" using other_of_total by blast
  then obtain ok2 s2 where s2: "do_MoveIn bs j s1 = Some (ok2, s2)" using do_MoveIn_total by blast
  then have "j \<in> dom (heap s2)" using keeps_good keeps_MoveIn g j by blast
  then obtain t1 t2 where "do_delConn i s1 = Some t1" "do_delConn j s2 = Some t2" using do_delConn_total g(2) by metis
  then show ?thesis using s1 j s2 by (cases ok; cases ok2; cases "canRead q") (auto simp: writable_def)
qed

lemma handle_event_total:
  assumes "ep_good s"
  shows "\<exists>t. handle_event e s = Some t \<and> ep_good t"
proof -
  have "\<exists>t. handle_event e s = Some t"
  proof (cases "conns s (ev_fd e)")
    case None
    then show ?thesis by (simp add: handle_event_def getConn_def)
  next
    case (Some i)
    then have i: "i \<in> dom (heap s)" using assms by (auto simp: ep_good_def ep_linked_def ran_def)
    obtain t0 c s1 where t0: "do_delConn i s = Some t0" and s1: "readable (ins e) (outs_other e) i s = Some (c, s1)"
      using do_delConn_total readable_total [OF assms i] i by blast
    have "ep_good s1" "i \<in> dom (heap s1)" using keeps_good [OF readable_keeps [OF s1] assms] i by auto
    then obtain c2 t2 d u where "writable (outs e) (ins_other e) i s1 = Some (c2, t2)" "writable (outs e) (ins_other e) i s = Some (d, u)"
      using writable_total assms i by metis
    then show ?thesis using Some t0 s1 by (cases c) (simp_all add: handle_event_def getConn_def)
  qed
  then show ?thesis using keeps_good [OF handle_event_keeps assms] by blast
qed

section \<open>Runs of the proxy\<close>

text \<open>Calls of \<open>Transfer\<close> and events of the loop, in any order; the mutex keeps them apart.\<close>

datatype proxy_op = Link new_env new_env | Event epoll_event

fun run_op :: "eproxy option \<Rightarrow> proxy_op \<Rightarrow> eproxy option" where
  "run_op None op = None"
| "run_op (Some s) (Link c1 c2) = Some (snd (Transfer c1 c2 s))"
| "run_op (Some s) (Event e) = handle_event e s"


lemma newProxy_ok: "newProxy True = Some s \<Longrightarrow> ep_good s"
  by (auto simp: newProxy_def ep_good_def ep_ok_def ep_linked_def)


definition link_succeeds :: "proxy_op \<Rightarrow> bool" where
  "link_succeeds op = (case op of Link c1 c2 \<Rightarrow> (\<forall>c \<in> {c1, c2}. file_fd c \<noteq> None \<and> pipe_fds c \<noteq> None \<and> nonblock_ok c \<and> epolladd_ok c)
     | Event e \<Rightarrow> True)"

lemma newConn_succeeds:
  "file_fd c \<noteq> None \<Longrightarrow> pipe_fds c \<noteq> None \<Longrightarrow> nonblock_ok c \<Longrightarrow> epolladd_ok c \<Longrightarrow> \<exists>i t. newConn c s = (Some i, t)"
  by (auto simp: newConn_def Let_def)

lemma Transfer_succeeds: "link_succeeds (Link c1 c2) \<Longrightarrow> fst (Transfer c1 c2 s)"
proof -
  assume a: "link_succeeds (Link c1 c2)"
  then obtain i t where t: "newConn c1 s = (Some i, t)" using newConn_succeeds [of c1 s] by (auto simp: link_succeeds_def)
  obtain j u where "newConn c2 t = (Some j, u)" using a newConn_succeeds [of c2 t] by (auto simp: link_succeeds_def)
  then show ?thesis using t by (simp add: Transfer_def)
qed

text \<open>
  As long as every \<open>Transfer\<close> sets up both of its connections the event loop never panics,
  whatever events and answers come and whichever connections are closed on the way.
\<close>

theorem proxy_no_panic:
  assumes "\<forall>op \<in> set ops. link_succeeds op"
  shows "\<exists>s. foldl run_op (newProxy True) ops = Some s"
proof -
  have "\<exists>t. foldl run_op (Some s) ops = Some t" if "ep_good s" for s
    using assms that
  proof (induction ops arbitrary: s)
    case (Cons op ops)
    have "\<exists>t. run_op (Some s) op = Some t \<and> ep_good t"
    proof (cases op)
      case (Link c1 c2)
      then show ?thesis
        using Cons.prems Transfer_ok [of s c1 c2] Transfer_succeeds [of c1 c2 s] by (simp add: ep_good_def)
    next
      case (Event e)
      then show ?thesis using handle_event_total Cons.prems by simp
    qed
    then show ?case using Cons by auto
  qed simp
  then show ?thesis using newProxy_ok by (simp add: newProxy_def)
qed

section \<open>Concrete pairs\<close>

definition plain_new :: "nat \<Rightarrow> new_env" where
  "plain_new fd = \<lparr>file_fd = Some fd, pipe_fds = Some (fd + 100, fd + 101), nonblock_ok = True, epolladd_ok = True\<rparr>"

definition plain_event :: "nat \<Rightarrow> 32 word \<Rightarrow> in_answer list \<Rightarrow> out_answer list \<Rightarrow> epoll_event" where
  "plain_event fd b as bs = \<lparr>ev_fd = fd, ev_bits = b, ins = as, outs_other = bs, outs = [], ins_other = []\<rparr>"

definition new_pc :: "nat \<Rightarrow> nat option \<Rightarrow> proxyConn" where
  "new_pc fd oth = \<lparr>cfd = fd, rPipe = fd + 100, wPipe = fd + 101, inBuf = 0, other = oth, canRead = False, canWrite = False,
     cpipe = [], creceived = [], cdelivered = []\<rparr>"

definition a_pair :: eproxy where
  "a_pair = \<lparr>heap = [0 \<mapsto> new_pc 7 (Some 1), 1 \<mapsto> new_pc 9 (Some 0)], conns = [7 \<mapsto> 0, 9 \<mapsto> 1], epoll = {7, 9}, closed = [], next_obj = 2\<rparr>"

lemma Transfer_a_pair: "newProxy True = Some s \<Longrightarrow> Transfer (plain_new 7) (plain_new 9) s = (True, a_pair)"
  by (auto simp: newProxy_def Transfer_def newConn_def plain_new_def a_pair_def link_conn_def new_pc_def fun_eq_iff)


lemma MoveIn_one:
  assumes "buf_ok p" "d \<noteq> []" "length (cpipe p) + length d \<le> 65535"
  shows "MoveIn [InData d] p = (True, p\<lparr>inBuf := int (length (cpipe p @ d)), cpipe := cpipe p @ d, creceived := creceived p @ d, canRead := False\<rparr>)"
proof -
  have "length d = min (nat (pipe_max - inBuf p)) (length d)" "inBuf p < pipe_max"
    using assms by (cases d; auto simp: buf_ok_def)+
  then show ?thesis
    using assms moveIn_loop_data [of "p\<lparr>canRead := True\<rparr>" "length d" d "[]"] by (simp add: MoveIn_def buf_ok_def)
qed

lemma MoveOut_all:
  assumes "buf_ok q" "cpipe q \<noteq> []" "n = length (cpipe q)"
  shows "MoveOut [OutMoved n] p q = (True, p\<lparr>cdelivered := cdelivered p @ cpipe q, canWrite := False\<rparr>, q\<lparr>inBuf := 0, cpipe := []\<rparr>)"
proof -
  have "length (cpipe q) = min n (min (nat (inBuf q)) (length (cpipe q)))" "inBuf q > 0"
    using assms by (auto simp: buf_ok_def)
  then show ?thesis
    using assms moveOut_loop_moved [of q "length (cpipe q)" n "[]" "p\<lparr>canWrite := True\<rparr>"] by (simp add: MoveOut_def buf_ok_def)
qed

text \<open>
  Forwarding stalls: after the first bytes have gone through, \<open>canWrite\<close> is false although the
  peer took everything, so the next bytes stay in the pipe even though the peer could take them,
  and they stay there until a new \<open>EPOLLOUT\<close> edge comes.
\<close>

theorem forwarding_stalls:
  assumes "d1 \<noteq> []" "d2 \<noteq> []" "length d1 \<le> 65535" "length d2 \<le> 65535"
  shows "\<exists>s p q. eventLoop
       [plain_event 9 EPOLLOUT [] [],
        plain_event 7 EPOLLIN [InData d1] [OutMoved (length d1)],
        plain_event 7 EPOLLIN [InData d2] [OutMoved (length d2)]] a_pair = Some s
     \<and> heap s 0 = Some p \<and> heap s 1 = Some q \<and> creceived p = d1 @ d2 \<and> cdelivered q = d1 \<and> cpipe p = d2 \<and> \<not> canWrite q"
proof -
  let ?q = "\<lambda>d b. (new_pc 9 (Some 0))\<lparr>canWrite := b, cdelivered := d\<rparr>"
  let ?p = "\<lambda>d r. (new_pc 7 (Some 1))\<lparr>cpipe := d, inBuf := int (length d), creceived := r\<rparr>"
  let ?s = "\<lambda>p q. a_pair\<lparr>heap := [0 \<mapsto> p, 1 \<mapsto> q]\<rparr>"
  have s1: "handle_event (plain_event 9 EPOLLOUT [] []) a_pair = Some (?s (?p [] []) (?q [] True))"
    by (simp add: handle_event_def getConn_def plain_event_def a_pair_def writable_def do_MoveOut_def MoveOut_def other_of_def
        new_pc_def fun_upd_twist)
  have s2: "handle_event (plain_event 7 EPOLLIN [InData d1] [OutMoved (length d1)]) (?s (?p [] []) (?q [] True))
      = Some (?s (?p [] d1) (?q d1 False))"
    using assms MoveIn_one [of "new_pc 7 (Some 1)" d1]
    by (simp add: handle_event_def getConn_def plain_event_def a_pair_def readable_def do_MoveIn_def do_MoveOut_def other_of_def
        new_pc_def fun_upd_twist buf_ok_def MoveOut_all)
  have s3: "handle_event (plain_event 7 EPOLLIN [InData d2] [OutMoved (length d2)]) (?s (?p [] d1) (?q d1 False))
      = Some (?s (?p d2 (d1 @ d2)) (?q d1 False))"
    using assms MoveIn_one [of "?p [] d1" d2]
    by (simp add: handle_event_def getConn_def plain_event_def a_pair_def readable_def do_MoveIn_def other_of_def
        new_pc_def fun_upd_twist buf_ok_def)
  show ?thesis
    by (rule exI [of _ "?s (?p d2 (d1 @ d2)) (?q d1 False)"], rule exI [of _ "?p d2 (d1 @ d2)"], rule exI [of _ "?q d1 False"])
       (simp only: eventLoop.simps s1 s2 s3 option.case, simp)
qed

theorem forwarding_stalls_witness:
  "\<exists>s p q. eventLoop
       [plain_event 9 EPOLLOUT [] [],
        plain_event 7 EPOLLIN [InData ''ab''] [OutMoved (length ''ab'')],
        plain_event 7 EPOLLIN [InData ''c''] [OutMoved (length ''c'')]] a_pair = Some s
     \<and> heap s 0 = Some p \<and> heap s 1 = Some q \<and> creceived p = ''abc'' \<and> cdelivered q = ''ab'' \<and> cpipe p = ''c'' \<and> \<not> canWrite q"
  using forwarding_stalls [of "''ab''" "''c''"] by simp


theorem proxy_no_panic_witness:
  "\<exists>s. foldl run_op (newProxy True) [Link (plain_new 7) (plain_new 9), Event (plain_event 9 EPOLLHUP [] []), Event (plain_event 7 EPOLLIN [InData ''x''] [])] = Some s"
  using proxy_no_panic [of "[Link (plain_new 7) (plain_new 9), Event (plain_event 9 EPOLLHUP [] []), Event (plain_event 7 EPOLLIN [InData ''x''] [])]"]
  by (simp add: link_succeeds_def plain_new_def)

lemma newConn_fd:
  assumes "newConn c s = (Some i, t)" "file_fd c = Some fd"
  shows "\<exists>p. heap t i = Some p \<and> cfd p = fd"
  using assms by (auto simp: newConn_def Let_def split: option.splits if_splits prod.splits)

text \<open>
  When the second connection of a \<open>Transfer\<close> cannot be set up, the first is left in the table
  without a peer, and the first event that brings data for it, or room, panics the whole proxy.
\<close>

theorem half_pair_panics:
  assumes "ep_ok s" "newConn c1 s = (Some i, s1)" "fst (newConn c2 s1) = None" "file_fd c1 = Some fd"
    and "b = EPOLLIN \<or> b = EPOLLOUT" "d \<noteq> []" "length d \<le> 65535"
  shows "fst (Transfer c1 c2 s) = False \<and> handle_event (plain_event fd b [InData d] outs') (snd (Transfer c1 c2 s)) = None"
proof -
  obtain t where t: "newConn c2 s1 = (None, t)" using assms(3) by (cases "newConn c2 s1") auto
  obtain p where p: "fresh_conn p" "heap s1 = (heap s)(i \<mapsto> p)" "conns s1 = (conns s)(cfd p \<mapsto> i)"
    using newConn_cases [OF assms(2)] by auto
  have "cfd p = fd"
    using p(2) newConn_fd [OF assms(2,4)] by auto
  moreover have "heap t = heap s1" "conns t = conns s1" using newConn_cases [OF t] by auto
  ultimately have "heap t i = Some p" "conns t fd = Some i" "other p = None" "buf_ok p" "cpipe p = []"
    using p by (auto simp: fresh_conn_def buf_ok_def)
  then have "handle_event (plain_event fd b [InData d] outs') t = None"
    using assms(5-7) MoveIn_one [of p d]
    by (auto simp: handle_event_def getConn_def plain_event_def readable_def writable_def do_MoveIn_def do_MoveOut_def other_of_def)
  then show ?thesis using assms(2) t by (simp add: Transfer_def)
qed

theorem half_pair_panics_witness:
  "fst (Transfer (plain_new 7) ((plain_new 9)\<lparr>epolladd_ok := False\<rparr>) a_pair) = False
   \<and> handle_event (plain_event 7 EPOLLIN [InData ''x''] []) (snd (Transfer (plain_new 7) ((plain_new 9)\<lparr>epolladd_ok := False\<rparr>) a_pair)) = None"
proof -
  have "ep_ok a_pair"
    using Transfer_ok(1) [of "the (newProxy True)" "plain_new 7" "plain_new 9"] Transfer_a_pair [of "the (newProxy True)"] newProxy_ok
    by (simp add: newProxy_def ep_good_def)
  moreover have "newConn (plain_new 7) a_pair = (Some 2, a_pair\<lparr>heap := (heap a_pair)(2 \<mapsto> new_pc 7 None), conns := (conns a_pair)(7 \<mapsto> 2),
      epoll := epoll a_pair, next_obj := 3\<rparr>)"
    by (simp add: newConn_def plain_new_def a_pair_def Let_def new_pc_def insert_absorb)
  moreover have "fst (newConn ((plain_new 9)\<lparr>epolladd_ok := False\<rparr>) s) = None" "file_fd (plain_new 7) = Some 7" for s
    by (simp_all add: newConn_def plain_new_def Let_def)
  ultimately show ?thesis
    using half_pair_panics [of a_pair "plain_new 7" 2 _ "(plain_new 9)\<lparr>epolladd_ok := False\<rparr>" 7 EPOLLIN "''x''" "[]"] by simp
qed

end
