(* ===== verification/Hash_Tester.thy ===== *)
theory Hash_Tester
  imports Go_Prelude
begin

text \<open>
  The hash quality tester, \<open>src/hash-test/hash-test.go\<close>: workers generate blocks, hash them and
  send the sums to counters in chunks, the counters add them up, and a summary groups the result.

  The generator of blocks (\<open>bigcounter\<close>) and the hash function (\<open>cmtp\<close>) are parameters: what
  \<open>FillExpBytes\<close> writes, what \<open>Plus\<close> leaves (\<open>None\<close> is its error at the last value), what
  \<open>Mimus\<close> makes of a number, and \<open>Checksum32\<close>.
\<close>

section \<open>The tester\<close>

record hashTester =
  ht_size :: int
  chunksize :: nat
  groupsize :: int
  countersize :: nat
  ht_limit :: int
  maxcnt :: int
  results :: "16 word list"
  distr :: "u64 list"
  collided :: "u64 list"
  maxworker :: int
  maxcounter :: int
  lockThread :: bool

text \<open>The numbers of workers and counters: the inner \<open>maxcounter\<close> is a variable of its own.\<close>

definition tester_sizes :: "int \<Rightarrow> bool \<Rightarrow> int \<times> int \<times> bool" where
  "tester_sizes procs lock =
     (let lock1 = (if procs = 1 then False else lock);
          counters = 1;
          workers =
            (if procs > 12 then
               (let inner = procs div 12; inner = (if inner < 1 then 1 else inner) in procs - inner - 1)
             else procs - counters)
      in (if workers < 1 then 1 else workers, counters, lock1))"

text \<open>The code behind the call of \<open>os.Exit\<close>.\<close>

definition make_hashTester :: "int \<Rightarrow> int \<Rightarrow> int \<Rightarrow> int \<Rightarrow> int \<times> int \<times> bool \<Rightarrow> hashTester" where
  "make_hashTester sz gs lim mx sizes =
     (let sz1 = (if sz < 1 then 1 else sz);
          gs1 = (if gs \<le> 0 then 4096 else gs);
          lim1 = (if lim \<le> 0 then 4294967295 else lim);
          (workers, counters, lock1) = sizes
      in \<lparr>ht_size = sz1, chunksize = 1024, groupsize = gs1, countersize = 2048, ht_limit = lim1, maxcnt = mx,
          results = replicate 4294967296 0, distr = replicate (nat gs1) 0, collided = replicate (nat gs1) 0,
          maxworker = workers, maxcounter = counters, lockThread = lock1\<rparr>)"

text \<open>\<open>Inl\<close> is the exit status of the process.\<close>

datatype process_end = Exit int

definition NewhashTester :: "int \<Rightarrow> int \<Rightarrow> int \<Rightarrow> int \<Rightarrow> int \<Rightarrow> bool \<Rightarrow> process_end + hashTester" where
  "NewhashTester procs sz gs lim mx lock =
     (let sizes = tester_sizes procs lock in Inl (Exit 1))"

section \<open>run: the ranges of the workers\<close>

text \<open>
  The first value and the last of each worker.  \<open>mimus\<close> is what \<open>FromBigInt\<close>, \<open>Mimus\<close> and
  \<open>Bytes\<close> make of a number.
\<close>

fun worker_ranges :: "(int \<Rightarrow> int) \<Rightarrow> int \<Rightarrow> int \<Rightarrow> int \<Rightarrow> nat \<Rightarrow> int \<Rightarrow> int \<Rightarrow> (int \<times> int) list" where
  "worker_ranges mimus mx workers step 0 i genptr = []"
| "worker_ranges mimus mx workers step (Suc k) i genptr =
     (genptr, if i = workers - 1 then mx else mimus (step * (i + 1)))
     # worker_ranges mimus mx workers step k (i + 1) (genptr + step)"

definition run_ranges :: "(int \<Rightarrow> int) \<Rightarrow> int \<Rightarrow> int \<Rightarrow> (int \<times> int) list" where
  "run_ranges mimus mx workers = worker_ranges mimus mx workers (mx div workers) (nat workers) 0 0"

section \<open>runWorker\<close>

record 'g generator =
  fill :: "nat \<Rightarrow> 'g \<Rightarrow> bytes"
  plus :: "'g \<Rightarrow> 'g option"
  checksum32 :: "bytes \<Rightarrow> 32 word"

text \<open>
  A carrier is the used part of its buffer, \<open>buf[0..ptr]\<close>.  The buffer has \<open>chunksize\<close> places;
  \<open>None\<close> is the panic of an index behind them.
\<close>

type_synonym carrier = "32 word list"

definition put_sum :: "nat \<Rightarrow> nat \<Rightarrow> 32 word \<Rightarrow> carrier list \<Rightarrow> carrier list option" where
  "put_sum counters chunk h hchunk =
     (let i = unat h mod counters
      in if i < length hchunk \<and> length (hchunk ! i) < chunk then Some (hchunk[i := hchunk ! i @ [h]]) else None)"

fun worker_chunk :: "'g generator \<Rightarrow> nat \<Rightarrow> nat \<Rightarrow> nat \<Rightarrow> nat \<Rightarrow> 'g \<Rightarrow> carrier list \<Rightarrow> ('g option \<times> carrier list) option" where
  "worker_chunk ops sz counters chunk 0 g hchunk = Some (Some g, hchunk)"
| "worker_chunk ops sz counters chunk (Suc k) g hchunk =
     (case put_sum counters chunk (checksum32 ops (fill ops sz g)) hchunk of
        None \<Rightarrow> None
      | Some hchunk1 \<Rightarrow>
          (case plus ops g of
             None \<Rightarrow> Some (None, hchunk1)
           | Some g1 \<Rightarrow> worker_chunk ops sz counters chunk k g1 hchunk1))"

text \<open>
  What a chunk sends: the carriers, one for each counter, and the number of sums.  The code reads the number from the
  carriers after it has sent them; here it is that of the moment before, and \<open>Hash_Pool\<close> has the order of the code.
\<close>

definition chunk_count :: "carrier list \<Rightarrow> u64" where
  "chunk_count hchunk = sum_list (map (\<lambda>c. of_nat (length c)) hchunk)"

datatype worker_end = Running | Killed | Exhausted

text \<open>The list gives the values of \<open>killworker\<close> that the loop reads.\<close>

fun runWorker :: "'g generator \<Rightarrow> nat \<Rightarrow> nat \<Rightarrow> nat \<Rightarrow> bool list \<Rightarrow> 'g \<Rightarrow> ((carrier list \<times> u64) list \<times> worker_end) option" where
  "runWorker ops sz counters chunk [] g = Some ([], Running)"
| "runWorker ops sz counters chunk (True # ks) g = Some ([], Killed)"
| "runWorker ops sz counters chunk (False # ks) g =
     (case worker_chunk ops sz counters chunk chunk g (replicate counters []) of
        None \<Rightarrow> None
      | Some (None, hchunk) \<Rightarrow> Some ([(hchunk, chunk_count hchunk)], Exhausted)
      | Some (Some g1, hchunk) \<Rightarrow>
          (case runWorker ops sz counters chunk ks g1 of
             None \<Rightarrow> None
           | Some (sends, e) \<Rightarrow> Some ((hchunk, chunk_count hchunk) # sends, e)))"

section \<open>The counters and the summary\<close>

definition bump :: "16 word list \<Rightarrow> 32 word \<Rightarrow> 16 word list" where
  "bump r h = r[unat h := r ! unat h + 1]"

fun sumcounter :: "carrier list \<Rightarrow> 16 word list \<Rightarrow> 16 word list" where
  "sumcounter [] r = r"
| "sumcounter (c # cs) r = sumcounter cs (foldl bump r c)"

text \<open>\<open>add\<close> is \<open>AddUint64\<close> of the counter.\<close>

definition totalcounter :: "('c \<Rightarrow> u64 \<Rightarrow> 'c) \<Rightarrow> u64 list \<Rightarrow> 'c \<Rightarrow> 'c" where
  "totalcounter add counts c = foldl add c counts"

fun summary_loop :: "nat \<Rightarrow> nat \<Rightarrow> 16 word list \<Rightarrow> u64 list \<times> u64 list \<Rightarrow> u64 list \<times> u64 list" where
  "summary_loop gs idx [] dc = dc"
| "summary_loop gs idx (val # vals) (d, c) =
     (let ridx = idx mod gs
      in summary_loop gs (idx + 1) vals (d[ridx := d ! ridx + 1], if val > 0 then c[ridx := c ! ridx + 1] else c))"

definition summary :: "hashTester \<Rightarrow> hashTester" where
  "summary ht =
     (let (d, c) = summary_loop (nat (groupsize ht)) 0 (results ht) (distr ht, collided ht)
      in ht\<lparr>distr := d, collided := c\<rparr>)"

section \<open>Stat\<close>

text \<open>
  Times are nanoseconds.  The big integer division is Euclidean and panics for a zero divisor,
  which is \<open>None\<close>.
\<close>

definition big_div :: "int \<Rightarrow> int \<Rightarrow> int option" where
  "big_div a b = (if b = 0 then None else if b > 0 then Some (a div b) else Some (- (a div (- b))))"

definition Stat :: "bool \<Rightarrow> bool \<Rightarrow> int \<Rightarrow> int \<Rightarrow> int \<Rightarrow> int \<Rightarrow> (int \<times> int \<times> int \<times> int) option" where
  "Stat is_closing is_closed now startts endts count =
     (let endts1 = (if is_closing \<or> is_closed then endts else now);
          esp = endts1 - startts
      in case big_div (count * 1000000000) esp of
           None \<Rightarrow> None
         | Some qps \<Rightarrow> Some (count, qps, esp, endts1))"

section \<open>Stopping: run, counter and Close\<close>

text \<open>
  The goroutines that end a test.  \<open>run\<close> looks whether \<open>closing\<close> is closed and closes it if not, then
  closes the channels of the counters; \<open>counter\<close> waits for that, makes the summary and closes
  \<open>closed\<close>, then calls \<open>Close\<close> like any other caller.
\<close>

datatype run_pc = RWorkers | RClosing | RSums | RDone
datatype counter_pc = CWait | CSummary | CCloseClosed | CDone
datatype close_pc = KStart | KLocked | KClosing | KWait | KDone

record end_state =
  closing :: bool
  closed :: bool
  summarised :: bool
  freed :: bool
  finished :: bool
  panicked :: bool
  run_at :: run_pc
  counter_at :: counter_pc
  close_at :: "close_pc list"
  lock_m :: "nat option"

definition close_closing :: "end_state \<Rightarrow> end_state" where
  "close_closing s = (if closing s then s\<lparr>panicked := True\<rparr> else s\<lparr>closing := True\<rparr>)"

text \<open>The last of the callers is the deferred call of \<open>counter\<close>: it starts when \<open>counter\<close> is done.\<close>

inductive end_step :: "end_state \<Rightarrow> end_state \<Rightarrow> bool" where
  run_check: "\<not> panicked s \<Longrightarrow> run_at s = RWorkers \<Longrightarrow>
     end_step s (s\<lparr>run_at := (if closing s then RSums else RClosing)\<rparr>)"
| run_close: "\<not> panicked s \<Longrightarrow> run_at s = RClosing \<Longrightarrow> end_step s ((close_closing s)\<lparr>run_at := RSums\<rparr>)"
| run_sums: "\<not> panicked s \<Longrightarrow> run_at s = RSums \<Longrightarrow> end_step s (s\<lparr>run_at := RDone\<rparr>)"
| counter_wait: "\<not> panicked s \<Longrightarrow> counter_at s = CWait \<Longrightarrow> run_at s = RDone \<Longrightarrow> end_step s (s\<lparr>counter_at := CSummary\<rparr>)"
| counter_summary: "\<not> panicked s \<Longrightarrow> counter_at s = CSummary \<Longrightarrow> end_step s (s\<lparr>counter_at := CCloseClosed, summarised := True\<rparr>)"
| counter_close: "\<not> panicked s \<Longrightarrow> counter_at s = CCloseClosed \<Longrightarrow> end_step s (s\<lparr>counter_at := CDone, closed := True\<rparr>)"
| close_lock: "\<not> panicked s \<Longrightarrow> i < length (close_at s) \<Longrightarrow> close_at s ! i = KStart \<Longrightarrow> lock_m s = None \<Longrightarrow>
     (Suc i = length (close_at s) \<longrightarrow> counter_at s = CDone) \<Longrightarrow>
     end_step s (if finished s then s\<lparr>close_at := (close_at s)[i := KDone]\<rparr>
                 else s\<lparr>close_at := (close_at s)[i := KLocked], lock_m := Some i\<rparr>)"
| close_check: "\<not> panicked s \<Longrightarrow> i < length (close_at s) \<Longrightarrow> close_at s ! i = KLocked \<Longrightarrow>
     end_step s (s\<lparr>close_at := (close_at s)[i := (if closing s then KWait else KClosing)]\<rparr>)"
| close_close: "\<not> panicked s \<Longrightarrow> i < length (close_at s) \<Longrightarrow> close_at s ! i = KClosing \<Longrightarrow>
     end_step s ((close_closing s)\<lparr>close_at := (close_at s)[i := KWait]\<rparr>)"
| close_finish: "\<not> panicked s \<Longrightarrow> i < length (close_at s) \<Longrightarrow> close_at s ! i = KWait \<Longrightarrow> closed s \<Longrightarrow>
     end_step s (s\<lparr>close_at := (close_at s)[i := KDone], freed := True, finished := True, lock_m := None\<rparr>)"

definition end_start :: "nat \<Rightarrow> end_state" where
  "end_start n = \<lparr>closing = False, closed = False, summarised = False, freed = False, finished = False, panicked = False,
     run_at = RWorkers, counter_at = CWait, close_at = replicate (Suc n) KStart, lock_m = None\<rparr>"

section \<open>main\<close>

text \<open>The options as \<open>main\<close> corrects them, and the end of the process.\<close>

record test_flags =
  runlimit :: int
  fsize :: int
  fgroupsize :: int
  cpus :: int
  flock :: bool

definition clamp_flags :: "int \<Rightarrow> test_flags \<Rightarrow> test_flags" where
  "clamp_flags ncpu f =
     f\<lparr>cpus := (if cpus f \<le> 0 then ncpu else cpus f), fsize := (if fsize f < 1 then 1 else fsize f),
       fgroupsize := (if fgroupsize f < 16 then 16 else fgroupsize f), runlimit := (if runlimit f < 1 then 1 else runlimit f)\<rparr>"

fun test_all :: "test_flags \<Rightarrow> int \<Rightarrow> bytes list \<Rightarrow> bytes list \<Rightarrow> process_end + bytes list" where
  "test_all f mx [] tested = Inr tested"
| "test_all f mx (name # names) tested =
     (case NewhashTester (cpus f) (fsize f) (fgroupsize f) (runlimit f) mx (flock f) of
        Inl e \<Rightarrow> Inl e
      | Inr ht \<Rightarrow> test_all f mx names (tested @ [name]))"

definition hash_main :: "int \<Rightarrow> test_flags \<Rightarrow> bool \<Rightarrow> int \<Rightarrow> process_end + bytes list" where
  "hash_main ncpu flags listen_ok mx =
     (let f = clamp_flags ncpu flags
      in if \<not> listen_ok then Inl (Exit 1) else test_all f mx [''xxhash''] [])"

end
