(* ===== verification/Hash_Tester_Props.thy ===== *)
theory Hash_Tester_Props
  imports Hash_Tester "HOL-Library.Multiset"
begin

text \<open>
  Properties of the hash tester: the ranges of the workers divide the values of the generator,
  every block is hashed and counted once whatever the order in which chunks arrive, what the
  summary counts, and how the goroutines that end a test can meet.
\<close>

section \<open>The ranges\<close>

lemma worker_ranges_upto:
  assumes "\<And>n. 0 < n \<Longrightarrow> mimus n = n - 1" "0 < step" "0 \<le> i" "i + int k = workers" "step * workers \<le> mx"
  shows "concat (map (\<lambda>(a, b). [a..b]) (worker_ranges mimus mx workers step k i (step * i))) =
    (if k = 0 then [] else [step * i..mx])"
  using assms(3-)
proof (induction k arbitrary: i)
  case (Suc k)
  have next_start: "step * i + step = step * (i + 1)" by (simp add: algebra_simps)
  show ?case
  proof (cases "k = 0")
    case True
    then show ?thesis using Suc.prems by simp
  next
    case False
    then have "i \<noteq> workers - 1" using Suc.prems by auto
    moreover have "0 < step * (i + 1)" using assms(2) Suc.prems by simp
    moreover have "step * (i + 1) \<le> mx"
      using Suc.prems assms(2) by (smt (verit) mult_left_mono of_nat_0_le_iff of_nat_Suc)
    moreover have "[step * i..mx] = [step * i..step * (i + 1) - 1] @ [step * (i + 1)..mx]"
      using upto_split1 [of "step * i" "step * (i + 1)" mx] calculation assms(2) by (simp add: algebra_simps)
    ultimately show ?thesis
      using Suc.IH [of "i + 1"] Suc.prems False assms(1) by (simp add: next_start)
  qed
qed simp

text \<open>
  The ranges that \<open>run\<close> gives to the workers, put one after the other, are all values from 0 to
  the greatest of the generator: each value is hashed by exactly one worker.
\<close>

theorem run_ranges_partition:
  assumes "\<And>n. 0 < n \<Longrightarrow> mimus n = n - 1" "0 < workers" "workers \<le> mx"
  shows "length (run_ranges mimus mx workers) = nat workers
    \<and> concat (map (\<lambda>(a, b). [a..b]) (run_ranges mimus mx workers)) = [0..mx]"
proof -
  have "0 < mx div workers" using assms(2,3) by (simp add: pos_imp_zdiv_pos_iff)
  moreover have "(mx div workers) * workers \<le> mx" using assms(2) by (metis minus_mod_eq_div_mult pos_mod_sign diff_le_eq le_add_same_cancel1 add.commute)
  moreover have "length (worker_ranges mimus mx workers st k i gp) = k" for st k i gp
    by (induction k arbitrary: i gp) auto
  ultimately show ?thesis
    using worker_ranges_upto [of mimus "mx div workers" 0 "nat workers" workers mx] assms
    by (auto simp: run_ranges_def)
qed

theorem run_ranges_partition_witness:
  "length (run_ranges (\<lambda>n. n - 1) 255 3) = 3
    \<and> concat (map (\<lambda>(a, b). [a..b]) (run_ranges (\<lambda>n. n - 1) 255 3)) = [0..255]"
  using run_ranges_partition [of "\<lambda>n. n - 1" 3 255] by simp

text \<open>
  The number of counters is 1 on every machine: the number computed for more than 12 processors
  is lost in a variable of the inner block, so the processors it reserves stay idle.  There is
  always a worker.
\<close>

theorem tester_sizes_counters:
  assumes "0 < procs"
  shows "\<exists>workers lock'. tester_sizes procs lock = (workers, 1, lock') \<and> 1 \<le> workers
    \<and> (12 < procs \<longrightarrow> workers + 1 + procs div 12 = procs) \<and> (workers + 1 \<le> procs \<or> procs = 1)"
proof -
  have "procs div 12 * 12 \<le> procs" by simp
  moreover have "12 < procs \<Longrightarrow> 1 \<le> procs div 12" by simp
  ultimately show ?thesis using assms by (auto simp: tester_sizes_def Let_def)
qed

theorem tester_sizes_counters_witness: "tester_sizes 48 True = (43, 1, True)"
  using tester_sizes_counters [of 48 True] by (auto simp: tester_sizes_def)

section \<open>The workers\<close>

text \<open>The blocks a generator produces until \<open>Plus\<close> reports its last value.\<close>

fun yields :: "'g generator \<Rightarrow> nat \<Rightarrow> 'g \<Rightarrow> bytes list \<Rightarrow> bool" where
  "yields ops sz g [] = False"
| "yields ops sz g (b # bs) =
     (fill ops sz g = b \<and> (case plus ops g of None \<Rightarrow> bs = [] | Some g' \<Rightarrow> yields ops sz g' bs))"

text \<open>The sums sorted by the counter they are for.\<close>

definition distribute :: "nat \<Rightarrow> 32 word list \<Rightarrow> carrier list" where
  "distribute counters hs = map (\<lambda>i. filter (\<lambda>h. unat h mod counters = i) hs) [0..<counters]"

lemma length_distribute [simp]: "length (distribute n hs) = n"
  by (simp add: distribute_def)

lemma distribute_nth [simp]: "i < n \<Longrightarrow> distribute n hs ! i = filter (\<lambda>h. unat h mod n = i) hs"
  by (simp add: distribute_def)

lemma distribute_Nil: "distribute n [] = replicate n []"
  by (simp add: distribute_def map_replicate_const)

lemma put_sum_distribute:
  assumes "0 < counters" "length hs < chunk"
  shows "put_sum counters chunk h (distribute counters hs) = Some (distribute counters (hs @ [h]))"
proof -
  let ?i = "unat h mod counters"
  have "length (filter (\<lambda>h. unat h mod counters = ?i) hs) < chunk"
    using assms(2) length_filter_le le_less_trans by blast
  moreover have "(distribute counters hs)[?i := distribute counters hs ! ?i @ [h]] = distribute counters (hs @ [h])"
    using assms(1) by (intro nth_equalityI) (auto simp: nth_list_update)
  ultimately show ?thesis using assms(1) by (simp add: put_sum_def Let_def)
qed

lemma worker_chunk_yields:
  assumes "yields ops sz g bs" "0 < counters" "length hs + k \<le> chunk"
  shows "if length bs \<le> k
     then worker_chunk ops sz counters chunk k g (distribute counters hs) = Some (None, distribute counters (hs @ map (checksum32 ops) bs))
     else \<exists>g'. worker_chunk ops sz counters chunk k g (distribute counters hs) =
             Some (Some g', distribute counters (hs @ map (checksum32 ops) (take k bs))) \<and> yields ops sz g' (drop k bs)"
  using assms(1,3)
proof (induction k arbitrary: g bs hs)
  case 0
  then show ?case by (cases bs) auto
next
  case (Suc k)
  obtain b bs' where bs: "bs = b # bs'" "fill ops sz g = b" using Suc.prems(1) by (cases bs) auto
  have put: "put_sum counters chunk (checksum32 ops b) (distribute counters hs) = Some (distribute counters (hs @ [checksum32 ops b]))"
    using assms(2) Suc.prems(2) by (intro put_sum_distribute) auto
  show ?case
  proof (cases "plus ops g")
    case None
    then show ?thesis using Suc.prems(1) bs put by simp
  next
    case (Some g1)
    then have "yields ops sz g1 bs'" using Suc.prems(1) bs by simp
    then show ?thesis
      using Suc.IH [of g1 bs' "hs @ [checksum32 ops b]"] Suc.prems(2) bs put Some by (auto split: if_splits)
  qed
qed

lemma of_nat_sum_list: "of_nat (sum_list xs) = (\<Sum>x \<leftarrow> xs. of_nat x)"
  by (induction xs) auto

lemma chunk_count_distribute:
  assumes "0 < counters"
  shows "chunk_count (distribute counters hs) = of_nat (length hs)"
proof -
  have "(\<Sum>i \<leftarrow> [0..<counters]. length (filter (\<lambda>h. unat h mod counters = i) hs)) = length hs"
  proof (induction hs)
    case (Cons h hs)
    have "(\<Sum>i \<leftarrow> [0..<counters]. length (filter (\<lambda>h. unat h mod counters = i) (h # hs))) =
        (\<Sum>i \<leftarrow> [0..<counters]. (if unat h mod counters = i then 1 else 0) + length (filter (\<lambda>h. unat h mod counters = i) hs))"
      by (intro arg_cong [where f = sum_list] map_cong) auto
    also have "\<dots> = (\<Sum>i \<leftarrow> [0..<counters]. (if unat h mod counters = i then 1 else 0)) + length hs"
      using Cons by (simp add: sum_list_addf)
    also have "(\<Sum>i \<leftarrow> [0..<counters]. (if unat h mod counters = i then 1 else 0)) = (1 :: nat)"
      using assms by (simp add: sum_list_distinct_conv_sum_set)
    finally show ?case by simp
  qed simp
  moreover have "chunk_count (distribute counters hs) =
      of_nat (\<Sum>i \<leftarrow> [0..<counters]. length (filter (\<lambda>h. unat h mod counters = i) hs))"
    by (simp add: chunk_count_def distribute_def o_def of_nat_sum_list)
  ultimately show ?thesis by simp
qed

text \<open>What a worker sends when it reads \<open>killworker\<close> as the list says.\<close>

definition sent_to :: "nat \<Rightarrow> (carrier list \<times> u64) list \<Rightarrow> carrier list" where
  "sent_to i sends = map (\<lambda>s. fst s ! i) sends"

abbreviation full_passes :: "bool list \<Rightarrow> nat" where
  "full_passes ks \<equiv> length (takeWhile Not ks)"

lemma runWorker_sends:
  assumes "yields ops sz g bs" "0 < counters" "0 < chunk"
  shows "\<exists>sends e. runWorker ops sz counters chunk ks g = Some (sends, e)
     \<and> (e = Exhausted \<longleftrightarrow> length bs \<le> chunk * full_passes ks)
     \<and> (\<forall>i < counters. concat (sent_to i sends) =
          filter (\<lambda>h. unat h mod counters = i) (map (checksum32 ops) (take (chunk * full_passes ks) bs)))
     \<and> sum_list (map snd sends) = of_nat (length (take (chunk * full_passes ks) bs))
     \<and> (\<forall>s \<in> set sends. \<forall>c \<in> set (fst s). length c \<le> chunk)"
  using assms(1)
proof (induction ks arbitrary: g bs)
  case Nil
  then show ?case by (cases bs) (auto simp: sent_to_def)
next
  case (Cons k ks)
  have len: "\<forall>c \<in> set (distribute counters hs). length c \<le> chunk" if "length hs \<le> chunk" for hs
    using that by (auto simp: distribute_def intro: order_trans [OF length_filter_le])
  show ?case
  proof (cases k)
    case True
    then show ?thesis using Cons.prems by (cases bs) (auto simp: sent_to_def)
  next
    case False
    note wc = worker_chunk_yields [OF Cons.prems assms(2), of "[]" chunk chunk]
    show ?thesis
    proof (cases "length bs \<le> chunk")
      case True
      then have "worker_chunk ops sz counters chunk chunk g (replicate counters []) = Some (None, distribute counters (map (checksum32 ops) bs))"
        using wc by (simp add: distribute_Nil)
      moreover have "length bs \<le> chunk * Suc n" "take (chunk * Suc n) bs = bs" for n using True by simp_all
      ultimately show ?thesis
        using False True assms(2) len [of "map (checksum32 ops) bs"] by (simp add: sent_to_def chunk_count_distribute)
    next
      case more: False
      then obtain g' where g': "worker_chunk ops sz counters chunk chunk g (replicate counters []) =
          Some (Some g', distribute counters (map (checksum32 ops) (take chunk bs)))" "yields ops sz g' (drop chunk bs)"
        using wc by (auto simp: distribute_Nil)
      have cut: "take (chunk * full_passes (k # ks)) bs = take chunk bs @ take (chunk * full_passes ks) (drop chunk bs)"
        using False by (simp add: take_add add.commute)
      show ?thesis
        using Cons.IH [OF g'(2)] g'(1) False more assms(2) len [of "map (checksum32 ops) (take chunk bs)"] unfolding cut
        by (auto simp: sent_to_def chunk_count_distribute)
    qed
  qed
qed

text \<open>
  A worker never writes behind a buffer, whatever the hash function: for every way in which it is
  stopped, what it sends to a counter are the sums of the blocks it made, in their order, that
  belong to this counter, and the counts, taken before the carriers are used again, add up to the number of blocks.
\<close>

theorem runWorker_complete:
  assumes "yields ops sz g bs" "0 < counters" "0 < chunk"
  shows "\<exists>sends e. runWorker ops sz counters chunk ks g = Some (sends, e)
     \<and> (e = Exhausted \<longleftrightarrow> length bs \<le> chunk * full_passes ks)
     \<and> (\<forall>i < counters. concat (sent_to i sends) =
          filter (\<lambda>h. unat h mod counters = i) (map (checksum32 ops) (take (chunk * full_passes ks) bs)))
     \<and> sum_list (map snd sends) = of_nat (length (take (chunk * full_passes ks) bs))
     \<and> (\<forall>s \<in> set sends. \<forall>c \<in> set (fst s). length c \<le> chunk)"
  using runWorker_sends [OF assms] .

text \<open>A generator of one byte that counts down.\<close>

definition countdown :: "nat generator" where
  "countdown = \<lparr>fill = (\<lambda>sz n. [char_of n]), plus = (\<lambda>n. if n = 0 then None else Some (n - 1)), checksum32 = (\<lambda>b. of_nat (of_char (hd b)))\<rparr>"

lemma yields_countdown: "yields countdown sz n (map (\<lambda>k. [char_of k]) (rev [0..<Suc n]))"
  by (induction n) (simp_all add: countdown_def)

theorem runWorker_complete_witness:
  "\<exists>sends e. runWorker countdown 1 2 2 [False, False, True] 4 = Some (sends, e) \<and> e \<noteq> Exhausted
     \<and> concat (sent_to 0 sends) = [4, 2] \<and> concat (sent_to 1 sends) = [3, 1] \<and> sum_list (map snd sends) = 4"
proof -
  let ?bs = "map (\<lambda>k. [char_of k]) (rev [0..<Suc 4]) :: bytes list"
  have len: "length ?bs = 5" "full_passes [False, False, True] = 2" by simp_all
  have sums: "map (checksum32 countdown) (take (2 * 2) ?bs) = [4, 3, 2, 1]"
    by code_simp
  have parts: "filter (\<lambda>h. unat h mod 2 = 0) [4, 3, 2, 1 :: 32 word] = [4, 2]" "filter (\<lambda>h. unat h mod 2 = 1) [4, 3, 2, 1 :: 32 word] = [3, 1]"
    by code_simp+
  show ?thesis
    using runWorker_complete [OF yields_countdown [of 1 4], of 2 2 "[False, False, True]"]
    by (simp only: len sums) (auto simp: parts len)
qed

section \<open>The counters\<close>

lemma foldl_bump_length [simp]: "length (foldl bump r hs) = length r"
  by (induction hs arbitrary: r) (auto simp: bump_def)

lemma foldl_bump_nth:
  "unat h < length r \<Longrightarrow> foldl bump r hs ! unat h = r ! unat h + of_nat (count_list hs h)"
proof (induction hs arbitrary: r)
  case (Cons a hs)
  have "bump r a ! unat h = r ! unat h + (if a = h then 1 else 0)" "unat h < length (bump r a)"
    using Cons.prems word_unat_eq_iff [of a h] by (auto simp: bump_def nth_list_update)
  then show ?case using Cons.IH [of "bump r a"] by (simp add: add.assoc)
qed simp

lemma sumcounter_nth:
  "unat h < length r \<Longrightarrow> sumcounter cs r ! unat h = r ! unat h + of_nat (count_list (concat cs) h)"
  by (induction cs r rule: sumcounter.induct) (auto simp: foldl_bump_nth)

lemma mset_concat_cong: "mset xss = mset yss \<Longrightarrow> mset (concat xss) = mset (concat yss)"
  by (metis mset_concat mset_map sum_mset_sum_list)

text \<open>
  The count of every hash value is the number of blocks with that value, modulo 65536, over all
  workers and whatever the order in which the chunks of the workers reach the counter.
\<close>

theorem sumcounter_counts:
  assumes "\<forall>w \<in> set ws. yields ops sz (fst w) (snd w) \<and> length (snd w) \<le> chunk * n" "0 < counters" "0 < chunk"
    and "mset cs = mset (concat (map (\<lambda>w. sent_to (unat h mod counters)
           (fst (the (runWorker ops sz counters chunk (replicate n False) (fst w))))) ws))"
    and "length r = 4294967296"
  shows "sumcounter cs r ! unat h = r ! unat h + of_nat (count_list (map (checksum32 ops) (concat (map snd ws))) h)"
proof -
  let ?i = "unat h mod counters"
  let ?sends = "\<lambda>w. fst (the (runWorker ops sz counters chunk (replicate n False) (fst w)))"
  have one: "concat (sent_to ?i (?sends w)) = filter (\<lambda>x. unat x mod counters = ?i) (map (checksum32 ops) (snd w))"
    if "w \<in> set ws" for w
    using runWorker_sends [of ops sz "fst w" "snd w" counters chunk "replicate n False"] assms(1-3) that
    by (auto simp: takeWhile_replicate)
  have "mset (concat cs) = mset (concat (concat (map (\<lambda>w. sent_to ?i (?sends w)) ws)))"
    using assms(4) by (rule mset_concat_cong)
  also have "concat (concat (map (\<lambda>w. sent_to ?i (?sends w)) ws)) =
      filter (\<lambda>x. unat x mod counters = ?i) (map (checksum32 ops) (concat (map snd ws)))"
    using one by (induction ws) auto
  finally have "count_list (concat cs) h = count_list (map (checksum32 ops) (concat (map snd ws))) h"
    by (metis (mono_tags, lifting) count_mset count_filter_mset mset_filter)
  moreover have "unat h < length r" using unsigned_less [of h, where ?'a = nat] assms(5) by simp
  ultimately show ?thesis by (simp add: sumcounter_nth)
qed

theorem sumcounter_counts_witness:
  "\<exists>cs. sumcounter cs (replicate 4294967296 0) ! unat (3 :: 32 word) = 2"
proof -
  let ?w = "\<lambda>n::nat. (n, map (\<lambda>k. [char_of k]) (rev [0..<Suc n]) :: bytes list)"
  let ?ws = "[?w 4, ?w 3]"
  let ?cs = "concat (map (\<lambda>w. sent_to (unat (3 :: 32 word) mod 1) (fst (the (runWorker countdown 1 1 2 (replicate 3 False) (fst w))))) ?ws)"
  have y: "\<forall>w \<in> set ?ws. yields countdown 1 (fst w) (snd w) \<and> length (snd w) \<le> 2 * 3"
    using yields_countdown [of 1 4] yields_countdown [of 1 3] by simp
  have "count_list (map (checksum32 countdown) (concat (map snd ?ws))) 3 = 2"
    by code_simp
  then show ?thesis
    using sumcounter_counts [OF y, of 1 ?cs 3 "replicate 4294967296 0"]
    by (intro exI [of _ ?cs]) (simp add: nth_replicate del: replicate.simps)
qed

section \<open>The summary\<close>

lemma summary_loop_counts:
  assumes "0 < gs" "length d = gs" "length c = gs" "r < gs" "summary_loop gs i vals (d, c) = (d', c')"
  shows "d' ! r = d ! r + of_nat (length (filter (\<lambda>(k, v). k mod gs = r) (enumerate i vals)))
     \<and> c' ! r = c ! r + of_nat (length (filter (\<lambda>(k, v). k mod gs = r \<and> v \<noteq> 0) (enumerate i vals)))"
  using assms(2,3,5)
proof (induction vals arbitrary: i d c)
  case (Cons v vals)
  let ?r = "i mod gs"
  let ?d = "d[?r := d ! ?r + 1]" and ?c = "if v > 0 then c[?r := c ! ?r + 1] else c"
  have "?r < gs" using assms(1) by simp
  then have "?d ! r = d ! r + (if ?r = r then 1 else 0)" "?c ! r = c ! r + (if ?r = r \<and> v \<noteq> 0 then 1 else 0)"
    using Cons.prems(1,2) assms(4) by (auto simp: nth_list_update word_gt_0)
  moreover have "summary_loop gs (i + 1) vals (?d, ?c) = (d', c')" using Cons.prems(3) by (simp add: Let_def)
  ultimately show ?case
    using Cons.IH [of ?d ?c "i + 1"] Cons.prems(1,2) by (simp add: add.assoc)
qed simp

text \<open>
  After the summary, \<open>distr\<close> of a group has grown by the number of hash values in the group
  whatever was counted for them, and \<open>collided\<close> by the number of values of the group that occurred
  at all: the first figure says nothing about the hash function, the second counts hits and not
  collisions.
\<close>

theorem summary_counts:
  assumes "0 < groupsize ht" "length (distr ht) = nat (groupsize ht)" "length (collided ht) = nat (groupsize ht)"
    and "r < nat (groupsize ht)"
  shows "distr (summary ht) ! r = distr ht ! r + of_nat (card {i. i < length (results ht) \<and> i mod nat (groupsize ht) = r})
    \<and> collided (summary ht) ! r = collided ht ! r
        + of_nat (card {i. i < length (results ht) \<and> i mod nat (groupsize ht) = r \<and> results ht ! i \<noteq> 0})"
proof -
  obtain d c where dc: "summary_loop (nat (groupsize ht)) 0 (results ht) (distr ht, collided ht) = (d, c)" by fastforce
  have filter_card: "length (filter P (enumerate 0 (results ht))) = card {i. i < length (results ht) \<and> P (i, results ht ! i)}" for P
    unfolding length_filter_conv_card by (rule arg_cong [where f = card]) (auto simp: nth_enumerate_eq)
  show ?thesis
    using summary_loop_counts [OF _ assms(2-4) dc] assms(1) dc by (simp add: summary_def filter_card)
qed

theorem summary_counts_witness:
  "\<exists>ht. results ht = [0, 7, 0, 1, 0, 0] \<and> distr (summary ht) ! 1 = 3 \<and> collided (summary ht) ! 1 = 2"
proof -
  let ?ht = "(make_hashTester 8 2 1 255 (1, 1, False))\<lparr>results := [0, 7, 0, 1, 0, 0]\<rparr>"
  have "nat (groupsize ?ht) = 2" "0 < groupsize ?ht" "results ?ht = [0, 7, 0, 1, 0, 0]" "distr ?ht = [0, 0]" "collided ?ht = [0, 0]"
    by (simp_all add: make_hashTester_def numeral_2_eq_2)
  moreover have "{i. i < length [0, 7, 0, 1, 0, 0 :: 16 word] \<and> i mod 2 = 1} = {1, 3, 5}" by (auto simp: less_Suc_eq)
  moreover have "{i. i < length [0, 7, 0, 1, 0, 0 :: 16 word] \<and> i mod 2 = 1 \<and> [0, 7, 0, 1, 0, 0 :: 16 word] ! i \<noteq> 0} = {1, 3}"
    by (auto simp: less_Suc_eq)
  ultimately show ?thesis
    using summary_counts [of ?ht 1] by (intro exI [of _ ?ht]) simp
qed

section \<open>The end of a test\<close>

definition inside :: "close_pc \<Rightarrow> bool" where
  "inside k \<longleftrightarrow> k = KLocked \<or> k = KClosing \<or> k = KWait"

definition lock_ok :: "close_pc list \<Rightarrow> nat option \<Rightarrow> bool" where
  "lock_ok ks l \<longleftrightarrow> (\<forall>i < length ks. inside (ks ! i) \<longrightarrow> l = Some i)"

definition phases_ok :: "end_state \<Rightarrow> bool" where
  "phases_ok s \<longleftrightarrow> (closed s \<longleftrightarrow> counter_at s = CDone) \<and> (freed s \<longrightarrow> closed s)
     \<and> (counter_at s = CCloseClosed \<or> counter_at s = CDone \<longrightarrow> summarised s)
     \<and> (counter_at s \<noteq> CWait \<longrightarrow> run_at s = RDone)"

definition end_inv :: "end_state \<Rightarrow> bool" where
  "end_inv s \<longleftrightarrow> phases_ok s \<and> lock_ok (close_at s) (lock_m s)"

lemma lock_ok_take: "lock_ok ks None \<Longrightarrow> lock_ok (ks[i := k]) (Some i)"
  by (cases "i < length ks") (auto simp: lock_ok_def nth_list_update)

lemma lock_ok_move: "lock_ok ks l \<Longrightarrow> i < length ks \<Longrightarrow> inside (ks ! i) \<or> \<not> inside k \<Longrightarrow> lock_ok (ks[i := k]) l"
  by (auto simp: lock_ok_def nth_list_update)

lemma lock_ok_free: "lock_ok ks l \<Longrightarrow> i < length ks \<Longrightarrow> inside (ks ! i) \<Longrightarrow> \<not> inside k \<Longrightarrow> lock_ok (ks[i := k]) None"
  by (auto simp: lock_ok_def nth_list_update)

lemma close_closing_fields [simp]:
  "phases_ok (close_closing s) = phases_ok s" "close_at (close_closing s) = close_at s" "lock_m (close_closing s) = lock_m s"
  "counter_at (close_closing s) = counter_at s"
  by (simp_all add: close_closing_def phases_ok_def)

lemma phases_ok_close_at [simp]: "phases_ok (s\<lparr>close_at := ks\<rparr>) = phases_ok s" "phases_ok (s\<lparr>lock_m := l\<rparr>) = phases_ok s"
  by (simp_all add: phases_ok_def)

lemma end_step_inv: "end_step s t \<Longrightarrow> end_inv s \<Longrightarrow> end_inv t"
proof (induction rule: end_step.induct)
  case (run_close s)
  then show ?case by (auto simp: end_inv_def phases_ok_def close_closing_def)
next
  case (close_lock s i)
  then show ?case by (auto simp: end_inv_def inside_def intro: lock_ok_take lock_ok_move)
next
  case (close_check s i)
  then show ?case by (auto simp: end_inv_def inside_def intro!: lock_ok_move)
next
  case (close_close s i)
  then show ?case by (auto simp: end_inv_def inside_def intro!: lock_ok_move)
next
  case (close_finish s i)
  then show ?case
    using lock_ok_free [of "close_at s" "lock_m s" i KDone] by (auto simp: end_inv_def phases_ok_def inside_def)
qed (auto simp: end_inv_def phases_ok_def)

interpretation stop: transition_invariant end_step end_inv
  by unfold_locales (rule end_step_inv)

text \<open>
  However the goroutines that end a test interleave, the table of results is freed only after
  \<open>run\<close> has closed the channels of the counters and the summary is made, and only one caller is
  inside \<open>Close\<close>.
\<close>

theorem freed_after_summary:
  assumes "reaches end_step (end_start n) s"
  shows "(freed s \<longrightarrow> summarised s \<and> closed s \<and> run_at s = RDone)
    \<and> (\<forall>i j. i < length (close_at s) \<longrightarrow> j < length (close_at s) \<longrightarrow>
         inside (close_at s ! i) \<longrightarrow> inside (close_at s ! j) \<longrightarrow> i = j)"
proof -
  have "end_inv (end_start n)"
    by (auto simp: end_inv_def phases_ok_def lock_ok_def inside_def end_start_def nth_Cons split: nat.splits)
  then have inv: "end_inv s" by (rule stop.inv_reaches [OF assms])
  have "i = j" if "i < length (close_at s)" "j < length (close_at s)" "inside (close_at s ! i)" "inside (close_at s ! j)" for i j
  proof -
    have "lock_m s = Some i" "lock_m s = Some j" using inv that unfolding end_inv_def lock_ok_def by blast+
    then show ?thesis by simp
  qed
  moreover have "freed s \<longrightarrow> summarised s \<and> closed s \<and> run_at s = RDone"
    using inv by (auto simp: end_inv_def phases_ok_def)
  ultimately show ?thesis by blast
qed

theorem freed_after_summary_witness:
  "\<exists>s. reaches end_step (end_start 0) s \<and> freed s \<and> summarised s"
proof -
  let ?s0 = "end_start 0"
  let ?s1 = "?s0\<lparr>run_at := RClosing\<rparr>"
  let ?s2 = "(close_closing ?s1)\<lparr>run_at := RSums\<rparr>"
  let ?s3 = "?s2\<lparr>run_at := RDone\<rparr>"
  let ?s4 = "?s3\<lparr>counter_at := CSummary\<rparr>"
  let ?s5 = "?s4\<lparr>counter_at := CCloseClosed, summarised := True\<rparr>"
  let ?s6 = "?s5\<lparr>counter_at := CDone, closed := True\<rparr>"
  let ?s7 = "?s6\<lparr>close_at := [KLocked], lock_m := Some 0\<rparr>"
  let ?s8 = "?s7\<lparr>close_at := [KWait]\<rparr>"
  let ?s9 = "?s8\<lparr>close_at := [KDone], freed := True, finished := True, lock_m := None\<rparr>"
  note [simp] = end_start_def close_closing_def
  have "end_step ?s0 ?s1" "end_step ?s1 ?s2" "end_step ?s2 ?s3" using run_check [of ?s0] run_close [of ?s1] run_sums [of ?s2] by simp_all
  then have r3: "reaches end_step ?s0 ?s3" by (blast intro: reaches_step reaches_one)
  have "end_step ?s3 ?s4" "end_step ?s4 ?s5" "end_step ?s5 ?s6"
    using counter_wait [of ?s3] counter_summary [of ?s4] counter_close [of ?s5] by simp_all
  then have r6: "reaches end_step ?s0 ?s6" using r3 by (blast intro: reaches_step)
  have "end_step ?s6 ?s7" "end_step ?s7 ?s8" "end_step ?s8 ?s9"
    using close_lock [of ?s6 0] close_check [of ?s7 0] close_finish [of ?s8 0] by simp_all
  then have r9: "reaches end_step ?s0 ?s9" using r6 by (blast intro: reaches_step)
  then show ?thesis using freed_after_summary [OF r9] by (intro exI [of _ ?s9]) simp
qed

text \<open>
  The channel \<open>closing\<close> can be closed twice, which ends the process with a panic: a call of \<open>Close\<close>
  and \<open>run\<close> may both see it open before either closes it.
\<close>

theorem closing_closed_twice:
  "\<exists>s. reaches end_step (end_start 1) s \<and> panicked s"
proof -
  let ?s0 = "end_start 1"
  let ?s1 = "?s0\<lparr>close_at := [KLocked, KStart], lock_m := Some 0\<rparr>"
  let ?s2 = "?s1\<lparr>close_at := [KClosing, KStart]\<rparr>"
  let ?s3 = "?s2\<lparr>run_at := RClosing\<rparr>"
  let ?s4 = "(close_closing ?s3)\<lparr>run_at := RSums\<rparr>"
  let ?s5 = "(close_closing ?s4)\<lparr>close_at := [KWait, KStart]\<rparr>"
  have steps: "end_step ?s0 ?s1" "end_step ?s1 ?s2" "end_step ?s2 ?s3" "end_step ?s3 ?s4" "end_step ?s4 ?s5"
    using close_lock [of ?s0 0] close_check [of ?s1 0] run_check [of ?s2] run_close [of ?s3] close_close [of ?s4 0]
    by (simp_all add: end_start_def close_closing_def)
  have "reaches end_step ?s0 ?s2" using steps(1,2) by (blast intro: reaches_step reaches_one)
  then have "reaches end_step ?s0 ?s4" using steps(3,4) by (blast intro: reaches_step)
  then have "reaches end_step ?s0 ?s5" using steps(5) by (rule reaches_step)
  then show ?thesis by (intro exI [of _ ?s5]) (simp add: close_closing_def end_start_def)
qed

text \<open>A test is never run: the constructor leaves the process first.\<close>

lemma hash_main_exits: "hash_main ncpu flags listen_ok mx = Inl (Exit 1)"
  by (simp add: hash_main_def NewhashTester_def Let_def)

end
