(* ===== verification/Svg_Server.thy ===== *)
theory Svg_Server
  imports Go_Strings
begin

text \<open>
  \<open>SvgDrawServer\<close> of \<open>src/hash-test/hash-test.go\<close>: it keeps the figures of the tested hash functions
  and draws them as an SVG image for every request.  The fixed start of the image is a
  parameter.  Go iterates over a map in any order, so the orders of the loops are parameters
  too; the text of the clock is one.
\<close>

section \<open>State\<close>

record SvgDrawServer =
  sv_size :: nat
  sv_distr :: "bytes \<rightharpoonup> u64 list"
  sv_collided :: "bytes \<rightharpoonup> u64 list"
  svgbuf :: bytes
  sv_buf :: bytes
  sv_header :: bytes
  sv_tail :: bytes
  sv_wait_closed :: bool
  sv_count :: u64

abbreviation nl :: bytes where "nl \<equiv> [CHR 0x0A]"

definition newSvgDrawServer :: "bytes \<Rightarrow> int \<Rightarrow> SvgDrawServer" where
  "newSvgDrawServer header sz =
     \<lparr>sv_size = nat (if sz \<le> 0 then 1 else sz), sv_distr = Map.empty, sv_collided = Map.empty,
      svgbuf = replicate 2048 (CHR 0x00), sv_buf = replicate 2048 (CHR 0x00),
      sv_header = header, sv_tail = nl @ ''</g>'' @ nl @ ''</svg>'', sv_wait_closed = False, sv_count = 0\<rparr>"

text \<open>\<open>Close\<close> recovers from the panic of a second \<open>close\<close>.\<close>

definition svgClose :: "SvgDrawServer \<Rightarrow> SvgDrawServer" where
  "svgClose sh = (if sv_wait_closed sh then sh else sh\<lparr>sv_wait_closed := True\<rparr>)"

section \<open>Fill\<close>

text \<open>The two loops over a slice: copy while both last, then clear the rest.\<close>

fun fill_copy :: "nat \<Rightarrow> nat \<Rightarrow> u64 list \<Rightarrow> u64 list \<Rightarrow> u64 list" where
  "fill_copy i sz [] dst = dst"
| "fill_copy i sz (v # vs) dst = (if i < sz then fill_copy (i + 1) sz vs (dst[i := v]) else dst)"

function fill_zero :: "nat \<Rightarrow> nat \<Rightarrow> u64 list \<Rightarrow> u64 list" where
  "fill_zero i sz dst = (if i < sz then fill_zero (i + 1) sz (dst[i := 0]) else dst)"
  by pat_completeness auto
termination by (relation "measure (\<lambda>(i, sz, dst). sz - i)") auto

declare fill_zero.simps [simp del]

definition fill_slice :: "nat \<Rightarrow> u64 list option \<Rightarrow> u64 list \<Rightarrow> u64 list" where
  "fill_slice sz old new =
     (let dst = (case old of None \<Rightarrow> replicate sz 0 | Some d \<Rightarrow> d)
      in fill_zero (length new) sz (fill_copy 0 sz new dst))"

definition Fill :: "bytes \<Rightarrow> u64 list \<Rightarrow> u64 list \<Rightarrow> SvgDrawServer \<Rightarrow> SvgDrawServer" where
  "Fill name filldistr fillcollided sh =
     sh\<lparr>sv_distr := (sv_distr sh)(name \<mapsto> fill_slice (sv_size sh) (sv_distr sh name) filldistr),
        sv_collided := (sv_collided sh)(name \<mapsto> fill_slice (sv_size sh) (sv_collided sh name) fillcollided)\<rparr>"

section \<open>String\<close>

definition pair_line :: "nat \<Rightarrow> u64 \<Rightarrow> bytes" where
  "pair_line idx v = itoa_nat idx @ '', '' @ itoa_nat (unat v) @ nl"

definition name_report :: "SvgDrawServer \<Rightarrow> bytes \<Rightarrow> bytes" where
  "name_report sh name =
     (let d = (case sv_distr sh name of None \<Rightarrow> [] | Some d \<Rightarrow> d);
          c = (case sv_collided sh name of None \<Rightarrow> [] | Some c \<Rightarrow> c)
      in ''--- distr '' @ name @ '' ---'' @ nl
         @ concat (map (\<lambda>(idx, v). pair_line idx v) (enumerate 0 d))
         @ ''--- collided '' @ name @ '' ---'' @ nl
         @ concat (map (\<lambda>(idx, v). if v > 0 then pair_line idx v else []) (enumerate 0 c)))"

definition svgString :: "bytes list \<Rightarrow> SvgDrawServer \<Rightarrow> bytes \<times> SvgDrawServer" where
  "svgString names sh = (let b = concat (map (name_report sh) names) in (b, sh\<lparr>sv_buf := b\<rparr>))"

section \<open>ServeHTTP\<close>





abbreviation xstart :: nat where "xstart \<equiv> 80"
abbreviation yavg :: u64 where "yavg \<equiv> 260"
abbreviation maxlen :: nat where "maxlen \<equiv> 1280"

definition x_step :: "nat \<Rightarrow> nat" where
  "x_step sz = (if sz \<le> maxlen then maxlen div sz else 1)"

text \<open>The points of a path: \<open>xpos\<close>, \<open>xcnt\<close> and \<open>xptr\<close> are the variables of the loop.\<close>

fun point_loop :: "nat \<Rightarrow> nat \<Rightarrow> u64 \<Rightarrow> nat \<Rightarrow> nat \<Rightarrow> nat \<Rightarrow> nat \<Rightarrow> u64 list \<Rightarrow> (nat \<times> u64) list" where
  "point_loop xstep xnextlen avgdist i xpos xcnt xptr [] = []"
| "point_loop xstep xnextlen avgdist i xpos xcnt xptr (v # vs) =
     (let dist = (v - avgdist) + yavg
      in if i - xpos \<ge> xnextlen
         then (xcnt * xstep + xstart, dist) # point_loop xstep xnextlen avgdist (i + 1) i (xcnt + 1) (xcnt * xstep + xstart) vs
         else (xptr, dist) # point_loop xstep xnextlen avgdist (i + 1) xpos xcnt xptr vs)"

text \<open>\<open>None\<close> is the division by the length of an empty slice.\<close>

definition path_points :: "nat \<Rightarrow> u64 list \<Rightarrow> (nat \<times> u64) list option" where
  "path_points sz vals =
     (if vals = [] then None
      else Some (point_loop (x_step sz) (sz div maxlen) (sum_list vals div of_nat (length vals)) 0 0 0 xstart vals))"










section \<open>Properties\<close>

text \<open>Every slice has the length of the drawing.\<close>

definition svg_ok :: "SvgDrawServer \<Rightarrow> bool" where
  "svg_ok sh \<longleftrightarrow> 0 < sv_size sh \<and> (\<forall>d \<in> ran (sv_distr sh). length d = sv_size sh) \<and> (\<forall>c \<in> ran (sv_collided sh). length c = sv_size sh)"

lemma fill_copy_take:
  "length dst = sz \<Longrightarrow> i \<le> sz \<Longrightarrow>
     fill_copy i sz vs dst = take i dst @ take (sz - i) vs @ drop (i + length (take (sz - i) vs)) dst"
proof (induction vs arbitrary: i dst)
  case (Cons v vs)
  show ?case
  proof (cases "i < sz")
    case True
    have "take (Suc i) (dst[i := v]) = take i dst @ [v]" using True Cons.prems by (simp add: take_Suc_conv_app_nth)
    moreover have "sz - i = Suc (sz - Suc i)" using True by simp
    ultimately show ?thesis
      using Cons.IH [of "dst[i := v]" "Suc i"] Cons.prems True by (simp add: drop_update_cancel)
  qed (use Cons.prems in auto)
qed simp

lemma fill_zero_replicate:
  "length dst = sz \<Longrightarrow> fill_zero i sz dst = take i dst @ replicate (sz - i) 0"
proof (induction "sz - i" arbitrary: i dst)
  case (Suc n)
  then have i: "i < sz" by simp
  have "take (Suc i) (dst[i := 0]) = take i dst @ [0]" using i Suc.prems by (simp add: take_Suc_conv_app_nth)
  moreover have "replicate (sz - i) 0 = 0 # replicate (sz - Suc i) (0::u64)" using i by (simp add: Suc_diff_Suc [symmetric] del: Suc_diff_Suc)
  ultimately show ?case
    using Suc.hyps(1) [of "Suc i" "dst[i := 0]"] Suc.hyps(2) Suc.prems i by (subst fill_zero.simps) simp
qed (auto simp: fill_zero.simps)

lemma fill_slice_eq:
  assumes "case old of None \<Rightarrow> True | Some d \<Rightarrow> length d = sz"
  shows "fill_slice sz old new = take sz new @ replicate (sz - length new) 0"
proof -
  define dst where "dst = (case old of None \<Rightarrow> replicate sz 0 | Some d \<Rightarrow> d)"
  have len: "length dst = sz" using assms by (auto simp: dst_def split: option.splits)
  have "fill_copy 0 sz new dst = take sz new @ drop (length (take sz new)) dst"
    using fill_copy_take [OF len, of 0 new] by simp
  moreover have "length (take sz new @ drop (length (take sz new)) dst) = sz" using len by simp
  ultimately show ?thesis
    using len by (auto simp: fill_slice_def dst_def [symmetric] fill_zero_replicate min_def)
qed

text \<open>
  \<open>Fill\<close> stores the given figures cut or padded with zeros to the size of the drawing, whatever was
  stored before, leaves the other names alone, and keeps all slices at that size.
\<close>

theorem Fill_stores:
  assumes "svg_ok sh"
  shows "svg_ok (Fill name d c sh)
    \<and> sv_distr (Fill name d c sh) = (sv_distr sh)(name \<mapsto> take (sv_size sh) d @ replicate (sv_size sh - length d) 0)
    \<and> sv_collided (Fill name d c sh) = (sv_collided sh)(name \<mapsto> take (sv_size sh) c @ replicate (sv_size sh - length c) 0)"
proof -
  have "case sv_distr sh name of None \<Rightarrow> True | Some d \<Rightarrow> length d = sv_size sh"
       "case sv_collided sh name of None \<Rightarrow> True | Some d \<Rightarrow> length d = sv_size sh"
    using assms by (auto simp: svg_ok_def ran_def split: option.splits)
  then have eq: "fill_slice (sv_size sh) (sv_distr sh name) d = take (sv_size sh) d @ replicate (sv_size sh - length d) 0"
      "fill_slice (sv_size sh) (sv_collided sh name) c = take (sv_size sh) c @ replicate (sv_size sh - length c) 0"
    by (simp_all add: fill_slice_eq)
  show ?thesis using assms by (auto simp: Fill_def svg_ok_def ran_def eq split: if_splits)
qed

lemma newSvgDrawServer_ok: "svg_ok (newSvgDrawServer header sz)"
  by (simp add: svg_ok_def newSvgDrawServer_def)

theorem Fill_stores_witness:
  "sv_distr (Fill ''xx'' [5, 6, 7, 8] [] (newSvgDrawServer [] 3)) ''xx'' = Some [5, 6, 7]
   \<and> sv_collided (Fill ''xx'' [5, 6, 7, 8] [] (newSvgDrawServer [] 3)) ''xx'' = Some [0, 0, 0]"
  using Fill_stores [OF newSvgDrawServer_ok [of "[]" 3], of "''xx''" "[5, 6, 7, 8]" "[]"]
  by (simp add: newSvgDrawServer_def numeral_3_eq_3)




lemma point_loop_y:
  "map snd (point_loop xstep xnextlen avgdist i xpos xcnt xptr vals) = map (\<lambda>v. v - avgdist + yavg) vals"
  by (induction vals arbitrary: i xpos xcnt xptr) (auto simp: Let_def)

lemma point_loop_x:
  assumes "xcnt \<le> i" "xcnt * xnextlen \<le> xpos" "xpos \<le> i" "xstart \<le> xptr" "xptr \<le> xstart + m * xstep"
    and "\<And>k. k < i + length vals \<Longrightarrow> (if xnextlen = 0 then k else k div xnextlen) \<le> m"
    and "(x, y) \<in> set (point_loop xstep xnextlen avgdist i xpos xcnt xptr vals)"
  shows "xstart \<le> x \<and> x \<le> xstart + m * xstep"
  using assms
proof (induction vals arbitrary: i xpos xcnt xptr)
  case (Cons v vals)
  show ?case
  proof (cases "xnextlen \<le> i - xpos")
    case True
    have "(xcnt + 1) * xnextlen \<le> i" using True Cons.prems(2,3) by simp
    then have "xcnt \<le> (if xnextlen = 0 then i else i div xnextlen)"
      using Cons.prems(1) by (auto simp: less_eq_div_iff_mult_less_eq)
    also have "\<dots> \<le> m" using Cons.prems(6) [of i] by simp
    finally have "xcnt * xstep \<le> m * xstep" by simp
    then show ?thesis
      using Cons.IH [of "xcnt + 1" "i + 1" i "xcnt * xstep + xstart"] Cons.prems True \<open>(xcnt + 1) * xnextlen \<le> i\<close> by (auto simp: Let_def)
  next
    case False
    then show ?thesis using Cons.IH [of xcnt "i + 1" xpos xptr] Cons.prems by (auto simp: Let_def)
  qed
qed simp

text \<open>
  The points of a path: one for each figure; the x coordinates lie on the axis, between 80 and 1360,
  when there are at most 1280 figures; the y coordinate is the distance from the average, moved by
  260, modulo \<open>2^64\<close>.
\<close>

theorem path_points_drawn:
  assumes "vals \<noteq> []" "length vals = sz"
  shows "\<exists>ps. path_points sz vals = Some ps
    \<and> map (uint \<circ> snd) ps = map (\<lambda>v. (uint v - uint (sum_list vals div of_nat sz) + 260) mod 2 ^ 64) vals
    \<and> (sz \<le> 1280 \<longrightarrow> (\<forall>(x, y) \<in> set ps. 80 \<le> x \<and> x \<le> 1360))"
proof -
  let ?avg = "sum_list vals div of_nat sz"
  let ?ps = "point_loop (x_step sz) (sz div maxlen) ?avg 0 0 0 xstart vals"
  have "uint (v - ?avg + yavg) = (uint v - uint ?avg + 260) mod 2 ^ 64" for v
    by (simp add: uint_word_ariths mod_simps)
  then have "map (uint \<circ> snd) ?ps = map (\<lambda>v. (uint v - uint ?avg + 260) mod 2 ^ 64) vals"
    using arg_cong [OF point_loop_y, of "map uint" "x_step sz" "sz div maxlen" ?avg 0 0 0 xstart vals] by simp
  moreover have "80 \<le> x \<and> x \<le> 1360" if "sz \<le> 1280" "(x, y) \<in> set ?ps" for x y
  proof -
    have "(sz - 1) * (1280 div sz) \<le> sz * (1280 div sz)" by simp
    also have "\<dots> \<le> 1280" by (metis mult.commute div_times_less_eq_dividend)
    finally have "(sz - 1) * x_step sz \<le> 1280" using that(1) by (simp add: x_step_def)
    moreover have "(if sz div maxlen = 0 then k else k div (sz div maxlen)) \<le> sz - 1" if "k < 0 + length vals" for k
      using that assms(2) by (auto intro: order_trans [OF div_le_dividend])
    ultimately show ?thesis
      using point_loop_x [OF _ _ _ _ _ _ that(2), of "sz - 1"] by fastforce
  qed
  ultimately show ?thesis using assms by (auto simp: path_points_def)
qed

theorem path_points_drawn_witness:
  "\<exists>ps. path_points 2 [0, 1000] = Some ps \<and> map (uint \<circ> snd) ps = [2 ^ 64 - 240, 760] \<and> (\<forall>(x, y) \<in> set ps. 80 \<le> x \<and> x \<le> 1360)"
proof -
  have "uint (sum_list [0, 1000 :: u64] div of_nat 2) = 500" by simp
  then show ?thesis using path_points_drawn [of "[0, 1000]" 2] by auto
qed

text \<open>With more than 1280 figures and fewer than 2560 the path runs beyond the axis, which ends at 1360.\<close>

lemma point_loop_dense:
  "map fst (point_loop 1 1 avgdist (Suc k) k k xptr vals) = map (\<lambda>j. j + xstart) [k..<k + length vals]"
proof (induction vals arbitrary: k xptr)
  case (Cons v vals)
  have "[k..<k + length (v # vals)] = k # [Suc k..<Suc k + length vals]" by (simp add: upt_conv_Cons del: upt_Suc)
  then show ?case using Cons.IH [of "Suc k"] by (simp add: Let_def del: upt_Suc)
qed simp

lemma path_beyond_axis:
  assumes "1280 < sz" "sz < 2560" "length vals = sz"
  shows "\<exists>ps. path_points sz vals = Some ps \<and> fst (last ps) = sz + 78"
proof -
  obtain v vs where vals: "vals = v # vs" "vs \<noteq> []" using assms by (cases vals; cases "tl vals") auto
  let ?ps = "point_loop 1 1 (sum_list vals div of_nat sz) 0 0 0 xstart vals"
  let ?qs = "point_loop 1 1 (sum_list vals div of_nat sz) 1 0 0 xstart vs"
  have "sz div 1280 = 1" using assms by simp
  then have "path_points sz vals = Some ?ps" using assms by (auto simp: path_points_def x_step_def)
  moreover have "map fst ?qs = map (\<lambda>j. j + xstart) [0..<length vs]" using point_loop_dense [of _ 0 xstart vs] by simp
  then have "?qs \<noteq> []" "last (map fst ?qs) = length vs - 1 + xstart"
    using vals(2) by (auto simp: last_map)
  ultimately show ?thesis using assms(3) vals by (auto simp: Let_def last_map)
qed

end
