(* ===== verification/Process_Tools.thy ===== *)
theory Process_Tools
  imports Go_Prelude
begin

text \<open>
  Programs that start processes and react to signals:
  \<open>src/fork-cpuaffinity/fork-cpuaffinity.go\<close> (a master with one worker process for each CPU),
  \<open>src/syscall-cpuaffinity/syscall-cpuaffinity.go\<close> and \<open>src/drop-privileges/drop-privileges.go\<close> (a master
  that hands a listening socket to an unprivileged worker).

  Signals are their numbers.  What the system and the package \<open>misc\<close> answer (whether a process
  runs, whether a call succeeds, when a timer fires) is a parameter or a script.
\<close>

section \<open>Signals\<close>

type_synonym osig = nat

abbreviation SIGINT :: osig where "SIGINT \<equiv> 2"
abbreviation SIGQUIT :: osig where "SIGQUIT \<equiv> 3"
abbreviation SIGABRT :: osig where "SIGABRT \<equiv> 6"
abbreviation SIGKILL :: osig where "SIGKILL \<equiv> 9"
abbreviation SIGPIPE :: osig where "SIGPIPE \<equiv> 13"
abbreviation SIGTERM :: osig where "SIGTERM \<equiv> 15"
abbreviation SIGCHLD :: osig where "SIGCHLD \<equiv> 17"

datatype sig_log = Notifyed osig | SentExit osig | ExitIgnored osig | Ignored osig

record sig_state =
  exiting :: bool
  forwarded :: "osig list"
  sig_out :: "sig_log list"

text \<open>One turn of \<open>sigHandle\<close> of \<open>fork-cpuaffinity\<close> for the signal \<open>sig\<close>.\<close>

definition sigHandle :: "bytes \<Rightarrow> osig list \<Rightarrow> osig list \<Rightarrow> sig_state \<Rightarrow> osig \<Rightarrow> sig_state" where
  "sigHandle tag notifys exits s sig =
     (let s1 = (if sig \<in> set notifys
                then s\<lparr>forwarded := forwarded s @ [sig], sig_out := (if tag \<noteq> [] then sig_out s @ [Notifyed sig] else sig_out s)\<rparr>
                else s);
          notifyed = (sig \<in> set notifys \<and> tag \<noteq> [])
      in if \<not> exiting s1 then
           (if sig \<in> set exits
            then s1\<lparr>exiting := True, forwarded := forwarded s1 @ [sig], sig_out := sig_out s1 @ [SentExit sig]\<rparr>
            else if tag \<noteq> [] \<and> \<not> notifyed then s1\<lparr>sig_out := sig_out s1 @ [ExitIgnored sig]\<rparr>
            else s1)
         else if tag \<noteq> [] \<and> \<not> notifyed then s1\<lparr>sig_out := sig_out s1 @ [Ignored sig]\<rparr>
         else s1)"

text \<open>The same turn in \<open>syscall-cpuaffinity\<close>, which looks at the lengths of the two lists first.\<close>

definition sigHandle_guarded :: "bytes \<Rightarrow> osig list \<Rightarrow> osig list \<Rightarrow> sig_state \<Rightarrow> osig \<Rightarrow> sig_state" where
  "sigHandle_guarded tag notifys exits s sig =
     (let hit = (length notifys > 0 \<and> sig \<in> set notifys);
          s1 = (if hit
                then s\<lparr>forwarded := forwarded s @ [sig], sig_out := (if tag \<noteq> [] then sig_out s @ [Notifyed sig] else sig_out s)\<rparr>
                else s);
          notifyed = (hit \<and> tag \<noteq> [])
      in if \<not> exiting s1 \<and> length exits > 0 then
           (if sig \<in> set exits
            then s1\<lparr>exiting := True, forwarded := forwarded s1 @ [sig], sig_out := sig_out s1 @ [SentExit sig]\<rparr>
            else if tag \<noteq> [] \<and> \<not> notifyed then s1\<lparr>sig_out := sig_out s1 @ [ExitIgnored sig]\<rparr>
            else s1)
         else if tag \<noteq> [] \<and> \<not> notifyed then s1\<lparr>sig_out := sig_out s1 @ [Ignored sig]\<rparr>
         else s1)"

definition sig_start :: sig_state where
  "sig_start = \<lparr>exiting = False, forwarded = [], sig_out = []\<rparr>"

definition master_notifys :: "osig list" where
  "master_notifys = [SIGCHLD]"

definition master_exits :: "osig list" where
  "master_exits = [SIGABRT, SIGINT, SIGPIPE, SIGQUIT, SIGTERM]"

section \<open>The master of fork-cpuaffinity\<close>

text \<open>
  The loop that waits for \<open>exitNotifyChan\<close>, on what arrives there: the number of signals it read and
  whether all workers stopped by themselves.  \<open>None\<close> is waiting for ever.
\<close>

fun master_wait :: "nat \<Rightarrow> nat \<Rightarrow> osig list \<Rightarrow> (bool \<times> nat) option" where
  "master_wait workers stopcnt [] = None"
| "master_wait workers stopcnt (sig # sigs) =
     (if sig = SIGCHLD then
        (if stopcnt + 1 \<ge> workers then Some (True, stopcnt + 1) else master_wait workers (stopcnt + 1) sigs)
      else Some (False, stopcnt))"

record workerStatT =
  widx :: nat
  wpid :: nat
  wstopped :: bool

text \<open>Starting the workers: \<open>start i\<close> is the process number, or the error of \<open>cmd.Start\<close>.\<close>

fun fork_workers :: "(nat \<Rightarrow> nat option) \<Rightarrow> nat \<Rightarrow> nat \<Rightarrow> workerStatT list" where
  "fork_workers start i 0 = []"
| "fork_workers start i (Suc k) =
     (case start i of
        None \<Rightarrow> fork_workers start (i + 1) k
      | Some pid \<Rightarrow> \<lparr>widx = i, wpid = pid, wstopped = False\<rparr> # fork_workers start (i + 1) k)"

definition cpuIndex :: "nat \<Rightarrow> nat \<Rightarrow> nat" where
  "cpuIndex ncpu idx = idx mod ncpu"

text \<open>
  \<open>stressCount\<close>: each round has the process numbers that are alive and whether the ticker fired;
  \<open>None\<close> is still looping.
\<close>

definition alive_count :: "nat set \<Rightarrow> workerStatT list \<Rightarrow> nat" where
  "alive_count alive ws = length (filter (\<lambda>w. wpid w \<in> alive) ws)"

fun stressCount :: "workerStatT list \<Rightarrow> (nat set \<times> bool) list \<Rightarrow> nat option" where
  "stressCount ws [] = None"
| "stressCount ws ((alive, ticked) # rounds) =
     (if alive_count alive ws \<ge> length ws then Some (alive_count alive ws)
      else if ticked then Some (alive_count alive ws)
      else stressCount ws rounds)"

section \<open>stressWait\<close>

text \<open>
  One pass of the goroutine that looks for dead workers: the workers, and the process numbers it
  sends to \<open>aliveChan\<close>.
\<close>

fun poll_pass :: "nat set \<Rightarrow> workerStatT list \<Rightarrow> workerStatT list \<times> nat list" where
  "poll_pass dead [] = ([], [])"
| "poll_pass dead (w # ws) =
     (let (ws', sent) = poll_pass dead ws
      in if \<not> wstopped w \<and> wpid w \<in> dead then (w\<lparr>wstopped := True\<rparr> # ws', wpid w # sent) else (w # ws', sent))"

fun poll_all :: "nat set list \<Rightarrow> nat \<Rightarrow> workerStatT list \<Rightarrow> nat list" where
  "poll_all [] alivecnt ws = []"
| "poll_all (dead # deads) alivecnt ws =
     (if alivecnt > 0 then let (ws', sent) = poll_pass dead ws in sent @ poll_all deads (alivecnt - length sent) ws'
      else [])"

text \<open>What the \<open>select\<close> takes: a process number or the timer.\<close>

datatype wait_event = Stopped nat | TimerFired

datatype kill = Kill nat osig

fun wait_loop :: "workerStatT list \<Rightarrow> nat \<Rightarrow> wait_event list \<Rightarrow> (bool \<times> kill list) option" where
  "wait_loop ws stopcnt [] = None"
| "wait_loop ws stopcnt (TimerFired # evs) = Some (False, map (\<lambda>w. Kill (wpid w) SIGKILL) ws)"
| "wait_loop ws stopcnt (Stopped pid # evs) =
     (if stopcnt + 1 \<ge> length ws then Some (True, []) else wait_loop ws (stopcnt + 1) evs)"

text \<open>Whether the workers stopped in time, and the signals sent.\<close>

definition stressWait :: "workerStatT list \<Rightarrow> wait_event list \<Rightarrow> (bool \<times> kill list) option" where
  "stressWait ws evs =
     map_option (\<lambda>(ok, kills). (ok, map (\<lambda>w. Kill (wpid w) SIGTERM) ws @ kills)) (wait_loop ws 0 evs)"

datatype master_end = NoWorker | NotYet | Ended bool bool "kill list"

definition fork_main :: "(nat \<Rightarrow> nat option) \<Rightarrow> nat \<Rightarrow> osig list \<Rightarrow> wait_event list \<Rightarrow> master_end" where
  "fork_main start workerNum sigs evs =
     (let ws = fork_workers start 0 workerNum;
          notified = forwarded (foldl (sigHandle ''[master]'' master_notifys master_exits) sig_start sigs)
      in if ws = [] then NoWorker
         else (case master_wait (length ws) 0 notified of
             None \<Rightarrow> NotYet
           | Some (unexpected, n) \<Rightarrow>
               (case stressWait ws evs of
                  None \<Rightarrow> NotYet
                | Some (ok, kills) \<Rightarrow> Ended unexpected ok kills)))"

section \<open>stressWorker\<close>

text \<open>One turn of the loop: the next count, and whether this turn looks for the master.\<close>

definition stress_turn :: "u64 \<Rightarrow> u64 \<times> bool" where
  "stress_turn count =
     (let divcount = count div 5;
          count1 = count - 1;
          divcount1 = divcount + 1;
          count2 = (if count1 = 0 then - 1 else count1)
      in (count2, divcount1 mod 500000000 = 0))"

fun stress_counts :: "nat \<Rightarrow> u64 \<Rightarrow> u64" where
  "stress_counts 0 count = count"
| "stress_counts (Suc n) count = stress_counts n (fst (stress_turn count))"

section \<open>drop-privileges\<close>

text \<open>What the system answers to \<open>drop\<close>, and the process it starts.\<close>

record drop_env =
  listen80_ok :: bool
  listener_file_ok :: bool
  start_ok :: bool

record spawned =
  sp_uid :: nat
  sp_gid :: nat
  sp_setsid :: bool
  sp_args :: "bytes list"

definition drop_cmd :: "bytes \<Rightarrow> drop_env \<Rightarrow> spawned option" where
  "drop_cmd self env =
     (if \<not> listen80_ok env then None
      else if \<not> listener_file_ok env then None
      else if \<not> start_ok env then None
      else Some \<lparr>sp_uid = 65534, sp_gid = 65534, sp_setsid = True, sp_args = [self, ''-worker'']\<rparr>)"

datatype drop_end = DropExit nat | MasterWaits spawned | Serves nat

definition drop_main :: "bytes \<Rightarrow> bool \<Rightarrow> bool \<Rightarrow> nat \<Rightarrow> drop_env \<Rightarrow> bool \<Rightarrow> drop_end" where
  "drop_main self help worker uid env fd3_ok =
     (if help then DropExit 0
      else if \<not> worker then
        (if uid \<noteq> 0 then DropExit 1
         else (case drop_cmd self env of None \<Rightarrow> DropExit 1 | Some sp \<Rightarrow> MasterWaits sp))
      else if uid = 0 then DropExit 1
      else if \<not> fd3_ok then DropExit 1
      else Serves uid)"

text \<open>What the goroutine of the master sends to the worker for the first signal it is told.\<close>

definition master_relays :: "osig list \<Rightarrow> osig list" where
  "master_relays notified = (case notified of [] \<Rightarrow> [] | sig # _ \<Rightarrow> [sig, SIGKILL, SIGKILL])"

section \<open>Properties\<close>

lemma sigHandle_forwards:
  "forwarded (sigHandle tag notifys exits s sig) =
     forwarded s @ (if sig \<in> set notifys then [sig] else []) @ (if \<not> exiting s \<and> sig \<in> set exits then [sig] else [])"
  "exiting (sigHandle tag notifys exits s sig) \<longleftrightarrow> exiting s \<or> sig \<in> set exits"
  by (auto simp: sigHandle_def Let_def)

text \<open>What a list of signals puts on \<open>exitNotifyChan\<close>: the reference for the handler.\<close>

fun relay :: "osig list \<Rightarrow> osig list \<Rightarrow> bool \<Rightarrow> osig list \<Rightarrow> osig list" where
  "relay notifys exits ex [] = []"
| "relay notifys exits ex (sig # sigs) =
     (if sig \<in> set notifys then [sig] else []) @ (if \<not> ex \<and> sig \<in> set exits then [sig] else [])
     @ relay notifys exits (ex \<or> sig \<in> set exits) sigs"

lemma sigHandle_relay:
  "forwarded (foldl (sigHandle tag notifys exits) s sigs) = forwarded s @ relay notifys exits (exiting s) sigs"
  by (induction sigs arbitrary: s) (auto simp: sigHandle_forwards)

lemma relay_notifys:
  "set notifys \<inter> set exits = {} \<Longrightarrow> filter (\<lambda>s. s \<in> set notifys) (relay notifys exits ex sigs) = filter (\<lambda>s. s \<in> set notifys) sigs"
  by (induction sigs arbitrary: ex) auto

lemma relay_exits:
  "set notifys \<inter> set exits = {} \<Longrightarrow>
     filter (\<lambda>s. s \<in> set exits) (relay notifys exits ex sigs) = (if ex then [] else take 1 (filter (\<lambda>s. s \<in> set exits) sigs))"
  by (induction sigs arbitrary: ex) auto

text \<open>
  The signal handlers of the process tools pass on every signal of the first list, in order, and of
  the signals that end the program exactly the first one; the two versions of the handler pass on
  the same signals.
\<close>

theorem sigHandle_passes_on:
  assumes "set notifys \<inter> set exits = {}"
  shows "filter (\<lambda>s. s \<in> set notifys) (forwarded (foldl (sigHandle tag notifys exits) sig_start sigs)) = filter (\<lambda>s. s \<in> set notifys) sigs
    \<and> filter (\<lambda>s. s \<in> set exits) (forwarded (foldl (sigHandle tag notifys exits) sig_start sigs)) = take 1 (filter (\<lambda>s. s \<in> set exits) sigs)
    \<and> forwarded (foldl (sigHandle_guarded tag notifys exits) sig_start sigs) = forwarded (foldl (sigHandle tag notifys exits) sig_start sigs)"
proof -
  have step: "forwarded (sigHandle_guarded tag notifys exits s sig) = forwarded (sigHandle tag notifys exits s sig)"
      "exiting (sigHandle_guarded tag notifys exits s sig) = exiting (sigHandle tag notifys exits s sig)" for s sig
    by (auto simp: sigHandle_guarded_def sigHandle_def Let_def)
  have "forwarded (foldl (sigHandle_guarded tag notifys exits) s sigs) = forwarded s @ relay notifys exits (exiting s) sigs" for s
    by (induction sigs arbitrary: s) (auto simp: step sigHandle_forwards)
  then show ?thesis
    using relay_notifys [OF assms] relay_exits [OF assms] by (simp add: sigHandle_relay sig_start_def)
qed

theorem sigHandle_passes_on_witness:
  "set master_notifys \<inter> set master_exits = {}
   \<and> filter (\<lambda>s. s \<in> set master_exits) (forwarded (foldl (sigHandle ''m'' master_notifys master_exits) sig_start [SIGCHLD, SIGTERM, 10, SIGINT, SIGCHLD])) = [SIGTERM]"
  using sigHandle_passes_on [of master_notifys master_exits "''m''" "[SIGCHLD, SIGTERM, 10, SIGINT, SIGCHLD]"]
  by (simp add: master_notifys_def master_exits_def)

lemma master_wait_relay:
  assumes "0 < n"
  shows "master_wait n k (relay master_notifys master_exits False sigs) \<noteq> None
    \<longleftrightarrow> (\<exists>s \<in> set sigs. s \<in> set master_exits) \<or> SIGCHLD \<in> set sigs \<and> n \<le> k + count_list sigs SIGCHLD"
proof (induction sigs arbitrary: k)
  case (Cons sig sigs)
  have "SIGCHLD \<notin> set master_exits" by (simp add: master_exits_def)
  then consider "sig = SIGCHLD" "sig \<notin> set master_exits" | "sig \<in> set master_exits" "sig \<noteq> SIGCHLD" | "sig \<noteq> SIGCHLD" "sig \<notin> set master_exits" by metis
  then show ?case
  proof cases
    case 1
    have "SIGCHLD \<notin> set sigs \<Longrightarrow> count_list sigs SIGCHLD = 0" by (induction sigs) auto
    then show ?thesis using 1 Cons.IH [of "Suc k"] by (auto simp: master_notifys_def)
  qed (use Cons.IH in \<open>auto simp: master_notifys_def\<close>)
qed simp

lemma wait_loop_cases:
  assumes "stopcnt < length ws"
  shows "wait_loop ws stopcnt evs =
    (if length ws \<le> stopcnt + length (takeWhile (\<lambda>e. e \<noteq> TimerFired) evs) then Some (True, [])
     else if TimerFired \<in> set evs then Some (False, map (\<lambda>w. Kill (wpid w) SIGKILL) ws)
     else None)"
  using assms
proof (induction evs arbitrary: stopcnt)
  case (Cons e evs)
  then show ?case by (cases e) auto
qed auto

text \<open>
  C28. The master of \<open>fork-cpuaffinity\<close> leaves its loop exactly when a signal that ends the program came or
  as many child signals as it has workers.  It then asks every worker once to stop; it
  reports success when all reports of stopped workers come before the timer, and after the timer
  kills every worker, also those that have stopped.
\<close>

theorem fork_master_ends:
  assumes "fork_workers start 0 n = ws" "ws \<noteq> []"
  shows "fork_main start n sigs evs =
    (if \<not> ((\<exists>s \<in> set sigs. s \<in> set master_exits) \<or> length ws \<le> count_list sigs SIGCHLD) then NotYet
     else let unexpected = fst (the (master_wait (length ws) 0 (relay master_notifys master_exits False sigs)));
              term = map (\<lambda>w. Kill (wpid w) SIGTERM) ws
          in if length ws \<le> length (takeWhile (\<lambda>e. e \<noteq> TimerFired) evs) then Ended unexpected True term
             else if TimerFired \<in> set evs then Ended unexpected False (term @ map (\<lambda>w. Kill (wpid w) SIGKILL) ws)
             else NotYet)"
proof -
  have pos: "0 < length ws" using assms(2) by simp
  have "SIGCHLD \<notin> set sigs \<Longrightarrow> count_list sigs SIGCHLD = 0" by (induction sigs) auto
  then have "master_wait (length ws) 0 (relay master_notifys master_exits False sigs) \<noteq> None
      \<longleftrightarrow> (\<exists>s \<in> set sigs. s \<in> set master_exits) \<or> length ws \<le> count_list sigs SIGCHLD"
    using master_wait_relay [OF pos, of 0 sigs] pos by auto
  then show ?thesis
    using assms pos
    by (auto simp: fork_main_def Let_def sigHandle_relay sig_start_def stressWait_def wait_loop_cases split: option.splits)
qed

theorem fork_master_ends_witness:
  "fork_main (\<lambda>i. if i = 1 then None else Some (100 + i)) 3 [SIGCHLD, 10, SIGTERM] [Stopped 100, Stopped 102]
     = Ended False True [Kill 100 SIGTERM, Kill 102 SIGTERM]"
proof -
  let ?ws = "fork_workers (\<lambda>i. if i = 1 then None else Some (100 + i)) 0 3"
  have ws: "?ws = [\<lparr>widx = 0, wpid = 100, wstopped = False\<rparr>, \<lparr>widx = 2, wpid = 102, wstopped = False\<rparr>]"
    by (simp add: numeral_3_eq_3 numeral_2_eq_2)
  show ?thesis
    using fork_master_ends [OF ws, of "[SIGCHLD, 10, SIGTERM]" "[Stopped 100, Stopped 102]"]
    by (simp add: master_notifys_def master_exits_def)
qed

text \<open>The channel of the reports has room for all of them: the goroutine that polls never blocks.\<close>

definition unstopped :: "workerStatT list \<Rightarrow> nat" where
  "unstopped ws = length (filter (\<lambda>w. \<not> wstopped w) ws)"

lemma poll_pass_unstopped: "poll_pass dead ws = (ws', sent) \<Longrightarrow> unstopped ws' + length sent = unstopped ws"
  by (induction ws arbitrary: ws' sent) (auto simp: unstopped_def Let_def split: prod.splits if_splits)

lemma poll_all_bounded: "length (poll_all deads alivecnt ws) \<le> unstopped ws"
proof (induction deads arbitrary: alivecnt ws)
  case (Cons dead deads)
  obtain ws' sent where p: "poll_pass dead ws = (ws', sent)" by fastforce
  show ?case
    using Cons.IH [of "alivecnt - length sent" ws'] poll_pass_unstopped [OF p] p by (simp add: Let_def)
qed simp

section \<open>The worker looks for its master\<close>

lemma stress_check: "snd (stress_turn c) \<longleftrightarrow> (unat c div 5 + 1) mod 500000000 = 0"
proof -
  have "unat c div 5 + 1 < 2 ^ 64" using unsigned_less [of c, where ?'a = nat] by simp
  then have "unat (c div 5 + 1) = unat c div 5 + 1"
    by (simp add: unat_word_ariths unat_div_distrib)
  then show ?thesis by (simp add: stress_turn_def Let_def word_unat_eq_iff unat_mod_distrib)
qed

lemma stress_turn_down: "1 < unat c \<Longrightarrow> unat (fst (stress_turn c)) = unat c - 1"
proof -
  assume c: "1 < unat c"
  then have "unat (c - 1) = unat c - 1" by (intro unat_minus_one) auto
  moreover have "c - 1 \<noteq> 0" using c calculation by (metis unsigned_0 zero_less_diff less_numeral_extra(3))
  ultimately show ?thesis by (simp add: stress_turn_def Let_def)
qed

lemma stress_counts_down: "n < unat c \<Longrightarrow> unat (stress_counts n c) = unat c - n"
proof (induction n arbitrary: c)
  case (Suc n)
  then have "unat (fst (stress_turn c)) = unat c - 1" by (intro stress_turn_down) simp
  then show ?case using Suc by simp
qed simp

lemma stress_counts_add: "stress_counts (m + n) c = stress_counts n (stress_counts m c)"
  by (induction m arbitrary: c) auto

lemma stress_counts_wrap: "0 < unat c \<Longrightarrow> stress_counts (unat c) c = - 1"
proof -
  assume c: "0 < unat c"
  then obtain n where n: "unat c = n + 1" by (metis Suc_eq_plus1 gr0_implies_Suc)
  have "unat (stress_counts n c) = 1" using stress_counts_down [of n c] n by simp
  then have "stress_counts n c = 1" by (metis unsigned_1 word_unat_eq_iff)
  then show ?thesis unfolding n stress_counts_add by (simp add: stress_turn_def Let_def)
qed

lemma stress_check_soon:
  assumes "2500000000 \<le> unat c"
  shows "\<exists>n < 2500000000. snd (stress_turn (stress_counts n c))"
proof -
  define u where "u = unat c"
  define k where "k = (u div 5 + 1) div 500000000"
  define t where "t = min u (2500000000 * k - 1)"
  have k: "500000000 * k \<le> u div 5 + 1" "u div 5 + 1 < 500000000 * k + 500000000" "1 \<le> k"
    using assms by (auto simp: k_def u_def div_le_mono mult.commute)
  have t: "t \<le> u" "0 < t" "u - t < 2500000000" "t div 5 + 1 = 500000000 * k"
    using k by (auto simp: t_def min_def)
  have "unat (stress_counts (u - t) c) = t"
    using t stress_counts_down [of "u - t" c] by (simp add: u_def)
  then show ?thesis using t by (intro exI [of _ "u - t"]) (simp add: stress_check)
qed

text \<open>
  A worker looks for its master again and again: from every count its loop can hold, one of the next
  five thousand million turns checks whether the master is alive.
\<close>

theorem worker_checks_master:
  assumes "count \<noteq> 0"
  shows "\<exists>n < 5000000000. snd (stress_turn (stress_counts n count))"
proof (cases "2500000000 \<le> unat count")
  case True
  then obtain n where "n < 2500000000" "snd (stress_turn (stress_counts n count))" using stress_check_soon by blast
  then show ?thesis by (intro exI [of _ n]) simp
next
  case False
  have pos: "0 < unat count" using assms by (simp add: unat_gt_0)
  have "2500000000 \<le> unat (- 1 :: u64)" by (simp add: unsigned_minus_1_eq_mask mask_eq_exp_minus_1)
  then obtain n where n: "n < 2500000000" "snd (stress_turn (stress_counts n (- 1)))" using stress_check_soon by blast
  have "snd (stress_turn (stress_counts (unat count + n) count))"
    using n(2) by (simp add: stress_counts_add stress_counts_wrap [OF pos])
  moreover have "unat count + n < 5000000000" using False n(1) by simp
  ultimately show ?thesis by blast
qed

theorem worker_checks_master_witness: "\<exists>n < 5000000000. snd (stress_turn (stress_counts n (- 1)))"
  using worker_checks_master [of "- 1"] by simp

text \<open>Nothing serves as root, and the process the master starts is one that serves.\<close>

lemma drop_main_unprivileged:
  "drop_main self help worker uid env fd3_ok = Serves u \<Longrightarrow> u = uid \<and> uid \<noteq> 0 \<and> worker"
  "drop_main self help worker uid env fd3_ok = MasterWaits sp \<Longrightarrow>
     uid = 0 \<and> drop_main self False (''-worker'' \<in> set (sp_args sp)) (sp_uid sp) env' True = Serves 65534"
  by (auto simp: drop_main_def drop_cmd_def split: if_splits option.splits)

end
