(* ===== verification/File_Search.thy ===== *)
theory File_Search
  imports Go_Strings "HOL-Library.Multiset"
begin

text \<open>
  \<open>src/simplefilesearch/simplefilesearch.go\<close>: search a string in the lines of files and of the
  entries of directories.  \<open>main\<close> opens the names of its list in rounds and hands plain files to
  searching goroutines; another goroutine writes the matching lines.

  The file system is a parameter: what opening a name and reading it as a directory gives.  Go
  visits the entries of a map in any order, and may or may not visit those added during the
  loop, so the walk is a step relation: any name that is not done may be visited next.
\<close>

section \<open>bufsearch\<close>

text \<open>\<open>ReadBytes\<close> with a newline: the line and the rest; \<open>None\<close> when the input ends before one.\<close>

fun ReadBytes :: "bytes \<Rightarrow> (bytes \<times> bytes) option" where
  "ReadBytes [] = None"
| "ReadBytes (c # cs) =
     (if c = CHR 0x0A then Some ([c], cs)
      else (case ReadBytes cs of None \<Rightarrow> None | Some (line, rest) \<Rightarrow> Some (c # line, rest)))"

lemma ReadBytes_rest: "ReadBytes s = Some (line, rest) \<Longrightarrow> s = line @ rest \<and> line \<noteq> []"
  by (induction s arbitrary: line) (auto split: if_splits option.splits)

record searchinfo =
  bufile :: bytes
  prefix :: bytes
  sep :: bytes

function search_lines :: "bytes \<Rightarrow> bytes \<Rightarrow> bytes \<Rightarrow> bytes list" where
  "search_lines sp pre input =
     (case ReadBytes input of
        None \<Rightarrow> []
      | Some (line, rest) \<Rightarrow>
          if Index line sp = None then search_lines sp pre rest
          else (if length pre > 0 then pre @ line else line) # search_lines sp pre rest)"
  by pat_completeness auto
termination
  by (relation "measure (\<lambda>(sp, pre, input). length input)") (auto dest!: ReadBytes_rest)

declare search_lines.simps [simp del]

text \<open>The messages one goroutine sends for the files it takes from its channel.\<close>

definition bufsearch :: "searchinfo list \<Rightarrow> bytes list" where
  "bufsearch infos = concat (map (\<lambda>i. search_lines (sep i) (prefix i) (bufile i)) infos)"

section \<open>The writer\<close>

text \<open>
  \<open>bufio.Writer\<close> with its 4096 bytes: what has gone to the standard output, and the buffer.
\<close>

abbreviation bufsize :: nat where "bufsize \<equiv> 4096"

function buf_write :: "bytes \<Rightarrow> bytes \<times> bytes \<Rightarrow> bytes \<times> bytes" where
  "buf_write p (out, buf) =
     (if length p > bufsize - length buf then
        (if buf = [] then (out @ p, [])
         else let n = bufsize - length buf in buf_write (drop n p) (out @ buf @ take n p, []))
      else (out, buf @ p))"
  by pat_completeness auto
termination
  by (relation "measure (\<lambda>(p, out, buf). length buf)") auto

declare buf_write.simps [simp del]

definition write_all :: "bytes list \<Rightarrow> bytes \<times> bytes" where
  "write_all msgs = foldl (\<lambda>w m. buf_write m w) ([], []) msgs"

section \<open>The walk of main\<close>

datatype fs_entry = OpenFails | DirFails | Dir "bytes list" | File bytes

record walk =
  allfiles :: "bytes \<rightharpoonup> bool"
  workers :: nat
  sent :: "searchinfo list"
  errors :: "bytes list"

text \<open>The flag of a name is its field \<open>done\<close>.\<close>

definition add_names :: "bytes list \<Rightarrow> (bytes \<rightharpoonup> bool) \<Rightarrow> (bytes \<rightharpoonup> bool)" where
  "add_names ns m = foldl (\<lambda>m n. m(n \<mapsto> False)) m ns"

definition walk_start :: "bytes list \<Rightarrow> walk" where
  "walk_start files = \<lparr>allfiles = add_names files Map.empty, workers = 0, sent = [], errors = []\<rparr>"

definition visit :: "(bytes \<Rightarrow> fs_entry) \<Rightarrow> nat \<Rightarrow> nat \<Rightarrow> bytes \<Rightarrow> bytes \<Rightarrow> walk \<Rightarrow> walk" where
  "visit fs ncpu nfiles sp onefile w =
     (let w1 = w\<lparr>allfiles := (allfiles w)(onefile \<mapsto> True)\<rparr>
      in case fs onefile of
           OpenFails \<Rightarrow> w1\<lparr>errors := errors w1 @ [onefile]\<rparr>
         | DirFails \<Rightarrow> w1\<lparr>errors := errors w1 @ [onefile]\<rparr>
         | Dir dirfiles \<Rightarrow> w1\<lparr>allfiles := add_names dirfiles (allfiles w1)\<rparr>
         | File content \<Rightarrow>
             w1\<lparr>workers := (if length (sent w1) < ncpu then workers w1 + 1 else workers w1),
                sent := sent w1 @ [\<lparr>bufile = content, prefix = (if nfiles > 1 then onefile @ '':'' else []), sep = sp\<rparr>]\<rparr>)"

inductive walk_step :: "(bytes \<Rightarrow> fs_entry) \<Rightarrow> nat \<Rightarrow> nat \<Rightarrow> bytes \<Rightarrow> walk \<Rightarrow> walk \<Rightarrow> bool"
  for fs ncpu nfiles sp where
  walk_visit: "allfiles w onefile = Some False \<Longrightarrow> walk_step fs ncpu nfiles sp w (visit fs ncpu nfiles sp onefile w)"

definition todo :: "walk \<Rightarrow> bytes set" where
  "todo w = {n. allfiles w n = Some False}"

text \<open>The loop ends when a round has found nothing to do.\<close>

definition walk_done :: "walk \<Rightarrow> bool" where
  "walk_done w \<longleftrightarrow> todo w = {}"

section \<open>What is found\<close>

text \<open>The lines of an input, each with its newline.\<close>

fun full_lines :: "bytes \<Rightarrow> bytes \<Rightarrow> bytes list" where
  "full_lines acc [] = []"
| "full_lines acc (c # cs) = (if c = CHR 0x0A then (acc @ [c]) # full_lines [] cs else full_lines (acc @ [c]) cs)"

lemma full_lines_ReadBytes:
  "full_lines acc s = (case ReadBytes s of None \<Rightarrow> [] | Some (line, rest) \<Rightarrow> (acc @ line) # full_lines [] rest)"
  by (induction s arbitrary: acc) (auto split: option.splits)

lemma search_lines_filter:
  "search_lines sp pre input = map (\<lambda>l. pre @ l) (filter (\<lambda>l. sublist sp l) (full_lines [] input))"
proof (induction "length input" arbitrary: input rule: less_induct)
  case less
  show ?case
  proof (cases "ReadBytes input")
    case None
    then show ?thesis by (subst search_lines.simps) (simp add: full_lines_ReadBytes [of "[]" input])
  next
    case (Some lr)
    obtain line rest where lr: "lr = (line, rest)" by fastforce
    have "length rest < length input" using ReadBytes_rest Some lr by fastforce
    then show ?thesis
      using less [of rest] Some lr
      by (subst search_lines.simps) (simp add: full_lines_ReadBytes [of "[]" input] Index_None)
  qed
qed

text \<open>
  A searching goroutine reports exactly the lines that contain the string, in order and with the
  prefix of their file, among the lines that end in a newline: what follows the last newline of a
  file is never searched.
\<close>

theorem bufsearch_finds:
  "bufsearch infos = concat (map (\<lambda>i. map (\<lambda>l. prefix i @ l) (filter (\<lambda>l. sublist (sep i) l) (full_lines [] (bufile i)))) infos)"
  by (simp add: bufsearch_def search_lines_filter)

lemma buf_write_appends:
  "length buf \<le> bufsize \<Longrightarrow> buf_write p (out, buf) = (out', buf') \<Longrightarrow>
     out' @ buf' = out @ buf @ p \<and> length buf' \<le> bufsize \<and> (length (buf @ p) \<le> bufsize \<longrightarrow> out' = out)"
proof (induction p "(out, buf)" arbitrary: out buf rule: buf_write.induct)
  case (1 p out buf)
  show ?case
  proof (cases "length p > bufsize - length buf \<and> buf \<noteq> []")
    case True
    let ?n = "bufsize - length buf"
    have "buf_write (drop ?n p) (out @ buf @ take ?n p, []) = (out', buf')"
      using True 1(3) by (subst (asm) buf_write.simps) (simp add: Let_def)
    from 1(1) [OF _ _ refl _ this] True have "out' @ buf' = out @ buf @ take ?n p @ drop ?n p" "length buf' \<le> bufsize" by auto
    moreover have "\<not> length (buf @ p) \<le> bufsize" using True by auto
    ultimately show ?thesis by simp
  next
    case False
    then show ?thesis using 1(2,3) by (subst (asm) buf_write.simps) (auto split: if_splits)
  qed
qed

lemma write_all_appends:
  "fst (write_all msgs) @ snd (write_all msgs) = concat msgs \<and> length (snd (write_all msgs)) \<le> bufsize
   \<and> (length (concat msgs) \<le> bufsize \<longrightarrow> fst (write_all msgs) = [])"
proof (induction msgs rule: rev_induct)
  case (snoc m msgs)
  obtain out buf where ob: "write_all msgs = (out, buf)" by fastforce
  obtain out' buf' where ob': "buf_write m (out, buf) = (out', buf')" by fastforce
  have "write_all (msgs @ [m]) = (out', buf')" using ob ob' by (simp add: write_all_def)
  then show ?case
    using snoc ob buf_write_appends [OF _ ob'] by (auto simp del: append_assoc simp: append_assoc [symmetric])
qed (simp add: write_all_def)

text \<open>
  What reaches the standard output is the matching lines less what is left in the writer's buffer,
  which nothing flushes: up to 4096 bytes at the end are lost, and a result of at most 4096 bytes is
  not shown at all.
\<close>

theorem output_loses_tail:
  "\<exists>lost. concat msgs = fst (write_all msgs) @ lost \<and> length lost \<le> 4096
     \<and> (length (concat msgs) \<le> 4096 \<longrightarrow> fst (write_all msgs) = [])"
  using write_all_appends [of msgs] by (intro exI [of _ "snd (write_all msgs)"]) auto

theorem output_loses_tail_witness:
  "fst (write_all (bufsearch [\<lparr>bufile = ''ab'' @ [CHR 0x0A] @ ''cd'' @ [CHR 0x0A], prefix = [], sep = ''b''\<rparr>])) = []"
proof -
  let ?msgs = "bufsearch [\<lparr>bufile = ''ab'' @ [CHR 0x0A] @ ''cd'' @ [CHR 0x0A], prefix = [], sep = ''b''\<rparr>]"
  have "length (concat ?msgs) \<le> 4096" by (simp add: bufsearch_def search_lines_filter)
  then show ?thesis using output_loses_tail [of ?msgs] by auto
qed

section \<open>Whether the walk ends\<close>

lemma add_names_eq: "add_names ns m n = (if n \<in> set ns then Some False else m n)"
  by (induction ns arbitrary: m) (auto simp: add_names_def)

lemma todo_visit:
  "todo (visit fs ncpu nfiles sp n w) = (todo w - {n}) \<union> (case fs n of Dir ns \<Rightarrow> set ns | _ \<Rightarrow> {})"
  by (auto simp: todo_def visit_def Let_def add_names_eq split: fs_entry.splits if_splits)

lemma todo_start: "todo (walk_start files) = set files"
  by (auto simp: todo_def walk_start_def add_names_eq)

text \<open>Only finitely many names wait, and a directory that lists itself waits again after its visit.\<close>

definition lists_itself :: "(bytes \<Rightarrow> fs_entry) \<Rightarrow> bytes \<Rightarrow> bool" where
  "lists_itself fs d = (case fs d of Dir ns \<Rightarrow> d \<in> set ns | _ \<Rightarrow> False)"

interpretation fin: transition_invariant "walk_step fs ncpu nfiles sp" "\<lambda>w. finite (todo w)" for fs ncpu nfiles sp
  by unfold_locales (auto simp: todo_visit elim!: walk_step.cases split: fs_entry.splits)

interpretation again: transition_invariant "walk_step fs ncpu nfiles sp" "\<lambda>w. lists_itself fs d \<longrightarrow> d \<in> todo w" for fs ncpu nfiles sp d
  by unfold_locales (auto simp: todo_visit lists_itself_def elim!: walk_step.cases split: fs_entry.splits)

text \<open>A step takes a name away and adds names of smaller rank.\<close>

lemma walk_step_decreases:
  assumes "\<And>n ns m. fs n = Dir ns \<Longrightarrow> m \<in> set ns \<Longrightarrow> rank m < rank n" "finite (todo w)" "walk_step fs ncpu nfiles sp w w'"
  shows "(image_mset rank (mset_set (todo w')), image_mset rank (mset_set (todo w))) \<in> mult {(a, b). a < (b :: nat)}"
proof -
  obtain n where n: "n \<in> todo w" "w' = visit fs ncpu nfiles sp n w"
    using assms(3) by (auto simp: todo_def elim: walk_step.cases)
  define new where "new = (case fs n of Dir ns \<Rightarrow> set ns | _ \<Rightarrow> {}) - (todo w - {n})"
  have "todo w' = (todo w - {n}) \<union> new" "(todo w - {n}) \<inter> new = {}" "finite new"
    by (auto simp: n(2) todo_visit new_def split: fs_entry.splits)
  then have after: "mset_set (todo w') = mset_set (todo w - {n}) + mset_set new"
    using assms(2) by (simp add: mset_set_Union)
  have before: "mset_set (todo w) = mset_set (todo w - {n}) + {#n#}"
    using assms(2) n(1) mset_set.remove [of "todo w" n] by simp
  have "rank m < rank n" if "m \<in> new" for m
    using that assms(1) [of n] by (auto simp: new_def split: fs_entry.splits)
  then have "\<forall>k \<in># image_mset rank (mset_set new). \<exists>j \<in># image_mset rank {#n#}. (k, j) \<in> {(a, b). a < b}"
    using \<open>finite new\<close> by auto
  then show ?thesis
    unfolding after before image_mset_union by (intro one_step_implies_mult) auto
qed

text \<open>
  When names do not come back, that is when they can be ranked so that the entries of a directory
  rank below it, the walk ends whatever the order of the visits: there is no infinite sequence of
  steps.
\<close>

theorem walk_ends:
  assumes "\<And>n ns m. fs n = Dir ns \<Longrightarrow> m \<in> set ns \<Longrightarrow> rank m < (rank n :: nat)"
  shows "\<not> (\<exists>ws. ws 0 = walk_start files \<and> (\<forall>k. walk_step fs ncpu nfiles sp (ws k) (ws (Suc k))))"
proof
  assume "\<exists>ws. ws 0 = walk_start files \<and> (\<forall>k. walk_step fs ncpu nfiles sp (ws k) (ws (Suc k)))"
  then obtain ws where ws: "ws 0 = walk_start files" "\<And>k. walk_step fs ncpu nfiles sp (ws k) (ws (Suc k))" by blast
  have "reaches (walk_step fs ncpu nfiles sp) (walk_start files) (ws k)" for k
    by (induction k) (auto simp: ws(1) [symmetric] intro: reaches_refl reaches_step ws(2))
  then have "finite (todo (ws k))" for k using fin.inv_reaches by (metis List.finite_set todo_start)
  then have down: "(image_mset rank (mset_set (todo (ws (Suc k)))), image_mset rank (mset_set (todo (ws k)))) \<in> mult {(a, b). a < b}" for k
    using walk_step_decreases [of fs rank "ws k" ncpu nfiles sp "ws (Suc k)"] assms ws(2) by blast
  have "wf (mult {(a, b). a < (b :: nat)})" using wf by (intro wf_mult)
  then have "\<not> (\<forall>i. (f (Suc i), f i) \<in> mult {(a, b). a < (b :: nat)})" for f
    unfolding wf_iff_no_infinite_down_chain by blast
  from this [of "\<lambda>k. image_mset rank (mset_set (todo (ws k)))"] show False using down by blast
qed

text \<open>
  A directory that has an entry of its own name keeps the walk going for ever: after every visit of it
  the name is again not done, so no state that can be reached is a final one.  (Entries are opened
  by their bare name, without the directory they were found in.)
\<close>

theorem walk_never_ends:
  assumes "fs d = Dir ns" "d \<in> set ns" "d \<in> set files" "reaches (walk_step fs ncpu nfiles sp) (walk_start files) w"
  shows "\<not> walk_done w \<and> (\<exists>w'. walk_step fs ncpu nfiles sp w w')"
proof -
  have "lists_itself fs d" using assms(1,2) by (simp add: lists_itself_def)
  then have "d \<in> todo w" using again.inv_reaches [OF assms(4), of d] assms(3) by (simp add: todo_start)
  then show ?thesis using walk_visit [of w d fs ncpu nfiles sp] by (auto simp: walk_done_def todo_def)
qed

definition sample_fs :: "bytes \<Rightarrow> fs_entry" where
  "sample_fs n = (if n = ''d'' then Dir [''f''] else if n = ''f'' then File ''x'' else if n = ''e'' then Dir [''e''] else OpenFails)"

theorem walk_ends_witness:
  "\<not> (\<exists>ws. ws 0 = walk_start [''d''] \<and> (\<forall>k. walk_step (sample_fs(''e'' := OpenFails)) 4 1 ''x'' (ws k) (ws (Suc k))))"
proof (rule walk_ends [of _ "\<lambda>n. if n = ''d'' then 1 else 0"])
  show "(if m = ''d'' then 1 else 0) < (if n = ''d'' then 1 else (0::nat))"
    if "(sample_fs(''e'' := OpenFails)) n = Dir ns" "m \<in> set ns" for n ns m
    using that by (auto simp: sample_fs_def split: if_splits)
qed

theorem walk_never_ends_witness:
  "\<not> walk_done (walk_start [''e'']) \<and> (\<exists>w'. walk_step sample_fs 4 1 ''x'' (walk_start [''e'']) w')"
  using walk_never_ends [of sample_fs "''e''" "[''e'']" "[''e'']" 4 1 "''x''" "walk_start [''e'']"]
  by (auto simp: sample_fs_def intro: reaches_refl)

end
