(* ===== verification/Search_System.thy ===== *)
theory Search_System
  imports File_Search
begin

text \<open>
  All goroutines of \<open>src/simplefilesearch/simplefilesearch.go\<close> together: \<open>main\<close>, which walks and hands files over a bounded
  channel, the searching goroutines, and the goroutine that writes.  The visits are those of \<open>File_Search\<close>; here a search
  goes line by line, and every operation on a channel or on the wait group is a step of its own.

  \<open>ncpu\<close> is what \<open>GoMaxCPUs\<close> answers, \<open>nfiles\<close> the number of names on the command line.
\<close>

section \<open>The goroutines\<close>

datatype searcher_pc = SwTake | SwRead searchinfo | SwSend searchinfo bytes | SwEnd

datatype walker_pc = SmWalk | SmSend searchinfo | SmWait | SmReturn | SmEnd

text \<open>
  \<open>out\<close> is the writer of \<open>File_Search\<close>: what has gone to the standard output, and its buffer.  \<open>taken\<close> are the messages that
  the writing goroutine has received.
\<close>

record search_sys =
  found :: walk
  walker :: walker_pc
  in_ch :: "searchinfo list"
  in_closed :: bool
  searchers :: "searcher_pc list"
  wg :: nat
  out_ch :: "bytes list"
  out_closed :: bool
  out :: "bytes \<times> bytes"
  taken :: "bytes list"

abbreviation ch_cap :: "nat \<Rightarrow> nat" where "ch_cap ncpu \<equiv> ncpu * 4096"

definition search_start :: "bytes list \<Rightarrow> search_sys" where
  "search_start files = \<lparr>found = walk_start files, walker = SmWalk, in_ch = [], in_closed = False, searchers = [], wg = 0,
     out_ch = [], out_closed = False, out = ([], []), taken = []\<rparr>"

text \<open>Without a string or a name \<open>main\<close> shows its usage and exits.\<close>

definition search_begin :: "bool \<Rightarrow> bytes \<Rightarrow> bytes list \<Rightarrow> search_sys option" where
  "search_begin help sp files = (if help \<or> length sp = 0 \<or> length files = 0 then None else Some (search_start files))"

text \<open>A visit of \<open>main\<close>: a plain file may start a goroutine and is then sent.\<close>

definition main_visit :: "(bytes \<Rightarrow> fs_entry) \<Rightarrow> nat \<Rightarrow> nat \<Rightarrow> bytes \<Rightarrow> bytes \<Rightarrow> search_sys \<Rightarrow> search_sys" where
  "main_visit fs ncpu nfiles sp n s =
     (let w = visit fs ncpu nfiles sp n (found s); new = workers w - workers (found s)
      in s\<lparr>found := w, searchers := searchers s @ replicate new SwTake, wg := wg s + new,
           walker := (if length (sent w) > length (sent (found s)) then SmSend (last (sent w)) else SmWalk)\<rparr>)"

text \<open>One turn of the inner loop of \<open>bufsearch\<close>.\<close>

definition read_line :: "searchinfo \<Rightarrow> searcher_pc" where
  "read_line i =
     (case ReadBytes (bufile i) of
        None \<Rightarrow> SwTake
      | Some (line, rest) \<Rightarrow>
          (let i1 = i\<lparr>bufile := rest\<rparr>
           in if Index line (sep i) = None then SwRead i1
              else SwSend i1 (if length (prefix i) > 0 then prefix i @ line else line)))"

text \<open>The process ends with \<open>main\<close>, whatever the others do.  A send on a closed channel would panic; none happens (below).\<close>

inductive search_step :: "(bytes \<Rightarrow> fs_entry) \<Rightarrow> nat \<Rightarrow> nat \<Rightarrow> bytes \<Rightarrow> search_sys \<Rightarrow> search_sys \<Rightarrow> bool"
  for fs ncpu nfiles sp where
  m_visit: "walker s = SmWalk \<Longrightarrow> allfiles (found s) n = Some False \<Longrightarrow> search_step fs ncpu nfiles sp s (main_visit fs ncpu nfiles sp n s)"
| m_send: "walker s = SmSend i \<Longrightarrow> length (in_ch s) < ch_cap ncpu \<Longrightarrow>
    search_step fs ncpu nfiles sp s (s\<lparr>in_ch := in_ch s @ [i], walker := SmWalk\<rparr>)"
| m_close: "walker s = SmWalk \<Longrightarrow> walk_done (found s) \<Longrightarrow> search_step fs ncpu nfiles sp s (s\<lparr>in_closed := True, walker := SmWait\<rparr>)"
| m_waited: "walker s = SmWait \<Longrightarrow> wg s = 0 \<Longrightarrow> search_step fs ncpu nfiles sp s (s\<lparr>out_closed := True, walker := SmReturn\<rparr>)"
| m_return: "walker s = SmReturn \<Longrightarrow> search_step fs ncpu nfiles sp s (s\<lparr>walker := SmEnd\<rparr>)"
| s_take: "k < length (searchers s) \<Longrightarrow> searchers s ! k = SwTake \<Longrightarrow> in_ch s = i # rest \<Longrightarrow> walker s \<noteq> SmEnd \<Longrightarrow>
    search_step fs ncpu nfiles sp s (s\<lparr>in_ch := rest, searchers := (searchers s)[k := SwRead i]\<rparr>)"
| s_end: "k < length (searchers s) \<Longrightarrow> searchers s ! k = SwTake \<Longrightarrow> in_ch s = [] \<Longrightarrow> in_closed s \<Longrightarrow> walker s \<noteq> SmEnd \<Longrightarrow>
    search_step fs ncpu nfiles sp s (s\<lparr>wg := wg s - 1, searchers := (searchers s)[k := SwEnd]\<rparr>)"
| s_read: "k < length (searchers s) \<Longrightarrow> searchers s ! k = SwRead i \<Longrightarrow> walker s \<noteq> SmEnd \<Longrightarrow>
    search_step fs ncpu nfiles sp s (s\<lparr>searchers := (searchers s)[k := read_line i]\<rparr>)"
| s_send: "k < length (searchers s) \<Longrightarrow> searchers s ! k = SwSend i m \<Longrightarrow> length (out_ch s) < ch_cap ncpu \<Longrightarrow> walker s \<noteq> SmEnd \<Longrightarrow>
    search_step fs ncpu nfiles sp s (s\<lparr>out_ch := out_ch s @ [m], searchers := (searchers s)[k := SwRead i]\<rparr>)"
| w_write: "out_ch s = m # ms \<Longrightarrow> walker s \<noteq> SmEnd \<Longrightarrow>
    search_step fs ncpu nfiles sp s (s\<lparr>out_ch := ms, out := buf_write m (out s), taken := taken s @ [m]\<rparr>)"

end
