(* ===== verification/Search_System_Props.thy ===== *)
theory Search_System_Props
  imports Search_System
begin

text \<open>
  Properties of the whole file search: what is reported when the process ends, that it ends, and that what it has found may
  still be lost.
\<close>

section \<open>What is still to be reported\<close>

abbreviation hits :: "searchinfo \<Rightarrow> bytes multiset" where
  "hits i \<equiv> mset (search_lines (sep i) (prefix i) (bufile i))"

fun coming :: "searcher_pc \<Rightarrow> bytes multiset" where
  "coming SwTake = {#}" | "coming (SwRead i) = hits i" | "coming (SwSend i m) = {#m#} + hits i" | "coming SwEnd = {#}"

fun unsent :: "walker_pc \<Rightarrow> bytes multiset" where
  "unsent (SmSend i) = hits i" | "unsent _ = {#}"

lemma coming_read_line: "coming (read_line i) = hits i"
  by (cases "ReadBytes (bufile i)") (auto simp: read_line_def Let_def search_lines.simps [of "sep i" "prefix i" "bufile i"])

lemma mset_bufsearch: "mset (bufsearch infos) = sum_list (map hits infos)"
  by (induction infos) (simp_all add: bufsearch_def)

text \<open>A sum over the goroutines, with one of them taken out.\<close>

lemma sum_split:
  fixes f :: "'a \<Rightarrow> 'b :: comm_monoid_add"
  assumes "i < length xs"
  obtains rest where "sum_list (map f xs) = f (xs ! i) + rest" "\<And>y. sum_list (map f (xs[i := y])) = f y + rest"
  using assms
proof (induction xs arbitrary: i thesis)
  case (Cons x xs)
  show ?case
  proof (cases i)
    case 0
    then show ?thesis using Cons.prems(1) [of "sum_list (map f xs)"] by simp
  next
    case (Suc j)
    then obtain rest where "sum_list (map f xs) = f (xs ! j) + rest" "\<And>y. sum_list (map f (xs[j := y])) = f y + rest"
      using Cons.IH [of j] Cons.prems(2) by auto
    then show ?thesis using Suc Cons.prems(1) [of "f x + rest"] by (simp add: ac_simps)
  qed
qed simp

definition reported :: "search_sys \<Rightarrow> bytes multiset" where
  "reported s = mset (taken s) + mset (out_ch s) + sum_list (map coming (searchers s)) + sum_list (map hits (in_ch s)) + unsent (walker s)"

definition going :: "searcher_pc list \<Rightarrow> nat" where
  "going ps = sum_list (map (\<lambda>p. if p = SwEnd then 0 else 1) ps)"

text \<open>
  Every message is in one place; the channels keep their capacity; the wait group counts the goroutines that have not
  ended; none ends before the channel of files is closed and empty; and there is one as soon as there is a file.
\<close>

definition search_ok :: "nat \<Rightarrow> search_sys \<Rightarrow> bool" where
  "search_ok ncpu s \<longleftrightarrow>
     reported s = mset (bufsearch (sent (found s))) \<and> out s = write_all (taken s)
     \<and> length (in_ch s) \<le> ch_cap ncpu \<and> length (out_ch s) \<le> ch_cap ncpu
     \<and> wg s = going (searchers s)
     \<and> (in_closed s \<longleftrightarrow> walker s \<in> {SmWait, SmReturn, SmEnd}) \<and> (out_closed s \<longleftrightarrow> walker s \<in> {SmReturn, SmEnd})
     \<and> (in_closed s \<longrightarrow> walk_done (found s)) \<and> (out_closed s \<longrightarrow> wg s = 0)
     \<and> (SwEnd \<in> set (searchers s) \<longrightarrow> in_closed s \<and> in_ch s = [])
     \<and> (0 < ncpu \<and> sent (found s) \<noteq> [] \<longrightarrow> searchers s \<noteq> [])
     \<and> (in_ch s \<noteq> [] \<or> (\<exists>i. walker s = SmSend i) \<longrightarrow> sent (found s) \<noteq> [])"

lemma search_ok_start: "search_ok ncpu (search_start files)"
  by (simp add: search_ok_def search_start_def reported_def going_def walk_start_def bufsearch_def write_all_def)

lemma going_out: "k < length ps \<Longrightarrow> ps ! k \<noteq> SwEnd \<Longrightarrow> going (ps[k := SwEnd]) = going ps - 1"
  unfolding going_def by (rule sum_split [of k ps "\<lambda>p. if p = SwEnd then 0 else 1 :: nat"]) auto

lemma going_same: "k < length ps \<Longrightarrow> ps ! k \<noteq> SwEnd \<Longrightarrow> p \<noteq> SwEnd \<Longrightarrow> going (ps[k := p]) = going ps"
  unfolding going_def by (rule sum_split [of k ps "\<lambda>p. if p = SwEnd then 0 else 1 :: nat"]) auto

lemma going_zero: "going ps = 0 \<longleftrightarrow> set ps \<subseteq> {SwEnd}"
  by (induction ps) (auto simp: going_def)

lemma going_more: "going (ps @ replicate n SwTake) = going ps + n"
  by (induction n) (auto simp: going_def sum_list_replicate_nat)

lemma visit_sent:
  "sent (visit fs ncpu nfiles sp n w) = sent w \<and> workers (visit fs ncpu nfiles sp n w) = workers w
   \<or> (\<exists>i. sent (visit fs ncpu nfiles sp n w) = sent w @ [i]
        \<and> workers (visit fs ncpu nfiles sp n w) - workers w = (if length (sent w) < ncpu then 1 else 0))"
  by (auto simp: visit_def Let_def split: fs_entry.splits)

lemma main_visit_ok:
  assumes "search_ok ncpu s" "walker s = SmWalk"
  shows "search_ok ncpu (main_visit fs ncpu nfiles sp n s)"
  using visit_sent [of fs ncpu nfiles sp n "found s"]
proof
  assume "sent (visit fs ncpu nfiles sp n (found s)) = sent (found s) \<and> workers (visit fs ncpu nfiles sp n (found s)) = workers (found s)"
  then show ?thesis using assms by (auto simp: search_ok_def main_visit_def Let_def reported_def)
next
  assume "\<exists>i. sent (visit fs ncpu nfiles sp n (found s)) = sent (found s) @ [i]
      \<and> workers (visit fs ncpu nfiles sp n (found s)) - workers (found s) = (if length (sent (found s)) < ncpu then 1 else 0)"
  then show ?thesis using assms by (auto simp: search_ok_def main_visit_def Let_def reported_def mset_bufsearch going_more ac_simps)
qed

lemma searcher_ended_update: "SwEnd \<in> set (ps[k := p]) \<Longrightarrow> p = SwEnd \<or> SwEnd \<in> set ps"
  using set_update_subset_insert [of ps k p] by auto

lemma coming_same: "k < length ps \<Longrightarrow> coming p + d = coming (ps ! k) + e \<Longrightarrow>
    sum_list (map coming (ps[k := p])) + d = sum_list (map coming ps) + e"
  by (rule sum_split [of k ps coming]) (auto simp: ac_simps)

lemma read_line_live: "read_line i \<noteq> SwEnd"
  by (auto simp: read_line_def Let_def split: option.splits)

lemma write_all_snoc: "write_all (ms @ [m]) = buf_write m (write_all ms)"
  by (simp add: write_all_def)

lemma search_step_ok:
  assumes "search_step fs ncpu nfiles sp s t" "search_ok ncpu s"
  shows "search_ok ncpu t"
  using assms(1)
proof cases
  case (m_visit n)
  then show ?thesis using main_visit_ok assms(2) by blast
next
  case (m_send i)
  then show ?thesis using assms(2) by (auto simp: search_ok_def reported_def ac_simps)
next
  case (s_take k i rest)
  have "reported t = reported s"
    using coming_same [of k "searchers s" "SwRead i" "{#}" "hits i"] s_take by (simp add: reported_def ac_simps)
  moreover have "going ((searchers s)[k := SwRead i]) = going (searchers s)"
    using going_same [of k "searchers s" "SwRead i"] s_take by simp
  moreover have "SwEnd \<notin> set ((searchers s)[k := SwRead i])"
    using searcher_ended_update [of "searchers s" k "SwRead i"] s_take assms(2) by (auto simp: search_ok_def)
  ultimately show ?thesis using assms(2) s_take by (auto simp: search_ok_def)
next
  case (s_end k)
  have "reported t = reported s"
    using coming_same [of k "searchers s" SwEnd "{#}" "{#}"] s_end by (simp add: reported_def)
  moreover have "going ((searchers s)[k := SwEnd]) = going (searchers s) - 1"
    using going_out [of k "searchers s"] s_end by simp
  ultimately show ?thesis using assms(2) s_end by (auto simp: search_ok_def)
next
  case (s_read k i)
  have "reported t = reported s"
    using coming_same [of k "searchers s" "read_line i" "{#}" "{#}"] s_read by (simp add: coming_read_line reported_def)
  moreover have "going ((searchers s)[k := read_line i]) = going (searchers s)"
    using going_same [of k "searchers s" "read_line i"] s_read by (simp add: read_line_live)
  moreover have "SwEnd \<in> set ((searchers s)[k := read_line i]) \<Longrightarrow> SwEnd \<in> set (searchers s)"
    using searcher_ended_update [of "searchers s" k "read_line i"] read_line_live by blast
  ultimately show ?thesis using assms(2) s_read by (auto simp: search_ok_def)
next
  case (s_send k i m)
  have "reported t = reported s"
    using coming_same [of k "searchers s" "SwRead i" "{#m#}" "{#}"] s_send by (simp add: reported_def ac_simps)
  moreover have "going ((searchers s)[k := SwRead i]) = going (searchers s)"
    using going_same [of k "searchers s" "SwRead i"] s_send by simp
  moreover have "SwEnd \<in> set ((searchers s)[k := SwRead i]) \<Longrightarrow> SwEnd \<in> set (searchers s)"
    using searcher_ended_update [of "searchers s" k "SwRead i"] by blast
  ultimately show ?thesis using assms(2) s_send by (auto simp: search_ok_def)
next
  case (w_write m ms)
  then show ?thesis using assms(2) by (auto simp: search_ok_def reported_def write_all_snoc)
qed (use assms(2) in \<open>auto simp: search_ok_def reported_def\<close>)

interpretation search: transition_invariant "search_step fs ncpu nfiles sp" "search_ok ncpu" for fs ncpu nfiles sp
  by unfold_locales (rule search_step_ok)

section \<open>What is found\<close>

text \<open>The walk is that of \<open>File_Search\<close>.\<close>

lemma found_reaches:
  assumes "reaches (search_step fs ncpu nfiles sp) (search_start files) s"
  shows "reaches (walk_step fs ncpu nfiles sp) (walk_start files) (found s)"
  using assms
proof (induction "search_start files" s rule: reaches.induct)
  case reaches_refl
  then show ?case by (simp add: search_start_def reaches.reaches_refl)
next
  case (reaches_step t u)
  have step: "found u = found t \<or> walk_step fs ncpu nfiles sp (found t) (found u)"
    using reaches_step(3) by cases (auto simp: main_visit_def Let_def intro: walk_visit)
  show ?case
  proof (cases "found u = found t")
    case True
    then show ?thesis using reaches_step(2) by simp
  next
    case False
    then show ?thesis using step reaches.reaches_step [OF reaches_step(2)] by simp
  qed
qed












section \<open>That it ends\<close>

fun searcher_left :: "searcher_pc \<Rightarrow> nat" where
  "searcher_left SwTake = 1" | "searcher_left (SwRead i) = 3 * length (bufile i) + 2"
| "searcher_left (SwSend i m) = 3 * length (bufile i) + 4" | "searcher_left SwEnd = 0"

fun walker_left :: "walker_pc \<Rightarrow> nat" where
  "walker_left SmWalk = 3" | "walker_left (SmSend i) = 3 * length (bufile i) + 6" | "walker_left SmWait = 2"
| "walker_left SmReturn = 1" | "walker_left SmEnd = 0"

definition search_left :: "search_sys \<Rightarrow> nat" where
  "search_left s = walker_left (walker s) + sum_list (map (\<lambda>i. 3 * length (bufile i) + 2) (in_ch s))
     + sum_list (map searcher_left (searchers s)) + length (out_ch s)"

lemma read_line_left: "searcher_left (read_line i) < 3 * length (bufile i) + 2"
proof (cases "ReadBytes (bufile i)")
  case (Some lr)
  then obtain line rest where "ReadBytes (bufile i) = Some (line, rest)" by (cases lr) auto
  then show ?thesis using ReadBytes_rest [of "bufile i" line rest] by (cases line) (auto simp: read_line_def Let_def)
qed (simp add: read_line_def)

lemma sum_left: "k < length ps \<Longrightarrow> sum_list (map searcher_left (ps[k := p])) + searcher_left (ps ! k) = sum_list (map searcher_left ps) + searcher_left p"
  by (rule sum_update_nat)

lemma search_left_less:
  assumes "search_step fs ncpu nfiles sp s t"
  shows "walk_step fs ncpu nfiles sp (found s) (found t) \<or> found t = found s \<and> search_left t < search_left s"
  using assms
proof cases
  case (m_visit n)
  then show ?thesis by (auto simp: main_visit_def Let_def intro: walk_visit)
next
  case (s_take k i rest)
  then show ?thesis using sum_left [of k "searchers s" "SwRead i"] by (simp add: search_left_def)
next
  case (s_end k)
  then show ?thesis using sum_left [of k "searchers s" SwEnd] by (simp add: search_left_def)
next
  case (s_read k i)
  then show ?thesis using sum_left [of k "searchers s" "read_line i"] read_line_left [of i] by (simp add: search_left_def)
next
  case (s_send k i m)
  then show ?thesis using sum_left [of k "searchers s" "SwRead i"] by (simp add: search_left_def)
qed (simp_all add: search_left_def)

lemma no_endless_run:
  assumes "\<And>n ns m. fs n = Dir ns \<Longrightarrow> m \<in> set ns \<Longrightarrow> rank m < (rank n :: nat)"
  shows "\<nexists>ss. ss 0 = search_start files \<and> (\<forall>k. search_step fs ncpu nfiles sp (ss k) (ss (Suc k)))"
proof
  assume "\<exists>ss. ss 0 = search_start files \<and> (\<forall>k. search_step fs ncpu nfiles sp (ss k) (ss (Suc k)))"
  then obtain ss where ss: "ss 0 = search_start files" "\<And>k. search_step fs ncpu nfiles sp (ss k) (ss (Suc k))" by blast
  let ?m = "\<lambda>k. (image_mset rank (mset_set (todo (found (ss k)))), search_left (ss k))"
  have "reaches (search_step fs ncpu nfiles sp) (search_start files) (ss k)" for k
    by (induction k) (auto simp: ss(1) [symmetric] intro: reaches_refl reaches_step ss(2))
  then have "reaches (walk_step fs ncpu nfiles sp) (walk_start files) (found (ss k))" for k using found_reaches by blast
  then have "finite (todo (found (ss k)))" for k using fin.inv_reaches by (metis List.finite_set todo_start)
  then have down: "(?m (Suc k), ?m k) \<in> mult {(a, b). a < (b :: nat)} <*lex*> less_than" for k
    using search_left_less [OF ss(2) [of k]] walk_step_decreases [of fs rank "found (ss k)" ncpu nfiles sp "found (ss (Suc k))"] assms
    by auto
  have "wf (mult {(a, b). a < (b :: nat)} <*lex*> less_than)" using wf by (intro wf_lex_prod wf_mult wf_less_than)
  then show False using wf_no_infinite_down_chainE [of _ ?m] down by metis
qed

lemma searcher_possible:
  assumes "k < length (searchers s)" "searchers s ! k \<noteq> SwEnd" "in_ch s \<noteq> [] \<or> in_closed s" "walker s \<noteq> SmEnd" "0 < ncpu"
  shows "\<exists>t. search_step fs ncpu nfiles sp s t"
proof (cases "searchers s ! k")
  case SwTake
  then show ?thesis using assms s_take [of k s] s_end [of k s] by (cases "in_ch s") blast+
next
  case (SwRead i)
  then show ?thesis using assms s_read [of k s i] by blast
next
  case (SwSend i m)
  show ?thesis
  proof (cases "out_ch s")
    case Nil
    then show ?thesis using assms SwSend s_send [of k s i m ncpu] by auto
  next
    case (Cons x xs)
    then show ?thesis using assms w_write [of s x xs] by blast
  qed
qed (use assms in simp)

lemma search_possible:
  assumes "search_ok ncpu s" "0 < ncpu" "walker s \<noteq> SmEnd"
  shows "\<exists>t. search_step fs ncpu nfiles sp s t"
proof (cases "walker s")
  case SmWalk
  show ?thesis
  proof (cases "walk_done (found s)")
    case True
    then show ?thesis using m_close SmWalk by blast
  next
    case False
    then obtain n where "allfiles (found s) n = Some False" by (auto simp: walk_done_def todo_def)
    then show ?thesis using m_visit SmWalk by blast
  qed
next
  case (SmSend i)
  show ?thesis
  proof (cases "length (in_ch s) < ch_cap ncpu")
    case True
    then show ?thesis using m_send SmSend by blast
  next
    case False
    then have full: "in_ch s \<noteq> []" using assms(2) by auto
    then have "0 < length (searchers s)" "SwEnd \<notin> set (searchers s)" using assms(1,2) by (auto simp: search_ok_def)
    then show ?thesis using searcher_possible [of 0 s] full assms(2,3) nth_mem [of 0 "searchers s"] by metis
  qed
next
  case SmWait
  show ?thesis
  proof (cases "wg s = 0")
    case True
    then show ?thesis using m_waited SmWait by blast
  next
    case False
    then have "\<not> set (searchers s) \<subseteq> {SwEnd}" using assms(1) unfolding going_zero [symmetric] by (simp add: search_ok_def)
    then obtain p where "p \<in> set (searchers s)" "p \<noteq> SwEnd" by blast
    then obtain k where "k < length (searchers s)" "searchers s ! k \<noteq> SwEnd" by (auto simp: in_set_conv_nth)
    then show ?thesis using searcher_possible [of k s] SmWait assms by (auto simp: search_ok_def)
  qed
next
  case SmReturn
  then show ?thesis using m_return by blast
qed (use assms in simp)





section \<open>A run in which the writer is too late\<close>

text \<open>The states of one searcher while the writer has not started.\<close>

definition lone :: "walk \<Rightarrow> walker_pc \<Rightarrow> searchinfo list \<Rightarrow> bool \<Rightarrow> searcher_pc \<Rightarrow> nat \<Rightarrow> bytes list \<Rightarrow> bool \<Rightarrow> search_sys" where
  "lone w pc q c p g o1 oc = \<lparr>found = w, walker = pc, in_ch = q, in_closed = c, searchers = [p], wg = g, out_ch = o1, out_closed = oc,
     out = ([], []), taken = []\<rparr>"

lemma lone_drain:
  assumes "length (o1 @ search_lines (sep i) (prefix i) (bufile i)) \<le> ch_cap ncpu"
  shows "reaches (search_step fs ncpu nfiles sp) (lone w SmWalk [] False (SwRead i) 1 o1 False)
    (lone w SmWalk [] False SwTake 1 (o1 @ search_lines (sep i) (prefix i) (bufile i)) False)"
  using assms
proof (induction "length (bufile i)" arbitrary: i o1 rule: less_induct)
  case less
  let ?step = "search_step fs ncpu nfiles sp"
  let ?at = "\<lambda>p q. lone w SmWalk [] False p 1 q False"
  note lines = search_lines.simps [of "sep i" "prefix i" "bufile i"]
  have read: "?step (?at (SwRead i) o1) (?at (read_line i) o1)"
    using s_read [of 0 "?at (SwRead i) o1" i fs ncpu nfiles sp] by (simp add: lone_def)
  show ?case
  proof (cases "ReadBytes (bufile i)")
    case None
    then show ?thesis using reaches_one [of ?step, OF read] lines by (simp add: read_line_def)
  next
    case (Some lr)
    then obtain line rest where lr: "ReadBytes (bufile i) = Some (line, rest)" by (cases lr) auto
    let ?j = "i\<lparr>bufile := rest\<rparr>"
    have shorter: "length (bufile ?j) < length (bufile i)" using ReadBytes_rest [OF lr] by auto
    show ?thesis
    proof (cases "Index line (sep i) = None")
      case True
      have "reaches ?step (?at (SwRead ?j) o1) (?at SwTake (o1 @ search_lines (sep ?j) (prefix ?j) (bufile ?j)))"
        by (rule less.hyps [OF shorter]) (use less.prems lr lines True in simp)
      moreover have "?step (?at (SwRead i) o1) (?at (SwRead ?j) o1)" using read lr True by (simp add: read_line_def)
      ultimately show ?thesis using reaches_trans [of ?step, OF _ reaches_one] lr lines True by simp
    next
      case False
      let ?m = "if length (prefix i) > 0 then prefix i @ line else line"
      have send: "?step (?at (SwSend ?j ?m) o1) (?at (SwRead ?j) (o1 @ [?m]))"
        using s_send [of 0 "?at (SwSend ?j ?m) o1" ?j ?m ncpu fs nfiles sp] less.prems lr lines False by (simp add: lone_def)
      have "?step (?at (SwRead i) o1) (?at (SwSend ?j ?m) o1)" using read lr False by (simp add: read_line_def)
      then have "reaches ?step (?at (SwRead i) o1) (?at (SwSend ?j ?m) o1)" by (rule reaches_one)
      then have "reaches ?step (?at (SwRead i) o1) (?at (SwRead ?j) (o1 @ [?m]))" using send by (rule reaches_step)
      moreover have "reaches ?step (?at (SwRead ?j) (o1 @ [?m])) (?at SwTake ((o1 @ [?m]) @ search_lines (sep ?j) (prefix ?j) (bufile ?j)))"
        by (rule less.hyps [OF shorter]) (use less.prems lr lines False in simp)
      ultimately have "reaches ?step (?at (SwRead i) o1) (?at SwTake ((o1 @ [?m]) @ search_lines (sep ?j) (prefix ?j) (bufile ?j)))"
        by (rule reaches_trans [rotated])
      then show ?thesis using lr lines False by simp
    qed
  qed
qed

lemma late_run:
  assumes "0 < ncpu" "fs f = File content" "length (search_lines sp [] content) \<le> ncpu * 4096"
  shows "\<exists>s. reaches (search_step fs ncpu 1 sp) (search_start [f]) s \<and> walker s = SmEnd
     \<and> out_ch s = search_lines sp [] content \<and> taken s = [] \<and> out s = ([], [])"
proof -
  let ?step = "search_step fs ncpu 1 sp"
  let ?i = "\<lparr>bufile = content, prefix = [], sep = sp\<rparr>"
  let ?w = "found (main_visit fs ncpu 1 sp f (search_start [f]))" and ?r = "search_lines sp [] content"
  have s1: "main_visit fs ncpu 1 sp f (search_start [f]) = lone ?w (SmSend ?i) [] False SwTake 1 [] False" "walk_done ?w"
    using assms(1,2) by (simp_all add: lone_def main_visit_def search_start_def visit_def walk_start_def add_names_def walk_done_def todo_def)
  have "allfiles (found (search_start [f])) f = Some False" "walker (search_start [f]) = SmWalk"
    by (simp_all add: search_start_def walk_start_def add_names_def)
  then have "?step (search_start [f]) (lone ?w (SmSend ?i) [] False SwTake 1 [] False)"
    using m_visit [of "search_start [f]" f fs ncpu 1 sp] s1(1) by simp
  then have r0: "reaches ?step (search_start [f]) (lone ?w (SmSend ?i) [] False SwTake 1 [] False)" by (rule reaches_one)
  have "?step (lone ?w (SmSend ?i) [] False SwTake 1 [] False) (lone ?w SmWalk [?i] False SwTake 1 [] False)"
    using m_send [of "lone ?w (SmSend ?i) [] False SwTake 1 [] False" ?i ncpu fs 1 sp] assms(1) by (simp add: lone_def)
  with r0 have r1: "reaches ?step (search_start [f]) (lone ?w SmWalk [?i] False SwTake 1 [] False)" by (rule reaches_step)
  have "?step (lone ?w SmWalk [?i] False SwTake 1 [] False) (lone ?w SmWalk [] False (SwRead ?i) 1 [] False)"
    using s_take [of 0 "lone ?w SmWalk [?i] False SwTake 1 [] False" ?i "[]" fs ncpu 1 sp] by (simp add: lone_def)
  with r1 have r2: "reaches ?step (search_start [f]) (lone ?w SmWalk [] False (SwRead ?i) 1 [] False)" by (rule reaches_step)
  have "reaches ?step (lone ?w SmWalk [] False (SwRead ?i) 1 [] False) (lone ?w SmWalk [] False SwTake 1 ?r False)" using lone_drain [of "[]" ?i ncpu fs 1 sp ?w] assms(3) by simp
  then have r3: "reaches ?step (search_start [f]) (lone ?w SmWalk [] False SwTake 1 ?r False)" using r2 by (rule reaches_trans)
  have "?step (lone ?w SmWalk [] False SwTake 1 ?r False) (lone ?w SmWait [] True SwTake 1 ?r False)"
    using m_close [of "lone ?w SmWalk [] False SwTake 1 ?r False" fs ncpu 1 sp] s1(2) by (simp add: lone_def)
  with r3 have r4: "reaches ?step (search_start [f]) (lone ?w SmWait [] True SwTake 1 ?r False)" by (rule reaches_step)
  have "?step (lone ?w SmWait [] True SwTake 1 ?r False) (lone ?w SmWait [] True SwEnd 0 ?r False)"
    using s_end [of 0 "lone ?w SmWait [] True SwTake 1 ?r False" fs ncpu 1 sp] by (simp add: lone_def)
  with r4 have r5: "reaches ?step (search_start [f]) (lone ?w SmWait [] True SwEnd 0 ?r False)" by (rule reaches_step)
  have "?step (lone ?w SmWait [] True SwEnd 0 ?r False) (lone ?w SmReturn [] True SwEnd 0 ?r True)"
    using m_waited [of "lone ?w SmWait [] True SwEnd 0 ?r False" fs ncpu 1 sp] by (simp add: lone_def)
  with r5 have r6: "reaches ?step (search_start [f]) (lone ?w SmReturn [] True SwEnd 0 ?r True)" by (rule reaches_step)
  have "?step (lone ?w SmReturn [] True SwEnd 0 ?r True) (lone ?w SmEnd [] True SwEnd 0 ?r True)"
    using m_return [of "lone ?w SmReturn [] True SwEnd 0 ?r True" fs ncpu 1 sp] by (simp add: lone_def)
  with r6 have r7: "reaches ?step (search_start [f]) (lone ?w SmEnd [] True SwEnd 0 ?r True)" by (rule reaches_step)
  then show ?thesis by (intro exI [of _ "lone ?w SmEnd [] True SwEnd 0 ?r True"]) (simp add: lone_def)
qed

section \<open>Properties\<close>



text \<open>
  C31. When the entries of directories can be ranked below them, no run goes on for ever, whatever the interleaving and the order
  of the visits, and until the process has ended some goroutine can go on.
\<close>

theorem search_ends:
  assumes "\<And>n ns m. fs n = Dir ns \<Longrightarrow> m \<in> set ns \<Longrightarrow> rank m < (rank n :: nat)" "0 < ncpu"
    and "reaches (search_step fs ncpu nfiles sp) (search_start files) s"
  shows "(\<nexists>ss. ss 0 = search_start files \<and> (\<forall>k. search_step fs ncpu nfiles sp (ss k) (ss (Suc k))))
     \<and> (walker s = SmEnd \<or> (\<exists>t. search_step fs ncpu nfiles sp s t))"
  using no_endless_run [of fs rank] assms(1) search_possible [OF search.inv_reaches [OF assms(3) search_ok_start] assms(2)] by metis

text \<open>
  \<open>main\<close> does not wait for the goroutine that writes: whenever the result fits the channel, the process can end with all
  of it in the channel and nothing written, whatever its size.
\<close>

theorem search_result_lost:
  assumes "0 < ncpu" "fs f = File content" "length (search_lines sp [] content) \<le> ncpu * 4096"
  shows "\<exists>s. reaches (search_step fs ncpu 1 sp) (search_start [f]) s \<and> walker s = SmEnd
     \<and> out_ch s = search_lines sp [] content \<and> taken s = [] \<and> out s = ([], [])"
  using assms by (rule late_run)

lemma one_line: "length (search_lines ''a'' [] (''ab'' @ [CHR 0x0A])) \<le> 1 * 4096"
  by (simp add: search_lines_filter)

theorem search_result_lost_witness:
  "\<exists>s. reaches (search_step (\<lambda>_. File (''ab'' @ [CHR 0x0A])) 1 1 ''a'') (search_start [''f'']) s \<and> walker s = SmEnd \<and> fst (out s) = []"
  using search_result_lost [of 1 "\<lambda>_. File (''ab'' @ [CHR 0x0A])" "''f''", OF _ refl one_line] by auto


theorem search_ends_witness:
  "\<nexists>ss. ss 0 = search_start [''d''] \<and> (\<forall>k. search_step (sample_fs(''e'' := OpenFails)) 4 1 ''x'' (ss k) (ss (Suc k)))"
proof -
  have "(if m = ''d'' then 1 else 0) < (if n = ''d'' then 1 else (0::nat))"
    if "(sample_fs(''e'' := OpenFails)) n = Dir ns" "m \<in> set ns" for n ns m
    using that by (auto simp: sample_fs_def split: if_splits)
  then show ?thesis
    using search_ends [of "sample_fs(''e'' := OpenFails)" "\<lambda>n. if n = ''d'' then 1 else 0" 4 1 "''x''" "[''d'']" "search_start [''d'']"]
    by (simp only: reaches_refl zero_less_numeral simp_thms)
qed

end
