(* ===== verification/File_Parser2.thy ===== *)
theory File_Parser2
  imports File_Parser_Props
begin

text \<open>
  The second parser of the same log files, \<open>src/go-vs-php-file-parse/lixuancn/test_main.go\<close>, and its agreement
  with the first on generated files.  It leaves out lines with a certain mark, ignores what is
  wrong with a number, and goes on after a read error.
\<close>

definition keepStopBuf :: bytes where
  "keepStopBuf = ''keep_stopp=on''"

text \<open>The size a line adds.\<close>

definition parse2_line :: "bytes \<Rightarrow> u64" where
  "parse2_line line =
     (if Index line keepStopBuf \<noteq> None then 0
      else let slice = SplitN (CHR '' '') 10 line
           in if length slice < 9 then 0 else of_int (fst (Atoi (slice ! 8))))"

text \<open>
  The loop, with the library's buffer of 4096 bytes.  Only the end of the file ends it; when reading
  fails instead, it reads the same error again and again, which is \<open>None\<close>.
\<close>

abbreviation last_err :: "bool \<Rightarrow> read_err" where
  "last_err fails \<equiv> (if fails then ErrRead else EOF)"

lemma ReadSlice_shorter:
  "ReadSlice 4096 (last_err fails) s = (line, err, rest) \<Longrightarrow> err = None \<or> err = Some ErrBufferFull \<Longrightarrow> length rest < length s"
  by (auto simp: ReadSlice_def split: option.splits if_splits dest!: IndexByte_SomeD)

function parse2_loop :: "bool \<Rightarrow> bytes \<Rightarrow> u64 \<Rightarrow> nat \<Rightarrow> u64 option" where
  "parse2_loop fails s totalSize errs =
     (case ReadSlice 4096 (last_err fails) s of
        (line, None, rest) \<Rightarrow> parse2_loop fails rest (totalSize + parse2_line line) errs
      | (line, Some EOF, rest) \<Rightarrow> Some totalSize
      | (line, Some ErrBufferFull, rest) \<Rightarrow> parse2_loop fails rest (totalSize + parse2_line line) (errs + 1)
      | (line, Some ErrRead, rest) \<Rightarrow> None)"
  by pat_completeness auto
termination
  by (relation "measure (\<lambda>(fails, s, t, n). length s)") (auto dest!: ReadSlice_shorter [OF sym])

declare parse2_loop.simps [simp del]

definition parse2 :: "bytes \<Rightarrow> u64 option" where
  "parse2 content = parse2_loop False content 0 0"

section \<open>Agreement with the first parser\<close>

lemma parse2_loop_lines:
  assumes "\<forall>l \<in> set ls. good_line 4096 l" "CHR 0x0A \<notin> set t" "length t < 4096"
  shows "parse2_loop False (concat ls @ t) acc errs = Some (acc + sum_list (map parse2_line ls))"
  using assms(1)
proof (induction ls arbitrary: acc)
  case Nil
  then show ?case using ReadSlice_tail [OF assms(2,3), of EOF] by (subst parse2_loop.simps) simp
next
  case (Cons l ls)
  then show ?case
    using ReadSlice_good [of 4096 l EOF "concat ls @ t"] by (subst parse2_loop.simps) (simp add: add.assoc)
qed

lemma gen_line_parse2:
  assumes d: "length d = 49" "list_all is_digit d"
  shows "parse2_line (space5 9 (d @ [CHR 0x0A])) = line_size (space5 9 (d @ [CHR 0x0A]))"
proof -
  let ?l = "space5 9 (d @ [CHR 0x0A])"
  define w where "w = take 4 (drop 40 d)"
  have nd: "CHR '' '' \<notin> set d" using d(2) is_digit_not_sign by (auto simp: list_all_iff)
  have chars: "c \<in> set ?l \<Longrightarrow> is_digit c \<or> c = CHR '' '' \<or> c = CHR 0x0A" for c
    using set_space5 [of 9 "d @ [CHR 0x0A]"] d(2) by (auto simp: list_all_iff)
  have "CHR ''k'' \<notin> set ?l" using chars [of "CHR ''k''"] by (auto simp: is_digit_def)
  then have "\<not> sublist keepStopBuf ?l"
    by (auto simp: keepStopBuf_def dest!: set_mono_sublist)
  then have mark: "Index ?l keepStopBuf = None" by (simp add: Index_None)
  have split: "SplitN (CHR '' '') 10 ?l = groups5 9 (d @ [CHR 0x0A])"
    using SplitN_space5 [of "d @ [CHR 0x0A]" 9] nd by simp
  have n8: "groups5 9 (d @ [CHR 0x0A]) ! 8 = w" using d by (simp add: groups5_nth w_def)
  have dig: "list_all is_digit w" "length w = 4"
    using d by (auto simp: list_all_iff w_def dest: in_set_takeD in_set_dropD)
  then obtain c cs where w: "w = c # cs" "is_digit c" by (cases w) auto
  have "dec_val w < 10 ^ length w" using dig(1)
  proof (induction w rule: rev_induct)
    case (snoc x xs)
    then show ?case by (auto simp: dec_val_snoc is_digit_def digit_val_def)
  qed simp
  then have "Atoi w = (int (dec_val w), None)"
    using w dig is_digit_not_sign [OF w(2)] by (simp add: Atoi_def Let_def)
  then show ?thesis
    using gen_line_facts(4) [OF d] mark split n8 by (simp add: parse2_line_def w_def)
qed

text \<open>
  C32. On every file written by the generator the two parsers return the same total size.
\<close>

theorem parsers_agree:
  assumes "generate seedBuf n = Some content" "512 \<le> bsize"
  shows "\<exists>ps. parser bsize EOF ch ticks content = Returns ps \<and> parse2 content = Some (stat_sizes (res ps))"
proof -
  obtain ls where ls: "content = concat ls @ []"
    and shape: "\<forall>l\<in>set ls. \<exists>d. length d = 49 \<and> list_all is_digit d \<and> l = space5 9 (d @ [CHR 0x0A])"
    using generate_lines [of n] assms(1) by auto
  have "\<forall>l\<in>set ls. good_line 512 l" using shape gen_line_facts(1) by fastforce
  then have good: "\<forall>l\<in>set ls. good_line bsize l" "\<forall>l\<in>set ls. good_line 4096 l"
    using good_line_mono [of 512] assms(2) by auto
  have same: "map parse2_line ls = map line_size ls" using shape gen_line_parse2 by (intro map_cong) auto
  have "parse2 content = Some (sum_list (map line_size ls))"
    using parse2_loop_lines [OF good(2), of "[]" 0 0] ls unfolding same by (simp add: parse2_def)
  moreover obtain ps where "parser bsize EOF ch ticks content = Returns ps" "stat_sizes (res ps) = sum_list (map line_size ls)"
    using parser_returns [OF good(1), of "[]" ch ticks] assms(2) ls by auto
  ultimately show ?thesis by auto
qed

theorem parsers_agree_witness:
  "\<exists>content ps. generate seedBuf 7 = Some content \<and> parser 512 EOF False [] content = Returns ps \<and> parse2 content = Some (stat_sizes (res ps))"
proof -
  obtain content where c: "generate seedBuf 7 = Some content" using generate_lines [of 7] by blast
  then show ?thesis using parsers_agree [OF c, of 512 False "[]"] by auto
qed

end
