(* ===== verification/Netlink.thy ===== *)
theory Netlink
  imports Go_Strings "HOL-Library.Multiset"
begin

text \<open>
  \<open>src/netlinkusbevent/netlinkusbevent.go\<close>: events of devices read from a netlink socket.  \<open>parseUBuffer\<close> takes
  the strings of a message, separated by zero bytes, apart; \<open>main\<close> reads messages into one buffer.
  The answers of \<open>syscall.Read\<close> are a script.
\<close>

section \<open>parseUBuffer\<close>

record uevent =
  act :: bytes
  dev :: bytes
  subsys :: bytes

definition no_event :: uevent where
  "no_event = \<lparr>act = [], dev = [], subsys = []\<rparr>"

text \<open>One string of the message.\<close>

definition take_field :: "bytes \<Rightarrow> uevent \<Rightarrow> uevent" where
  "take_field str ev =
     (case SplitAll (CHR ''='') str of
        [a0, a1] \<Rightarrow>
          if a0 = ''DEVNAME'' then ev\<lparr>dev := a1\<rparr>
          else if a0 = ''ACTION'' then ev\<lparr>act := a1\<rparr>
          else if a0 = ''SUBSYSTEM'' then ev\<lparr>subsys := a1\<rparr>
          else ev
      | _ \<Rightarrow> ev)"

definition complete :: "uevent \<Rightarrow> bool" where
  "complete ev \<longleftrightarrow> dev ev \<noteq> [] \<and> act ev \<noteq> [] \<and> subsys ev \<noteq> []"

text \<open>
  The loop over the indices; \<open>cur\<close> is the slice \<open>arr[j:i]\<close> collected so far.
\<close>

fun parse_loop :: "bytes \<Rightarrow> bytes \<Rightarrow> uevent \<Rightarrow> uevent" where
  "parse_loop [] cur ev = take_field cur ev"
| "parse_loop (c # cs) cur ev =
     (if c = CHR 0x00 then
        (let ev1 = take_field cur ev in if complete ev1 then ev1 else parse_loop cs [] ev1)
      else parse_loop cs (cur @ [c]) ev)"

definition parseUBuffer :: "bytes \<Rightarrow> uevent" where
  "parseUBuffer arr = parse_loop arr [] no_event"

section \<open>main\<close>

datatype read_result = ReadErr | ReadBytes bytes

datatype loop_end = ReadFailed | TooManyEmpty | Blocked

abbreviation EMPTY_READ_MAX :: nat where "EMPTY_READ_MAX \<equiv> 10"
abbreviation ubuf_size :: nat where "ubuf_size \<equiv> 4096"

text \<open>
  A message is copied over the start of the buffer, which keeps what stood behind it, and the whole
  buffer is parsed.  The events shown, and why the loop ended.
\<close>

fun event_loop :: "read_result list \<Rightarrow> bytes \<Rightarrow> nat \<Rightarrow> uevent list \<times> loop_end" where
  "event_loop [] b emptyread = ([], Blocked)"
| "event_loop (ReadErr # rs) b emptyread = ([], ReadFailed)"
| "event_loop (ReadBytes d # rs) b emptyread =
     (let n = min (length d) (length b)
      in if n = 0 then
           (if emptyread + 1 > EMPTY_READ_MAX then ([], TooManyEmpty) else event_loop rs b (emptyread + 1))
         else
           (let b1 = copy_into b 0 (take n d);
                (evs, e) = event_loop rs b1 0
            in (parseUBuffer b1 # evs, e)))"

definition netlink_main :: "read_result list \<Rightarrow> uevent list \<times> loop_end" where
  "netlink_main rs = event_loop rs (replicate ubuf_size (CHR 0x00)) 0"

section \<open>Properties\<close>

text \<open>The message as the kernel writes it: strings, each ended by a zero byte.\<close>

definition message :: "bytes list \<Rightarrow> bytes" where
  "message strs = concat (map (\<lambda>s. s @ [CHR 0x00]) strs)"

lemma parse_loop_string:
  "CHR 0x00 \<notin> set s \<Longrightarrow> parse_loop (s @ CHR 0x00 # rest) cur ev =
     (let ev1 = take_field (cur @ s) ev in if complete ev1 then ev1 else parse_loop rest [] ev1)"
  by (induction s arbitrary: cur) (auto simp: Let_def)

text \<open>The reference: take the strings in turn until all three fields are there.\<close>

fun take_fields :: "bytes list \<Rightarrow> uevent \<Rightarrow> uevent" where
  "take_fields [] ev = ev"
| "take_fields (s # ss) ev = (let ev1 = take_field s ev in if complete ev1 then ev1 else take_fields ss ev1)"

lemma take_field_empty [simp]: "take_field [] ev = ev"
  by (simp add: take_field_def)

lemma parse_loop_message:
  "\<forall>s \<in> set strs. CHR 0x00 \<notin> set s \<Longrightarrow>
     parse_loop (message strs @ rest) [] ev =
       (if complete (take_fields strs ev) \<and> strs \<noteq> [] then take_fields strs ev else parse_loop rest [] (take_fields strs ev))"
proof (induction strs arbitrary: ev)
  case (Cons s strs)
  then show ?case by (auto simp: message_def Let_def parse_loop_string)
qed (simp add: message_def)

lemma parse_loop_zeros: "parse_loop (replicate n (CHR 0x00)) [] ev = ev"
  by (induction n) (auto simp: Let_def)

definition field_of :: "bytes \<Rightarrow> bytes \<Rightarrow> bool" where
  "field_of key s \<longleftrightarrow> (\<exists>v. SplitAll (CHR ''='') s = [key, v])"

definition plain_string :: "bytes \<Rightarrow> bool" where
  "plain_string s \<longleftrightarrow> \<not> field_of ''DEVNAME'' s \<and> \<not> field_of ''ACTION'' s \<and> \<not> field_of ''SUBSYSTEM'' s"

lemma take_field_plain: "plain_string s \<Longrightarrow> take_field s ev = ev"
  by (auto simp: take_field_def plain_string_def field_of_def split: list.splits)

lemma SplitAll_pair:
  assumes "CHR ''='' \<notin> set k" "CHR ''='' \<notin> set v"
  shows "SplitAll (CHR ''='') (k @ CHR ''='' # v) = [k, v]"
  using assms by (simp add: SplitAll_append SplitAll_no_sep)

lemma take_field_known:
  assumes "CHR ''='' \<notin> set v"
  shows "take_field (''ACTION='' @ v) ev = ev\<lparr>act := v\<rparr>"
    "take_field (''DEVNAME='' @ v) ev = ev\<lparr>dev := v\<rparr>"
    "take_field (''SUBSYSTEM='' @ v) ev = ev\<lparr>subsys := v\<rparr>"
  using SplitAll_pair [of "''ACTION''" v] SplitAll_pair [of "''DEVNAME''" v] SplitAll_pair [of "''SUBSYSTEM''" v] assms
  by (simp_all add: take_field_def)

lemma take_fields_plain:
  "\<not> complete ev \<Longrightarrow> take_fields strs ev = take_fields (filter (\<lambda>s. \<not> plain_string s) strs) ev"
  by (induction strs arbitrary: ev) (auto simp: Let_def take_field_plain)

lemma three_orders:
  assumes "mset xs = {#a, b, c#}"
  shows "xs \<in> {[a, b, c], [a, c, b], [b, a, c], [b, c, a], [c, a, b], [c, b, a]}"
proof -
  have "length xs = 3" using assms by (metis size_mset size_add_mset size_empty numeral_3_eq_3)
  then obtain x y z where xs: "xs = [x, y, z]" by (auto simp: numeral_3_eq_3 length_Suc_conv)
  have "x \<in># {#a, b, c#}" using assms xs by (metis list.set_intros(1) set_mset_mset)
  then consider "x = a" | "x = b" | "x = c" by auto
  then show ?thesis
    by cases (use assms xs in \<open>auto simp: add_eq_conv_diff split: if_splits\<close>)
qed

text \<open>
  A message that tells the action, the device and the subsystem once each, in any order and among any
  number of other strings, is understood: the result has the three values, whatever stands in the
  buffer behind the message.
\<close>

theorem parseUBuffer_fields:
  assumes "\<forall>s \<in> set strs. CHR 0x00 \<notin> set s"
    and "mset (filter (\<lambda>s. \<not> plain_string s) strs) = {#''ACTION='' @ a, ''DEVNAME='' @ d, ''SUBSYSTEM='' @ u#}"
    and "\<forall>v \<in> {a, d, u}. v \<noteq> [] \<and> CHR ''='' \<notin> set v"
  shows "parseUBuffer (message strs @ rest) = \<lparr>act = a, dev = d, subsys = u\<rparr>"
proof -
  have "take_fields strs no_event = take_fields (filter (\<lambda>s. \<not> plain_string s) strs) no_event"
    by (rule take_fields_plain) (simp add: complete_def no_event_def)
  also have "\<dots> = \<lparr>act = a, dev = d, subsys = u\<rparr>"
    using three_orders [OF assms(2)] assms(3)
    by (auto simp: take_field_known [simplified] Let_def complete_def no_event_def)
  finally have fields: "take_fields strs no_event = \<lparr>act = a, dev = d, subsys = u\<rparr>" .
  moreover have "strs \<noteq> []" using assms(2) by auto
  ultimately show ?thesis
    using parse_loop_message [OF assms(1), of rest no_event] assms(3) by (simp add: parseUBuffer_def complete_def)
qed

theorem parseUBuffer_fields_witness:
  "parseUBuffer (message [''add@/usb1'', ''SUBSYSTEM=block'', ''ACTION=add'', ''DEVNAME=sda''] @ ''junk'') =
     \<lparr>act = ''add'', dev = ''sda'', subsys = ''block''\<rparr>"
proof -
  have "plain_string ''add@/usb1''" "\<not> plain_string ''SUBSYSTEM=block''" "\<not> plain_string ''ACTION=add''" "\<not> plain_string ''DEVNAME=sda''"
    by (simp_all add: plain_string_def field_of_def)
  then show ?thesis
    using parseUBuffer_fields [of "[''add@/usb1'', ''SUBSYSTEM=block'', ''ACTION=add'', ''DEVNAME=sda'']" "''add''" "''sda''" "''block''" "''junk''"]
    by (simp add: add_mset_commute)
qed

lemma take_fields_append:
  "take_fields (xs @ ys) ev = (if complete (take_fields xs ev) \<and> xs \<noteq> [] then take_fields xs ev else take_fields ys (take_fields xs ev))"
  by (induction xs arbitrary: ev) (auto simp: Let_def)

lemma parseUBuffer_buffer:
  assumes "\<forall>s \<in> set strs. CHR 0x00 \<notin> set s"
  shows "parseUBuffer (message strs @ replicate n (CHR 0x00)) = take_fields strs no_event"
  using parse_loop_message [OF assms, of "replicate n (CHR 0x00)" no_event] by (simp add: parseUBuffer_def parse_loop_zeros)

text \<open>
  The program parses the whole buffer and not the bytes it read, so strings that a longer message
  left behind are read as strings of the next one: its event mixes both messages.
\<close>

theorem stale_strings_parsed:
  assumes "\<forall>s \<in> set (new @ old). CHR 0x00 \<notin> set s" "new \<noteq> []"
    and "length x = length (message new)" "length x + length (message old) \<le> 4096"
  shows "\<exists>e1. netlink_main [ReadBytes (x @ message old), ReadBytes (message new)] = ([e1, take_fields (new @ old) no_event], Blocked)"
proof -
  let ?z = "CHR 0x00"
  let ?first = "x @ message old"
  let ?b1 = "?first @ replicate (4096 - length ?first) ?z"
  have b1: "copy_into (replicate 4096 ?z) 0 ?first = ?b1" using assms(4) by (simp add: copy_into_def)
  have b2: "copy_into ?b1 0 (message new) = message (new @ old) @ replicate (4096 - length ?first) ?z"
    using assms(3,4) by (simp add: copy_into_def message_def)
  have ne: "message new \<noteq> []" "x \<noteq> []" using assms(2,3) by (cases new; auto simp: message_def)+
  have len: "length (message new) \<le> 4096" using assms(3,4) by simp
  show ?thesis
    using parseUBuffer_buffer [OF assms(1)] b1 b2 ne len assms(3,4)
    by (simp add: netlink_main_def Let_def min_def)
qed

theorem stale_strings_parsed_witness:
  "\<exists>e1. netlink_main [ReadBytes (''ACTION=add'' @ [CHR 0x00] @ message [''DEVNAME=sda'', ''SUBSYSTEM=block'']), ReadBytes (message [''ACTION=new''])]
     = ([e1, \<lparr>act = ''new'', dev = ''sda'', subsys = ''block''\<rparr>], Blocked)"
  using stale_strings_parsed [of "[''ACTION=new'']" "[''DEVNAME=sda'', ''SUBSYSTEM=block'']" "''ACTION=add'' @ [CHR 0x00]"]
  by (simp add: message_def no_event_def take_field_def complete_def Let_def)

text \<open>Eleven empty reads in a row end the loop, ten do not.\<close>

lemma event_loop_empty:
  "length b = ubuf_size \<Longrightarrow> k + j \<le> 10 \<Longrightarrow> event_loop (replicate j (ReadBytes []) @ rs) b k = event_loop rs b (k + j)"
  by (induction j arbitrary: k) auto

lemma event_loop_too_many:
  "length b = ubuf_size \<Longrightarrow> event_loop (replicate 11 (ReadBytes []) @ rs) b 0 = ([], TooManyEmpty)"
  using event_loop_empty [of b 0 10 "ReadBytes [] # rs"] by (simp add: numeral_eq_Suc replicate_app_Cons_same)

end
