(* ===== verification/Fast_System.thy ===== *)
theory Fast_System
  imports Fast_Server
begin

text \<open>
  The whole fast HTTP server: \<open>main\<close> of \<open>src/fasthttpserver/fasthttpserver.go\<close> with its accept workers, the
  connections that they start, the goroutine that counts, the signals, and the three channels between them.
  The parts are those of \<open>Fast_Http\<close> and \<open>Fast_Server\<close>; here they interleave in any order.

  A connection is the list of the numbers it sends; what it does with its peer between two sends touches
  nothing that is shared.  A send waits for a free place in the channel, and panics if the channel is closed.
\<close>

section \<open>Channels\<close>

datatype svc_chan = ReqCh | AccCh | CloCh

definition recv_event :: "svc_chan \<Rightarrow> i64 \<Rightarrow> counter_event" where
  "recv_event ch n = (case ch of ReqCh \<Rightarrow> Requests n | AccCh \<Rightarrow> AcceptedNum n | CloCh \<Rightarrow> ClosedNum n)"

definition close_event :: "svc_chan \<Rightarrow> counter_event" where
  "close_event ch = (case ch of ReqCh \<Rightarrow> RequestsClosed | AccCh \<Rightarrow> AcceptedClosed | CloCh \<Rightarrow> ClosedClosed)"

text \<open>Whether the counting goroutine has set a channel to \<open>nil\<close>, and what it has counted from it.\<close>

definition nil_of :: "svc_chan \<Rightarrow> counter_state \<Rightarrow> bool" where
  "nil_of ch c = (case ch of ReqCh \<Rightarrow> requestsNil c | AccCh \<Rightarrow> acceptedNil c | CloCh \<Rightarrow> closedNil c)"

definition counted :: "svc_chan \<Rightarrow> counter_state \<Rightarrow> i64" where
  "counted ch c = (case ch of ReqCh \<Rightarrow> finishedNum c | AccCh \<Rightarrow> acceptNum c | CloCh \<Rightarrow> closedNum c)"

type_synonym chan_send = "svc_chan \<times> i64"

text \<open>The sends of a connection, in the order of the code: reports on the way, the end, the last report.\<close>

record served =
  s_mbuf :: bytes
  s_hpool :: bytes
  s_cpool :: bytes
  s_sig :: "nat \<Rightarrow> bool"
  s_reads :: "(bytes \<times> bool) list"
  s_writes :: "(nat \<times> bool) list"

definition service_end :: "served \<Rightarrow> svc_end" where
  "service_end c = tinyhttpservice (s_mbuf c) (s_hpool c) (s_cpool c) (s_sig c) (s_reads c) (s_writes c)"

definition service_sends :: "served \<Rightarrow> chan_send list" where
  "service_sends c =
     (let r = service_end c
      in map (\<lambda>n. (ReqCh, of_nat n)) (butlast (toRequestsCh r)) @ map (\<lambda>n. (CloCh, of_nat n)) (toClosedCh r)
         @ [(ReqCh, of_nat (last (toRequestsCh r)))])"

section \<open>State\<close>

text \<open>
  A worker is at the condition of its loop, sends the length of a batch, accepts, waits for its connections, or
  has returned.  A connection that has called \<open>wg.Done\<close> is \<open>None\<close>.
\<close>

datatype wk_pc = WTop | WSend nat | WAccept | WJoin | WDone

record 'c wk =
  wst :: "'c worker_state"
  wpc :: wk_pc
  wconns :: "chan_send list option list"

datatype main_pc = MWorkers | MCloseAcc | MCloseReq | MCloseClo | MListener | MStats | MDone

record 'c fsys =
  wks :: "'c wk list"
  queue :: "svc_chan \<Rightarrow> i64 list"
  closed :: "svc_chan \<Rightarrow> bool"
  cnt :: counter_state
  cnt_line :: "stats_line option"
  main_at :: main_pc
  sigs :: signal_state
  send_panic :: bool

definition wk_start :: "'c wk" where
  "wk_start = \<lparr>wst = worker_init, wpc = WTop, wconns = []\<rparr>"

definition fast_start :: "nat \<Rightarrow> 'c fsys" where
  "fast_start workers =
     \<lparr>wks = replicate workers wk_start, queue = (\<lambda>_. []), closed = (\<lambda>_. False), cnt = counter_init, cnt_line = None,
      main_at = MWorkers, sigs = signal_init, send_panic = False\<rparr>"

definition set_wk :: "nat \<Rightarrow> 'c wk \<Rightarrow> 'c fsys \<Rightarrow> 'c fsys" where
  "set_wk i w s = s\<lparr>wks := (wks s)[i := w]\<rparr>"

definition send_on :: "svc_chan \<Rightarrow> i64 \<Rightarrow> 'c fsys \<Rightarrow> 'c fsys" where
  "send_on ch n s = s\<lparr>queue := (queue s)(ch := queue s ch @ [n])\<rparr>"

section \<open>Steps\<close>

text \<open>The first half of a turn of \<open>worker\<close>: a batch that is full or in time starts its connections.\<close>

definition wk_turn :: "('c \<Rightarrow> chan_send list) \<Rightarrow> nat \<Rightarrow> bool \<Rightarrow> 'c wk \<Rightarrow> 'c wk" where
  "wk_turn serve batchAcceptLen tick w =
     (let st = worker_flush batchAcceptLen tick (wst w);
          started = drop (length (launched (wst w))) (launched st)
      in w\<lparr>wst := st, wconns := wconns w @ map (Some \<circ> serve) started,
           wpc := (if started = [] then WAccept else WSend (length started))\<rparr>)"

definition wk_accept :: "'c accept_result \<Rightarrow> 'c wk \<Rightarrow> 'c wk" where
  "wk_accept ans w =
     (let st = worker_accept ans (wst w) in w\<lparr>wst := st, wpc := (if running st then WTop else WJoin)\<rparr>)"

definition wk_leave :: "'c wk \<Rightarrow> 'c wk" where
  "wk_leave w = w\<lparr>wst := (wst w)\<lparr>running := False\<rparr>, wpc := WJoin\<rparr>"

text \<open>Ticks and signals can come at any time; all other steps are the work of the goroutines.\<close>

inductive fast_work :: "('c \<Rightarrow> chan_send list) \<Rightarrow> nat \<Rightarrow> nat \<Rightarrow> 'c fsys \<Rightarrow> 'c fsys \<Rightarrow> bool" for serve cap b where
  w_turn: "i < length (wks s) \<Longrightarrow> wpc (wks s ! i) = WTop \<Longrightarrow> \<not> exitSignaled (sigs s) \<Longrightarrow>
    fast_work serve cap b s (set_wk i (wk_turn serve b tick (wks s ! i)) s)"
| w_exit: "i < length (wks s) \<Longrightarrow> wpc (wks s ! i) = WTop \<Longrightarrow> exitSignaled (sigs s) \<Longrightarrow>
    fast_work serve cap b s (set_wk i (wk_leave (wks s ! i)) s)"
| w_send: "i < length (wks s) \<Longrightarrow> wpc (wks s ! i) = WSend k \<Longrightarrow> \<not> closed s AccCh \<Longrightarrow> length (queue s AccCh) < cap \<Longrightarrow>
    fast_work serve cap b s (send_on AccCh (of_nat k) (set_wk i ((wks s ! i)\<lparr>wpc := WAccept\<rparr>) s))"
| w_send_closed: "i < length (wks s) \<Longrightarrow> wpc (wks s ! i) = WSend k \<Longrightarrow> closed s AccCh \<Longrightarrow>
    fast_work serve cap b s (s\<lparr>send_panic := True\<rparr>)"
| w_accept: "i < length (wks s) \<Longrightarrow> wpc (wks s ! i) = WAccept \<Longrightarrow>
    fast_work serve cap b s (set_wk i (wk_accept ans (wks s ! i)) s)"
| w_join: "i < length (wks s) \<Longrightarrow> wpc (wks s ! i) = WJoin \<Longrightarrow> (\<forall>c \<in> set (wconns (wks s ! i)). c = None) \<Longrightarrow>
    fast_work serve cap b s (set_wk i ((wks s ! i)\<lparr>wpc := WDone\<rparr>) s)"
| c_send: "i < length (wks s) \<Longrightarrow> j < length (wconns (wks s ! i)) \<Longrightarrow> wconns (wks s ! i) ! j = Some ((ch, n) # rest) \<Longrightarrow>
    \<not> closed s ch \<Longrightarrow> length (queue s ch) < cap \<Longrightarrow>
    fast_work serve cap b s (send_on ch n (set_wk i ((wks s ! i)\<lparr>wconns := (wconns (wks s ! i))[j := Some rest]\<rparr>) s))"
| c_send_closed: "i < length (wks s) \<Longrightarrow> j < length (wconns (wks s ! i)) \<Longrightarrow> wconns (wks s ! i) ! j = Some ((ch, n) # rest) \<Longrightarrow>
    closed s ch \<Longrightarrow> fast_work serve cap b s (s\<lparr>send_panic := True\<rparr>)"
| c_done: "i < length (wks s) \<Longrightarrow> j < length (wconns (wks s ! i)) \<Longrightarrow> wconns (wks s ! i) ! j = Some [] \<Longrightarrow>
    fast_work serve cap b s (set_wk i ((wks s ! i)\<lparr>wconns := (wconns (wks s ! i))[j := None]\<rparr>) s)"
| m_wait: "main_at s = MWorkers \<Longrightarrow> (\<forall>w \<in> set (wks s). wpc w = WDone) \<Longrightarrow> fast_work serve cap b s (s\<lparr>main_at := MCloseAcc\<rparr>)"
| m_close_acc: "main_at s = MCloseAcc \<Longrightarrow>
    fast_work serve cap b s (s\<lparr>closed := (closed s)(AccCh := True), main_at := MCloseReq\<rparr>)"
| m_close_req: "main_at s = MCloseReq \<Longrightarrow>
    fast_work serve cap b s (s\<lparr>closed := (closed s)(ReqCh := True), main_at := MCloseClo\<rparr>)"
| m_close_clo: "main_at s = MCloseClo \<Longrightarrow>
    fast_work serve cap b s (s\<lparr>closed := (closed s)(CloCh := True), main_at := MListener\<rparr>)"
| m_listener: "main_at s = MListener \<Longrightarrow>
    fast_work serve cap b s (s\<lparr>sigs := (if exitSignaled (sigs s) then sigs s else (sigs s)\<lparr>lfdClosed := lfdClosed (sigs s) + 1\<rparr>),
                               main_at := MStats\<rparr>)"
| m_stats: "main_at s = MStats \<Longrightarrow> cnt_line s \<noteq> None \<Longrightarrow> fast_work serve cap b s (s\<lparr>main_at := MDone\<rparr>)"
| n_recv: "exitCount (cnt s) < 3 \<Longrightarrow> \<not> nil_of ch (cnt s) \<Longrightarrow> queue s ch = n # q \<Longrightarrow>
    fast_work serve cap b s (s\<lparr>cnt := counter_step (cnt s) (recv_event ch n), queue := (queue s)(ch := q)\<rparr>)"
| n_closed: "exitCount (cnt s) < 3 \<Longrightarrow> \<not> nil_of ch (cnt s) \<Longrightarrow> queue s ch = [] \<Longrightarrow> closed s ch \<Longrightarrow>
    fast_work serve cap b s (s\<lparr>cnt := counter_step (cnt s) (close_event ch)\<rparr>)"
| n_end: "exitCount (cnt s) \<ge> 3 \<Longrightarrow> cnt_line s = None \<Longrightarrow>
    fast_work serve cap b s (s\<lparr>cnt_line := Some (stats_of esp (cnt s))\<rparr>)"

inductive fast_act :: "('c \<Rightarrow> chan_send list) \<Rightarrow> nat \<Rightarrow> nat \<Rightarrow> 'c fsys \<Rightarrow> 'c fsys \<Rightarrow> bool" for serve cap b where
  fast_works: "fast_work serve cap b s t \<Longrightarrow> fast_act serve cap b s t"
| n_tick: "exitCount (cnt s) < 3 \<Longrightarrow> fast_act serve cap b s (s\<lparr>cnt := counter_step (cnt s) (Tick esp)\<rparr>)"
| g_signal: "fast_act serve cap b s (s\<lparr>sigs := signal_step (sigs s) sg\<rparr>)"

text \<open>A panic and \<open>os.Exit\<close> end the process.\<close>

definition alive :: "'c fsys \<Rightarrow> bool" where
  "alive s \<longleftrightarrow> exitCode (sigs s) = None \<and> \<not> send_panic s"

definition fast_step :: "('c \<Rightarrow> chan_send list) \<Rightarrow> nat \<Rightarrow> nat \<Rightarrow> 'c fsys \<Rightarrow> 'c fsys \<Rightarrow> bool" where
  "fast_step serve cap b s t \<longleftrightarrow> alive s \<and> fast_act serve cap b s t"

end
