(* ===== verification/Fast_System_Props.thy ===== *)
theory Fast_System_Props
  imports Fast_System Fast_Http_Props
begin

text \<open>
  Properties of the whole fast HTTP server: nothing is sent on a closed channel, the last line of the
  statistics accounts for every connection that was started, and after a signal the server can always end,
  whatever the goroutines have been doing.
\<close>

section \<open>The counting goroutine\<close>

named_theorems counter_simps \<open>the counting goroutine, one channel at a time\<close>

lemma counter_recv [counter_simps]:
  assumes "exitCount c < 3" "\<not> nil_of ch c"
  shows "counted ch' (counter_step c (recv_event ch n)) = counted ch' c + (if ch' = ch then n else 0)"
    "nil_of ch' (counter_step c (recv_event ch n)) = nil_of ch' c"
    "exitCount (counter_step c (recv_event ch n)) = exitCount c"
  using assms by (cases ch; cases ch'; simp add: counted_def nil_of_def recv_event_def counter_step_simps)+

lemma counter_close [counter_simps]:
  assumes "exitCount c < 3" "\<not> nil_of ch c"
  shows "counted ch' (counter_step c (close_event ch)) = counted ch' c"
    "nil_of ch' (counter_step c (close_event ch)) = (nil_of ch' c \<or> ch' = ch)"
    "exitCount (counter_step c (close_event ch)) = exitCount c + 1"
  using assms by (cases ch; cases ch'; simp add: counted_def nil_of_def close_event_def counter_step_simps)+

lemma counter_tick [counter_simps]:
  "counted ch (counter_step c (Tick e)) = counted ch c" "nil_of ch (counter_step c (Tick e)) = nil_of ch c"
  "exitCount (counter_step c (Tick e)) = exitCount c"
  by (cases ch; simp add: counted_def nil_of_def counter_step_simps)+

lemma counter_start [counter_simps]:
  "counted ch counter_init = 0" "\<not> nil_of ch counter_init" "exitCount counter_init = 0"
  by (cases ch; simp add: counted_def nil_of_def counter_init_def)+

definition nils :: "counter_state \<Rightarrow> nat" where
  "nils c = of_bool (nil_of ReqCh c) + of_bool (nil_of AccCh c) + of_bool (nil_of CloCh c)"

lemma nils_close: "exitCount c < 3 \<Longrightarrow> \<not> nil_of ch c \<Longrightarrow> nils (counter_step c (close_event ch)) = nils c + 1"
  by (cases ch) (auto simp: nils_def counter_close)

lemma nils_all: "3 \<le> nils c \<Longrightarrow> nil_of ch c"
  by (cases ch) (simp_all add: nils_def of_bool_def split: if_splits)

section \<open>The order in which things end\<close>

fun main_rank :: "main_pc \<Rightarrow> nat" where
  "main_rank MWorkers = 0" | "main_rank MCloseAcc = 1" | "main_rank MCloseReq = 2" | "main_rank MCloseClo = 3"
| "main_rank MListener = 4" | "main_rank MStats = 5" | "main_rank MDone = 6"

definition close_rank :: "svc_chan \<Rightarrow> nat" where
  "close_rank ch = (case ch of AccCh \<Rightarrow> 2 | ReqCh \<Rightarrow> 3 | CloCh \<Rightarrow> 4)"

lemma close_rank_simps [simp]: "close_rank AccCh = 2" "close_rank ReqCh = 3" "close_rank CloCh = 4"
  by (simp_all add: close_rank_def)

definition wk_ok :: "'c wk \<Rightarrow> bool" where
  "wk_ok w \<longleftrightarrow> \<not> onload (wst w) \<and> (wpc w = WDone \<longrightarrow> (\<forall>c \<in> set (wconns w). c = None))"

definition workers_done :: "'c fsys \<Rightarrow> bool" where
  "workers_done s \<longleftrightarrow> (\<forall>w \<in> set (wks s). wpc w = WDone)"

definition end_ok :: "'c fsys \<Rightarrow> bool" where
  "end_ok s \<longleftrightarrow> (\<forall>w \<in> set (wks s). wk_ok w) \<and> \<not> send_panic s
     \<and> (main_at s \<noteq> MWorkers \<longrightarrow> workers_done s)
     \<and> (\<forall>ch. closed s ch \<longleftrightarrow> close_rank ch \<le> main_rank (main_at s))
     \<and> (\<forall>ch. nil_of ch (cnt s) \<longrightarrow> closed s ch \<and> queue s ch = [])
     \<and> exitCount (cnt s) = nils (cnt s)
     \<and> (\<forall>l. cnt_line s = Some l \<longrightarrow> exitCount (cnt s) \<ge> 3 \<and> (\<exists>esp. l = stats_of esp (cnt s)))
     \<and> (main_at s = MDone \<longrightarrow> cnt_line s \<noteq> None)"

lemma wk_turn_ok: "wk_ok w \<Longrightarrow> wk_ok (wk_turn serve b tick w)"
  by (auto simp: wk_ok_def wk_turn_def worker_flush_def Let_def)

lemma wk_accept_ok: "wk_ok w \<Longrightarrow> wk_ok (wk_accept ans w)"
  by (cases ans) (auto simp: wk_ok_def wk_accept_def worker_accept_def Let_def)

lemma wk_leave_ok: "wk_ok w \<Longrightarrow> wk_ok (wk_leave w)"
  by (auto simp: wk_ok_def wk_leave_def)

lemma set_wk_fields [simp]:
  "wks (set_wk i w s) = (wks s)[i := w]" "queue (set_wk i w s) = queue s" "closed (set_wk i w s) = closed s"
  "cnt (set_wk i w s) = cnt s" "cnt_line (set_wk i w s) = cnt_line s" "main_at (set_wk i w s) = main_at s"
  "sigs (set_wk i w s) = sigs s" "send_panic (set_wk i w s) = send_panic s"
  by (simp_all add: set_wk_def)

lemma send_on_fields [simp]:
  "wks (send_on ch n s) = wks s" "queue (send_on ch n s) = (queue s)(ch := queue s ch @ [n])" "closed (send_on ch n s) = closed s"
  "cnt (send_on ch n s) = cnt s" "cnt_line (send_on ch n s) = cnt_line s" "main_at (send_on ch n s) = main_at s"
  "sigs (send_on ch n s) = sigs s" "send_panic (send_on ch n s) = send_panic s"
  by (simp_all add: send_on_def)

lemma end_ok_wk_ok: "end_ok s \<Longrightarrow> i < length (wks s) \<Longrightarrow> wk_ok (wks s ! i)"
  by (simp add: end_ok_def)

lemma end_ok_at_work: "end_ok s \<Longrightarrow> i < length (wks s) \<Longrightarrow> wpc (wks s ! i) \<noteq> WDone \<Longrightarrow> main_at s = MWorkers"
  unfolding end_ok_def workers_done_def by (metis nth_mem)

lemma wk_ok_conn: "wk_ok w \<Longrightarrow> j < length (wconns w) \<Longrightarrow> wconns w ! j = Some xs \<Longrightarrow> wpc w \<noteq> WDone"
  unfolding wk_ok_def by (metis nth_mem option.distinct(1))

lemmas end_okD = end_ok_wk_ok end_ok_at_work wk_ok_conn [OF end_ok_wk_ok]

text \<open>A step of a worker that has not returned leaves everything else in order.\<close>

lemma end_ok_wk:
  assumes "end_ok s" "main_at s = MWorkers" "wk_ok w"
  shows "end_ok (set_wk i w s)"
proof -
  have "\<forall>w' \<in> set ((wks s)[i := w]). wk_ok w'" using assms by (intro set_update_all) (simp_all add: end_ok_def)
  then show ?thesis using assms by (auto simp: end_ok_def)
qed

lemma end_ok_send:
  "end_ok s \<Longrightarrow> \<not> closed s ch \<Longrightarrow> end_ok (send_on ch n s)"
  by (auto simp: end_ok_def workers_done_def)

lemma end_ok_work: "fast_work serve cap b s t \<Longrightarrow> end_ok s \<Longrightarrow> end_ok t"
proof (induction rule: fast_work.induct)
  case (w_turn i s tick)
  then show ?case by (intro end_ok_wk wk_turn_ok end_ok_wk_ok end_ok_at_work [of s i]) simp_all
next
  case (w_exit i s)
  then show ?case by (intro end_ok_wk wk_leave_ok end_ok_wk_ok end_ok_at_work [of s i]) simp_all
next
  case (w_send i s k)
  then show ?case
    using end_ok_wk_ok [of s i] by (intro end_ok_send end_ok_wk end_ok_at_work [of s i]) (simp_all add: wk_ok_def)
next
  case (w_send_closed i s k)
  then have "main_at s = MWorkers" by (intro end_ok_at_work [of s i]) simp_all
  then show ?case using w_send_closed by (simp add: end_ok_def)
next
  case (w_accept i s ans)
  then show ?case by (intro end_ok_wk wk_accept_ok end_ok_wk_ok end_ok_at_work [of s i]) simp_all
next
  case (w_join i s)
  then show ?case
    using end_ok_wk_ok [of s i] by (intro end_ok_wk end_ok_at_work [of s i]) (simp_all add: wk_ok_def)
next
  case (c_send i s j ch n rest)
  then have pc: "wpc (wks s ! i) \<noteq> WDone" using end_okD(3) by blast
  then have "wk_ok ((wks s ! i)\<lparr>wconns := (wconns (wks s ! i))[j := Some rest]\<rparr>)"
    using end_ok_wk_ok [of s i] c_send by (simp add: wk_ok_def)
  then show ?case using c_send pc by (intro end_ok_send end_ok_wk end_ok_at_work [of s i]) simp_all
next
  case (c_send_closed i s j ch n rest)
  then have "wpc (wks s ! i) \<noteq> WDone" using end_okD(3) by blast
  then have "main_at s = MWorkers" using c_send_closed end_ok_at_work by blast
  then show ?case using c_send_closed by (cases ch) (simp_all add: end_ok_def)
next
  case (c_done i s j)
  then have pc: "wpc (wks s ! i) \<noteq> WDone" using end_okD(3) by blast
  then have "wk_ok ((wks s ! i)\<lparr>wconns := (wconns (wks s ! i))[j := None]\<rparr>)"
    using end_ok_wk_ok [of s i] c_done by (simp add: wk_ok_def)
  then show ?case using c_done pc by (intro end_ok_wk end_ok_at_work [of s i]) simp_all
next
  case (n_recv s ch n q)
  then show ?case by (auto simp: end_ok_def workers_done_def counter_simps nils_def)
next
  case (n_closed s ch)
  then show ?case using nils_close [of "cnt s" ch] by (auto simp: end_ok_def workers_done_def counter_simps)
next
  case (m_wait s)
  then show ?case by (auto simp: end_ok_def workers_done_def close_rank_def split: svc_chan.splits)
next
  case (m_close_acc s)
  then show ?case by (auto simp: end_ok_def workers_done_def close_rank_def split: svc_chan.splits)
next
  case (m_close_req s)
  then show ?case by (auto simp: end_ok_def workers_done_def close_rank_def split: svc_chan.splits)
next
  case (m_close_clo s)
  then show ?case by (auto simp: end_ok_def workers_done_def close_rank_def split: svc_chan.splits)
next
  case (m_listener s)
  then show ?case by (auto simp: end_ok_def workers_done_def close_rank_def split: svc_chan.splits)
next
  case (m_stats s)
  then show ?case by (auto simp: end_ok_def workers_done_def close_rank_def split: svc_chan.splits)
next
  case (n_end s esp)
  then show ?case by (auto simp: end_ok_def workers_done_def)
qed

lemma end_ok_act: "fast_act serve cap b s t \<Longrightarrow> end_ok s \<Longrightarrow> end_ok t"
proof (induction rule: fast_act.induct)
  case (fast_works s t)
  then show ?case by (rule end_ok_work)
next
  case (n_tick s esp)
  then show ?case by (auto simp: end_ok_def workers_done_def counter_simps nils_def)
next
  case (g_signal s sg)
  then show ?case by (auto simp: end_ok_def workers_done_def)
qed

lemma end_ok_step: "fast_step serve cap b s t \<Longrightarrow> end_ok s \<Longrightarrow> end_ok t"
  by (auto simp: fast_step_def intro: end_ok_act)

interpretation fast_end: transition_invariant "fast_step serve cap b" end_ok for serve cap b
  by unfold_locales (rule end_ok_step)

lemma end_ok_start: "end_ok (fast_start n)"
  by (auto simp: end_ok_def fast_start_def wk_start_def wk_ok_def worker_init_def counter_simps nils_def close_rank_def
      split: svc_chan.splits)

section \<open>The account of the channels\<close>

definition amount :: "svc_chan \<Rightarrow> chan_send list \<Rightarrow> i64" where
  "amount ch xs = sum_list (map snd (filter (\<lambda>x. fst x = ch) xs))"

lemma amount_simps [simp]:
  "amount ch [] = 0" "amount ch ((c, n) # xs) = (if c = ch then n else 0) + amount ch xs"
  "amount ch (xs @ ys) = amount ch xs + amount ch ys"
  by (simp_all add: amount_def)

definition owed :: "svc_chan \<Rightarrow> chan_send list option \<Rightarrow> i64" where
  "owed ch c = (case c of None \<Rightarrow> 0 | Some xs \<Rightarrow> amount ch xs)"

lemma owed_simps [simp]: "owed ch None = 0" "owed ch (Some xs) = amount ch xs"
  by (simp_all add: owed_def)

text \<open>What a worker and its connections will send in all, and what they have sent.\<close>

definition due :: "('c \<Rightarrow> chan_send list) \<Rightarrow> svc_chan \<Rightarrow> 'c wk \<Rightarrow> i64" where
  "due serve ch w = (\<Sum>c \<leftarrow> launched (wst w). amount ch (serve c))
     + (if ch = AccCh then of_nat (length (launched (wst w))) else 0)"

definition unsent :: "svc_chan \<Rightarrow> 'c wk \<Rightarrow> i64" where
  "unsent ch w = (\<Sum>c \<leftarrow> wconns w. owed ch c) + (case wpc w of WSend k \<Rightarrow> if ch = AccCh then of_nat k else 0 | _ \<Rightarrow> 0)"

definition sent :: "('c \<Rightarrow> chan_send list) \<Rightarrow> svc_chan \<Rightarrow> 'c wk \<Rightarrow> i64" where
  "sent serve ch w = due serve ch w - unsent ch w"

definition account_ok :: "('c \<Rightarrow> chan_send list) \<Rightarrow> 'c fsys \<Rightarrow> bool" where
  "account_ok serve s \<longleftrightarrow>
     (\<forall>ch. counted ch (cnt s) + sum_list (queue s ch) = (\<Sum>w \<leftarrow> wks s. sent serve ch w))"

lemma flush_launched:
  assumes "\<not> onload st"
  shows "\<exists>started. launched (worker_flush b tick st) = launched st @ started"
  using assms by (auto simp: worker_flush_def Let_def)

lemma sent_turn: "\<not> onload (wst w) \<Longrightarrow> wpc w = WTop \<Longrightarrow> sent serve ch (wk_turn serve b tick w) = sent serve ch w"
proof -
  assume w: "\<not> onload (wst w)" "wpc w = WTop"
  obtain started where l: "launched (worker_flush b tick (wst w)) = launched (wst w) @ started"
    using flush_launched [OF w(1)] by blast
  have m: "(\<Sum>c \<leftarrow> map (Some \<circ> serve) started. owed ch c) = (\<Sum>c \<leftarrow> started. amount ch (serve c))"
    by (simp add: o_def)
  show ?thesis
    using w(2) l m by (cases "started = []") (simp_all add: sent_def due_def unsent_def wk_turn_def Let_def o_def)
qed

lemma sent_accept: "wpc w = WAccept \<Longrightarrow> sent serve ch (wk_accept ans w) = sent serve ch w"
  by (cases ans) (simp_all add: sent_def due_def unsent_def wk_accept_def worker_accept_def Let_def)

lemma sent_leave: "wpc w = WTop \<Longrightarrow> sent serve ch (wk_leave w) = sent serve ch w"
  by (simp add: sent_def due_def unsent_def wk_leave_def)

lemma sent_batch:
  "wpc w = WSend k \<Longrightarrow> sent serve ch (w\<lparr>wpc := WAccept\<rparr>) = sent serve ch w + (if ch = AccCh then of_nat k else 0)"
  by (simp add: sent_def due_def unsent_def)

lemma sent_join: "wpc w = WJoin \<Longrightarrow> sent serve ch (w\<lparr>wpc := WDone\<rparr>) = sent serve ch w"
  by (simp add: sent_def due_def unsent_def)

lemma sent_conn:
  "j < length (wconns w) \<Longrightarrow>
     sent serve ch (w\<lparr>wconns := (wconns w)[j := c]\<rparr>) = sent serve ch w + owed ch (wconns w ! j) - owed ch c"
  by (simp add: sent_def due_def unsent_def sum_map_update)

lemma account_same:
  assumes "account_ok serve s" "i < length (wks s)" "\<And>ch. sent serve ch w = sent serve ch (wks s ! i)"
  shows "account_ok serve (set_wk i w s)"
  using assms by (simp add: account_ok_def sum_map_update)

lemma account_send:
  assumes "account_ok serve s" "i < length (wks s)"
    and "\<And>c. sent serve c w = sent serve c (wks s ! i) + (if c = ch then n else 0)"
  shows "account_ok serve (send_on ch n (set_wk i w s))"
  using assms by (simp add: account_ok_def sum_map_update)

lemma account_fields:
  "account_ok serve s \<Longrightarrow> wks t = wks s \<Longrightarrow> queue t = queue s \<Longrightarrow> (\<And>ch. counted ch (cnt t) = counted ch (cnt s)) \<Longrightarrow> account_ok serve t"
  by (simp add: account_ok_def)

lemma account_work: "fast_work serve cap b s t \<Longrightarrow> end_ok s \<Longrightarrow> account_ok serve s \<Longrightarrow> account_ok serve t"
proof (induction rule: fast_work.induct)
  case (w_turn i s tick)
  then show ?case
    using end_ok_wk_ok [of s i] by (intro account_same) (auto intro!: sent_turn simp: wk_ok_def)
next
  case (w_exit i s)
  then show ?case by (intro account_same) (simp_all add: sent_leave)
next
  case (w_send i s k)
  then show ?case by (intro account_send) (simp_all add: sent_batch)
next
  case (w_accept i s ans)
  then show ?case by (intro account_same) (simp_all add: sent_accept)
next
  case (w_join i s)
  then show ?case by (intro account_same) (simp_all add: sent_join)
next
  case (c_send i s j ch n rest)
  then show ?case by (intro account_send) (simp_all add: sent_conn)
next
  case (c_done i s j)
  then show ?case by (intro account_same) (simp_all add: sent_conn)
next
  case (n_recv s ch n q)
  show ?case
    unfolding account_ok_def
  proof
    fix c
    have "counted c (cnt s) + sum_list (queue s c) = (\<Sum>w \<leftarrow> wks s. sent serve c w)" using n_recv by (simp add: account_ok_def)
    then show "counted c (cnt (s\<lparr>cnt := counter_step (cnt s) (recv_event ch n), queue := (queue s)(ch := q)\<rparr>))
        + sum_list (queue (s\<lparr>cnt := counter_step (cnt s) (recv_event ch n), queue := (queue s)(ch := q)\<rparr>) c)
        = (\<Sum>w \<leftarrow> wks (s\<lparr>cnt := counter_step (cnt s) (recv_event ch n), queue := (queue s)(ch := q)\<rparr>). sent serve c w)"
      using n_recv(1-3) by (cases "c = ch") (simp_all add: counter_simps algebra_simps)
  qed
next
  case (n_closed s ch)
  then show ?case by - (rule account_fields [of serve s], simp_all add: counter_simps)
qed (auto intro: account_fields)

definition fast_inv :: "('c \<Rightarrow> chan_send list) \<Rightarrow> 'c fsys \<Rightarrow> bool" where
  "fast_inv serve s \<longleftrightarrow> end_ok s \<and> account_ok serve s"

lemma account_act: "fast_act serve cap b s t \<Longrightarrow> end_ok s \<Longrightarrow> account_ok serve s \<Longrightarrow> account_ok serve t"
proof (induction rule: fast_act.induct)
  case (fast_works s t)
  then show ?case by (rule account_work)
next
  case (n_tick s esp)
  then show ?case by - (rule account_fields [of serve s], simp_all add: counter_simps)
next
  case (g_signal s sg)
  then show ?case by - (rule account_fields [of serve s], simp_all)
qed

interpretation fast_books: transition_invariant "fast_step serve cap b" "fast_inv serve" for serve cap b
  by unfold_locales (auto simp: fast_inv_def fast_step_def intro: end_ok_act account_act)

lemma fast_inv_start: "fast_inv serve (fast_start n)"
proof -
  have "sent serve ch wk_start = 0" for ch
    by (simp add: sent_def due_def unsent_def wk_start_def worker_init_def)
  then have "account_ok serve (fast_start n)"
    by (simp add: account_ok_def fast_start_def counter_simps sum_list_replicate)
  then show ?thesis by (simp add: fast_inv_def end_ok_start)
qed

text \<open>The connections that were started.\<close>

definition started_conns :: "'c fsys \<Rightarrow> 'c list" where
  "started_conns s = concat (map (launched \<circ> wst) (wks s))"

lemma sum_started:
  fixes f :: "'c \<Rightarrow> i64"
  shows "(\<Sum>w \<leftarrow> wks s. \<Sum>c \<leftarrow> launched (wst w). f c) = (\<Sum>c \<leftarrow> started_conns s. f c)"
proof -
  have "(\<Sum>w \<leftarrow> ws. \<Sum>c \<leftarrow> launched (wst w). f c) = (\<Sum>c \<leftarrow> concat (map (launched \<circ> wst) ws). f c)" for ws :: "'c wk list"
    by (induction ws) simp_all
  then show ?thesis by (simp add: started_conns_def)
qed

lemma sum_const_started: "(\<Sum>c \<leftarrow> cs. 1 :: i64) = of_nat (length cs)"
  by (induction cs) simp_all

lemma books_at_end:
  assumes "fast_inv serve s" "cnt_line s \<noteq> None"
  shows "counted ch (cnt s) = (\<Sum>c \<leftarrow> started_conns s. amount ch (serve c))
     + (if ch = AccCh then of_nat (length (started_conns s)) else 0)"
proof -
  have e: "end_ok s" and a: "account_ok serve s" using assms by (simp_all add: fast_inv_def)
  have nil: "nil_of c (cnt s)" for c using e assms(2) by (auto simp: end_ok_def intro!: nils_all)
  then have closed: "closed s c" "queue s c = []" for c using e by (auto simp: end_ok_def)
  have "close_rank AccCh \<le> main_rank (main_at s)" using e closed(1) unfolding end_ok_def by blast
  then have "main_at s \<noteq> MWorkers" by auto
  then have over: "\<forall>w \<in> set (wks s). wpc w = WDone \<and> (\<forall>c \<in> set (wconns w). c = None)"
    using e by (auto simp: end_ok_def workers_done_def wk_ok_def)
  have "unsent ch w = 0" if "w \<in> set (wks s)" for w
  proof -
    have "(\<Sum>c \<leftarrow> cs. owed ch c) = 0" if "\<forall>c \<in> set cs. c = None" for cs using that by (induction cs) auto
    then show ?thesis using over that by (simp add: unsent_def)
  qed
  then have "(\<Sum>w \<leftarrow> wks s. sent serve ch w) = (\<Sum>w \<leftarrow> wks s. due serve ch w)"
    by (intro arg_cong [of _ _ sum_list] map_cong) (simp_all add: sent_def)
  also have "\<dots> = (\<Sum>c \<leftarrow> started_conns s. amount ch (serve c)) + (if ch = AccCh then of_nat (length (started_conns s)) else 0)"
    unfolding due_def sum_list_addf sum_started
    using sum_started [of "\<lambda>_. 1" s] by (auto simp: sum_const_started sum_list_0)
  finally show ?thesis using a closed(2) by (simp add: account_ok_def)
qed

section \<open>What is left to do after a signal\<close>

definition pc_left :: "wk_pc \<Rightarrow> nat" where
  "pc_left p = (case p of WDone \<Rightarrow> 0 | WJoin \<Rightarrow> 1 | WTop \<Rightarrow> 2 | WAccept \<Rightarrow> 3 | WSend k \<Rightarrow> 5)"

definition conn_left :: "chan_send list option \<Rightarrow> nat" where
  "conn_left c = (case c of None \<Rightarrow> 0 | Some xs \<Rightarrow> 2 * length xs + 1)"

definition wk_left :: "'c wk \<Rightarrow> nat" where
  "wk_left w = pc_left (wpc w) + (\<Sum>c \<leftarrow> wconns w. conn_left c)"

definition work_left :: "'c fsys \<Rightarrow> nat" where
  "work_left s = (\<Sum>w \<leftarrow> wks s. wk_left w) + (length (queue s ReqCh) + length (queue s AccCh) + length (queue s CloCh))
     + (3 - exitCount (cnt s)) + (if cnt_line s = None then 1 else 0) + (6 - main_rank (main_at s))"

lemma left_simps [simp]:
  "pc_left WDone = 0" "pc_left WJoin = 1" "pc_left WTop = 2" "pc_left WAccept = 3" "pc_left (WSend k) = 5"
  "conn_left None = 0" "conn_left (Some xs) = 2 * length xs + 1"
  by (simp_all add: pc_left_def conn_left_def)

lemma work_left_wk:
  "i < length (wks s) \<Longrightarrow> wk_left w + k = wk_left (wks s ! i) \<Longrightarrow> work_left (set_wk i w s) + k = work_left s"
  using sum_update_nat [of i "wks s" wk_left w] by (simp add: work_left_def)

lemma work_left_send: "work_left (send_on ch n s) = work_left s + 1"
  by (cases ch) (simp_all add: work_left_def)

lemma wk_left_conn:
  "j < length (wconns w) \<Longrightarrow> wk_left (w\<lparr>wconns := (wconns w)[j := c]\<rparr>) + conn_left (wconns w ! j) = wk_left w + conn_left c"
  using sum_update_nat [of j "wconns w" conn_left c] by (simp add: wk_left_def)

lemma wk_left_accept: "wpc w = WAccept \<Longrightarrow> \<exists>k > 0. wk_left (wk_accept ans w) + k = wk_left w"
  by (auto simp: wk_left_def wk_accept_def Let_def)

lemma work_decreases:
  "fast_work serve cap b s t \<Longrightarrow> end_ok s \<Longrightarrow> exitSignaled (sigs s) \<Longrightarrow> work_left t < work_left s"
proof (induction rule: fast_work.induct)
  case (w_exit i s)
  then show ?case using work_left_wk [of i s "wk_leave (wks s ! i)" 1] by (simp add: wk_left_def wk_leave_def)
next
  case (w_send i s k)
  then show ?case
    using work_left_wk [of i s "(wks s ! i)\<lparr>wpc := WAccept\<rparr>" 2] by (simp add: work_left_send wk_left_def)
next
  case (w_send_closed i s k)
  then have "main_at s = MWorkers" by (intro end_ok_at_work [of s i]) simp_all
  then show ?case using w_send_closed by (simp add: end_ok_def)
next
  case (w_accept i s ans)
  then obtain k where "k > 0" "wk_left (wk_accept ans (wks s ! i)) + k = wk_left (wks s ! i)" using wk_left_accept by blast
  then show ?case using work_left_wk [of i s "wk_accept ans (wks s ! i)" k] w_accept by simp
next
  case (w_join i s)
  then show ?case using work_left_wk [of i s "(wks s ! i)\<lparr>wpc := WDone\<rparr>" 1] by (simp add: wk_left_def)
next
  case (c_send i s j ch n rest)
  then show ?case
    using wk_left_conn [of j "wks s ! i" "Some rest"]
      work_left_wk [of i s "(wks s ! i)\<lparr>wconns := (wconns (wks s ! i))[j := Some rest]\<rparr>" 2] by (simp add: work_left_send)
next
  case (c_send_closed i s j ch n rest)
  then have "wpc (wks s ! i) \<noteq> WDone" using end_okD(3) by blast
  then have "main_at s = MWorkers" using c_send_closed end_ok_at_work by blast
  then show ?case using c_send_closed by (cases ch) (simp_all add: end_ok_def)
next
  case (c_done i s j)
  then show ?case
    using wk_left_conn [of j "wks s ! i" None]
      work_left_wk [of i s "(wks s ! i)\<lparr>wconns := (wconns (wks s ! i))[j := None]\<rparr>" 1] by simp
next
  case (n_recv s ch n q)
  then show ?case by (cases ch) (simp_all add: work_left_def counter_simps)
next
  case (n_closed s ch)
  then show ?case by (simp add: work_left_def counter_simps)
qed (simp_all add: work_left_def)

lemma work_sigs: "fast_work serve cap b s t \<Longrightarrow> exitSignaled (sigs s) \<Longrightarrow> sigs t = sigs s"
  by (induction rule: fast_work.induct) simp_all

lemma recv_possible: "end_ok s \<Longrightarrow> queue s ch \<noteq> [] \<Longrightarrow> \<exists>t. fast_work serve cap b s t"
proof -
  assume e: "end_ok s" and q: "queue s ch \<noteq> []"
  then have n: "\<not> nil_of ch (cnt s)" by (auto simp: end_ok_def)
  then have "nils (cnt s) < 3" using nils_all by (meson not_less)
  then have "exitCount (cnt s) < 3" using e by (simp add: end_ok_def)
  then show ?thesis using n q n_recv [of s ch "hd (queue s ch)" "tl (queue s ch)" serve cap b] by auto
qed

lemma worker_possible:
  assumes "end_ok s" "exitSignaled (sigs s)" "0 < cap" "\<forall>ch. queue s ch = []" "i < length (wks s)" "wpc (wks s ! i) \<noteq> WDone"
  shows "\<exists>t. fast_work serve cap b s t"
proof -
  have "main_at s = MWorkers" using assms by (intro end_ok_at_work)
  then have opn: "\<not> closed s ch" for ch using assms(1) by (cases ch) (simp_all add: end_ok_def)
  show ?thesis
  proof (cases "wpc (wks s ! i)")
    case WTop
    then show ?thesis using w_exit assms by blast
  next
    case (WSend k)
    then show ?thesis using w_send [of i s k cap] assms opn by simp blast
  next
    case WAccept
    then show ?thesis using w_accept assms by blast
  next
    case WJoin
    show ?thesis
    proof (cases "\<forall>c \<in> set (wconns (wks s ! i)). c = None")
      case True
      then show ?thesis using w_join assms WJoin by blast
    next
      case False
      then obtain j xs where j: "j < length (wconns (wks s ! i))" "wconns (wks s ! i) ! j = Some xs"
        by (auto simp: in_set_conv_nth)
      show ?thesis
      proof (cases xs)
        case Nil
        then show ?thesis using c_done j assms by blast
      next
        case (Cons x rest)
        then show ?thesis
          using c_send [of i s j "fst x" "snd x" rest cap] j assms opn by (simp, blast)
      qed
    qed
  qed (use assms in simp)
qed

lemma close_possible:
  assumes "end_ok s" "\<forall>ch. queue s ch = []" "workers_done s" "main_at s \<noteq> MDone"
  shows "\<exists>t. fast_work serve cap b s t"
proof (cases "main_at s = MStats")
  case True
  show ?thesis
  proof (cases "cnt_line s")
    case None
    have closed: "closed s ch" for ch using assms(1) True by (cases ch) (simp_all add: end_ok_def)
    show ?thesis
    proof (cases "exitCount (cnt s) < 3")
      case True
      then have "\<exists>ch. \<not> nil_of ch (cnt s)" using assms(1) by (auto simp: end_ok_def nils_def of_bool_def split: if_splits)
      then show ?thesis using n_closed True closed assms(2) by blast
    next
      case False
      then show ?thesis using n_end None by (meson not_less)
    qed
  qed (use m_stats True in blast)
next
  case False
  show ?thesis
  proof (cases "main_at s")
    case MWorkers
    then show ?thesis using m_wait assms(3) by (metis workers_done_def)
  next
    case MCloseAcc
    then show ?thesis using m_close_acc by blast
  next
    case MCloseReq
    then show ?thesis using m_close_req by blast
  next
    case MCloseClo
    then show ?thesis using m_close_clo by blast
  next
    case MListener
    then show ?thesis using m_listener by blast
  qed (use False assms(4) in simp_all)
qed

lemma work_possible:
  assumes "end_ok s" "exitSignaled (sigs s)" "0 < cap" "main_at s \<noteq> MDone"
  shows "\<exists>t. fast_work serve cap b s t"
proof (cases "\<exists>ch. queue s ch \<noteq> []")
  case True
  then show ?thesis using recv_possible assms(1) by blast
next
  case False
  show ?thesis
  proof (cases "workers_done s")
    case True
    then show ?thesis using close_possible assms False by blast
  next
    case notdone: False
    then obtain i where "i < length (wks s)" "wpc (wks s ! i) \<noteq> WDone"
      by (auto simp: workers_done_def in_set_conv_nth)
    then show ?thesis using worker_possible assms False by blast
  qed
qed

lemma work_run:
  "(fast_work serve cap b ^^ k) s t \<Longrightarrow> end_ok s \<Longrightarrow> exitSignaled (sigs s) \<Longrightarrow>
     end_ok t \<and> sigs t = sigs s \<and> work_left t + k \<le> work_left s"
proof (induction k arbitrary: t)
  case (Suc k)
  then obtain u where u: "(fast_work serve cap b ^^ k) s u" "fast_work serve cap b u t" by auto
  then show ?case
    using Suc.IH [OF u(1)] Suc.prems end_ok_work [OF u(2)] work_sigs [OF u(2)] work_decreases [OF u(2)] by fastforce
qed simp

section \<open>Properties\<close>

lemma amounts_of_service:
  "amount ReqCh (service_sends c) = of_nat (sum_list (toRequestsCh (service_end c)))"
  "amount CloCh (service_sends c) = 1" "amount AccCh (service_sends c) = 0"
proof -
  let ?rs = "toRequestsCh (service_end c)"
  have ne: "?rs \<noteq> []" "toClosedCh (service_end c) = [1]" by (simp_all add: service_end_def tinyhttpservice_def Let_def)
  have m: "amount ch (map (\<lambda>n. (ch', of_nat n)) ns) = (if ch' = ch then of_nat (sum_list ns) else 0)" for ch ch' ns
    by (induction ns) simp_all
  have "sum_list (butlast ?rs) + last ?rs = sum_list ?rs"
    using ne(1) by (metis append_butlast_last_id sum_list.Cons sum_list.Nil sum_list.append add.right_neutral)
  then have "of_nat (sum_list (butlast ?rs)) + of_nat (last ?rs) = (of_nat (sum_list ?rs) :: i64)" by (metis of_nat_add)
  then show "amount ReqCh (service_sends c) = of_nat (sum_list ?rs)" by (simp add: service_sends_def Let_def m ne)
  show "amount CloCh (service_sends c) = 1" "amount AccCh (service_sends c) = 0"
    by (simp_all add: service_sends_def Let_def m ne)
qed

lemma sum_of_nat_cong:
  "(\<And>c. c \<in> set cs \<Longrightarrow> f c = g c) \<Longrightarrow> (\<Sum>c \<leftarrow> cs. of_nat (f c) :: i64) = of_nat (\<Sum>c \<leftarrow> cs. g c)"
  by (induction cs) simp_all

definition pool_sized :: "served \<Rightarrow> bool" where
  "pool_sized c \<longleftrightarrow> length (s_mbuf c) = 48 \<and> length (s_hpool c) = 128 \<and> length (s_cpool c) = 128"

text \<open>
  C2. In every interleaving of workers, connections, signals and the counting goroutine nothing is sent on a closed
  channel, and the last line of the statistics has the requests parsed on all connections that were started,
  as many accepted and closed connections as were started, and none running.
\<close>

theorem server_accounts:
  assumes "reaches (fast_step service_sends cap b) (fast_start workers) s"
    and "\<forall>c \<in> set (started_conns s). pool_sized c"
  shows "\<not> send_panic s \<and> (\<forall>l. cnt_line s = Some l \<longrightarrow>
       st_requests l = of_nat (\<Sum>c \<leftarrow> started_conns s. totalrequest (final (service_end c)))
     \<and> st_accepted l = of_nat (length (started_conns s)) \<and> st_closed l = of_nat (length (started_conns s)) \<and> st_running l = 0)"
proof -
  have inv: "fast_inv service_sends s" by (rule fast_books.inv_reaches [OF assms(1) fast_inv_start])
  then have e: "end_ok s" by (simp add: fast_inv_def)
  have total: "sum_list (toRequestsCh (service_end c)) = totalrequest (final (service_end c))" if "pool_sized c" for c
  proof -
    have i: "svc_inv (svc_loop (s_hpool c) (s_cpool c) (s_sig c) 0 (svc_init (s_mbuf c) (s_reads c) (s_writes c)))"
      using that by (intro svc_loop_inv svc_init_inv) (simp_all add: pool_sized_def)
    then show ?thesis by (simp add: service_end_def tinyhttpservice_def Let_def svc_inv_def count_ok_def)
  qed
  have "(\<Sum>c \<leftarrow> started_conns s. of_nat (sum_list (toRequestsCh (service_end c))) :: i64)
      = of_nat (\<Sum>c \<leftarrow> started_conns s. totalrequest (final (service_end c)))"
    using assms(2) by (intro sum_of_nat_cong total) blast
  then have books: "finishedNum (cnt s) = of_nat (\<Sum>c \<leftarrow> started_conns s. totalrequest (final (service_end c)))"
      "acceptNum (cnt s) = of_nat (length (started_conns s))" "closedNum (cnt s) = of_nat (length (started_conns s))"
    if "cnt_line s \<noteq> None"
    using books_at_end [OF inv that, of ReqCh] books_at_end [OF inv that, of AccCh] books_at_end [OF inv that, of CloCh]
    by (simp_all add: counted_def amounts_of_service sum_const_started sum_list_0)
  have "\<exists>esp. l = stats_of esp (cnt s)" if "cnt_line s = Some l" for l using e that by (simp add: end_ok_def)
  moreover have "\<not> send_panic s" using e by (simp add: end_ok_def)
  ultimately show ?thesis using books by (auto simp: stats_of_def)
qed

text \<open>
  C13. Once a signal has been caught, the goroutines do only a bounded number of steps more, in whatever order, and
  when they can do none, \<open>main\<close> has returned and the last line has been printed: nothing waits for ever.
\<close>

theorem server_ends:
  assumes "reaches (fast_step serve cap b) (fast_start workers) s" "exitSignaled (sigs s)" "0 < cap"
    and "(fast_work serve cap b ^^ k) s t"
  shows "k \<le> work_left s \<and> ((\<nexists>u. fast_work serve cap b t u) \<longrightarrow> main_at t = MDone \<and> cnt_line t \<noteq> None)"
proof -
  have "end_ok s" by (rule fast_end.inv_reaches [OF assms(1) end_ok_start])
  then have t: "end_ok t" "sigs t = sigs s" "work_left t + k \<le> work_left s" using work_run [OF assms(4)] assms(2) by auto
  have "main_at t = MDone" if "\<nexists>u. fast_work serve cap b t u" using work_possible [of t cap] t assms(2,3) that by metis
  then show ?thesis using t by (auto simp: end_ok_def)
qed

text \<open>One worker accepts a connection that its peer closes at once, and starts it.\<close>

definition idle_conn :: served where
  "idle_conn = \<lparr>s_mbuf = replicate 48 CHR 0x00, s_hpool = replicate 128 CHR 0x00, s_cpool = replicate 128 CHR 0x00,
     s_sig = (\<lambda>_. False), s_reads = [], s_writes = []\<rparr>"

lemma one_connection_started:
  "\<exists>s. reaches (fast_step service_sends 4096 1) (fast_start 1) s \<and> started_conns s = [idle_conn]"
proof -
  let ?step = "fast_step service_sends 4096 1"
  let ?s0 = "fast_start 1 :: served fsys"
  let ?w1 = "wk_turn service_sends 1 False wk_start"
  let ?w2 = "wk_accept (Accepted idle_conn) ?w1"
  let ?w3 = "wk_turn service_sends 1 False ?w2"
  have w1: "wks ?s0 = [wk_start]" "wpc (wk_start :: served wk) = WTop" "alive ?s0" "\<not> exitSignaled (sigs ?s0)"
    by (simp_all add: fast_start_def wk_start_def alive_def signal_init_def)
  have pc: "wpc ?w1 = WAccept" "wpc ?w2 = WTop" "launched (wst ?w3) = [idle_conn]"
    by (simp_all add: wk_turn_def wk_accept_def wk_start_def worker_init_def worker_flush_def worker_accept_def Let_def)
  let ?s1 = "set_wk 0 ?w1 ?s0" and ?s2 = "set_wk 0 ?w2 (set_wk 0 ?w1 ?s0)" and ?s3 = "set_wk 0 ?w3 (set_wk 0 ?w2 (set_wk 0 ?w1 ?s0))"
  have "?step ?s0 ?s1" using w_turn [of 0 ?s0 service_sends 4096 1 False] w1 by (simp add: fast_step_def fast_works)
  moreover have "?step ?s1 ?s2"
    using w_accept [of 0 ?s1 service_sends 4096 1 "Accepted idle_conn"] w1 pc by (simp add: fast_step_def fast_works alive_def)
  moreover have "?step ?s2 ?s3"
    using w_turn [of 0 ?s2 service_sends 4096 1 False] w1 pc by (simp add: fast_step_def fast_works alive_def)
  ultimately have "reaches ?step ?s0 ?s3" by (blast intro: reaches_step reaches_one)
  then show ?thesis using pc w1 by (intro exI [of _ ?s3]) (simp add: started_conns_def)
qed

theorem server_accounts_witness:
  "\<exists>s. reaches (fast_step service_sends 4096 1) (fast_start 1) s \<and> started_conns s = [idle_conn] \<and> \<not> send_panic s"
proof -
  obtain s where s: "reaches (fast_step service_sends 4096 1) (fast_start 1) s" "started_conns s = [idle_conn]"
    using one_connection_started by blast
  have "\<forall>c \<in> set (started_conns s). pool_sized c" by (simp add: s(2) pool_sized_def idle_conn_def)
  then show ?thesis using server_accounts [OF s(1)] s by blast
qed

theorem server_ends_witness:
  "\<exists>s. reaches (fast_step service_sends 4096 64) (fast_start 2) s \<and> exitSignaled (sigs s) \<and> 1 \<le> work_left (s :: served fsys)"
proof -
  let ?s0 = "fast_start 2 :: served fsys"
  let ?s1 = "?s0\<lparr>sigs := signal_step (sigs ?s0) 15\<rparr>"
  have s1: "wks ?s1 = [wk_start, wk_start]" "exitSignaled (sigs ?s1)"
    by (simp_all add: fast_start_def signal_init_def signal_step_def numeral_2_eq_2)
  have "fast_step service_sends 4096 64 ?s0 ?s1"
    using g_signal [of service_sends 4096 64 ?s0 15] unfolding fast_step_def by (simp add: alive_def) (simp add: fast_start_def signal_init_def)
  then have r: "reaches (fast_step service_sends 4096 64) ?s0 ?s1" by (rule reaches_one)
  have "fast_work service_sends 4096 64 ?s1 (set_wk 0 (wk_leave wk_start) ?s1)"
    using w_exit [of 0 ?s1 service_sends 4096 64] s1 by (simp add: wk_start_def)
  then have "(fast_work service_sends 4096 64 ^^ 1) ?s1 (set_wk 0 (wk_leave wk_start) ?s1)" by (simp add: eq_OO)
  from server_ends [OF r s1(2) _ this] r s1(2) show ?thesis by (intro exI [of _ ?s1]) simp
qed

end
