(* ===== verification/Qps_Bus.thy ===== *)
theory Qps_Bus
  imports Qps_Main
begin

text \<open>
  \<open>main\<close> of \<open>src/qps-http-app-server/qps-http-app-server.go\<close> with its goroutines and the event channel between
  them, which has \<open>srv_cfg_max_connections + 10240\<close> places.  The goroutine that counts also sends: for every
  destroyed connection it puts a further event into the channel that it alone empties.

  A handler is the list of the events it still has to send; what it does with its peer in between touches
  nothing that is shared.  The display, which reads the counters, is in \<open>Qps_Main\<close>.
\<close>

section \<open>State\<close>

datatype bus_counter_pc = CIdle | CResend
datatype bus_accept_pc = AWait | AInit | AAdd | AStart | AQuit | AEnd
datatype bus_main_pc = QLoop | QCleanup | QDone

text \<open>\<open>taken\<close> and \<open>pushed\<close> are history: what the counting goroutine has done, and all that was sent.\<close>

record qbus =
  chan :: "qevent list"
  status :: "qevent \<Rightarrow> int"
  conns :: int
  cnt_at :: bus_counter_pc
  acc_at :: bus_accept_pc
  handlers :: "qevent list list"
  bus_main :: bus_main_pc
  taken :: "main_event list"
  pushed :: "qevent list"

definition bus_cap :: "nat \<Rightarrow> nat" where
  "bus_cap max_connections = max_connections + 10240"

definition bus_start :: "nat \<Rightarrow> qbus" where
  "bus_start max_connections =
     \<lparr>chan = [], status = (\<lambda>_. 0)(TOTAL_CONN_MAX := int max_connections, TOTAL_CONN_IDLE := int max_connections), conns = 0,
      cnt_at = CIdle, acc_at = AWait, handlers = [], bus_main = QLoop, taken = [], pushed = []\<rparr>"

text \<open>
  The start of \<open>main\<close>: it exits with the parser of the options or when it cannot listen; the flags tell which of its
  two warnings it shows, for the debug level and for the display that is switched off.
\<close>

definition qps_begin :: "splitter \<Rightarrow> int \<Rightarrow> qoption list \<Rightarrow> (bytes \<Rightarrow> bool) \<Rightarrow> (bool \<times> bool \<times> qbus) option" where
  "qps_begin splitHostPort numCPU opts listens =
     (case commandArgsParser splitHostPort numCPU opts of
        None \<Rightarrow> None
      | Some (c, g) \<Rightarrow>
          if listens (cfg_listen c)
          then Some (cfg_debug_level c \<ge> 3, cfg_qps_interval c < 1, bus_start (nat (cfg_max_connections c)))
          else None)"

definition push :: "qevent \<Rightarrow> qbus \<Rightarrow> qbus" where
  "push e s = s\<lparr>chan := chan s @ [e], pushed := pushed s @ [e]\<rparr>"

definition room :: "nat \<Rightarrow> qbus \<Rightarrow> bool" where
  "room m s \<longleftrightarrow> length (chan s) < bus_cap m"

text \<open>The counting goroutine takes an event: a destroyed connection is counted only after the further event is sent.\<close>

definition take_event :: "qevent \<Rightarrow> qbus \<Rightarrow> qbus" where
  "take_event e s =
     (let s1 = s\<lparr>chan := tl (chan s), taken := taken s @ [Event e]\<rparr>
      in if e = HttpRequestStateDestroyed then s1\<lparr>conns := conns s1 - 1, cnt_at := CResend\<rparr>
         else s1\<lparr>status := (status s1)(e := status s1 e + 1)\<rparr>)"

definition resend :: "qbus \<Rightarrow> qbus" where
  "resend s =
     (push TOTAL_CONN_CLOSED s)
       \<lparr>status := (status s)(HttpRequestStateDestroyed := status s HttpRequestStateDestroyed + 1), cnt_at := CIdle\<rparr>"

text \<open>The accepting goroutine adds the connection to the counter, then reads the counter and starts a handler; the
  counting goroutine can come in between.\<close>

definition add_running :: "qbus \<Rightarrow> qbus" where
  "add_running s = s\<lparr>conns := conns s + 1, taken := taken s @ [Accept], acc_at := AStart\<rparr>"

definition start_handler :: "qevent list \<Rightarrow> qbus \<Rightarrow> qbus" where
  "start_handler evs s = s\<lparr>handlers := handlers s @ [evs], acc_at := AWait\<rparr>"

definition too_many :: "nat \<Rightarrow> qbus \<Rightarrow> bool" where
  "too_many max_connections s \<longleftrightarrow> conns s > int max_connections"

section \<open>Steps\<close>

text \<open>\<open>arrive busy evs\<close>: a connection can come whose handler sends \<open>evs\<close>.\<close>

inductive bus_work :: "(bool \<Rightarrow> qevent list \<Rightarrow> bool) \<Rightarrow> nat \<Rightarrow> qbus \<Rightarrow> qbus \<Rightarrow> bool" for arrive m where
  tick_esp: "room m s \<Longrightarrow> bus_work arrive m s (push TOTAL_TIME_ESP s)"
| accept_ok: "acc_at s = AWait \<Longrightarrow> bus_work arrive m s (s\<lparr>acc_at := AInit\<rparr>)"
| accept_init: "acc_at s = AInit \<Longrightarrow> room m s \<Longrightarrow> bus_work arrive m s (push TOTAL_CONN_INIT (s\<lparr>acc_at := AAdd\<rparr>))"
| accept_adds: "acc_at s = AAdd \<Longrightarrow> bus_work arrive m s (add_running s)"
| accept_start: "acc_at s = AStart \<Longrightarrow> arrive (too_many m s) evs \<Longrightarrow> bus_work arrive m s (start_handler evs s)"
| accept_fails: "acc_at s = AWait \<Longrightarrow> bus_work arrive m s (s\<lparr>acc_at := AQuit\<rparr>)"
| main_quits: "acc_at s = AQuit \<Longrightarrow> bus_main s = QLoop \<Longrightarrow> bus_work arrive m s (s\<lparr>acc_at := AEnd, bus_main := QCleanup\<rparr>)"
| main_returns: "bus_main s = QCleanup \<Longrightarrow> bus_work arrive m s (s\<lparr>bus_main := QDone\<rparr>)"
| handler_sends: "i < length (handlers s) \<Longrightarrow> handlers s ! i = e # rest \<Longrightarrow> room m s \<Longrightarrow>
    bus_work arrive m s (push e (s\<lparr>handlers := (handlers s)[i := rest]\<rparr>))"
| counter_takes: "cnt_at s = CIdle \<Longrightarrow> chan s = e # rest \<Longrightarrow> bus_work arrive m s (take_event e s)"
| counter_resends: "cnt_at s = CResend \<Longrightarrow> room m s \<Longrightarrow> bus_work arrive m s (resend s)"

text \<open>When \<open>main\<close> returns the process ends, with all its goroutines.\<close>

definition bus_step :: "(bool \<Rightarrow> qevent list \<Rightarrow> bool) \<Rightarrow> nat \<Rightarrow> qbus \<Rightarrow> qbus \<Rightarrow> bool" where
  "bus_step arrive m s t \<longleftrightarrow> bus_main s \<noteq> QDone \<and> bus_work arrive m s t"

text \<open>The connections of the program: what a handler sends, for some behaviour of its peer.\<close>

definition handler_events :: "qconf \<Rightarrow> bytes \<Rightarrow> bool \<Rightarrow> qevent list \<Rightarrow> bool" where
  "handler_events cf body busy evs \<longleftrightarrow>
     (\<exists>rd wr c. httpConnectionHandler cf (if busy then httpStatusServiceUnavailable else httpStatusContinue) body (new_conn rd wr) = Some c
        \<and> evs = qevents c)"

section \<open>Counting over the channel refines counting\<close>

definition event_of :: "main_event \<Rightarrow> qevent list" where
  "event_of e = (case e of Accept \<Rightarrow> [] | Event v \<Rightarrow> [v])"

lemma event_of_simps [simp]: "event_of Accept = []" "event_of (Event v) = [v]"
  by (simp_all add: event_of_def)

text \<open>The counters of \<open>Qps_Main\<close> after the same events.\<close>

definition counted_by_main :: "nat \<Rightarrow> qbus \<Rightarrow> qcounters" where
  "counted_by_main m s = foldl (main_step (int m)) (counters_init (int m)) (taken s)"

definition refines :: "nat \<Rightarrow> qbus \<Rightarrow> bool" where
  "refines m s \<longleftrightarrow> conns s = conn_counter (counted_by_main m s)
     \<and> (\<forall>k. status_counter (counted_by_main m s) k
              = status s k + (if k = HttpRequestStateDestroyed \<and> cnt_at s = CResend then 1 else 0))
     \<and> concat (map event_of (taken s)) @ chan s = pushed s \<and> length (chan s) \<le> bus_cap m"

lemma refines_push: "refines m s \<Longrightarrow> room m s \<Longrightarrow> refines m (push e s)"
  by (auto simp: refines_def counted_by_main_def push_def room_def)

lemma refines_take: "refines m s \<Longrightarrow> cnt_at s = CIdle \<Longrightarrow> chan s = e # rest \<Longrightarrow> refines m (take_event e s)"
  by (auto simp: refines_def counted_by_main_def take_event_def Let_def main_step_def count_event_def)

lemma refines_resend: "refines m s \<Longrightarrow> cnt_at s = CResend \<Longrightarrow> room m s \<Longrightarrow> refines m (resend s)"
  by (auto simp: refines_def counted_by_main_def resend_def push_def room_def)

lemma refines_add: "refines m s \<Longrightarrow> refines m (add_running s)"
  by (auto simp: refines_def counted_by_main_def add_running_def main_step_def accept_conn_def Let_def)

lemma refines_fields:
  "refines m s \<Longrightarrow> conns t = conns s \<Longrightarrow> taken t = taken s \<Longrightarrow> status t = status s \<Longrightarrow> cnt_at t = cnt_at s \<Longrightarrow>
     chan t = chan s \<Longrightarrow> pushed t = pushed s \<Longrightarrow> refines m t"
  by (simp add: refines_def counted_by_main_def)

lemma refines_work: "bus_work arrive m s t \<Longrightarrow> refines m s \<Longrightarrow> refines m t"
proof (induction rule: bus_work.induct)
  case (accept_init s)
  have "refines m (s\<lparr>acc_at := AAdd\<rparr>)" using accept_init(3) by (rule refines_fields) simp_all
  then show ?case using accept_init(2) by (intro refines_push) (simp_all add: room_def)
next
  case (handler_sends i s e rest)
  have "refines m (s\<lparr>handlers := (handlers s)[i := rest]\<rparr>)" using handler_sends(4) by (rule refines_fields) simp_all
  then show ?case using handler_sends(3) by (intro refines_push) (simp_all add: room_def)
qed (auto intro: refines_push refines_take refines_resend refines_add elim: refines_fields simp: start_handler_def)

interpretation bus_counts: transition_invariant "bus_step arrive m" "refines m" for arrive m
  by unfold_locales (auto simp: bus_step_def intro: refines_work)

lemma refines_bus_start: "refines m (bus_start m)"
  by (simp add: refines_def bus_start_def counted_by_main_def counters_init_def)

section \<open>The running connections\<close>

abbreviation ended :: "qevent list \<Rightarrow> nat" where
  "ended evs \<equiv> count_list evs HttpRequestStateDestroyed"

text \<open>A connection is counted as running from the addition to the counter until the counting goroutine has taken its last event.\<close>

definition live_conns :: "qbus \<Rightarrow> nat" where
  "live_conns s = (\<Sum>h \<leftarrow> handlers s. ended h) + ended (chan s) + (if acc_at s = AStart then 1 else 0)"

definition running_ok :: "qbus \<Rightarrow> bool" where
  "running_ok s \<longleftrightarrow> conns s = int (live_conns s)"

lemma ended_update:
  "i < length hs \<Longrightarrow> hs ! i = e # rest \<Longrightarrow>
     (\<Sum>h \<leftarrow> hs[i := rest]. ended h) + (if e = HttpRequestStateDestroyed then 1 else 0) = (\<Sum>h \<leftarrow> hs. ended h)"
  by (induction hs arbitrary: i) (auto split: nat.splits)

lemma running_step:
  assumes "\<And>busy evs. arrive busy evs \<Longrightarrow> ended evs = 1"
  shows "bus_work arrive m s t \<Longrightarrow> running_ok s \<Longrightarrow> running_ok t"
proof (induction rule: bus_work.induct)
  case (handler_sends i s e rest)
  then show ?case
    using ended_update [of i "handlers s" e rest] by (auto simp: running_ok_def live_conns_def push_def count_list_append)
next
  case (accept_start s evs)
  then show ?case using assms [of "too_many m s" evs] by (simp add: running_ok_def live_conns_def start_handler_def)
qed (auto simp: running_ok_def live_conns_def push_def take_event_def resend_def add_running_def Let_def)

end
