(* ===== verification/Qps_Bus_Props.thy ===== *)
theory Qps_Bus_Props
  imports Qps_Bus
begin

text \<open>
  What the program of \<open>Qps_Bus\<close> does over whole runs: the channel loses nothing and the counters follow the
  functions of \<open>Qps_Main\<close>, the counter of running connections counts them, and the counting goroutine can block
  on the channel that it alone empties, after which the server serves nobody.
\<close>

section \<open>Runs without a deadlock\<close>

lemma reaches_bus_step: "reaches (bus_step arrive m) s t \<Longrightarrow> bus_main t \<noteq> QDone \<Longrightarrow> bus_work arrive m t u \<Longrightarrow>
    reaches (bus_step arrive m) s u"
  by (rule reaches_step) (simp_all add: bus_step_def)


lemma handler_events_end_once: "handler_events cf body busy evs \<Longrightarrow> qmode cf \<noteq> ''readlonly'' \<Longrightarrow> ended evs = 1"
  by (auto simp: handler_events_def dest: handler_destroys_once)


section \<open>The deadlock\<close>

definition bus_blocked :: "nat \<Rightarrow> qbus \<Rightarrow> bool" where
  "bus_blocked m s \<longleftrightarrow> cnt_at s = CResend \<and> \<not> room m s"

text \<open>The counting goroutine waits on a full channel, and the accepting one is not between its event and the start
  of a handler: no handler gets further and none is started.\<close>

definition dead :: "nat \<Rightarrow> qbus \<Rightarrow> qbus \<Rightarrow> bool" where
  "dead m s t \<longleftrightarrow> bus_blocked m t \<and> acc_at t \<noteq> AAdd \<and> acc_at t \<noteq> AStart \<and> chan t = chan s \<and> status t = status s
     \<and> handlers t = handlers s"

lemma dead_work: "bus_work arrive m t u \<Longrightarrow> dead m s t \<Longrightarrow> dead m s u"
  by (induction rule: bus_work.induct) (auto simp: dead_def bus_blocked_def room_def)

interpretation bus_dead: transition_invariant "bus_step arrive m" "dead m s" for arrive m s
  by unfold_locales (auto simp: bus_step_def intro: dead_work)

text \<open>One more connection, and what its handler sends while the counting goroutine keeps up.\<close>

definition ready :: "nat \<Rightarrow> qbus \<Rightarrow> bool" where
  "ready m s \<longleftrightarrow> acc_at s = AWait \<and> bus_main s = QLoop"

definition answered :: "(bool \<Rightarrow> qevent list \<Rightarrow> bool) \<Rightarrow> bool" where
  "answered arrive \<longleftrightarrow> (\<forall>busy. \<exists>evs. arrive busy evs \<and> HttpRequestStateDestroyed \<in> set evs)"

lemma one_connection:
  assumes "ready m s" "room m s" "answered arrive"
  shows "\<exists>t evs. reaches (bus_step arrive m) s t \<and> ready m t \<and> chan t = chan s @ [TOTAL_CONN_INIT] \<and> cnt_at t = cnt_at s
     \<and> handlers t = handlers s @ [evs] \<and> HttpRequestStateDestroyed \<in> set evs"
proof -
  let ?s1 = "s\<lparr>acc_at := AInit\<rparr>"
  let ?s2 = "push TOTAL_CONN_INIT (?s1\<lparr>acc_at := AAdd\<rparr>)"
  let ?s3 = "add_running ?s2"
  obtain evs where evs: "arrive (too_many m ?s3) evs" "HttpRequestStateDestroyed \<in> set evs"
    using assms(3) by (auto simp: answered_def)
  have "reaches (bus_step arrive m) s ?s1"
    using assms(1) by (intro reaches_one) (auto simp: ready_def bus_step_def intro: accept_ok)
  then have "reaches (bus_step arrive m) s ?s2"
    using assms(1,2) accept_init [of ?s1 m arrive]
    by (rule_tac reaches_bus_step) (simp_all add: ready_def room_def)
  then have "reaches (bus_step arrive m) s ?s3"
    using assms(1) by (rule_tac reaches_bus_step) (auto simp: ready_def push_def intro: accept_adds)
  then have "reaches (bus_step arrive m) s (start_handler evs ?s3)"
    using assms(1) evs(1)
    by (rule_tac reaches_bus_step) (auto simp: ready_def push_def add_running_def intro: accept_start)
  then show ?thesis
    using assms(1) evs(2)
    by (intro exI [of _ "start_handler evs ?s3"] exI [of _ evs]) (simp add: ready_def start_handler_def add_running_def push_def)
qed

lemma flood:
  assumes "answered arrive"
  shows "length (chan s) + k \<le> bus_cap m \<Longrightarrow> ready m s \<Longrightarrow>
     \<exists>t. reaches (bus_step arrive m) s t \<and> ready m t \<and> length (chan t) = length (chan s) + k \<and> cnt_at t = cnt_at s"
proof (induction k arbitrary: s)
  case 0
  then show ?case by (intro exI [of _ s]) (simp add: reaches_refl)
next
  case (Suc k)
  obtain t where t: "reaches (bus_step arrive m) s t" "ready m t" "chan t = chan s @ [TOTAL_CONN_INIT]" "cnt_at t = cnt_at s"
    using one_connection [of m s arrive] Suc.prems assms by (auto simp: room_def)
  obtain u where "reaches (bus_step arrive m) t u" "ready m u" "length (chan u) = length (chan t) + k" "cnt_at u = cnt_at t"
    using Suc.IH [of t] Suc.prems t by auto
  then show ?case using t by (intro exI [of _ u]) (auto intro: reaches_trans)
qed

lemma room_empty: "chan s = [] \<Longrightarrow> room m s"
  by (simp add: room_def bus_cap_def)

lemma keep_up:
  assumes "chan s = []" "cnt_at s = CIdle" "ready m s" "handlers s = [pre @ rest]" "HttpRequestStateDestroyed \<notin> set pre"
  shows "\<exists>t. reaches (bus_step arrive m) s t \<and> chan t = [] \<and> cnt_at t = CIdle \<and> ready m t \<and> handlers t = [rest]"
  using assms
proof (induction pre arbitrary: s)
  case Nil
  then show ?case by (intro exI [of _ s]) (simp add: reaches_refl)
next
  case (Cons e pre)
  let ?s1 = "push e (s\<lparr>handlers := [pre @ rest]\<rparr>)"
  have "bus_work arrive m s ?s1"
    using handler_sends [of 0 s e "pre @ rest" m arrive] Cons.prems by (simp add: room_empty)
  then have r1: "reaches (bus_step arrive m) s ?s1"
    using Cons.prems by (intro reaches_one) (simp add: bus_step_def ready_def)
  have r2: "reaches (bus_step arrive m) s (take_event e ?s1)"
    using Cons.prems
    by (intro reaches_bus_step [OF r1] counter_takes [where rest = "[]"]) (simp_all add: push_def ready_def)
  obtain t where "reaches (bus_step arrive m) (take_event e ?s1) t" "chan t = []" "cnt_at t = CIdle" "ready m t" "handlers t = [rest]"
    using Cons.IH [of "take_event e ?s1"] Cons.prems by (auto simp: take_event_def push_def Let_def ready_def)
  then show ?case using r2 by (auto intro: reaches_trans)
qed

text \<open>The first connection is over and its last event is taken: the counting goroutine is about to send.\<close>

lemma first_closed:
  assumes "answered arrive"
  shows "\<exists>s. reaches (bus_step arrive m) (bus_start m) s \<and> chan s = [] \<and> cnt_at s = CResend \<and> ready m s"
proof -
  obtain s evs where s: "reaches (bus_step arrive m) (bus_start m) s" "ready m s" "chan s = [TOTAL_CONN_INIT]"
      "cnt_at s = CIdle" "handlers s = [evs]" "HttpRequestStateDestroyed \<in> set evs"
    using one_connection [of m "bus_start m" arrive] assms by (auto simp: ready_def bus_start_def room_empty)
  obtain pre post where evs: "evs = pre @ HttpRequestStateDestroyed # post" "HttpRequestStateDestroyed \<notin> set pre"
    using s(6) by (meson split_list_first)
  let ?s1 = "take_event TOTAL_CONN_INIT s"
  have r1: "reaches (bus_step arrive m) (bus_start m) ?s1"
    using s by (intro reaches_bus_step [OF s(1)] counter_takes [where rest = "[]"]) (simp_all add: ready_def)
  obtain t where t: "reaches (bus_step arrive m) ?s1 t" "chan t = []" "cnt_at t = CIdle" "ready m t"
      "handlers t = [HttpRequestStateDestroyed # post]"
    using keep_up [of ?s1 m pre "HttpRequestStateDestroyed # post" arrive] s evs
    by (auto simp: take_event_def Let_def ready_def)
  let ?t1 = "push HttpRequestStateDestroyed (t\<lparr>handlers := [post]\<rparr>)"
  have "bus_work arrive m t ?t1"
    using handler_sends [of 0 t HttpRequestStateDestroyed post m arrive] t by (simp add: room_empty)
  then have r2: "reaches (bus_step arrive m) (bus_start m) ?t1"
    using t reaches_trans [OF t(1) r1] by (rule_tac reaches_bus_step) (simp_all add: ready_def)
  have "reaches (bus_step arrive m) (bus_start m) (take_event HttpRequestStateDestroyed ?t1)"
    using t by (intro reaches_bus_step [OF r2] counter_takes [where rest = "[]"]) (simp_all add: push_def ready_def)
  then show ?thesis
    using t by (intro exI [of _ "take_event HttpRequestStateDestroyed ?t1"])
      (simp add: take_event_def push_def Let_def ready_def)
qed

lemma deadlock_reached:
  assumes "answered arrive"
  shows "\<exists>s. reaches (bus_step arrive m) (bus_start m) s \<and> ready m s \<and> dead m s s"
proof -
  obtain s where s: "reaches (bus_step arrive m) (bus_start m) s" "chan s = []" "cnt_at s = CResend" "ready m s"
    using first_closed [OF assms] by blast
  obtain t where "reaches (bus_step arrive m) s t" "ready m t" "length (chan t) = bus_cap m" "cnt_at t = CResend"
    using flood [OF assms, of s "bus_cap m" m] s by auto
  then show ?thesis
    using s by (intro exI [of _ t]) (auto simp: dead_def bus_blocked_def room_def ready_def intro: reaches_trans)
qed

lemma handlers_answer:
  assumes "0 < net_timeout cf" "0 < net_keepalive_timeout cf" "qmode cf \<noteq> ''readlonly''"
  shows "answered (handler_events cf body)"
proof -
  have "\<exists>evs. handler_events cf body False evs"
    using keepalive_loop_eof [of "new_conn [] []" cf body 0] assms
    by (auto simp: handler_events_def httpConnectionHandler_def new_conn_def)
  moreover have "\<exists>evs. handler_events cf body True evs"
  proof -
    let ?c = "httpConnectionInit httpStatusServiceUnavailable body 1 (new_conn [] [])"
    have "qreads ?c = []" by (simp add: httpConnectionInit_def new_conn_def)
    then obtain c' where "httpReadRequest cf ?c = Some c'" using httpReadRequest_eof [of ?c cf] assms by blast
    then have "\<exists>c. httpConnectionHandler cf httpStatusServiceUnavailable body (new_conn [] []) = Some c"
      by (simp add: httpConnectionHandler_def busy_response_def)
    then show ?thesis by (auto simp: handler_events_def)
  qed
  ultimately have "\<exists>evs. handler_events cf body busy evs" for busy
    by (cases busy) simp_all
  then show ?thesis
    unfolding answered_def
    using handler_events_end_once [of cf body] assms(3) by (metis One_nat_def count_notin zero_neq_one)
qed

section \<open>A short run\<close>


section \<open>Properties\<close>





text \<open>
  C10. The counting goroutine sends on the channel that it alone empties.  Whatever the limit of connections, the program
  can reach a state where it waits for room in the full channel: from there on nothing is counted, no handler sends
  another event and no handler is started.
\<close>

theorem bus_deadlocks:
  assumes "0 < net_timeout cf" "0 < net_keepalive_timeout cf" "qmode cf \<noteq> ''readlonly''"
  shows "\<exists>s. reaches (bus_step (handler_events cf body) m) (bus_start m) s \<and> bus_main s = QLoop \<and> acc_at s = AWait
    \<and> length (chan s) = bus_cap m
    \<and> (\<forall>t. reaches (bus_step (handler_events cf body) m) s t \<longrightarrow>
          chan t = chan s \<and> status t = status s \<and> handlers t = handlers s \<and> cnt_at t = CResend)"
proof -
  obtain s where s: "reaches (bus_step (handler_events cf body) m) (bus_start m) s" "ready m s" "dead m s s"
    using deadlock_reached [OF handlers_answer [OF assms]] by blast
  have "length (chan s) = bus_cap m"
    using bus_counts.inv_reaches [OF s(1) refines_bus_start] s(3) by (auto simp: refines_def dead_def bus_blocked_def room_def)
  moreover have "dead m s t" if "reaches (bus_step (handler_events cf body) m) s t" for t
    using bus_dead.inv_reaches [OF that s(3)] .
  ultimately show ?thesis
    using s by (intro exI [of _ s]) (auto simp: ready_def dead_def bus_blocked_def)
qed

theorem bus_deadlocks_witness:
  "\<exists>s. reaches (bus_step (handler_events (demo_conf ''keepalive'') ''mode'') 100) (bus_start 100) s \<and> length (chan s) = 10340"
  using bus_deadlocks [of "demo_conf ''keepalive''" "''mode''" 100] by (auto simp: demo_conf_def bus_cap_def)

end
