(* ===== verification/Funny_Transfer.thy ===== *)
theory Funny_Transfer
  imports Net_Poll
begin

text \<open>
  The whole \<open>Transfer\<close> of \<open>src/netsplice-echo-proxy/splicetest/funny/proxy_linux.go\<close>: two goroutines that run
  \<open>splice\<close> (\<open>splicetest/funny/splice_linux.go\<close>) in opposite directions over the same two descriptors, the event
  loop that signals and closes them, and the kernel, whose descriptor numbers can be given to somebody else once
  they are closed.  Here \<open>splice\<close> is cut at every atomic operation and system call.

  The first connection is \<open>False\<close>, the second \<open>True\<close>.  Direction \<open>i\<close> writes to connection \<open>i\<close> and reads from
  the other one; direction \<open>False\<close> runs in the caller of \<open>Transfer\<close>.  This copy of the proxy keeps no reference to
  the \<open>os.File\<close> of a descriptor, whose finalizer closes the number whenever the garbage collector finds it.
\<close>

section \<open>State\<close>

datatype pside = RSide | WSide

text \<open>The flags of both sides, as in \<open>Net_Poll\<close>: 0 free, 1 locked, 2 waiting, 3 closed.\<close>

record tfd =
  flag :: "pside \<Rightarrow> nat"
  perr :: bool
  sysfd :: nat
  listed :: bool

text \<open>
  Where a direction is.  In \<open>TRead\<close> the Boolean is \<open>canRead\<close>; in \<open>TWrite\<close> and in the waits it says that the pipe is
  being flushed.  A wait is cut before the swap of the flag, before the goroutine is in the list of waiters, and
  after the signal.
\<close>

datatype tpc =
    TLock pside | TInit | TRead bool | TWrite bool
  | TWait pside bool | TQueue pside bool | TWaiting pside bool | TWoken pside bool
  | TDestroy | TUnlock pside | TDel bool | TErr bool | TClose bool pside | TSys bool | TEnd

record tdir =
  at :: tpc
  to_read :: int
  in_buf :: int
  in_pipe :: bytes
  to_come :: bytes
  sent :: bytes
  serr :: "splice_err option"

datatype owner = Ours bool | Stranger
datatype loop_pc = LIdle | LErr bool | LClose bool pside | LSys bool

record tstate =
  dirs :: "bool \<Rightarrow> tdir"
  fds :: "bool \<Rightarrow> tfd"
  owns :: "nat \<Rightarrow> owner option"
  uncollected :: "bool set"
  loop_at :: loop_pc
  robbed :: bool
  mixed :: bool

text \<open>Direction \<open>i\<close> uses the write side of connection \<open>i\<close> and the read side of the other one.\<close>

definition conn_of :: "bool \<Rightarrow> pside \<Rightarrow> bool" where
  "conn_of i sd = (case sd of WSide \<Rightarrow> i | RSide \<Rightarrow> \<not> i)"

definition user_of :: "bool \<Rightarrow> pside \<Rightarrow> bool" where
  "user_of f sd = (case sd of WSide \<Rightarrow> f | RSide \<Rightarrow> \<not> f)"

definition set_dir :: "bool \<Rightarrow> tdir \<Rightarrow> tstate \<Rightarrow> tstate" where
  "set_dir i d s = s\<lparr>dirs := (dirs s)(i := d)\<rparr>"

definition put_flag :: "bool \<Rightarrow> pside \<Rightarrow> nat \<Rightarrow> tstate \<Rightarrow> tstate" where
  "put_flag f sd v s = s\<lparr>fds := (fds s)(f := (fds s f)\<lparr>flag := (flag (fds s f))(sd := v)\<rparr>)\<rparr>"

definition goes :: "bool \<Rightarrow> tpc \<Rightarrow> tstate \<Rightarrow> tstate" where
  "goes i p s = set_dir i ((dirs s i)\<lparr>at := p\<rparr>) s"

section \<open>One direction: splice\<close>

definition fail_with :: "splice_err \<Rightarrow> tdir \<Rightarrow> tdir" where
  "fail_with e d = d\<lparr>serr := (if serr d = None then Some e else serr d)\<rparr>"

text \<open>The loop of \<open>flush\<close>, and what follows a \<open>writeTo\<close> without an error.\<close>

definition flush_pc :: "tdir \<Rightarrow> tpc" where
  "flush_pc d = (if in_buf d > 0 then TWrite True else TDestroy)"

definition next_pc :: "bool \<Rightarrow> tdir \<Rightarrow> tpc" where
  "next_pc flushing d = (if flushing \<or> to_read d = 0 then flush_pc d else TRead False)"

text \<open>An error leaves the loop of \<open>splice\<close> for the flush, and the flush for the end.\<close>

definition io_failed :: "splice_err \<Rightarrow> bool \<Rightarrow> tdir \<Rightarrow> tdir" where
  "io_failed e flushing d = (let d1 = fail_with e d in d1\<lparr>at := (if flushing then TDestroy else flush_pc d1)\<rparr>)"

definition read_amt :: "tdir \<Rightarrow> int" where
  "read_amt d = (if to_read d > 0 \<and> to_read d < pipeBuf - in_buf d then to_read d else pipeBuf - in_buf d)"

definition read_some :: "nat \<Rightarrow> tdir \<Rightarrow> tdir" where
  "read_some n d =
     d\<lparr>in_pipe := in_pipe d @ take n (to_come d), to_come := drop n (to_come d), in_buf := wrap64 (in_buf d + int n),
       to_read := wrap64 (to_read d - int n), at := TWrite False\<rparr>"

definition read_end :: "tdir \<Rightarrow> tdir" where
  "read_end d = (if to_read d < 0 then d\<lparr>to_read := 0, at := TWrite False\<rparr> else io_failed UnexpectedEOF False d)"

definition read_error :: "tdir \<Rightarrow> tdir" where
  "read_error d = io_failed SpliceErrno False (d\<lparr>in_buf := wrap64 (in_buf d + - 1), to_read := wrap64 (to_read d - - 1)\<rparr>)"

definition read_again :: "bool \<Rightarrow> tdir \<Rightarrow> tdir" where
  "read_again canRead d = d\<lparr>at := (if canRead then TWrite False else TWait RSide False)\<rparr>"

definition write_some :: "bool \<Rightarrow> nat \<Rightarrow> tdir \<Rightarrow> tdir" where
  "write_some flushing n d =
     (let d1 = d\<lparr>in_pipe := drop n (in_pipe d), sent := sent d @ take n (in_pipe d), in_buf := wrap64 (in_buf d - int n)\<rparr>
      in d1\<lparr>at := next_pc flushing d1\<rparr>)"

definition write_error :: "bool \<Rightarrow> tdir \<Rightarrow> tdir" where
  "write_error flushing d = io_failed SpliceErrno flushing (d\<lparr>in_buf := wrap64 (in_buf d - - 1)\<rparr>)"

section \<open>The kernel\<close>

text \<open>\<open>syscall.Close\<close> of a number, whoever has it.\<close>

definition close_number :: "nat \<Rightarrow> tstate \<Rightarrow> tstate" where
  "close_number n s = s\<lparr>owns := (owns s)(n := None), robbed := robbed s \<or> owns s n = Some Stranger\<rparr>"

definition own :: "bool \<Rightarrow> tstate \<Rightarrow> bool" where
  "own f s \<longleftrightarrow> owns s (sysfd (fds s f)) = Some (Ours f)"

definition foreign :: "bool \<Rightarrow> tstate \<Rightarrow> bool" where
  "foreign f s \<longleftrightarrow> owns s (sysfd (fds s f)) = Some Stranger"

section \<open>Steps\<close>

definition lock_fails :: "pside \<Rightarrow> tpc" where
  "lock_fails sd = (case sd of WSide \<Rightarrow> TDel False | RSide \<Rightarrow> TUnlock WSide)"

definition locked_next :: "pside \<Rightarrow> tpc" where
  "locked_next sd = (case sd of WSide \<Rightarrow> TLock RSide | RSide \<Rightarrow> TInit)"

definition unlock_next :: "pside \<Rightarrow> tpc" where
  "unlock_next sd = (case sd of RSide \<Rightarrow> TUnlock WSide | WSide \<Rightarrow> TDel False)"

text \<open>The parts of \<open>netPD\<close>: the lock, the wait before and after the condition variable, the unlock.\<close>

definition t_lock :: "bool \<Rightarrow> pside \<Rightarrow> tstate \<Rightarrow> tstate" where
  "t_lock i sd s =
     (let f = conn_of i sd; (ok, v) = cas 0 1 (flag (fds s f) sd); s1 = put_flag f sd v s
      in if ok then goes i (locked_next sd) s1 else set_dir i ((fail_with EpollError (dirs s i))\<lparr>at := lock_fails sd\<rparr>) s1)"

definition t_wait :: "bool \<Rightarrow> pside \<Rightarrow> bool \<Rightarrow> tstate \<Rightarrow> tstate" where
  "t_wait i sd flushing s =
     (let f = conn_of i sd; (ok, v) = cas 1 2 (flag (fds s f) sd); s1 = put_flag f sd v s
      in if ok then goes i (TQueue sd flushing) s1 else set_dir i (io_failed EpollError flushing (dirs s i)) s1)"

definition t_woken :: "bool \<Rightarrow> pside \<Rightarrow> bool \<Rightarrow> tstate \<Rightarrow> tstate" where
  "t_woken i sd flushing s =
     (let f = conn_of i sd; (ok, v) = cas 2 1 (flag (fds s f) sd); s1 = put_flag f sd v s
      in if ok \<and> \<not> perr (fds s f) then goes i (case sd of RSide \<Rightarrow> TRead True | WSide \<Rightarrow> TWrite flushing) s1
         else set_dir i (io_failed EpollError flushing (dirs s i)) s1)"

definition t_unlock :: "bool \<Rightarrow> pside \<Rightarrow> tstate \<Rightarrow> tstate" where
  "t_unlock i sd s =
     (let f = conn_of i sd in goes i (unlock_next sd) (put_flag f sd (snd (cas 1 0 (flag (fds s f) sd))) s))"

text \<open>\<open>Signal\<close> on the condition variable of a side moves its waiter on.\<close>

definition t_signal :: "bool \<Rightarrow> pside \<Rightarrow> tstate \<Rightarrow> tstate" where
  "t_signal f sd s =
     (let i = user_of f sd
      in case at (dirs s i) of
           TWaiting sd' flushing \<Rightarrow> if sd' = sd then goes i (TWoken sd flushing) s else s
         | _ \<Rightarrow> s)"

text \<open>
  The parts of \<open>delConn\<close>: the connection leaves the epoll set and the table, the error is set, and then each of the
  two loops of \<open>Close\<close> ends with one of its atomic operations.
\<close>

definition t_del :: "bool \<Rightarrow> tstate \<Rightarrow> tstate" where
  "t_del f s = s\<lparr>fds := (fds s)(f := (fds s f)\<lparr>listed := False\<rparr>)\<rparr>"

definition t_err :: "bool \<Rightarrow> tstate \<Rightarrow> tstate" where
  "t_err f s = s\<lparr>fds := (fds s)(f := (fds s f)\<lparr>perr := True\<rparr>)\<rparr>"

definition t_close :: "bool \<Rightarrow> pside \<Rightarrow> tstate \<Rightarrow> tstate" where
  "t_close f sd s = put_flag f sd (snd (close_pass (flag (fds s f) sd))) s"

text \<open>The steps of the two goroutines of \<open>Transfer\<close>.\<close>

inductive ft_work :: "tstate \<Rightarrow> tstate \<Rightarrow> bool" where
  d_lock: "at (dirs s i) = TLock sd \<Longrightarrow> ft_work s (t_lock i sd s)"
| d_init: "at (dirs s i) = TInit \<Longrightarrow> ft_work s (goes i (next_pc False (dirs s i)) s)"
| d_init_fails: "at (dirs s i) = TInit \<Longrightarrow> ft_work s (set_dir i ((fail_with PipeError (dirs s i))\<lparr>at := TUnlock RSide\<rparr>) s)"
| d_read: "at (dirs s i) = TRead can \<Longrightarrow> own (\<not> i) s \<Longrightarrow> 0 < n \<Longrightarrow> n \<le> length (to_come (dirs s i)) \<Longrightarrow>
    int n \<le> read_amt (dirs s i) \<Longrightarrow> ft_work s (set_dir i (read_some n (dirs s i)) s)"
| d_read_end: "at (dirs s i) = TRead can \<Longrightarrow> own (\<not> i) s \<Longrightarrow> to_come (dirs s i) = [] \<or> read_amt (dirs s i) = 0 \<Longrightarrow>
    ft_work s (set_dir i (read_end (dirs s i)) s)"
| d_read_again: "at (dirs s i) = TRead can \<Longrightarrow> owns s (sysfd (fds s (\<not> i))) \<noteq> None \<Longrightarrow>
    ft_work s (set_dir i (read_again can (dirs s i)) s)"
| d_read_error: "at (dirs s i) = TRead can \<Longrightarrow> ft_work s (set_dir i (read_error (dirs s i)) s)"
| d_read_foreign: "at (dirs s i) = TRead can \<Longrightarrow> foreign (\<not> i) s \<Longrightarrow> b \<noteq> [] \<Longrightarrow> int (length b) \<le> read_amt (dirs s i) \<Longrightarrow>
    ft_work s ((set_dir i ((read_some (length b) ((dirs s i)\<lparr>to_come := b @ to_come (dirs s i)\<rparr>))) s)\<lparr>mixed := True\<rparr>)"
| d_write_none: "at (dirs s i) = TWrite fl \<Longrightarrow> in_buf (dirs s i) = 0 \<Longrightarrow> ft_work s (goes i (next_pc fl (dirs s i)) s)"
| d_write: "at (dirs s i) = TWrite fl \<Longrightarrow> in_buf (dirs s i) \<noteq> 0 \<Longrightarrow> own i s \<Longrightarrow> 0 < n \<Longrightarrow> n \<le> length (in_pipe (dirs s i)) \<Longrightarrow>
    int n \<le> in_buf (dirs s i) \<Longrightarrow> ft_work s (set_dir i (write_some fl n (dirs s i)) s)"
| d_write_again: "at (dirs s i) = TWrite fl \<Longrightarrow> in_buf (dirs s i) \<noteq> 0 \<Longrightarrow> owns s (sysfd (fds s i)) \<noteq> None \<Longrightarrow>
    ft_work s (goes i (TWait WSide fl) s)"
| d_write_error: "at (dirs s i) = TWrite fl \<Longrightarrow> in_buf (dirs s i) \<noteq> 0 \<Longrightarrow> ft_work s (set_dir i (write_error fl (dirs s i)) s)"
| d_write_foreign: "at (dirs s i) = TWrite fl \<Longrightarrow> in_buf (dirs s i) \<noteq> 0 \<Longrightarrow> foreign i s \<Longrightarrow> 0 < n \<Longrightarrow>
    n \<le> length (in_pipe (dirs s i)) \<Longrightarrow> int n \<le> in_buf (dirs s i) \<Longrightarrow>
    ft_work s ((set_dir i (write_some fl n (dirs s i)) s)\<lparr>mixed := True\<rparr>)"
| d_wait: "at (dirs s i) = TWait sd fl \<Longrightarrow> ft_work s (t_wait i sd fl s)"
| d_queue: "at (dirs s i) = TQueue sd fl \<Longrightarrow> ft_work s (goes i (TWaiting sd fl) s)"
| d_woken: "at (dirs s i) = TWoken sd fl \<Longrightarrow> ft_work s (t_woken i sd fl s)"
| d_destroy: "at (dirs s i) = TDestroy \<Longrightarrow> ft_work s (goes i (TUnlock RSide) s)"
| d_destroy_fails: "at (dirs s i) = TDestroy \<Longrightarrow>
    ft_work s (set_dir i ((fail_with CloseError (dirs s i))\<lparr>at := TUnlock RSide\<rparr>) s)"
| d_unlock: "at (dirs s i) = TUnlock sd \<Longrightarrow> ft_work s (t_unlock i sd s)"
| d_del: "at (dirs s i) = TDel f \<Longrightarrow>
    ft_work s (goes i (TErr f) (t_del f s))"
| d_err: "at (dirs s i) = TErr f \<Longrightarrow>
    ft_work s (goes i (TClose f WSide) (t_err f s))"
| d_close: "at (dirs s i) = TClose f sd \<Longrightarrow> fst (close_pass (flag (fds s f) sd)) \<Longrightarrow>
    ft_work s (goes i (if sd = WSide then TClose f RSide else TSys f) (t_close f sd s))"
| d_close_signal: "at (dirs s i) = TClose f sd \<Longrightarrow> \<not> fst (close_pass (flag (fds s f) sd)) \<Longrightarrow> ft_work s (t_signal f sd s)"
| d_sys: "at (dirs s i) = TSys f \<Longrightarrow>
    ft_work s (goes i (if f then TEnd else TDel True) (close_number (sysfd (fds s f)) s))"

text \<open>The event loop, the garbage collector and the rest of the process.\<close>

inductive ft_env :: "tstate \<Rightarrow> tstate \<Rightarrow> bool" where
  e_signal: "loop_at s = LIdle \<Longrightarrow> listed (fds s f) \<Longrightarrow> ft_env s (t_signal f sd s)"
| e_hangup: "loop_at s = LIdle \<Longrightarrow> listed (fds s f) \<Longrightarrow> ft_env s (s\<lparr>loop_at := LErr f\<rparr>)"
| e_err: "loop_at s = LErr f \<Longrightarrow>
    ft_env s ((t_err f s)\<lparr>loop_at := LClose f WSide\<rparr>)"
| e_close: "loop_at s = LClose f sd \<Longrightarrow> fst (close_pass (flag (fds s f) sd)) \<Longrightarrow>
    ft_env s ((t_close f sd s)\<lparr>loop_at := (if sd = WSide then LClose f RSide else LSys f)\<rparr>)"
| e_close_signal: "loop_at s = LClose f sd \<Longrightarrow> \<not> fst (close_pass (flag (fds s f) sd)) \<Longrightarrow> ft_env s (t_signal f sd s)"
| e_sys: "loop_at s = LSys f \<Longrightarrow> ft_env s ((close_number (sysfd (fds s f)) s)\<lparr>loop_at := LIdle\<rparr>)"
| e_collect: "f \<in> uncollected s \<Longrightarrow>
    ft_env s ((close_number (sysfd (fds s f)) s)\<lparr>uncollected := uncollected s - {f}\<rparr>)"
| e_stranger: "owns s n = None \<Longrightarrow> ft_env s (s\<lparr>owns := (owns s)(n \<mapsto> Stranger)\<rparr>)"

definition ft_step :: "tstate \<Rightarrow> tstate \<Rightarrow> bool" where
  "ft_step s t \<longleftrightarrow> ft_work s t \<or> ft_env s t"

section \<open>The start: both connections are added\<close>

definition dir_start :: "bytes \<Rightarrow> tdir" where
  "dir_start b =
     \<lparr>at = TLock WSide, to_read = max_i64, in_buf = 0, in_pipe = [], to_come = b, sent = [], serr = None\<rparr>"

definition fd_start :: "nat \<Rightarrow> tfd" where
  "fd_start n = \<lparr>flag = (\<lambda>_. 0), perr = False, sysfd = n, listed = True\<rparr>"

text \<open>\<open>b i\<close> are the bytes that the source of direction \<open>i\<close> sends before it closes, \<open>n\<close> the two numbers.\<close>

definition ft_start :: "(bool \<Rightarrow> nat) \<Rightarrow> (bool \<Rightarrow> bytes) \<Rightarrow> tstate" where
  "ft_start n b =
     \<lparr>dirs = (\<lambda>i. dir_start (b i)), fds = (\<lambda>f. fd_start (n f)),
      owns = [n False \<mapsto> Ours False, n True \<mapsto> Ours True], uncollected = {False, True}, loop_at = LIdle,
      robbed = False, mixed = False\<rparr>"

text \<open>\<open>Transfer\<close> returns when both directions have ended: the second sends its error, the first waits for it.\<close>

definition returned :: "tstate \<Rightarrow> bool" where
  "returned s \<longleftrightarrow> (\<forall>i. at (dirs s i) = TEnd)"

definition transfer_error :: "tstate \<Rightarrow> splice_err option" where
  "transfer_error s = (if serr (dirs s False) \<noteq> None then serr (dirs s False) else serr (dirs s True))"

end
