(* ===== verification/Funny_Transfer_Props.thy ===== *)
theory Funny_Transfer_Props
  imports Funny_Transfer
begin

text \<open>
  What every interleaving of \<open>Funny_Transfer\<close> keeps: who holds and waits on a side of a descriptor, and the streams.
  One direction that ends takes the other with it; but the numbers can be those of somebody else.
\<close>

section \<open>Where a direction holds and waits\<close>

fun waiting :: "tpc \<Rightarrow> pside \<Rightarrow> bool" where
  "waiting (TQueue sd' fl) sd = (sd' = sd)"
| "waiting (TWaiting sd' fl) sd = (sd' = sd)"
| "waiting (TWoken sd' fl) sd = (sd' = sd)"
| "waiting p sd = False"

text \<open>Past the locks and the copying, in the order of the code.\<close>

fun leaving :: "tpc \<Rightarrow> bool" where
  "leaving (TDel f) = True" | "leaving (TErr f) = True" | "leaving (TClose f sd) = True" | "leaving (TSys f) = True"
| "leaving TEnd = True" | "leaving p = False"

definition holding :: "tpc \<Rightarrow> pside \<Rightarrow> bool" where
  "holding p sd \<longleftrightarrow> \<not> leaving p \<and> p \<noteq> TLock WSide \<and> (sd = RSide \<longrightarrow> p \<noteq> TLock RSide \<and> p \<noteq> TUnlock WSide)"

text \<open>The sides that the \<open>Close\<close> of this direction has gone through.\<close>

fun passed :: "tpc \<Rightarrow> bool \<Rightarrow> pside \<Rightarrow> bool" where
  "passed (TDel f') f sd = (f' \<and> \<not> f)"
| "passed (TErr f') f sd = (f' \<and> \<not> f)"
| "passed (TClose f' sd') f sd = (f' \<and> \<not> f \<or> f' = f \<and> sd' = RSide \<and> sd = WSide)"
| "passed (TSys f') f sd = (f' = f \<or> f')"
| "passed TEnd f sd = True"
| "passed p f sd = False"

lemma waiting_holds: "waiting p sd \<Longrightarrow> holding p sd"
  by (cases p) (auto simp: holding_def)

lemma passed_leaving: "passed p f sd \<Longrightarrow> leaving p"
  by (cases p) auto

definition side_ok :: "tstate \<Rightarrow> bool \<Rightarrow> pside \<Rightarrow> bool" where
  "side_ok s f sd \<longleftrightarrow>
     (let v = flag (fds s f) sd; p = at (dirs s (user_of f sd))
      in v \<le> 3 \<and> (v = 2 \<longleftrightarrow> waiting p sd) \<and> (v = 1 \<longrightarrow> holding p sd) \<and> (v = 0 \<longrightarrow> \<not> holding p sd)
         \<and> (\<forall>j. passed (at (dirs s j)) f sd \<longrightarrow> v = 3))"

definition flags_ok :: "tstate \<Rightarrow> bool" where
  "flags_ok s \<longleftrightarrow> (\<forall>f sd. side_ok s f sd)"

lemma conn_of_simps [simp]: "conn_of i WSide = i" "conn_of i RSide = (\<not> i)" "user_of f WSide = f" "user_of f RSide = (\<not> f)"
  by (simp_all add: conn_of_def user_of_def)

lemma user_conn [simp]: "user_of (conn_of i sd) sd = i" "conn_of (user_of f sd) sd = f"
  by (cases sd; simp)+

section \<open>What a step changes\<close>

lemma set_dir_fields [simp]:
  "dirs (set_dir i d s) = (dirs s)(i := d)" "fds (set_dir i d s) = fds s" "owns (set_dir i d s) = owns s"
  "mixed (set_dir i d s) = mixed s"
  by (simp_all add: set_dir_def)

lemma goes_fields [simp]:
  "dirs (goes i p s) = (dirs s)(i := (dirs s i)\<lparr>at := p\<rparr>)" "fds (goes i p s) = fds s" "owns (goes i p s) = owns s"
  "mixed (goes i p s) = mixed s"
  by (simp_all add: goes_def)

lemma put_flag_fields [simp]:
  "dirs (put_flag f sd v s) = dirs s" "owns (put_flag f sd v s) = owns s" "mixed (put_flag f sd v s) = mixed s"
  "flag (fds (put_flag f sd v s) f') sd' = (if f' = f \<and> sd' = sd then v else flag (fds s f') sd')"
  by (simp_all add: put_flag_def)

lemma close_number_fields [simp]:
  "dirs (close_number n s) = dirs s" "fds (close_number n s) = fds s" "mixed (close_number n s) = mixed s"
  by (simp_all add: close_number_def)

lemma t_del_fields [simp]:
  "dirs (t_del f s) = dirs s" "flag (fds (t_del f s) f') = flag (fds s f')" "mixed (t_del f s) = mixed s"
  "dirs (t_err f s) = dirs s" "flag (fds (t_err f s) f') = flag (fds s f')" "mixed (t_err f s) = mixed s"
  by (simp_all add: t_del_def t_err_def)

lemma fail_with_at [simp]: "at (fail_with e d) = at d"
  by (simp add: fail_with_def)

text \<open>A direction moves and no flag changes.\<close>

lemma flags_move:
  assumes "flags_ok s" "\<And>f sd. flag (fds t f) sd = flag (fds s f) sd" "\<And>j. j \<noteq> i \<Longrightarrow> at (dirs t j) = at (dirs s j)"
    and "\<And>sd. waiting (at (dirs t i)) sd = waiting (at (dirs s i)) sd" "\<And>sd. holding (at (dirs t i)) sd = holding (at (dirs s i)) sd"
    and "\<And>f sd. passed (at (dirs t i)) f sd \<Longrightarrow> passed (at (dirs s i)) f sd"
  shows "flags_ok t"
  unfolding flags_ok_def
proof (intro allI)
  fix f sd
  have same: "waiting (at (dirs t j)) sd = waiting (at (dirs s j)) sd" "holding (at (dirs t j)) sd = holding (at (dirs s j)) sd"
      "passed (at (dirs t j)) f sd \<Longrightarrow> passed (at (dirs s j)) f sd" for j
    using assms(3) [of j] assms(4-6) by (cases "j = i"; simp)+
  have "side_ok s f sd" using assms(1) by (simp add: flags_ok_def)
  then show "side_ok t f sd" using same by (auto simp: side_ok_def Let_def assms(2))
qed

text \<open>A direction moves and changes the flag of the side that it uses.\<close>

lemma flags_use:
  assumes "flags_ok s" "fds t = fds (put_flag (conn_of i sd) sd v s)" "\<And>j. j \<noteq> i \<Longrightarrow> at (dirs t j) = at (dirs s j)"
    and "\<And>sd'. sd' \<noteq> sd \<Longrightarrow> waiting (at (dirs t i)) sd' = waiting (at (dirs s i)) sd' \<and> holding (at (dirs t i)) sd' = holding (at (dirs s i)) sd'"
    and "\<And>f sd. \<not> passed (at (dirs t i)) f sd"
    and "v \<le> 3" "v = 2 \<longleftrightarrow> waiting (at (dirs t i)) sd" "v = 1 \<Longrightarrow> holding (at (dirs t i)) sd" "v = 0 \<Longrightarrow> \<not> holding (at (dirs t i)) sd"
    and "flag (fds s (conn_of i sd)) sd = 3 \<Longrightarrow> v = 3"
  shows "flags_ok t"
  unfolding flags_ok_def
proof (intro allI)
  fix f sd'
  have ok: "side_ok s f sd'" using assms(1) by (simp add: flags_ok_def)
  have pass: "passed (at (dirs t j)) f sd' \<Longrightarrow> passed (at (dirs s j)) f sd'" for j
    using assms(3) [of j] assms(5) by (cases "j = i") auto
  show "side_ok t f sd'"
  proof (cases "f = conn_of i sd \<and> sd' = sd")
    case True
    then show ?thesis using ok pass assms(6-10) by (auto simp: side_ok_def Let_def assms(2))
  next
    case False
    then have flag: "flag (fds t f) sd' = flag (fds s f) sd'" by (auto simp: assms(2))
    have "waiting (at (dirs t (user_of f sd'))) sd' = waiting (at (dirs s (user_of f sd'))) sd'
        \<and> holding (at (dirs t (user_of f sd'))) sd' = holding (at (dirs s (user_of f sd'))) sd'"
    proof (cases "user_of f sd' = i")
      case True
      then have "f = conn_of i sd'" using user_conn(2) [of f sd'] by simp
      then have "sd' \<noteq> sd" using False by auto
      then show ?thesis using True assms(4) [of sd'] by simp
    qed (simp add: assms(3))
    then show ?thesis using ok pass by (auto simp: side_ok_def Let_def flag)
  qed
qed

lemma side_okD: "flags_ok s \<Longrightarrow> side_ok s f sd"
  by (simp add: flags_ok_def)

lemma flag_cases:
  assumes "flags_ok s"
  shows "flag (fds s (conn_of i sd)) sd \<le> 3" "(flag (fds s (conn_of i sd)) sd = 2) = waiting (at (dirs s i)) sd"
    "flag (fds s (conn_of i sd)) sd = 1 \<Longrightarrow> holding (at (dirs s i)) sd"
    "flag (fds s (conn_of i sd)) sd = 0 \<Longrightarrow> \<not> holding (at (dirs s i)) sd"
  using side_okD [OF assms, of "conn_of i sd" sd] by (auto simp: side_ok_def Let_def)

lemma nat_le3: "(v::nat) \<le> 3 \<Longrightarrow> v = 0 \<or> v = 1 \<or> v = 2 \<or> v = 3"
  by auto

lemma waiting_at_most: "waiting p sd \<Longrightarrow> waiting p sd' \<Longrightarrow> sd' = sd"
  by (cases p) auto

lemma io_failed_at: "at (io_failed e fl d) = TDestroy \<or> at (io_failed e fl d) = TWrite True"
  by (simp add: io_failed_def flush_pc_def Let_def)

text \<open>The pcs between the locks: both sides are held, nothing waits, nothing is closed.\<close>

definition copying :: "tpc \<Rightarrow> bool" where
  "copying p \<longleftrightarrow> (\<forall>sd. holding p sd \<and> \<not> waiting p sd) \<and> (\<forall>f sd. \<not> passed p f sd)"

lemma copying_pcs [simp]:
  "copying TInit" "copying (TRead c)" "copying (TWrite fl)" "copying (TWait sd fl)" "copying TDestroy" "copying (TUnlock RSide)"
  by (auto simp: copying_def holding_def)

lemma copying_at [simp]: "copying (flush_pc d)" "copying (next_pc fl d)" "copying (at (io_failed e fl d))"
    "copying (at (read_some n d))" "copying (at (read_end d))" "copying (at (read_error d))" "copying (at (read_again c d))"
    "copying (at (write_some fl n d))" "copying (at (write_error fl d))"
  using io_failed_at [of e fl d] io_failed_at
  by (auto simp: flush_pc_def next_pc_def read_some_def read_end_def read_error_def read_again_def write_some_def
      write_error_def Let_def) (metis copying_pcs)+

lemma flags_copying:
  assumes "flags_ok s" "copying (at (dirs s i))" "copying (at (dirs t i))" "fds t = fds s" "\<And>j. j \<noteq> i \<Longrightarrow> dirs t j = dirs s j"
  shows "flags_ok t"
  using assms by (intro flags_move [OF assms(1), of t i]) (auto simp: copying_def)

lemma flags_use_dir:
  assumes "flags_ok s" "\<And>f sd'. \<not> passed (at d) f sd'"
    and "\<And>sd'. sd' \<noteq> sd \<Longrightarrow> waiting (at d) sd' = waiting (at (dirs s i)) sd' \<and> holding (at d) sd' = holding (at (dirs s i)) sd'"
    and "v \<le> 3" "(v = 2) = waiting (at d) sd" "v = 1 \<Longrightarrow> holding (at d) sd" "v = 0 \<Longrightarrow> \<not> holding (at d) sd"
    and "flag (fds s (conn_of i sd)) sd = 3 \<Longrightarrow> v = 3"
  shows "flags_ok (set_dir i d (put_flag (conn_of i sd) sd v s))"
  using assms(2-) by (intro flags_use [OF assms(1), of _ i sd v]) simp_all

lemma lock_pcs:
  "\<not> passed (locked_next sd) f sd'" "\<not> waiting (locked_next sd) sd'" "holding (locked_next sd) sd' = (sd' = sd \<or> holding (TLock sd) sd')"
  "\<not> passed (lock_fails sd) f sd'" "\<not> waiting (lock_fails sd) sd'" "holding (lock_fails sd) sd' = holding (TLock sd) sd'"
  "\<not> passed (unlock_next sd) f sd'" "\<not> waiting (unlock_next sd) sd'"
  "holding (unlock_next sd) sd' = (sd' \<noteq> sd \<and> holding (TUnlock sd) sd')"
  "\<not> holding (TLock sd) sd" "holding (TUnlock sd) sd"
  by (cases sd; cases sd'; simp add: locked_next_def lock_fails_def unlock_next_def holding_def)+

lemma flags_lock:
  assumes "flags_ok s" "at (dirs s i) = TLock sd"
  shows "flags_ok (t_lock i sd s)"
proof (cases "flag (fds s (conn_of i sd)) sd = 0")
  case True
  then have "t_lock i sd s = set_dir i ((dirs s i)\<lparr>at := locked_next sd\<rparr>) (put_flag (conn_of i sd) sd 1 s)"
    by (simp add: t_lock_def cas_def Let_def goes_def)
  moreover have "flags_ok (set_dir i ((dirs s i)\<lparr>at := locked_next sd\<rparr>) (put_flag (conn_of i sd) sd 1 s))"
    by (rule flags_use_dir [OF assms(1)]) (simp_all add: True assms(2) lock_pcs)
  ultimately show ?thesis by simp
next
  case False
  then have v: "flag (fds s (conn_of i sd)) sd = 3"
    using flag_cases [OF assms(1), of i sd] nat_le3 assms(2) lock_pcs by fastforce
  then have "t_lock i sd s = set_dir i ((fail_with EpollError (dirs s i))\<lparr>at := lock_fails sd\<rparr>) (put_flag (conn_of i sd) sd 3 s)"
    by (simp add: t_lock_def cas_def Let_def)
  moreover have "flags_ok (set_dir i ((fail_with EpollError (dirs s i))\<lparr>at := lock_fails sd\<rparr>) (put_flag (conn_of i sd) sd 3 s))"
    by (rule flags_use_dir [OF assms(1)]) (simp_all add: v assms(2) lock_pcs)
  ultimately show ?thesis by simp
qed

lemma flags_wait:
  assumes "flags_ok s" "at (dirs s i) = TWait sd fl"
  shows "flags_ok (t_wait i sd fl s)"
proof (cases "flag (fds s (conn_of i sd)) sd = 1")
  case True
  then have "t_wait i sd fl s = set_dir i ((dirs s i)\<lparr>at := TQueue sd fl\<rparr>) (put_flag (conn_of i sd) sd 2 s)"
    by (simp add: t_wait_def cas_def Let_def goes_def)
  then show ?thesis using True assms(2) by (auto intro!: flags_use_dir [OF assms(1)] simp: holding_def)
next
  case False
  then have v: "flag (fds s (conn_of i sd)) sd = 3"
    using flag_cases [OF assms(1), of i sd] nat_le3 assms(2) by (fastforce simp: holding_def)
  then have "t_wait i sd fl s = set_dir i (io_failed EpollError fl (dirs s i)) (put_flag (conn_of i sd) sd 3 s)"
    by (simp add: t_wait_def cas_def Let_def)
  then show ?thesis
    using v assms(2) copying_at(3) [of EpollError fl "dirs s i"]
    by (auto intro!: flags_use_dir [OF assms(1)] simp: holding_def copying_def)
qed

lemma flags_woken:
  assumes "flags_ok s" "at (dirs s i) = TWoken sd fl"
  shows "flags_ok (t_woken i sd fl s)"
proof -
  have v: "flag (fds s (conn_of i sd)) sd = 2" using flag_cases [OF assms(1), of i sd] assms(2) by simp
  have "\<exists>d. t_woken i sd fl s = set_dir i d (put_flag (conn_of i sd) sd 1 s) \<and> copying (at d)"
  proof (cases "perr (fds s (conn_of i sd))")
    case True
    then show ?thesis using v by (auto simp: t_woken_def cas_def Let_def)
  next
    case False
    then show ?thesis
      using v by (intro exI [of _ "(dirs s i)\<lparr>at := (case sd of RSide \<Rightarrow> TRead True | WSide \<Rightarrow> TWrite fl)\<rparr>"])
        (auto simp: t_woken_def cas_def Let_def goes_def split: pside.split)
  qed
  then obtain d where d: "t_woken i sd fl s = set_dir i d (put_flag (conn_of i sd) sd 1 s)" "copying (at d)" by blast
  show ?thesis
    unfolding d(1) using d(2) v assms(2) by (intro flags_use_dir [OF assms(1)]) (auto simp: copying_def holding_def)
qed

lemma flags_unlock:
  assumes "flags_ok s" "at (dirs s i) = TUnlock sd"
  shows "flags_ok (t_unlock i sd s)"
proof -
  let ?v = "flag (fds s (conn_of i sd)) sd"
  have v: "?v = 1 \<or> ?v = 3"
    using flag_cases [OF assms(1), of i sd] nat_le3 assms(2) lock_pcs by fastforce
  have u: "t_unlock i sd s = set_dir i ((dirs s i)\<lparr>at := unlock_next sd\<rparr>) (put_flag (conn_of i sd) sd (snd (cas 1 0 ?v)) s)"
    by (simp add: t_unlock_def Let_def goes_def)
  show ?thesis
    unfolding u
    by (rule flags_use_dir [OF assms(1)]) (use v in \<open>auto simp: cas_def assms(2) lock_pcs\<close>)
qed

lemma t_signal_cases:
  "t_signal f sd s = s \<or> (\<exists>fl. at (dirs s (user_of f sd)) = TWaiting sd fl \<and> t_signal f sd s = goes (user_of f sd) (TWoken sd fl) s)"
  by (auto simp: t_signal_def Let_def split: tpc.splits)

lemma flags_signal: "flags_ok s \<Longrightarrow> flags_ok (t_signal f sd s)"
  using t_signal_cases [of f sd s]
proof
  assume f: "flags_ok s" and "\<exists>fl. at (dirs s (user_of f sd)) = TWaiting sd fl \<and> t_signal f sd s = goes (user_of f sd) (TWoken sd fl) s"
  then obtain fl where "at (dirs s (user_of f sd)) = TWaiting sd fl" "t_signal f sd s = goes (user_of f sd) (TWoken sd fl) s"
    by blast
  then show ?thesis by (intro flags_move [OF f, of _ "user_of f sd"]) (simp_all add: holding_def)
qed simp

text \<open>A flag that is 0 or 1 is closed, by whoever.\<close>

lemma close_pass_true: "fst (close_pass v) \<Longrightarrow> snd (close_pass v) = 3 \<and> v \<noteq> 2"
  by (auto simp: close_pass_def cas_def split: if_splits)

lemma flags_closed:
  assumes "flags_ok s" "flag (fds s f) sd \<noteq> 2" "\<And>f' sd'. flag (fds t f') sd' = (if f' = f \<and> sd' = sd then 3 else flag (fds s f') sd')"
    and "\<And>j. at (dirs t j) = at (dirs s j)"
  shows "flags_ok t"
  unfolding flags_ok_def
proof (intro allI)
  fix f' sd'
  have "side_ok s f' sd'" using assms(1) by (simp add: flags_ok_def)
  then show "side_ok t f' sd'" using assms(2) by (auto simp: side_ok_def Let_def assms(3,4))
qed

text \<open>A direction in \<open>delConn\<close> goes on: what it has passed more is closed.\<close>

lemma flags_leave:
  assumes "flags_ok s" "leaving (at (dirs s i))" "leaving p"
    and "\<And>f sd. passed p f sd \<Longrightarrow> passed (at (dirs s i)) f sd \<or> flag (fds s f) sd = 3"
    and "\<And>f sd. flag (fds t f) sd = flag (fds s f) sd" "dirs t = (dirs s)(i := (dirs s i)\<lparr>at := p\<rparr>)"
  shows "flags_ok t"
  unfolding flags_ok_def
proof (intro allI)
  fix f sd
  have w: "waiting q sd = False \<and> holding q sd = False" if "leaving q" for q using that by (cases q) (auto simp: holding_def)
  have ok: "side_ok s f sd" using assms(1) by (simp add: flags_ok_def)
  have "waiting (at (dirs t j)) sd = waiting (at (dirs s j)) sd" "holding (at (dirs t j)) sd = holding (at (dirs s j)) sd"
      "passed (at (dirs t j)) f sd \<Longrightarrow> flag (fds s f) sd = 3" for j
    using w assms(2-4) ok by (cases "j = i"; auto simp: assms(6) side_ok_def Let_def)+
  then show "side_ok t f sd" using ok by (auto simp: side_ok_def Let_def assms(5))
qed

lemma flags_set_dir: "flags_ok s \<Longrightarrow> copying (at (dirs s i)) \<Longrightarrow> copying (at d) \<Longrightarrow> flags_ok (set_dir i d s)"
  by (rule flags_copying [of s i]) simp_all

lemma flags_goes: "flags_ok s \<Longrightarrow> copying (at (dirs s i)) \<Longrightarrow> copying p \<Longrightarrow> flags_ok (goes i p s)"
  by (simp add: goes_def flags_set_dir)

lemma flags_same: "flags_ok s \<Longrightarrow> dirs t = dirs s \<Longrightarrow> (\<And>f sd. flag (fds t f) sd = flag (fds s f) sd) \<Longrightarrow> flags_ok t"
  by (rule flags_move [of s t True]) simp_all

lemma flags_mixed [simp]: "flags_ok (s\<lparr>mixed := b\<rparr>) = flags_ok s"
  by (simp add: flags_ok_def side_ok_def)

lemma flags_work: "ft_work s t \<Longrightarrow> flags_ok s \<Longrightarrow> flags_ok t"
proof (induction rule: ft_work.induct)
  case (d_del s i f)
  show ?case by (rule flags_leave [OF d_del(2), of i "TErr f"]) (use d_del(1) in \<open>auto simp: goes_def set_dir_def\<close>)
next
  case (d_err s i f)
  show ?case by (rule flags_leave [OF d_err(2), of i "TClose f WSide"]) (use d_err(1) in \<open>auto simp: goes_def set_dir_def\<close>)
next
  case (d_close s i f sd)
  let ?p = "if sd = WSide then TClose f RSide else TSys f"
  have v: "snd (close_pass (flag (fds s f) sd)) = 3" "flag (fds s f) sd \<noteq> 2" using close_pass_true [OF d_close(2)] by auto
  then have f: "flags_ok (t_close f sd s)" by (intro flags_closed [OF d_close(3)]) (auto simp: t_close_def)
  have pass: "passed ?p f' sd' \<Longrightarrow> passed (TClose f sd) f' sd' \<or> f' = f \<and> sd' = sd" for f' sd'
    by (cases sd; cases sd'; auto)
  show ?case
    by (rule flags_leave [OF f, of i ?p]) (use d_close(1) v(1) pass in \<open>auto simp: t_close_def goes_def set_dir_def\<close>)
next
  case (d_sys s i f)
  have "passed (at (dirs s i)) f' sd" if "passed (if f then TEnd else TDel True) f' sd" for f' sd
    using that d_sys(1) by (cases f; auto)
  then show ?case
    by (intro flags_leave [OF d_sys(2), of i "if f then TEnd else TDel True"]) (use d_sys(1) in \<open>auto simp: goes_def set_dir_def\<close>)
next
  case (d_lock s i sd)
  then show ?case by (intro flags_lock)
next
  case (d_wait s i sd fl)
  then show ?case by (intro flags_wait)
next
  case (d_woken s i sd fl)
  then show ?case by (intro flags_woken)
next
  case (d_unlock s i sd)
  then show ?case by (intro flags_unlock)
next
  case (d_close_signal s i f sd)
  then show ?case by (intro flags_signal)
next
  case (d_queue s i sd fl)
  then show ?case by (intro flags_move [OF d_queue(2), of _ i]) (auto simp: holding_def)
qed (simp_all add: flags_set_dir flags_goes)

lemma flags_env: "ft_env s t \<Longrightarrow> flags_ok s \<Longrightarrow> flags_ok t"
proof (induction rule: ft_env.induct)
  case (e_close s f sd)
  then show ?case
    using close_pass_true [OF e_close(2)] by (intro flags_closed [OF e_close(3), of f sd]) (auto simp: t_close_def)
qed (auto intro: flags_signal flags_same simp: close_number_def)

lemma flags_start: "flags_ok (ft_start n b)"
  by (auto simp: flags_ok_def side_ok_def ft_start_def fd_start_def dir_start_def holding_def)

interpretation funny_flags: transition_invariant ft_step flags_ok
  by unfold_locales (auto simp: ft_step_def intro: flags_work flags_env)

section \<open>The streams\<close>


definition stream :: "tdir \<Rightarrow> bytes" where
  "stream d = sent d @ in_pipe d @ to_come d"

lemma stream_dir [simp]:
  "stream (d\<lparr>at := p\<rparr>) = stream d" "stream (fail_with e d) = stream d" "stream (io_failed e fl d) = stream d"
  "stream (read_some n d) = stream d" "stream (read_end d) = stream d" "stream (read_error d) = stream d"
  "stream (read_again c d) = stream d" "stream (write_some fl n d) = stream d" "stream (write_error fl d) = stream d"
  by (simp_all add: stream_def fail_with_def io_failed_def read_some_def read_end_def read_error_def read_again_def
      write_some_def write_error_def Let_def)











section \<open>One direction takes the other with it\<close>

text \<open>
  The steps that a direction has at most before it, when its system calls fail: reading comes before writing, and
  writing into an empty pipe before reading, since it goes back to the loop.
\<close>

fun pc_rank :: "bool \<Rightarrow> tpc \<Rightarrow> nat" where
  "pc_rank z (TLock sd) = (if sd = WSide then 32 else 31)"
| "pc_rank z TInit = 30"
| "pc_rank z (TWait WSide False) = 29" | "pc_rank z (TQueue WSide False) = 28"
| "pc_rank z (TWaiting WSide False) = 27" | "pc_rank z (TWoken WSide False) = 26"
| "pc_rank z (TWait RSide fl) = 24" | "pc_rank z (TQueue RSide fl) = 23"
| "pc_rank z (TWaiting RSide fl) = 22" | "pc_rank z (TWoken RSide fl) = 21"
| "pc_rank z (TRead c) = 20"
| "pc_rank z (TWrite fl) = (if fl then 14 else if z then 25 else 19)"
| "pc_rank z (TWait WSide True) = 18" | "pc_rank z (TQueue WSide True) = 17"
| "pc_rank z (TWaiting WSide True) = 16" | "pc_rank z (TWoken WSide True) = 15"
| "pc_rank z TDestroy = 13"
| "pc_rank z (TUnlock sd) = (if sd = RSide then 12 else 11)"
| "pc_rank z (TDel f) = (if f then 5 else 10)" | "pc_rank z (TErr f) = (if f then 4 else 9)"
| "pc_rank z (TClose f sd) = (if f then 1 else 6) + (if sd = WSide then 2 else 1)"
| "pc_rank z (TSys f) = (if f then 1 else 6)" | "pc_rank z TEnd = 0"

definition rank :: "tdir \<Rightarrow> nat" where
  "rank d = pc_rank (in_buf d = 0) (at d)"

text \<open>Past the flush: the direction runs to its end.\<close>

definition ends :: "tdir \<Rightarrow> bool" where
  "ends d \<longleftrightarrow> at d = TDestroy \<or> (\<exists>sd. at d = TUnlock sd) \<or> leaving (at d)"

lemma ends_rank: "ends d \<longleftrightarrow> rank d \<le> 13"
proof (cases "at d")
  case (TWait sd fl)
  then show ?thesis by (cases sd; cases fl) (simp_all add: ends_def rank_def)
next
  case (TQueue sd fl)
  then show ?thesis by (cases sd; cases fl) (simp_all add: ends_def rank_def)
next
  case (TWaiting sd fl)
  then show ?thesis by (cases sd; cases fl) (simp_all add: ends_def rank_def)
next
  case (TWoken sd fl)
  then show ?thesis by (cases sd; cases fl) (simp_all add: ends_def rank_def)
qed (simp_all add: ends_def rank_def)

lemma rank_at: "at d = p \<Longrightarrow> rank d = pc_rank (in_buf d = 0) p"
  by (simp add: rank_def)

lemma io_failed_rank: "rank (io_failed e fl d) \<le> 14" "rank (io_failed e True d) = 13"
  by (simp_all add: rank_def io_failed_def flush_pc_def Let_def)

lemma flush_rank: "rank (d\<lparr>at := flush_pc d'\<rparr>) \<le> 14"
  by (simp add: rank_def flush_pc_def)

text \<open>A step of direction \<open>i\<close> that brings it nearer to its end.\<close>

definition nearer :: "bool \<Rightarrow> tstate \<Rightarrow> tstate \<Rightarrow> bool" where
  "nearer i s t \<longleftrightarrow> ft_work s t \<and> rank (dirs t i) < rank (dirs s i) \<and> dirs t (\<not> i) = dirs s (\<not> i)"

lemma nearerI: "ft_work s t \<Longrightarrow> dirs t = (dirs s)(i := d) \<Longrightarrow> rank d < rank (dirs s i) \<Longrightarrow> \<exists>t. nearer i s t"
  by (auto simp: nearer_def)

text \<open>What can stop a direction: it waits, or it closes a side on which the other one waits.\<close>

definition stopped :: "bool \<Rightarrow> tstate \<Rightarrow> bool" where
  "stopped i s \<longleftrightarrow> at (dirs s i) = TEnd \<or> (\<exists>sd fl. at (dirs s i) = TWaiting sd fl)
     \<or> (\<exists>f sd. at (dirs s i) = TClose f sd \<and> \<not> fst (close_pass (flag (fds s f) sd)))"

lemma goes_nearer: "ft_work s (goes i p t) \<Longrightarrow> dirs t = dirs s \<Longrightarrow> pc_rank (in_buf (dirs s i) = 0) p < rank (dirs s i) \<Longrightarrow>
    \<exists>t. nearer i s t"
  by (rule nearerI [of s "goes i p t" i "(dirs s i)\<lparr>at := p\<rparr>"]) (simp_all add: rank_def)

lemma set_dir_nearer: "ft_work s (set_dir i d t) \<Longrightarrow> dirs t = dirs s \<Longrightarrow> rank d < rank (dirs s i) \<Longrightarrow> \<exists>t. nearer i s t"
  by (rule nearerI [of s "set_dir i d t" i d]) simp_all

lemma lock_nearer: "at (dirs s i) = TLock sd \<Longrightarrow> \<exists>t. nearer i s t"
  using d_lock [of s i sd]
  by (cases "flag (fds s (conn_of i sd)) sd = 0"; cases sd)
    (auto simp: t_lock_def cas_def Let_def locked_next_def lock_fails_def rank_def intro: goes_nearer set_dir_nearer)

lemma io_failed_less: "rank (io_failed e fl d) < (if fl then 14 else 15)"
  by (simp add: rank_def io_failed_def flush_pc_def Let_def)

lemma wait_rank: "at d = TWait sd fl \<or> at d = TWoken sd fl \<Longrightarrow> rank (io_failed e fl d') < rank d"
  using io_failed_less [of e fl d'] by (cases sd; cases fl) (auto simp: rank_at [of d])

lemma wait_nearer:
  assumes "at (dirs s i) = TWait sd fl"
  shows "\<exists>t. nearer i s t"
proof (cases "flag (fds s (conn_of i sd)) sd = 1")
  case True
  then show ?thesis
    using d_wait [OF assms] assms by (cases sd; cases fl) (auto simp: t_wait_def cas_def Let_def rank_at intro: goes_nearer)
next
  case False
  then have "t_wait i sd fl s
      = set_dir i (io_failed EpollError fl (dirs s i)) (put_flag (conn_of i sd) sd (flag (fds s (conn_of i sd)) sd) s)"
    by (simp add: t_wait_def cas_def Let_def)
  then show ?thesis
    using d_wait [OF assms] wait_rank [of "dirs s i" sd fl] assms
    by (intro set_dir_nearer [of s i _ "put_flag (conn_of i sd) sd (flag (fds s (conn_of i sd)) sd) s"]) simp_all
qed

lemma queue_nearer: "at (dirs s i) = TQueue sd fl \<Longrightarrow> \<exists>t. nearer i s t"
  using d_queue [of s i sd fl] by (cases sd; cases fl) (auto simp: rank_at intro: goes_nearer)

lemma woken_nearer:
  assumes "at (dirs s i) = TWoken sd fl"
  shows "\<exists>t. nearer i s t"
proof (cases "flag (fds s (conn_of i sd)) sd = 2 \<and> \<not> perr (fds s (conn_of i sd))")
  case True
  then show ?thesis
    using d_woken [OF assms] assms
    by (cases sd; cases fl) (auto simp: t_woken_def cas_def Let_def rank_at intro: goes_nearer)
next
  case False
  then have "\<exists>v. t_woken i sd fl s = set_dir i (io_failed EpollError fl (dirs s i)) (put_flag (conn_of i sd) sd v s)"
    by (auto simp: t_woken_def cas_def Let_def)
  then obtain v where "t_woken i sd fl s = set_dir i (io_failed EpollError fl (dirs s i)) (put_flag (conn_of i sd) sd v s)"
    by blast
  then show ?thesis
    using d_woken [OF assms] wait_rank [of "dirs s i" sd fl] assms
    by (intro set_dir_nearer [of s i _ "put_flag (conn_of i sd) sd v s"]) simp_all
qed

lemma unlock_nearer: "at (dirs s i) = TUnlock sd \<Longrightarrow> \<exists>t. nearer i s t"
  using d_unlock [of s i sd] by (cases sd) (auto simp: t_unlock_def Let_def unlock_next_def rank_at intro: goes_nearer)

lemma read_nearer: "at (dirs s i) = TRead c \<Longrightarrow> \<exists>t. nearer i s t"
  using d_read_error [of s i c]
    io_failed_less [of SpliceErrno False "(dirs s i)\<lparr>in_buf := wrap64 (in_buf (dirs s i) + - 1), to_read := wrap64 (to_read (dirs s i) - - 1)\<rparr>"]
  by (intro set_dir_nearer [of s i _ s]) (auto simp: read_error_def rank_at)

lemma write_nearer:
  assumes "at (dirs s i) = TWrite fl"
  shows "\<exists>t. nearer i s t"
proof (cases "in_buf (dirs s i) = 0")
  case True
  then show ?thesis
    using d_write_none [OF assms] assms
    by (intro goes_nearer [of s i _ s]) (auto simp: rank_at next_pc_def flush_pc_def)
next
  case False
  have "rank (write_error fl (dirs s i)) < (if fl then 14 else 15)"
    unfolding write_error_def by (rule io_failed_less)
  then have "rank (write_error fl (dirs s i)) < rank (dirs s i)" using False assms by (auto simp: rank_at split: if_splits)
  then show ?thesis using set_dir_nearer [OF d_write_error [OF assms False] refl] by blast
qed

lemma leave_nearer:
  "at (dirs s i) = TDel f \<Longrightarrow> \<exists>t. nearer i s t" "at (dirs s i) = TErr f \<Longrightarrow> \<exists>t. nearer i s t"
  "at (dirs s i) = TSys f \<Longrightarrow> \<exists>t. nearer i s t" "at (dirs s i) = TDestroy \<Longrightarrow> \<exists>t. nearer i s t"
  "at (dirs s i) = TInit \<Longrightarrow> \<exists>t. nearer i s t"
  using d_del [of s i f] d_err [of s i f] d_sys [of s i f] d_destroy [of s i] d_init_fails [of s i]
  by (auto simp: rank_at close_number_def intro: goes_nearer set_dir_nearer)

lemma close_nearer:
  assumes "at (dirs s i) = TClose f sd" "fst (close_pass (flag (fds s f) sd))"
  shows "\<exists>t. nearer i s t"
  using d_close [OF assms] assms(1) by (cases sd) (auto simp: rank_at t_close_def intro: goes_nearer)

lemma not_stopped_nearer:
  assumes "\<not> stopped i s"
  shows "\<exists>t. nearer i s t"
proof (cases "at (dirs s i)")
  case (TClose f sd)
  then show ?thesis using assms close_nearer by (auto simp: stopped_def)
qed (use assms in \<open>auto simp: stopped_def intro: lock_nearer wait_nearer queue_nearer woken_nearer unlock_nearer
      read_nearer write_nearer leave_nearer\<close>)

lemma close_pass_blocked: "v \<le> 3 \<Longrightarrow> \<not> fst (close_pass v) \<Longrightarrow> v = 2"
  using nat_le3 [of v] by (auto simp: close_pass_def cas_def)

lemma waiter_nearer:
  assumes "waiting (at (dirs s (user_of f sd))) sd" "at (dirs s j) = TClose f sd" "flag (fds s f) sd = 2"
  shows "\<exists>t. nearer (user_of f sd) s t"
proof (cases "at (dirs s (user_of f sd))")
  case (TWaiting sd' fl)
  then have "at (dirs s (user_of f sd)) = TWaiting sd fl" using assms(1) by simp
  moreover have "ft_work s (t_signal f sd s)"
    using assms(2,3) by (intro d_close_signal [of s j]) (simp_all add: close_pass_def cas_def)
  ultimately show ?thesis by (cases sd; cases fl) (auto simp: t_signal_def rank_at intro: goes_nearer)
qed (use assms(1) in \<open>auto intro: queue_nearer woken_nearer\<close>)

lemma not_equal_bool: "i \<noteq> j \<Longrightarrow> i = (\<not> j)" for i j :: bool
  by auto

lemma someone_nearer:
  assumes "flags_ok s" "ends (dirs s j)" "\<not> returned s"
  shows "\<exists>i t. nearer i s t"
proof (cases "stopped j s")
  case False
  then show ?thesis using not_stopped_nearer by blast
next
  case True
  then consider (finished) "at (dirs s j) = TEnd" | (blocked) f sd where "at (dirs s j) = TClose f sd" "\<not> fst (close_pass (flag (fds s f) sd))"
    using assms(2) by (auto simp: stopped_def ends_def)
  then show ?thesis
  proof cases
    case finished
    have flags: "flag (fds s f) sd = 3" for f sd
    proof -
      have "passed (at (dirs s j)) f sd" using finished by simp
      then show ?thesis using side_okD [OF assms(1), of f sd] by (auto simp: side_ok_def Let_def)
    qed
    have "at (dirs s (\<not> j)) \<noteq> TEnd"
    proof
      assume "at (dirs s (\<not> j)) = TEnd"
      then have "at (dirs s i) = TEnd" for i using finished by (cases "i = j") (auto dest: not_equal_bool)
      then show False using assms(3) by (simp add: returned_def)
    qed
    moreover have "at (dirs s (\<not> j)) \<noteq> TWaiting sd fl" for sd fl
      using flag_cases(2) [OF assms(1), of "\<not> j" sd] flags by auto
    ultimately have "\<not> stopped (\<not> j) s" by (simp add: stopped_def flags close_pass_def)
    then show ?thesis using not_stopped_nearer by blast
  next
    case blocked
    have "flag (fds s f) sd = 2"
      using close_pass_blocked [OF _ blocked(2)] flag_cases(1) [OF assms(1), of "user_of f sd" sd] by simp
    moreover from this have "waiting (at (dirs s (user_of f sd))) sd"
      using flag_cases(2) [OF assms(1), of "user_of f sd" sd] by simp
    ultimately show ?thesis using waiter_nearer blocked(1) by blast
  qed
qed

lemma nearer_ends: "nearer i s t \<Longrightarrow> ends (dirs s j) \<Longrightarrow> ends (dirs t j)"
  by (cases "j = i") (auto simp: nearer_def ends_rank)

lemma nearer_sum: "nearer i s t \<Longrightarrow> rank (dirs t False) + rank (dirs t True) < rank (dirs s False) + rank (dirs s True)"
  by (cases i) (auto simp: nearer_def)

lemma can_return:
  assumes "flags_ok s" "ends (dirs s j)"
  shows "\<exists>t. reaches ft_work s t \<and> returned t"
  using assms
proof (induction "rank (dirs s False) + rank (dirs s True)" arbitrary: s rule: less_induct)
  case less
  show ?case
  proof (cases "returned s")
    case True
    then show ?thesis by (intro exI [of _ s]) (simp add: reaches_refl)
  next
    case False
    then obtain i t where t: "nearer i s t" using someone_nearer less.prems by blast
    then have w: "ft_work s t" by (simp add: nearer_def)
    then obtain u where "reaches ft_work t u" "returned u"
      using less.hyps [OF nearer_sum [OF t]] flags_work [OF w less.prems(1)] nearer_ends [OF t less.prems(2)] by blast
    then show ?thesis using reaches_trans [of ft_work t u s] reaches_one [of ft_work, OF w] by blast
  qed
qed

section \<open>Somebody else's bytes\<close>

text \<open>
  A run: the second direction starts, the garbage collector closes the number of the first connection, whose
  \<open>os.File\<close> nothing refers to, another goroutine gets the number, and the direction reads from it.
\<close>

lemma step_work: "reaches ft_step s t \<Longrightarrow> ft_work t u \<Longrightarrow> reaches ft_step s u"
  by (rule reaches_step [of ft_step s t u]) (simp_all add: ft_step_def)


lemma reading_reached:
  "\<exists>s. reaches ft_step (ft_start n b) s \<and> at (dirs s True) = TRead False \<and> at (dirs s False) = TLock WSide
     \<and> in_buf (dirs s True) = 0 \<and> to_read (dirs s True) = max_i64 \<and> in_pipe (dirs s True) = []
     \<and> sysfd (fds s False) = n False \<and> uncollected s = {False, True}"
proof -
  let ?s0 = "ft_start n b"
  let ?s1 = "t_lock True WSide ?s0"
  let ?s2 = "t_lock True RSide ?s1"
  let ?s3 = "goes True (next_pc False (dirs ?s2 True)) ?s2"
  have e1: "?s1 = goes True (TLock RSide) (put_flag True WSide 1 ?s0)"
    by (simp add: t_lock_def ft_start_def fd_start_def cas_def Let_def locked_next_def)
  have e2: "?s2 = goes True TInit (put_flag False RSide 1 ?s1)"
    unfolding e1 by (simp add: t_lock_def ft_start_def fd_start_def cas_def Let_def locked_next_def)
  have d2: "dirs ?s2 = (\<lambda>i. dir_start (b i))(True := (dir_start (b True))\<lparr>at := TInit\<rparr>)"
    by (subst e2, subst e1) (simp add: ft_start_def fun_eq_iff)
  have f2: "sysfd (fds ?s2 False) = n False" "uncollected ?s2 = {False, True}"
    by (subst e2, subst e1, simp add: ft_start_def fd_start_def goes_def set_dir_def put_flag_def)+
  have "reaches ft_step ?s0 ?s1"
    by (rule step_work [OF reaches_refl]) (rule d_lock, simp add: ft_start_def dir_start_def)
  then have "reaches ft_step ?s0 ?s2" by (rule step_work) (rule d_lock, simp add: e1)
  then have "reaches ft_step ?s0 ?s3" by (rule step_work) (rule d_init, simp add: d2)
  then show ?thesis
    using f2 by (intro exI [of _ ?s3]) (simp add: d2 goes_def set_dir_def next_pc_def dir_start_def)
qed


section \<open>Properties\<close>

text \<open>
  C21. In every interleaving of the two directions, the event loop and \<open>Close\<close>, the flag of a side is 2 exactly while
  the one direction that uses this side waits, and 1 only while it holds the lock; a side that a direction has
  closed stays closed, so nobody waits on it any more.
\<close>

theorem funny_exclusive:
  assumes "reaches ft_step (ft_start n b) s"
  shows "(flag (fds s (conn_of i sd)) sd = 2 \<longleftrightarrow> waiting (at (dirs s i)) sd)
    \<and> (flag (fds s (conn_of i sd)) sd = 1 \<longrightarrow> holding (at (dirs s i)) sd)
    \<and> (passed (at (dirs s j)) (conn_of i sd) sd \<longrightarrow> flag (fds s (conn_of i sd)) sd = 3 \<and> \<not> waiting (at (dirs s i)) sd)"
proof -
  have "side_ok s (conn_of i sd) sd" using side_okD [OF funny_flags.inv_reaches [OF assms flags_start]] .
  then show ?thesis by (auto simp: side_ok_def Let_def)
qed

theorem funny_exclusive_witness:
  "flag (fds (ft_start (\<lambda>f. if f then 7 else 8) (\<lambda>_. []) ) False) WSide \<noteq> 2"
  using funny_exclusive [OF reaches_refl, of "\<lambda>f. if f then 7 else 8" "\<lambda>_. []" False WSide True]
  by (simp add: ft_start_def dir_start_def)



text \<open>
  C22. One direction that ends takes the other with it: from every reachable state in which a direction is past its
  flush, the two goroutines can go on to the return of \<open>Transfer\<close> with no event from outside, also when the other
  direction waits for its peer.
\<close>

theorem funny_can_return:
  assumes "reaches ft_step (ft_start n b) s" "ends (dirs s j)"
  shows "\<exists>t. reaches ft_work s t \<and> returned t"
  using can_return [OF funny_flags.inv_reaches [OF assms(1) flags_start] assms(2)] .

theorem funny_can_return_witness:
  "\<exists>s t. reaches ft_step (ft_start (\<lambda>f. if f then 7 else 8) (\<lambda>_. ''hello'')) s \<and> at (dirs s False) = TLock WSide
     \<and> reaches ft_work s t \<and> returned t"
proof -
  let ?start = "ft_start (\<lambda>f. if f then 7 else 8) (\<lambda>_. ''hello'')"
  obtain s where s: "reaches ft_step ?start s" "at (dirs s True) = TRead False" "at (dirs s False) = TLock WSide"
      "in_buf (dirs s True) = 0"
    using reading_reached [of "\<lambda>f. if f then 7 else 8" "\<lambda>_. ''hello''"] by blast
  let ?t = "set_dir True (read_error (dirs s True)) s"
  have t: "reaches ft_step ?start ?t" by (rule step_work [OF s(1)]) (rule d_read_error [OF s(2)])
  have "ends (dirs ?t True)"
    by (simp add: ends_def read_error_def io_failed_def flush_pc_def fail_with_def Let_def s(4))
  from funny_can_return [OF t this] obtain u where "reaches ft_work ?t u" "returned u" by blast
  then show ?thesis using t s(3) by (intro exI [of _ ?t] exI [of _ u]) simp
qed



end
