(* ===== verification/Hash_System.thy ===== *)
theory Hash_System
  imports Hash_Tester
begin

text \<open>
  All goroutines of a test of \<open>src/hash-test/hash-test.go\<close> together: the workers, the counters behind their channels,
  \<open>closer\<close> with the time limit, \<open>run\<close>, \<open>counter\<close> and the callers of \<open>Close\<close>.  \<open>run\<close>, \<open>counter\<close> and \<open>Close\<close> step as in
  \<open>end_step\<close> of \<open>Hash_Tester\<close>; here their waits are waits for the goroutines that are modelled.

  A worker is the list of the chunks that \<open>runWorker\<close> makes when nobody stops it.
\<close>

section \<open>State\<close>

type_synonym chunk = "carrier list \<times> u64"

datatype hsend = ToSum nat carrier | ToTotal u64

text \<open>The sends of a chunk: its carriers to the counters in order, then its count.\<close>

definition chunk_sends :: "chunk \<Rightarrow> hsend list" where
  "chunk_sends c = map (\<lambda>(i, b). ToSum i b) (enumerate 0 (fst c)) @ [ToTotal (snd c)]"

text \<open>\<open>made\<close> is history: the chunks that the worker has made.\<close>

record hworker =
  left :: "chunk list"
  sending :: "hsend list"
  made :: "chunk list"
  stopped :: bool

record hsys =
  ctl :: end_state
  wkrs :: "hworker list"
  sumq :: "carrier list list"
  sums_on :: "bool list"
  totq :: "u64 list"
  tot_on :: bool
  tbl :: "16 word list"
  total :: nat
  kill :: bool
  closer_on :: bool
  sent_closed :: bool

definition set_wkr :: "nat \<Rightarrow> hworker \<Rightarrow> hsys \<Rightarrow> hsys" where
  "set_wkr i w s = s\<lparr>wkrs := (wkrs s)[i := w]\<rparr>"

text \<open>\<open>NewhashTester\<close> makes the channels; the time limit and all goroutines start with the test.\<close>

definition worker_start :: "chunk list \<Rightarrow> hworker" where
  "worker_start cs = \<lparr>left = cs, sending = [], made = [], stopped = False\<rparr>"

definition hash_start :: "nat \<Rightarrow> nat \<Rightarrow> nat \<Rightarrow> chunk list list \<Rightarrow> hsys" where
  "hash_start callers counters places ws =
     \<lparr>ctl = end_start callers, wkrs = map worker_start ws, sumq = replicate counters [], sums_on = replicate counters True,
      totq = [], tot_on = True, tbl = replicate places 0, total = 0, kill = False, closer_on = True, sent_closed = False\<rparr>"

section \<open>Steps\<close>

text \<open>
  The channels of the counters have \<open>cap\<close> places, that of the total has \<open>2048\<close>; \<open>run\<close> closes them all.  The count of a
  chunk is read from its carriers when they are already in other hands (\<open>Hash_Pool\<close>), so what is sent to \<open>counterCh\<close>
  may be any number.
\<close>

definition sums_closed :: "hsys \<Rightarrow> bool" where
  "sums_closed s \<longleftrightarrow> run_at (ctl s) = RDone"

text \<open>\<open>closer\<close> ends with the time limit or with \<open>closing\<close>, and its deferred function stops the workers.\<close>

definition closer_returns :: "hsys \<Rightarrow> hsys" where
  "closer_returns s = s\<lparr>kill := True, closer_on := False\<rparr>"

abbreviation countersize :: nat where "countersize \<equiv> 2048"

inductive hash_work :: "nat \<Rightarrow> hsys \<Rightarrow> hsys \<Rightarrow> bool" for cap where
  w_killed: "i < length (wkrs s) \<Longrightarrow> \<not> stopped (wkrs s ! i) \<Longrightarrow> sending (wkrs s ! i) = [] \<Longrightarrow> kill s \<Longrightarrow>
    hash_work cap s (set_wkr i ((wkrs s ! i)\<lparr>stopped := True\<rparr>) s)"
| w_last: "i < length (wkrs s) \<Longrightarrow> \<not> stopped (wkrs s ! i) \<Longrightarrow> sending (wkrs s ! i) = [] \<Longrightarrow> left (wkrs s ! i) = [] \<Longrightarrow>
    hash_work cap s (set_wkr i ((wkrs s ! i)\<lparr>stopped := True\<rparr>) s)"
| w_chunk: "i < length (wkrs s) \<Longrightarrow> \<not> stopped (wkrs s ! i) \<Longrightarrow> sending (wkrs s ! i) = [] \<Longrightarrow> \<not> kill s \<Longrightarrow>
    left (wkrs s ! i) = c # cs \<Longrightarrow>
    hash_work cap s (set_wkr i ((wkrs s ! i)\<lparr>left := cs, made := made (wkrs s ! i) @ [c], sending := chunk_sends c\<rparr>) s)"
| w_sum: "i < length (wkrs s) \<Longrightarrow> sending (wkrs s ! i) = ToSum k b # rest \<Longrightarrow> \<not> sums_closed s \<Longrightarrow> k < length (sumq s) \<Longrightarrow>
    length (sumq s ! k) < cap \<Longrightarrow>
    hash_work cap s ((set_wkr i ((wkrs s ! i)\<lparr>sending := rest\<rparr>) s)\<lparr>sumq := (sumq s)[k := sumq s ! k @ [b]]\<rparr>)"
| w_total: "i < length (wkrs s) \<Longrightarrow> sending (wkrs s ! i) = ToTotal n # rest \<Longrightarrow> \<not> sums_closed s \<Longrightarrow>
    length (totq s) < countersize \<Longrightarrow>
    hash_work cap s ((set_wkr i ((wkrs s ! i)\<lparr>sending := rest\<rparr>) s)\<lparr>totq := totq s @ [m]\<rparr>)"
| w_send_closed: "i < length (wkrs s) \<Longrightarrow> sending (wkrs s ! i) \<noteq> [] \<Longrightarrow> sums_closed s \<Longrightarrow>
    hash_work cap s (s\<lparr>sent_closed := True\<rparr>)"
| s_recv: "k < length (sumq s) \<Longrightarrow> sums_on s ! k \<Longrightarrow> sumq s ! k = b # q \<Longrightarrow>
    hash_work cap s (s\<lparr>tbl := foldl bump (tbl s) b, sumq := (sumq s)[k := q]\<rparr>)"
| s_end: "k < length (sumq s) \<Longrightarrow> sums_on s ! k \<Longrightarrow> sumq s ! k = [] \<Longrightarrow> sums_closed s \<Longrightarrow>
    hash_work cap s (s\<lparr>sums_on := (sums_on s)[k := False]\<rparr>)"
| t_recv: "tot_on s \<Longrightarrow> totq s = n # q \<Longrightarrow> hash_work cap s (s\<lparr>total := total s + unat n, totq := q\<rparr>)"
| t_end: "tot_on s \<Longrightarrow> totq s = [] \<Longrightarrow> sums_closed s \<Longrightarrow> hash_work cap s (s\<lparr>tot_on := False\<rparr>)"
| x_timer: "closer_on s \<Longrightarrow> hash_work cap s (closer_returns s)"
| x_closing: "closer_on s \<Longrightarrow> closing (ctl s) \<Longrightarrow> hash_work cap s (closer_returns s)"
| r_ends: "end_step (ctl s) c \<Longrightarrow>
    (run_at (ctl s) = RWorkers \<and> run_at c \<noteq> RWorkers \<Longrightarrow> \<forall>w \<in> set (wkrs s). stopped w) \<Longrightarrow>
    (counter_at (ctl s) = CWait \<and> counter_at c \<noteq> CWait \<Longrightarrow> True \<notin> set (sums_on s) \<and> \<not> tot_on s) \<Longrightarrow>
    hash_work cap s (s\<lparr>ctl := c\<rparr>)"

text \<open>A panic ends the process: \<open>closing\<close> closed twice, or a send on a closed channel.\<close>

definition hash_step :: "nat \<Rightarrow> hsys \<Rightarrow> hsys \<Rightarrow> bool" where
  "hash_step cap s t \<longleftrightarrow> \<not> panicked (ctl s) \<and> \<not> sent_closed s \<and> hash_work cap s t"

text \<open>\<open>Result\<close> and \<open>Wait\<close> return when \<open>closed\<close> is closed.\<close>

definition hash_Result :: "hashTester \<Rightarrow> hsys \<Rightarrow> (u64 list \<times> u64 list) option" where
  "hash_Result ht s =
     (if closed (ctl s) then let h = summary (ht\<lparr>results := tbl s\<rparr>) in Some (distr h, collided h) else None)"

end
