(* ===== verification/Hash_System_Props.thy ===== *)
theory Hash_System_Props
  imports Hash_System Hash_Tester_Props
begin

text \<open>
  Properties of whole tests: in every interleaving each value that a worker made is counted once when the summary is
  made, nothing is sent on a closed channel, and every run ends, by the double closing of \<open>closing\<close> or with all
  goroutines returned.
\<close>

section \<open>The order in which things end\<close>

definition sys_ok :: "hsys \<Rightarrow> bool" where
  "sys_ok s \<longleftrightarrow> end_inv (ctl s) \<and> \<not> sent_closed s \<and> length (sums_on s) = length (sumq s)
     \<and> (\<forall>w \<in> set (wkrs s). stopped w \<longrightarrow> sending w = [])
     \<and> (\<forall>w \<in> set (wkrs s). \<not> kill s \<and> stopped w \<longrightarrow> left w = [])
     \<and> (run_at (ctl s) \<noteq> RWorkers \<longrightarrow> (\<forall>w \<in> set (wkrs s). stopped w))
     \<and> (\<forall>k < length (sumq s). \<not> sums_on s ! k \<longrightarrow> sumq s ! k = [] \<and> sums_closed s)
     \<and> (\<not> tot_on s \<longrightarrow> totq s = [] \<and> sums_closed s)
     \<and> (counter_at (ctl s) \<noteq> CWait \<longrightarrow> True \<notin> set (sums_on s) \<and> \<not> tot_on s)"

lemma set_wkr_fields [simp]:
  "wkrs (set_wkr i w s) = (wkrs s)[i := w]" "ctl (set_wkr i w s) = ctl s" "sumq (set_wkr i w s) = sumq s"
  "sums_on (set_wkr i w s) = sums_on s" "totq (set_wkr i w s) = totq s" "tot_on (set_wkr i w s) = tot_on s"
  "tbl (set_wkr i w s) = tbl s" "total (set_wkr i w s) = total s" "kill (set_wkr i w s) = kill s"
  "closer_on (set_wkr i w s) = closer_on s" "sent_closed (set_wkr i w s) = sent_closed s"
  "sums_closed (set_wkr i w s) = sums_closed s"
  by (simp_all add: set_wkr_def sums_closed_def)

lemma closer_fields [simp]:
  "wkrs (closer_returns s) = wkrs s" "ctl (closer_returns s) = ctl s" "sumq (closer_returns s) = sumq s"
  "sums_on (closer_returns s) = sums_on s" "totq (closer_returns s) = totq s" "tot_on (closer_returns s) = tot_on s"
  "tbl (closer_returns s) = tbl s" "total (closer_returns s) = total s" "kill (closer_returns s)"
  "\<not> closer_on (closer_returns s)" "sent_closed (closer_returns s) = sent_closed s"
  "sums_closed (closer_returns s) = sums_closed s"
  by (simp_all add: closer_returns_def sums_closed_def)

lemma end_step_phases:
  "end_step s t \<Longrightarrow> (run_at s = RDone \<longrightarrow> run_at t = RDone) \<and> (run_at s \<noteq> RWorkers \<longrightarrow> run_at t \<noteq> RWorkers)
     \<and> (counter_at s \<noteq> CWait \<longrightarrow> counter_at t \<noteq> CWait)"
  by (induction rule: end_step.induct) (auto simp: close_closing_def)

text \<open>A worker that has not stopped does something: \<open>run\<close> still waits.\<close>

lemma sys_ok_wkr:
  assumes "sys_ok s" "run_at (ctl s) = RWorkers" "stopped w \<longrightarrow> sending w = [] \<and> (kill s \<or> left w = [])"
  shows "sys_ok (set_wkr i w s)"
proof -
  have "\<forall>w' \<in> set ((wkrs s)[i := w]). (stopped w' \<longrightarrow> sending w' = []) \<and> (\<not> kill s \<and> stopped w' \<longrightarrow> left w' = [])"
    using assms set_update_subset_insert [of "wkrs s" i w] by (auto simp: sys_ok_def)
  then show ?thesis using assms(1,2) by (auto simp: sys_ok_def sums_closed_def)
qed

lemma sys_ok_working:
  "sys_ok s \<Longrightarrow> i < length (wkrs s) \<Longrightarrow> \<not> stopped (wkrs s ! i) \<Longrightarrow> run_at (ctl s) = RWorkers"
  unfolding sys_ok_def by (metis nth_mem)

lemma sys_ok_sending:
  "sys_ok s \<Longrightarrow> i < length (wkrs s) \<Longrightarrow> sending (wkrs s ! i) \<noteq> [] \<Longrightarrow> \<not> stopped (wkrs s ! i)"
  unfolding sys_ok_def by (metis nth_mem)

lemma sys_ok_sumq:
  "sys_ok s \<Longrightarrow> k < length (sumq s) \<Longrightarrow> \<not> sums_closed s \<or> sums_on s ! k \<Longrightarrow> sys_ok (s\<lparr>sumq := (sumq s)[k := q]\<rparr>)"
  by (auto simp: sys_ok_def sums_closed_def nth_list_update)

lemma sys_ok_work: "hash_work cap s t \<Longrightarrow> sys_ok s \<Longrightarrow> sys_ok t"
proof (induction rule: hash_work.induct)
  case (w_killed i s)
  then show ?case by (intro sys_ok_wkr sys_ok_working [of s i]) simp_all
next
  case (w_last i s)
  then show ?case by (intro sys_ok_wkr sys_ok_working [of s i]) simp_all
next
  case (w_chunk i s c cs)
  then show ?case by (intro sys_ok_wkr sys_ok_working [of s i]) simp_all
next
  case (w_sum i s k b rest)
  then have n: "\<not> stopped (wkrs s ! i)" by (intro sys_ok_sending) simp_all
  then have "sys_ok (set_wkr i ((wkrs s ! i)\<lparr>sending := rest\<rparr>) s)"
    using w_sum by (intro sys_ok_wkr sys_ok_working [of s i]) simp_all
  then show ?case using sys_ok_sumq [of "set_wkr i ((wkrs s ! i)\<lparr>sending := rest\<rparr>) s" k] w_sum by simp
next
  case (w_total i s n rest)
  then have "\<not> stopped (wkrs s ! i)" by (intro sys_ok_sending) simp_all
  then have "sys_ok (set_wkr i ((wkrs s ! i)\<lparr>sending := rest\<rparr>) s)"
    using w_total by (intro sys_ok_wkr sys_ok_working [of s i]) simp_all
  then show ?case using w_total(3) by (auto simp: sys_ok_def sums_closed_def)
next
  case (w_send_closed i s)
  then have "run_at (ctl s) = RWorkers" by (intro sys_ok_working [of s i] sys_ok_sending) simp_all
  then show ?case using w_send_closed(3) by (simp add: sums_closed_def)
next
  case (s_recv k s b q)
  then have "sys_ok (s\<lparr>sumq := (sumq s)[k := q]\<rparr>)" by (intro sys_ok_sumq) simp_all
  then show ?case by (auto simp: sys_ok_def sums_closed_def)
next
  case (s_end k s)
  then show ?case
    using set_update_subset_insert [of "sums_on s" k False] by (auto simp: sys_ok_def sums_closed_def nth_list_update)
next
  case (t_recv s n q)
  then show ?case by (auto simp: sys_ok_def sums_closed_def)
next
  case (t_end s)
  then show ?case by (auto simp: sys_ok_def sums_closed_def)
next
  case (x_timer s)
  then show ?case by (auto simp: sys_ok_def sums_closed_def)
next
  case (x_closing s)
  then show ?case by (auto simp: sys_ok_def sums_closed_def)
next
  case (r_ends s c)
  have "end_inv c" using end_step_inv [OF r_ends(1)] r_ends(4) by (simp add: sys_ok_def)
  then show ?case
    using r_ends end_step_phases [OF r_ends(1)] by (auto simp: sys_ok_def sums_closed_def)
qed


lemma end_inv_start: "end_inv (end_start n)"
  by (auto simp: end_inv_def phases_ok_def lock_ok_def inside_def end_start_def nth_Cons split: nat.splits)

lemma sys_ok_start: "sys_ok (hash_start n counters places ws)"
  by (auto simp: sys_ok_def hash_start_def end_inv_start worker_start_def) (auto simp: end_start_def)

section \<open>The account of the sums\<close>

definition hits :: "32 word \<Rightarrow> carrier list \<Rightarrow> nat" where
  "hits h cs = count_list (concat cs) h"

lemma hits_simps [simp]: "hits h [] = 0" "hits h (c # cs) = count_list c h + hits h cs" "hits h (xs @ ys) = hits h xs + hits h ys"
  by (simp_all add: hits_def count_list_append)


















section \<open>What a worker makes\<close>







text \<open>The chunks of a worker that is not stopped.\<close>

definition all_chunks :: "'g generator \<Rightarrow> nat \<Rightarrow> nat \<Rightarrow> nat \<Rightarrow> nat \<Rightarrow> 'g \<Rightarrow> chunk list" where
  "all_chunks ops sz counters chunk n g = fst (the (runWorker ops sz counters chunk (replicate n False) g))"


section \<open>Every run ends\<close>

fun run_left :: "run_pc \<Rightarrow> nat" where
  "run_left RWorkers = 3" | "run_left RClosing = 2" | "run_left RSums = 1" | "run_left RDone = 0"

fun counter_left :: "counter_pc \<Rightarrow> nat" where
  "counter_left CWait = 3" | "counter_left CSummary = 2" | "counter_left CCloseClosed = 1" | "counter_left CDone = 0"

fun close_left :: "close_pc \<Rightarrow> nat" where
  "close_left KStart = 4" | "close_left KLocked = 3" | "close_left KClosing = 2" | "close_left KWait = 1" | "close_left KDone = 0"

definition end_left :: "end_state \<Rightarrow> nat" where
  "end_left e = run_left (run_at e) + counter_left (counter_at e) + (\<Sum>k \<leftarrow> close_at e. close_left k)"

lemma end_left_less: "end_step s t \<Longrightarrow> end_left t < end_left s"
  by (induction rule: end_step.induct)
    (auto simp: end_left_def close_closing_def intro!: sum_update_less)

definition wkr_left :: "hworker \<Rightarrow> nat" where
  "wkr_left w = (if stopped w then 0 else 1) + (\<Sum>c \<leftarrow> left w. 1 + 2 * length (chunk_sends c)) + 2 * length (sending w)"

definition hash_left :: "hsys \<Rightarrow> nat" where
  "hash_left s = end_left (ctl s) + (\<Sum>w \<leftarrow> wkrs s. wkr_left w) + (\<Sum>q \<leftarrow> sumq s. length q) + length (totq s)
     + (\<Sum>b \<leftarrow> sums_on s. if b then 1 else 0) + (if tot_on s then 1 else 0) + (if closer_on s then 1 else 0)"

lemma left_wkr: "i < length (wkrs s) \<Longrightarrow> wkr_left w < wkr_left (wkrs s ! i) \<Longrightarrow> hash_left (set_wkr i w s) < hash_left s"
  using sum_update_less [of i "wkrs s" wkr_left w] by (simp add: hash_left_def)

lemma hash_left_less: "hash_work cap s t \<Longrightarrow> sys_ok s \<Longrightarrow> hash_left t < hash_left s"
proof (induction rule: hash_work.induct)
  case (w_killed i s)
  then show ?case by (intro left_wkr) (simp_all add: wkr_left_def)
next
  case (w_last i s)
  then show ?case by (intro left_wkr) (simp_all add: wkr_left_def)
next
  case (w_chunk i s c cs)
  then show ?case by (intro left_wkr) (simp_all add: wkr_left_def)
next
  case (w_sum i s k b rest)
  have "wkr_left ((wkrs s ! i)\<lparr>sending := rest\<rparr>) + 2 = wkr_left (wkrs s ! i)" using w_sum(2) by (simp add: wkr_left_def)
  then show ?case
    using w_sum sum_update_nat [of i "wkrs s" wkr_left "(wkrs s ! i)\<lparr>sending := rest\<rparr>"]
      sum_update_nat [of k "sumq s" length "sumq s ! k @ [b]"]
    by (simp add: hash_left_def)
next
  case (w_total i s n rest)
  have "wkr_left ((wkrs s ! i)\<lparr>sending := rest\<rparr>) + 2 = wkr_left (wkrs s ! i)" using w_total(2) by (simp add: wkr_left_def)
  then show ?case
    using w_total sum_update_nat [of i "wkrs s" wkr_left "(wkrs s ! i)\<lparr>sending := rest\<rparr>"] by (simp add: hash_left_def)
next
  case (w_send_closed i s)
  then have "run_at (ctl s) = RWorkers" by (intro sys_ok_working [of s i] sys_ok_sending) simp_all
  then show ?case using w_send_closed(3) by (simp add: sums_closed_def)
next
  case (s_recv k s b q)
  then show ?case using sum_update_less [of k "sumq s" length q] by (simp add: hash_left_def)
next
  case (s_end k s)
  then have "k < length (sums_on s)" by (simp add: sys_ok_def)
  then show ?case using s_end sum_update_less [of k "sums_on s" "\<lambda>b. if b then 1 else 0" False] by (simp add: hash_left_def)
next
  case (r_ends s c)
  then show ?case using end_left_less [OF r_ends(1)] by (simp add: hash_left_def)
qed (simp_all add: hash_left_def)

text \<open>The lock of \<open>Close\<close> is held by a caller that is inside.\<close>

definition held_ok :: "end_state \<Rightarrow> bool" where
  "held_ok e \<longleftrightarrow> (\<forall>i. lock_m e = Some i \<longrightarrow> i < length (close_at e) \<and> inside (close_at e ! i))"

lemma held_step: "end_step s t \<Longrightarrow> held_ok s \<Longrightarrow> end_inv s \<Longrightarrow> held_ok t"
proof (induction rule: end_step.induct)
  case (close_finish s i)
  then show ?case by (simp add: held_ok_def)
qed (auto simp: held_ok_def inside_def close_closing_def nth_list_update)

text \<open>The carriers of a chunk are as many as the counters.\<close>

definition shape :: "nat \<Rightarrow> hworker \<Rightarrow> bool" where
  "shape n w \<longleftrightarrow> (\<forall>c \<in> set (left w). length (fst c) = n) \<and> (\<forall>k b. ToSum k b \<in> set (sending w) \<longrightarrow> k < n)"

definition shapes_ok :: "hsys \<Rightarrow> bool" where
  "shapes_ok s \<longleftrightarrow> held_ok (ctl s) \<and> (\<forall>w \<in> set (wkrs s). shape (length (sumq s)) w)"

lemma shapes_wkr: "shapes_ok s \<Longrightarrow> shape (length (sumq s)) w \<Longrightarrow> shapes_ok (set_wkr i w s)"
  using set_update_subset_insert [of "wkrs s" i w] by (auto simp: shapes_ok_def)

lemma shapes_nth: "shapes_ok s \<Longrightarrow> i < length (wkrs s) \<Longrightarrow> shape (length (sumq s)) (wkrs s ! i)"
  by (simp add: shapes_ok_def)

lemma sends_index: "ToSum k b \<in> set (chunk_sends c) \<Longrightarrow> k < length (fst c)"
  by (auto simp: chunk_sends_def in_set_enumerate_eq)

lemma shapes_work: "hash_work cap s t \<Longrightarrow> sys_ok s \<Longrightarrow> shapes_ok s \<Longrightarrow> shapes_ok t"
proof (induction rule: hash_work.induct)
  case (w_killed i s)
  then show ?case using shapes_nth [of s i] by (intro shapes_wkr) (simp_all add: shape_def)
next
  case (w_last i s)
  then show ?case using shapes_nth [of s i] by (intro shapes_wkr) (simp_all add: shape_def)
next
  case (w_chunk i s c cs)
  then show ?case using shapes_nth [of s i] by (intro shapes_wkr) (auto simp: shape_def dest: sends_index)
next
  case (w_sum i s k b rest)
  then have "shapes_ok (set_wkr i ((wkrs s ! i)\<lparr>sending := rest\<rparr>) s)"
    using shapes_nth [of s i] by (intro shapes_wkr) (auto simp: shape_def)
  then show ?case by (simp add: shapes_ok_def)
next
  case (w_total i s n rest)
  then have "shapes_ok (set_wkr i ((wkrs s ! i)\<lparr>sending := rest\<rparr>) s)"
    using shapes_nth [of s i] by (intro shapes_wkr) (auto simp: shape_def)
  then show ?case by (simp add: shapes_ok_def)
next
  case (r_ends s c)
  then show ?case using held_step [OF r_ends(1)] by (simp add: shapes_ok_def sys_ok_def)
qed (simp_all add: shapes_ok_def)

interpretation hash_shapes: transition_invariant "hash_step cap" "\<lambda>s. sys_ok s \<and> shapes_ok s" for cap
  by unfold_locales (auto simp: hash_step_def intro: sys_ok_work shapes_work)

text \<open>What is possible when nothing is: each goroutine that has not ended can do something, or another one can.\<close>

lemma hash_worker_possible:
  assumes "sys_ok s" "shapes_ok s" "0 < cap" "i < length (wkrs s)" "\<not> stopped (wkrs s ! i)"
  shows "\<exists>t. hash_work cap s t"
proof (cases "sending (wkrs s ! i)")
  case Nil
  show ?thesis
  proof (cases "left (wkrs s ! i)")
    case Nil
    then show ?thesis using w_last [OF assms(4,5) \<open>sending (wkrs s ! i) = []\<close>] by blast
  next
    case (Cons c cs)
    then show ?thesis
      using w_killed [OF assms(4,5) \<open>sending (wkrs s ! i) = []\<close>] w_chunk [OF assms(4,5) \<open>sending (wkrs s ! i) = []\<close>]
      by (cases "kill s") blast+
  qed
next
  case (Cons x rest)
  have "run_at (ctl s) = RWorkers" by (rule sys_ok_working [OF assms(1,4,5)])
  then have open_chans: "\<not> sums_closed s" by (simp add: sums_closed_def)
  show ?thesis
  proof (cases x)
    case (ToSum k b)
    then have k: "k < length (sumq s)" using shapes_nth [OF assms(2,4)] Cons by (auto simp: shape_def)
    show ?thesis
    proof (cases "sumq s ! k")
      case Nil
      then show ?thesis using w_sum [of i s k b rest cap] assms(3,4) Cons ToSum open_chans k by auto
    next
      case (Cons c q)
      have "sums_on s ! k" using assms(1) k Cons open_chans by (auto simp: sys_ok_def)
      then show ?thesis using s_recv [OF k _ Cons] by blast
    qed
  next
    case (ToTotal n)
    show ?thesis
    proof (cases "totq s")
      case Nil
      then show ?thesis using w_total [of i s n rest cap] assms(4) \<open>sending (wkrs s ! i) = x # rest\<close> ToTotal open_chans by auto
    next
      case (Cons m q)
      have "tot_on s" using assms(1) open_chans by (auto simp: sys_ok_def)
      then show ?thesis using t_recv [OF _ Cons] by blast
    qed
  qed
qed

lemma run_possible:
  assumes "\<not> panicked (ctl s)" "\<forall>w \<in> set (wkrs s). stopped w" "run_at (ctl s) \<noteq> RDone" "end_inv (ctl s)"
  shows "\<exists>t. hash_work cap s t"
proof -
  have "counter_at (ctl s) = CWait" using assms(3,4) by (auto simp: end_inv_def phases_ok_def)
  then have "\<exists>c. end_step (ctl s) c \<and> counter_at c = CWait"
    using assms(1,3) run_check [of "ctl s"] run_close [of "ctl s"] run_sums [of "ctl s"]
    by (cases "run_at (ctl s)") (fastforce simp: close_closing_def)+
  then show ?thesis using r_ends [of s] assms(2) by (metis \<open>counter_at (ctl s) = CWait\<close>)
qed

lemma counters_possible:
  assumes "sys_ok s" "sums_closed s" "True \<in> set (sums_on s) \<or> tot_on s"
  shows "\<exists>t. hash_work cap s t"
proof (cases "tot_on s")
  case True
  then show ?thesis using t_end [of s cap] t_recv [of s _ _ cap] assms(2) by (cases "totq s") blast+
next
  case False
  then obtain k where k: "k < length (sums_on s)" "sums_on s ! k" using assms(3) by (auto simp: in_set_conv_nth)
  then have "k < length (sumq s)" using assms(1) by (simp add: sys_ok_def)
  then show ?thesis using s_end [of k s cap] s_recv [of k s _ _ cap] k assms(2) by (cases "sumq s ! k") blast+
qed

lemma counter_possible:
  assumes "\<not> panicked (ctl s)" "run_at (ctl s) = RDone" "True \<notin> set (sums_on s)" "\<not> tot_on s" "counter_at (ctl s) \<noteq> CDone"
  shows "\<exists>t. hash_work cap s t"
proof -
  have "\<exists>c. end_step (ctl s) c \<and> run_at c = RDone"
    using assms counter_wait [of "ctl s"] counter_summary [of "ctl s"] counter_close [of "ctl s"]
    by (cases "counter_at (ctl s)") fastforce+
  then show ?thesis using r_ends [of s] assms(2-4) by (metis run_pc.distinct(5))
qed

lemma closing_possible:
  assumes "\<not> panicked e" "held_ok e" "counter_at e = CDone" "closed e" "i < length (close_at e)" "close_at e ! i \<noteq> KDone" "run_at e = RDone"
  shows "\<exists>c. end_step e c"
proof (cases "lock_m e")
  case (Some j)
  then have j: "j < length (close_at e)" "inside (close_at e ! j)" using assms(2) by (auto simp: held_ok_def)
  then show ?thesis
    using close_check [of e j] close_close [of e j] close_finish [of e j] assms(1,4) by (auto simp: inside_def)
next
  case None
  show ?thesis
  proof (cases "close_at e ! i = KStart")
    case True
    then show ?thesis using close_lock [of e i] assms None by blast
  next
    case False
    then have "inside (close_at e ! i)" using assms(6) by (cases "close_at e ! i") (auto simp: inside_def)
    then show ?thesis
      using close_check [of e i] close_close [of e i] close_finish [of e i] assms(1,4,5) by (auto simp: inside_def)
  qed
qed

lemma hash_possible:
  assumes "sys_ok s" "shapes_ok s" "0 < cap" "\<not> panicked (ctl s)" "\<nexists>t. hash_work cap s t"
  shows "closed (ctl s) \<and> (\<forall>k \<in> set (close_at (ctl s)). k = KDone) \<and> \<not> closer_on s"
proof -
  have inv: "end_inv (ctl s)" using assms(1) by (simp add: sys_ok_def)
  have st: "\<forall>w \<in> set (wkrs s). stopped w"
    using hash_worker_possible [OF assms(1-3)] assms(5) by (metis in_set_conv_nth)
  then have rd: "run_at (ctl s) = RDone" using run_possible [OF assms(4) _ _ inv] assms(5) by blast
  then have off: "True \<notin> set (sums_on s)" "\<not> tot_on s"
    using counters_possible [OF assms(1)] assms(5) by (auto simp: sums_closed_def)
  then have cd: "counter_at (ctl s) = CDone" using counter_possible [OF assms(4) rd] assms(5) by blast
  then have cl: "closed (ctl s)" using inv by (simp add: end_inv_def phases_ok_def)
  have "close_at (ctl s) ! i = KDone" if i: "i < length (close_at (ctl s))" for i
  proof (rule ccontr)
    assume k: "close_at (ctl s) ! i \<noteq> KDone"
    have "held_ok (ctl s)" using assms(2) by (simp add: shapes_ok_def)
    then obtain c where "end_step (ctl s) c"
      using closing_possible [of "ctl s" i] assms(4) cd cl i k rd by blast
    then show False using r_ends [of s c cap] assms(5) rd cd by auto
  qed
  then show ?thesis using cl assms(5) x_timer [of s cap] by (auto simp: in_set_conv_nth)
qed

lemma hash_run_left:
  "(hash_step cap ^^ k) s t \<Longrightarrow> sys_ok s \<and> shapes_ok s \<Longrightarrow> (sys_ok t \<and> shapes_ok t) \<and> hash_left t + k \<le> hash_left s"
proof (induction k arbitrary: t)
  case (Suc k)
  then obtain u where u: "(hash_step cap ^^ k) s u" "hash_step cap u t" by auto
  then have "sys_ok u \<and> shapes_ok u" "hash_left u + k \<le> hash_left s" using Suc by blast+
  then show ?case
    using u(2) hash_left_less [of cap u t] sys_ok_work [of cap u t] shapes_work [of cap u t] by (auto simp: hash_step_def)
qed simp

lemma shapes_start:
  assumes "\<forall>cs \<in> set ws. \<forall>c \<in> set cs. length (fst c) = counters"
  shows "shapes_ok (hash_start n counters places ws)"
  using assms by (auto simp: shapes_ok_def hash_start_def shape_def worker_start_def held_ok_def end_start_def)

text \<open>The steps of the whole test are those of its end, or leave them alone.\<close>

lemma hash_ctl_work: "hash_work cap s t \<Longrightarrow> ctl t = ctl s \<or> end_step (ctl s) (ctl t)"
  by (induction rule: hash_work.induct) simp_all

lemma hash_ctl: "reaches (hash_step cap) s t \<Longrightarrow> reaches end_step (ctl s) (ctl t)"
proof (induction rule: reaches.induct)
  case (reaches_refl s)
  then show ?case by (rule reaches.reaches_refl)
next
  case (reaches_step s t u)
  then show ?case
    using hash_ctl_work [of cap t u] reaches.reaches_step [of end_step "ctl s" "ctl t" "ctl u"] by (auto simp: hash_step_def)
qed

section \<open>A short test\<close>

lemma countdown_chunks: "all_chunks countdown 1 1 1 1 0 = [([[0]], 1)]"
  by (simp add: all_chunks_def countdown_def put_sum_def chunk_count_def)

lemma hash_go:
  "reaches (hash_step cap) a s \<Longrightarrow> \<not> panicked (ctl s) \<Longrightarrow> \<not> sent_closed s \<Longrightarrow> hash_work cap s t \<Longrightarrow> reaches (hash_step cap) a t"
  by (rule reaches_step [of "hash_step cap" a s t]) (simp_all add: hash_step_def)

text \<open>
  One worker makes one block; nobody else calls \<open>Close\<close> and the time limit is not reached.  First the block is
  counted, then the goroutines end.
\<close>

definition short_st :: "end_state \<Rightarrow> chunk list \<Rightarrow> hsend list \<Rightarrow> chunk list \<Rightarrow> bool \<Rightarrow> carrier list \<Rightarrow> bool \<Rightarrow> u64 list \<Rightarrow> bool
    \<Rightarrow> 16 word list \<Rightarrow> nat \<Rightarrow> hsys" where
  "short_st c lf sd md sp q son tq ton tb n =
     \<lparr>ctl = c, wkrs = [\<lparr>left = lf, sending = sd, made = md, stopped = sp\<rparr>], sumq = [q], sums_on = [son], totq = tq,
      tot_on = ton, tbl = tb, total = n, kill = False, closer_on = True, sent_closed = False\<rparr>"

lemmas short_simps = short_st_def set_wkr_def sums_closed_def end_start_def close_closing_def chunk_sends_def

lemma short_counted:
  fixes z :: "16 word list"
  defines "R \<equiv> reaches (hash_step 1) (short_st (end_start 0) [([[0]], 1)] [] [] False [] True [] True z 0)"
  shows "R (short_st (end_start 0) [] [] [([[0]], 1)] True [] True [] True (foldl bump z [0]) 1)"
proof -
  let ?c = "([[0]], 1) :: chunk" and ?e0 = "end_start 0" and ?t = "foldl bump z [0]"
  note [simp] = short_simps
  have "R (short_st ?e0 [?c] [] [] False [] True [] True z 0)" unfolding R_def by (rule reaches_refl)
  then have "R (short_st ?e0 [] [ToSum 0 [0], ToTotal 1] [?c] False [] True [] True z 0)"
    using w_chunk [of 0 "short_st ?e0 [?c] [] [] False [] True [] True z 0" ?c "[]" 1] unfolding R_def by (elim hash_go) simp_all
  then have "R (short_st ?e0 [] [ToTotal 1] [?c] False [[0]] True [] True z 0)"
    using w_sum [of 0 "short_st ?e0 [] [ToSum 0 [0], ToTotal 1] [?c] False [] True [] True z 0" 0 "[0]" "[ToTotal 1]" 1]
    unfolding R_def by (elim hash_go) simp_all
  then have "R (short_st ?e0 [] [] [?c] False [[0]] True [1] True z 0)"
    using w_total [of 0 "short_st ?e0 [] [ToTotal 1] [?c] False [[0]] True [] True z 0" 1 "[]" 1 1] unfolding R_def by (elim hash_go) simp_all
  then have "R (short_st ?e0 [] [] [?c] True [[0]] True [1] True z 0)"
    using w_last [of 0 "short_st ?e0 [] [] [?c] False [[0]] True [1] True z 0" 1] unfolding R_def by (elim hash_go) simp_all
  then have "R (short_st ?e0 [] [] [?c] True [] True [1] True ?t 0)"
    using s_recv [of 0 "short_st ?e0 [] [] [?c] True [[0]] True [1] True z 0" "[0]" "[]" 1] unfolding R_def by (elim hash_go) simp_all
  then have "R (short_st ?e0 [] [] [?c] True [] True [] True ?t 1)"
    using t_recv [of "short_st ?e0 [] [] [?c] True [] True [1] True ?t 0" 1 "[]" 1] unfolding R_def by (elim hash_go) simp_all
  then show ?thesis .
qed

lemma short_ended:
  fixes t :: "16 word list"
  defines "e \<equiv> (close_closing (end_start 0))\<lparr>run_at := RDone, counter_at := CDone, summarised := True, closed := True\<rparr>"
  shows "reaches (hash_step 1) (short_st (end_start 0) [] [] [c] True [] True [] True t n) (short_st e [] [] [c] True [] False [] False t n)"
proof -
  let ?e0 = "end_start 0"
  let ?e1 = "?e0\<lparr>run_at := RClosing\<rparr>"
  let ?e2 = "(close_closing ?e1)\<lparr>run_at := RSums\<rparr>"
  let ?e3 = "?e2\<lparr>run_at := RDone\<rparr>"
  let ?e4 = "?e3\<lparr>counter_at := CSummary\<rparr>"
  let ?e5 = "?e4\<lparr>counter_at := CCloseClosed, summarised := True\<rparr>"
  let ?e6 = "?e5\<lparr>counter_at := CDone, closed := True\<rparr>"
  let ?R = "reaches (hash_step 1) (short_st ?e0 [] [] [c] True [] True [] True t n)"
  note [simp] = short_simps
  have "?R (short_st ?e0 [] [] [c] True [] True [] True t n)" by (rule reaches_refl)
  then have "?R (short_st ?e1 [] [] [c] True [] True [] True t n)"
    using r_ends [of "short_st ?e0 [] [] [c] True [] True [] True t n" ?e1 1] run_check [of ?e0] by (elim hash_go) simp_all
  then have "?R (short_st ?e2 [] [] [c] True [] True [] True t n)"
    using r_ends [of "short_st ?e1 [] [] [c] True [] True [] True t n" ?e2 1] run_close [of ?e1] by (elim hash_go) simp_all
  then have "?R (short_st ?e3 [] [] [c] True [] True [] True t n)"
    using r_ends [of "short_st ?e2 [] [] [c] True [] True [] True t n" ?e3 1] run_sums [of ?e2] by (elim hash_go) simp_all
  then have "?R (short_st ?e3 [] [] [c] True [] False [] True t n)"
    using s_end [of 0 "short_st ?e3 [] [] [c] True [] True [] True t n" 1] by (elim hash_go) simp_all
  then have "?R (short_st ?e3 [] [] [c] True [] False [] False t n)"
    using t_end [of "short_st ?e3 [] [] [c] True [] False [] True t n" 1] by (elim hash_go) simp_all
  then have "?R (short_st ?e4 [] [] [c] True [] False [] False t n)"
    using r_ends [of "short_st ?e3 [] [] [c] True [] False [] False t n" ?e4 1] counter_wait [of ?e3] by (elim hash_go) simp_all
  then have "?R (short_st ?e5 [] [] [c] True [] False [] False t n)"
    using r_ends [of "short_st ?e4 [] [] [c] True [] False [] False t n" ?e5 1] counter_summary [of ?e4] by (elim hash_go) simp_all
  then have "?R (short_st ?e6 [] [] [c] True [] False [] False t n)"
    using r_ends [of "short_st ?e5 [] [] [c] True [] False [] False t n" ?e6 1] counter_close [of ?e5] by (elim hash_go) simp_all
  moreover have "e = ?e6" by (simp add: e_def)
  ultimately show ?thesis by simp
qed

lemma short_test:
  "\<exists>s. reaches (hash_step 1) (hash_start 0 1 4294967296 [all_chunks countdown 1 1 1 1 0]) s \<and> closed (ctl s) \<and> \<not> kill s"
proof -
  define z :: "16 word list" where "z = replicate 4294967296 0"
  have start: "hash_start 0 1 4294967296 [all_chunks countdown 1 1 1 1 0] = short_st (end_start 0) [([[0]], 1)] [] [] False [] True [] True z 0"
    unfolding countdown_chunks hash_start_def z_def [symmetric] by (simp add: worker_start_def short_st_def)
  show ?thesis
    unfolding start by (rule exI, rule conjI, rule reaches_trans [OF short_ended short_counted]) (simp add: short_st_def)
qed

section \<open>Properties\<close>


text \<open>
  C27. A whole test always ends: however it goes on, it does only a bounded number of steps, also without the time limit,
  and when it can do none, either \<open>closing\<close> was closed twice, which ends the process, or the result is available and
  every goroutine has returned.  No worker sends on a closed channel.
\<close>

theorem hash_test_ends:
  assumes "reaches (hash_step cap) (hash_start callers counters places ws) s" "0 < cap"
    and "\<forall>cs \<in> set ws. \<forall>c \<in> set cs. length (fst c) = counters" "(hash_step cap ^^ k) s t"
  shows "k \<le> hash_left s \<and> \<not> sent_closed t \<and> ((\<nexists>u. hash_step cap t u) \<longrightarrow>
    panicked (ctl t) \<or> closed (ctl t) \<and> (\<forall>k \<in> set (close_at (ctl t)). k = KDone) \<and> \<not> closer_on t)"
proof -
  have "sys_ok s \<and> shapes_ok s"
    using hash_shapes.inv_reaches [OF assms(1)] sys_ok_start shapes_start [OF assms(3)] by blast
  then have t: "sys_ok t" "shapes_ok t" "hash_left t + k \<le> hash_left s" using hash_run_left [OF assms(4)] by blast+
  then have ns: "\<not> sent_closed t" by (simp add: sys_ok_def)
  moreover have "closed (ctl t) \<and> (\<forall>k \<in> set (close_at (ctl t)). k = KDone) \<and> \<not> closer_on t"
    if "\<nexists>u. hash_step cap t u" "\<not> panicked (ctl t)"
    using hash_possible [OF t(1,2) assms(2) that(2)] that ns by (auto simp: hash_step_def)
  ultimately show ?thesis using t(3) by auto
qed

text \<open>
  The whole test refines the end of a test: what \<open>run\<close>, \<open>counter\<close> and the callers of \<open>Close\<close> do in it is a run of
  \<open>end_step\<close>, so the results are freed only after the summary.
\<close>

theorem hash_test_refines_end:
  assumes "reaches (hash_step cap) (hash_start callers counters places ws) s"
  shows "reaches end_step (end_start callers) (ctl s) \<and> (freed (ctl s) \<longrightarrow> summarised (ctl s) \<and> closed (ctl s))"
proof -
  have r: "reaches end_step (end_start callers) (ctl s)" using hash_ctl [OF assms] by (simp add: hash_start_def)
  have "phases_ok (ctl s)" using stop.inv_reaches [OF r end_inv_start] by (simp add: end_inv_def)
  then show ?thesis using r by (auto simp: phases_ok_def)
qed

theorem hash_test_refines_end_witness:
  "\<exists>s. reaches end_step (end_start 0) s \<and> closed s"
proof -
  obtain s where s: "reaches (hash_step 1) (hash_start 0 1 4294967296 [all_chunks countdown 1 1 1 1 0]) s" "closed (ctl s)"
    using short_test by blast
  then show ?thesis using hash_test_refines_end [OF s(1)] by blast
qed


theorem hash_test_ends_witness:
  "\<exists>t. (hash_step 1 ^^ 1) (hash_start 0 1 8 [[([[7]], 1)]]) t \<and> \<not> sent_closed t \<and> 1 \<le> hash_left (hash_start 0 1 8 [[([[7]], 1)]])"
proof -
  let ?s = "hash_start 0 1 8 [[([[7]], 1)]]"
  have s: "wkrs ?s = [worker_start [([[7]], 1)]]" "kill ?s = False" "\<not> panicked (ctl ?s)" "\<not> sent_closed ?s"
    by (simp_all add: hash_start_def end_start_def)
  have "hash_step 1 ?s (set_wkr 0 ((wkrs ?s ! 0)\<lparr>left := [], made := made (wkrs ?s ! 0) @ [([[7]], 1)], sending := chunk_sends ([[7]], 1)\<rparr>) ?s)"
    unfolding hash_step_def using s w_chunk [of 0 ?s "([[7]], 1)" "[]" 1] by (simp add: worker_start_def)
  then obtain t where "(hash_step 1 ^^ 1) ?s t" by (auto simp: eq_OO)
  then show ?thesis
    using hash_test_ends [OF reaches_refl, of 1 "[[([[7]], 1)]]" 1 1 0 8 t] by auto
qed

end
