(* ===== verification/Hash_Pool.thy ===== *)
theory Hash_Pool
  imports Hash_Tester
begin

text \<open>
  The buffers of the hash tester, \<open>src/hash-test/hash-test.go\<close>: a worker takes its carriers from pools and sends them to
  the counters, which put them back.  The memory is explicit: a carrier is an address, and what a worker, a channel, a
  counter or a pool has is the address.  A value-level description of the same goroutines, without memory, is what the
  workers and counters promise.

  A worker is given by the hash values of its chunks; the last of them is the one at which \<open>Plus\<close> fails.
\<close>

section \<open>Memory\<close>

type_synonym addr = nat

record hashCarrier =
  ptr :: int
  cells :: "32 word list"

definition newHashChunk :: "nat \<Rightarrow> hashCarrier" where
  "newHashChunk chunk = \<lparr>ptr = 0, cells = replicate chunk 0\<rparr>"

datatype hp_pc = PTest | PGet nat | PSum | PSend nat | PRead nat | PCount | PEnd

record hp_worker =
  batches :: "32 word list list"
  hsums :: "32 word list"
  hchunk :: "addr list"
  chunkcount :: u64
  hpc :: hp_pc

text \<open>
  \<open>reading\<close> is the block of each \<open>sumcounter\<close> with its index \<open>i\<close>.  \<open>bytesum\<close> are the channels \<open>bytesumCh\<close> and
  \<open>pools\<close> the pools \<open>hashPool\<close>; \<open>counted\<close> is what has been sent to \<open>counterCh\<close>.
\<close>

record hp_state =
  heap :: "addr \<Rightarrow> hashCarrier"
  fresh :: addr
  pools :: "addr list list"
  pworkers :: "hp_worker list"
  bytesum :: "addr list list"
  reading :: "(addr \<times> nat) option list"
  counted :: "u64 list"
  htable :: "16 word list"
  killworker :: bool
  index_panic :: bool

section \<open>The goroutines\<close>

definition set_worker :: "nat \<Rightarrow> hp_worker \<Rightarrow> hp_state \<Rightarrow> hp_state" where
  "set_worker w p s = s\<lparr>pworkers := (pworkers s)[w := p]\<rparr>"

text \<open>What \<open>Get\<close> has answered is kept in place \<open>k\<close> of \<open>hchunk\<close>, with its pointer reset.\<close>

definition take_carrier :: "nat \<Rightarrow> nat \<Rightarrow> addr \<Rightarrow> hp_state \<Rightarrow> hp_state" where
  "take_carrier w k a s =
     (let p = pworkers s ! w
      in set_worker w (p\<lparr>hchunk := (hchunk p)[k := a], hpc := PGet (k + 1)\<rparr>) (s\<lparr>heap := (heap s)(a := (heap s a)\<lparr>ptr := - 1\<rparr>)\<rparr>))"

text \<open>One hash value is written behind the pointer of its carrier; an index behind the buffer panics.\<close>

definition write_sum :: "nat \<Rightarrow> 32 word \<Rightarrow> 32 word list \<Rightarrow> hp_state \<Rightarrow> hp_state" where
  "write_sum w h hs s =
     (let p = pworkers s ! w; a = hchunk p ! (unat h mod length (pools s)); c = heap s a; i = ptr c + 1
      in if i < int (length (cells c))
         then set_worker w (p\<lparr>hsums := hs\<rparr>) (s\<lparr>heap := (heap s)(a := \<lparr>ptr = i, cells = (cells c)[nat i := h]\<rparr>)\<rparr>)
         else s\<lparr>index_panic := True\<rparr>)"

text \<open>
  The pointer of a carrier is read for the count of the chunk when the carrier has already been sent.  A pool may
  answer with any of its carriers or with a new one, and may lose carriers to the garbage collector.
\<close>

inductive hp_step :: "nat \<Rightarrow> nat \<Rightarrow> hp_state \<Rightarrow> hp_state \<Rightarrow> bool" for chunk cap where
  p_kill: "hp_step chunk cap s (s\<lparr>killworker := True\<rparr>)"
| p_killed: "w < length (pworkers s) \<Longrightarrow> hpc (pworkers s ! w) = PTest \<Longrightarrow> killworker s \<Longrightarrow>
    hp_step chunk cap s (set_worker w ((pworkers s ! w)\<lparr>hpc := PEnd\<rparr>) s)"
| p_begin: "w < length (pworkers s) \<Longrightarrow> hpc (pworkers s ! w) = PTest \<Longrightarrow> \<not> killworker s \<Longrightarrow> batches (pworkers s ! w) = b # bs \<Longrightarrow>
    hp_step chunk cap s (set_worker w ((pworkers s ! w)\<lparr>batches := bs, hsums := b, chunkcount := 0, hpc := PGet 0\<rparr>) s)"
| p_pooled: "w < length (pworkers s) \<Longrightarrow> hpc (pworkers s ! w) = PGet k \<Longrightarrow> k < length (pools s) \<Longrightarrow> a \<in> set (pools s ! k) \<Longrightarrow>
    hp_step chunk cap s (take_carrier w k a (s\<lparr>pools := (pools s)[k := remove1 a (pools s ! k)]\<rparr>))"
| p_new: "w < length (pworkers s) \<Longrightarrow> hpc (pworkers s ! w) = PGet k \<Longrightarrow> k < length (pools s) \<Longrightarrow>
    hp_step chunk cap s (take_carrier w k (fresh s) (s\<lparr>heap := (heap s)(fresh s := newHashChunk chunk), fresh := fresh s + 1\<rparr>))"
| p_got: "w < length (pworkers s) \<Longrightarrow> hpc (pworkers s ! w) = PGet (length (pools s)) \<Longrightarrow>
    hp_step chunk cap s (set_worker w ((pworkers s ! w)\<lparr>hpc := PSum\<rparr>) s)"
| p_write: "w < length (pworkers s) \<Longrightarrow> hpc (pworkers s ! w) = PSum \<Longrightarrow> hsums (pworkers s ! w) = h # hs \<Longrightarrow>
    hp_step chunk cap s (write_sum w h hs s)"
| p_full: "w < length (pworkers s) \<Longrightarrow> hpc (pworkers s ! w) = PSum \<Longrightarrow> hsums (pworkers s ! w) = [] \<Longrightarrow>
    hp_step chunk cap s (set_worker w ((pworkers s ! w)\<lparr>hpc := PSend 0\<rparr>) s)"
| p_send: "w < length (pworkers s) \<Longrightarrow> hpc (pworkers s ! w) = PSend k \<Longrightarrow> k < length (pools s) \<Longrightarrow> length (bytesum s ! k) < cap \<Longrightarrow>
    hp_step chunk cap s (set_worker w ((pworkers s ! w)\<lparr>hpc := PRead k\<rparr>)
      (s\<lparr>bytesum := (bytesum s)[k := bytesum s ! k @ [hchunk (pworkers s ! w) ! k]]\<rparr>))"
| p_read: "w < length (pworkers s) \<Longrightarrow> hpc (pworkers s ! w) = PRead k \<Longrightarrow>
    hp_step chunk cap s (set_worker w ((pworkers s ! w)\<lparr>hpc := PSend (k + 1),
      chunkcount := chunkcount (pworkers s ! w) + of_int (ptr (heap s (hchunk (pworkers s ! w) ! k))) + 1\<rparr>) s)"
| p_sent: "w < length (pworkers s) \<Longrightarrow> hpc (pworkers s ! w) = PSend (length (pools s)) \<Longrightarrow>
    hp_step chunk cap s (set_worker w ((pworkers s ! w)\<lparr>hpc := PCount\<rparr>) s)"
| p_count: "w < length (pworkers s) \<Longrightarrow> hpc (pworkers s ! w) = PCount \<Longrightarrow>
    hp_step chunk cap s (set_worker w ((pworkers s ! w)\<lparr>hpc := (if batches (pworkers s ! w) = [] then PEnd else PTest)\<rparr>)
      (s\<lparr>counted := counted s @ [chunkcount (pworkers s ! w)]\<rparr>))"
| c_recv: "k < length (pools s) \<Longrightarrow> reading s ! k = None \<Longrightarrow> bytesum s ! k = a # q \<Longrightarrow>
    hp_step chunk cap s (s\<lparr>bytesum := (bytesum s)[k := q], reading := (reading s)[k := Some (a, 0)]\<rparr>)"
| c_bump: "k < length (pools s) \<Longrightarrow> reading s ! k = Some (a, i) \<Longrightarrow> int i \<le> ptr (heap s a) \<Longrightarrow>
    hp_step chunk cap s (s\<lparr>htable := bump (htable s) (cells (heap s a) ! i), reading := (reading s)[k := Some (a, i + 1)]\<rparr>)"
| c_put: "k < length (pools s) \<Longrightarrow> reading s ! k = Some (a, i) \<Longrightarrow> ptr (heap s a) < int i \<Longrightarrow>
    hp_step chunk cap s (s\<lparr>pools := (pools s)[k := a # pools s ! k], reading := (reading s)[k := None]\<rparr>)"
| g_drop: "k < length (pools s) \<Longrightarrow> a \<in> set (pools s ! k) \<Longrightarrow>
    hp_step chunk cap s (s\<lparr>pools := (pools s)[k := remove1 a (pools s ! k)]\<rparr>)"

definition hp_worker_start :: "nat \<Rightarrow> 32 word list list \<Rightarrow> hp_worker" where
  "hp_worker_start counters bs = \<lparr>batches = bs, hsums = [], hchunk = replicate counters 0, chunkcount = 0, hpc = PTest\<rparr>"

text \<open>The slices of addresses start with \<open>nil\<close>, which is not read before it is replaced; address \<open>0\<close> stands for it.\<close>

definition hp_start :: "nat \<Rightarrow> nat \<Rightarrow> 32 word list list list \<Rightarrow> hp_state" where
  "hp_start counters places ws =
     \<lparr>heap = (\<lambda>_. newHashChunk 0), fresh = 1, pools = replicate counters [], pworkers = map (hp_worker_start counters) ws,
      bytesum = replicate counters [], reading = replicate counters None, counted = [], htable = replicate places 0,
      killworker = False, index_panic = False\<rparr>"

section \<open>The goroutines without memory\<close>

text \<open>What they promise: a chunk is a list of values for each counter, handed over as a whole.\<close>

datatype hv_pc = VTest | VMake "32 word list" "carrier list" | VSend nat "carrier list" | VEnd

record hv_state =
  vworkers :: "(32 word list list \<times> hv_pc) list"
  vchans :: "carrier list list"
  vreading :: "carrier option list"
  vtable :: "16 word list"
  vkill :: bool

inductive hv_step :: "nat \<Rightarrow> nat \<Rightarrow> hv_state \<Rightarrow> hv_state \<Rightarrow> bool" for chunk cap where
  v_kill: "hv_step chunk cap s (s\<lparr>vkill := True\<rparr>)"
| v_killed: "w < length (vworkers s) \<Longrightarrow> vworkers s ! w = (bs, VTest) \<Longrightarrow> vkill s \<Longrightarrow>
    hv_step chunk cap s (s\<lparr>vworkers := (vworkers s)[w := (bs, VEnd)]\<rparr>)"
| v_begin: "w < length (vworkers s) \<Longrightarrow> vworkers s ! w = (b # bs, VTest) \<Longrightarrow> \<not> vkill s \<Longrightarrow>
    hv_step chunk cap s (s\<lparr>vworkers := (vworkers s)[w := (bs, VMake b (replicate (length (vchans s)) []))]\<rparr>)"
| v_put: "w < length (vworkers s) \<Longrightarrow> vworkers s ! w = (bs, VMake (h # hs) cs) \<Longrightarrow> put_sum (length (vchans s)) chunk h cs = Some cs' \<Longrightarrow>
    hv_step chunk cap s (s\<lparr>vworkers := (vworkers s)[w := (bs, VMake hs cs')]\<rparr>)"
| v_made: "w < length (vworkers s) \<Longrightarrow> vworkers s ! w = (bs, VMake [] cs) \<Longrightarrow>
    hv_step chunk cap s (s\<lparr>vworkers := (vworkers s)[w := (bs, VSend 0 cs)]\<rparr>)"
| v_send: "w < length (vworkers s) \<Longrightarrow> vworkers s ! w = (bs, VSend k (c # cs)) \<Longrightarrow> k < length (vchans s) \<Longrightarrow> length (vchans s ! k) < cap \<Longrightarrow>
    hv_step chunk cap s (s\<lparr>vworkers := (vworkers s)[w := (bs, VSend (k + 1) cs)], vchans := (vchans s)[k := vchans s ! k @ [c]]\<rparr>)"
| v_next: "w < length (vworkers s) \<Longrightarrow> vworkers s ! w = (bs, VSend k []) \<Longrightarrow>
    hv_step chunk cap s (s\<lparr>vworkers := (vworkers s)[w := (bs, if bs = [] then VEnd else VTest)]\<rparr>)"
| v_recv: "k < length (vchans s) \<Longrightarrow> vreading s ! k = None \<Longrightarrow> vchans s ! k = c # q \<Longrightarrow>
    hv_step chunk cap s (s\<lparr>vchans := (vchans s)[k := q], vreading := (vreading s)[k := Some c]\<rparr>)"
| v_bump: "k < length (vchans s) \<Longrightarrow> vreading s ! k = Some (h # c) \<Longrightarrow>
    hv_step chunk cap s (s\<lparr>vtable := bump (vtable s) h, vreading := (vreading s)[k := Some c]\<rparr>)"
| v_done: "k < length (vchans s) \<Longrightarrow> vreading s ! k = Some [] \<Longrightarrow>
    hv_step chunk cap s (s\<lparr>vreading := (vreading s)[k := None]\<rparr>)"

definition hv_start :: "nat \<Rightarrow> nat \<Rightarrow> 32 word list list list \<Rightarrow> hv_state" where
  "hv_start counters places ws =
     \<lparr>vworkers = map (\<lambda>bs. (bs, VTest)) ws, vchans = replicate counters [], vreading = replicate counters None,
      vtable = replicate places 0, vkill = False\<rparr>"

end
