(* ===== verification/Hash_Pool_Props.thy ===== *)
theory Hash_Pool_Props
  imports Hash_Pool Hash_Tester_Props
begin

text \<open>
  Properties of the buffers of the hash tester: every carrier has one owner, so that what a counter adds up is what a
  worker has written, whatever the pools answer; but the count of a chunk is read from carriers that are no longer the
  worker's.
\<close>

section \<open>Owners\<close>

fun has_at :: "hp_pc \<Rightarrow> addr list \<Rightarrow> addr list" where
  "has_at PTest as = []" | "has_at (PGet k) as = take k as" | "has_at PSum as = as" | "has_at (PSend k) as = drop k as"
| "has_at (PRead k) as = drop (k + 1) as" | "has_at PCount as = []" | "has_at PEnd as = []"

abbreviation has :: "hp_worker \<Rightarrow> addr list" where "has p \<equiv> has_at (hpc p) (hchunk p)"

fun read_addr :: "(addr \<times> nat) option \<Rightarrow> addr list" where
  "read_addr None = []" | "read_addr (Some (a, i)) = [a]"

text \<open>How often an address is owned.\<close>

definition owned :: "hp_state \<Rightarrow> addr \<Rightarrow> nat" where
  "owned s a = (\<Sum>l \<leftarrow> pools s. count_list l a) + (\<Sum>p \<leftarrow> pworkers s. count_list (has p) a)
     + (\<Sum>l \<leftarrow> bytesum s. count_list l a) + (\<Sum>r \<leftarrow> reading s. count_list (read_addr r) a)"

text \<open>Owned by another than worker \<open>w\<close>.\<close>

definition elsewhere :: "hp_state \<Rightarrow> nat \<Rightarrow> addr \<Rightarrow> bool" where
  "elsewhere s w a \<longleftrightarrow> (\<exists>l \<in> set (pools s) \<union> set (bytesum s). a \<in> set l) \<or> (\<exists>r \<in> set (reading s). a \<in> set (read_addr r))
     \<or> (\<exists>v < length (pworkers s). v \<noteq> w \<and> a \<in> set (has (pworkers s ! v)))"

lemma count_member: "a \<in> set l \<longleftrightarrow> 1 \<le> count_list l a"
  by (induction l) auto

lemma part_le:
  fixes f :: "'a \<Rightarrow> nat"
  shows "x \<in> set xs \<Longrightarrow> f x \<le> (\<Sum>x \<leftarrow> xs. f x)"
  by (simp add: member_le_sum_list)

lemma two_parts_le:
  fixes f :: "'a \<Rightarrow> nat"
  shows "i < length xs \<Longrightarrow> j < length xs \<Longrightarrow> i \<noteq> j \<Longrightarrow> f (xs ! i) + f (xs ! j) \<le> (\<Sum>x \<leftarrow> xs. f x)"
proof (induction xs arbitrary: i j)
  case (Cons x xs)
  then show ?case
    using part_le [of "xs ! (i - 1)" xs f] part_le [of "xs ! (j - 1)" xs f]
    by (cases i; cases j) (auto intro: trans_le_add2)
qed simp

lemma owned_once:
  assumes "owned s a \<le> 1" "w < length (pworkers s)" "a \<in> set (has (pworkers s ! w))"
  shows "\<not> elsewhere s w a" "count_list (has (pworkers s ! w)) a = 1"
proof -
  let ?f = "\<lambda>p. count_list (has p) a"
  have one: "1 \<le> ?f (pworkers s ! w)" using assms(3) by (simp add: count_member)
  have le: "?f (pworkers s ! w) \<le> (\<Sum>p \<leftarrow> pworkers s. ?f p)" using assms(2) by (intro part_le) simp
  then show "count_list (has (pworkers s ! w)) a = 1" using assms(1) one by (simp add: owned_def)
  have "(\<Sum>l \<leftarrow> pools s. count_list l a) = 0" "(\<Sum>l \<leftarrow> bytesum s. count_list l a) = 0"
      "(\<Sum>r \<leftarrow> reading s. count_list (read_addr r) a) = 0" "(\<Sum>p \<leftarrow> pworkers s. ?f p) \<le> 1"
    using assms(1) one le unfolding owned_def by linarith+
  moreover have "?f (pworkers s ! v) = 0" if "v < length (pworkers s)" "v \<noteq> w" for v
    using two_parts_le [of v "pworkers s" w ?f] that assms(2) one calculation(4) by simp
  ultimately show "\<not> elsewhere s w a"
    unfolding elsewhere_def by (auto simp: sum_list_eq_0_iff count_list_0_iff)
qed

lemma unowned: "owned s a = 0 \<Longrightarrow> \<not> elsewhere s w a"
  unfolding elsewhere_def by (auto simp: owned_def count_list_0_iff)

lemma owned_worker:
  "w < length (pworkers s) \<Longrightarrow> owned (set_worker w p s) a + count_list (has (pworkers s ! w)) a = owned s a + count_list (has p) a"
  using sum_update_nat [of w "pworkers s" "\<lambda>p. count_list (has p) a" p] by (simp add: owned_def set_worker_def)

lemma owned_pool:
  "k < length (pools s) \<Longrightarrow> owned (s\<lparr>pools := (pools s)[k := l]\<rparr>) a + count_list (pools s ! k) a = owned s a + count_list l a"
  using sum_update_nat [of k "pools s" "\<lambda>l. count_list l a" l] by (simp add: owned_def)

lemma owned_chan:
  "k < length (bytesum s) \<Longrightarrow> owned (s\<lparr>bytesum := (bytesum s)[k := l]\<rparr>) a + count_list (bytesum s ! k) a = owned s a + count_list l a"
  using sum_update_nat [of k "bytesum s" "\<lambda>l. count_list l a" l] by (simp add: owned_def)

lemma owned_reading:
  "k < length (reading s) \<Longrightarrow>
     owned (s\<lparr>reading := (reading s)[k := r]\<rparr>) a + count_list (read_addr (reading s ! k)) a = owned s a + count_list (read_addr r) a"
  using sum_update_nat [of k "reading s" "\<lambda>r. count_list (read_addr r) a" r] by (simp add: owned_def)

lemma owned_same [simp]:
  "owned (s\<lparr>heap := h\<rparr>) = owned s" "owned (s\<lparr>fresh := f\<rparr>) = owned s" "owned (s\<lparr>killworker := b\<rparr>) = owned s"
  "owned (s\<lparr>htable := t\<rparr>) = owned s" "owned (s\<lparr>counted := c\<rparr>) = owned s" "owned (s\<lparr>index_panic := b\<rparr>) = owned s"
  by (simp_all add: owned_def fun_eq_iff)

lemma count_remove1: "count_list (remove1 x l) a = count_list l a - (if x = a then 1 else 0)"
  by (induction l) auto

section \<open>Well-formed states\<close>

definition cell_ok :: "nat \<Rightarrow> hashCarrier \<Rightarrow> bool" where
  "cell_ok chunk c \<longleftrightarrow> length (cells c) = chunk \<and> - 1 \<le> ptr c \<and> ptr c < int chunk"

fun phase_ok :: "nat \<Rightarrow> nat \<Rightarrow> (addr \<Rightarrow> hashCarrier) \<Rightarrow> hp_worker \<Rightarrow> hp_pc \<Rightarrow> bool" where
  "phase_ok chunk n h p (PGet k) = (k \<le> n \<and> length (hsums p) \<le> chunk \<and> (\<forall>a \<in> set (take k (hchunk p)). ptr (h a) = - 1))"
| "phase_ok chunk n h p PSum = (\<forall>a \<in> set (hchunk p). ptr (h a) + 1 + int (length (hsums p)) \<le> int chunk)"
| "phase_ok chunk n h p (PSend k) = (k \<le> n)"
| "phase_ok chunk n h p (PRead k) = (k < n)"
| "phase_ok chunk n h p _ = True"

definition worker_ok :: "nat \<Rightarrow> nat \<Rightarrow> (addr \<Rightarrow> hashCarrier) \<Rightarrow> hp_worker \<Rightarrow> bool" where
  "worker_ok chunk n h p \<longleftrightarrow> length (hchunk p) = n \<and> (\<forall>b \<in> set (batches p). length b \<le> chunk) \<and> phase_ok chunk n h p (hpc p)"

fun reading_ok :: "(addr \<Rightarrow> hashCarrier) \<Rightarrow> (addr \<times> nat) option \<Rightarrow> bool" where
  "reading_ok h None = True" | "reading_ok h (Some (a, i)) = (int i \<le> ptr (h a) + 1)"

definition hp_inv :: "nat \<Rightarrow> nat \<Rightarrow> hp_state \<Rightarrow> bool" where
  "hp_inv chunk n s \<longleftrightarrow> 0 < n \<and> length (pools s) = n \<and> length (bytesum s) = n \<and> length (reading s) = n \<and> \<not> index_panic s
     \<and> (\<forall>a. owned s a \<le> 1) \<and> (\<forall>a. 0 < owned s a \<longrightarrow> a < fresh s \<and> cell_ok chunk (heap s a))
     \<and> (\<forall>p \<in> set (pworkers s). worker_ok chunk n (heap s) p) \<and> (\<forall>r \<in> set (reading s). reading_ok (heap s) r)"

section \<open>The values in the memory\<close>

definition carried :: "(addr \<Rightarrow> hashCarrier) \<Rightarrow> addr \<Rightarrow> carrier" where
  "carried h a = take (nat (ptr (h a) + 1)) (cells (h a))"

fun view_at :: "nat \<Rightarrow> (addr \<Rightarrow> hashCarrier) \<Rightarrow> hp_worker \<Rightarrow> hp_pc \<Rightarrow> hv_pc" where
  "view_at n h p PTest = VTest"
| "view_at n h p (PGet k) = VMake (hsums p) (replicate n [])"
| "view_at n h p PSum = VMake (hsums p) (map (carried h) (hchunk p))"
| "view_at n h p (PSend k) = VSend k (map (carried h) (drop k (hchunk p)))"
| "view_at n h p (PRead k) = VSend (k + 1) (map (carried h) (drop (k + 1) (hchunk p)))"
| "view_at n h p PCount = VSend n []"
| "view_at n h p PEnd = VEnd"

definition view_worker :: "nat \<Rightarrow> (addr \<Rightarrow> hashCarrier) \<Rightarrow> hp_worker \<Rightarrow> 32 word list list \<times> hv_pc" where
  "view_worker n h p = (batches p, view_at n h p (hpc p))"

definition view_reading :: "(addr \<Rightarrow> hashCarrier) \<Rightarrow> (addr \<times> nat) option \<Rightarrow> carrier option" where
  "view_reading h = map_option (\<lambda>(a, i). drop i (carried h a))"

definition view :: "hp_state \<Rightarrow> hv_state" where
  "view s = \<lparr>vworkers = map (view_worker (length (pools s)) (heap s)) (pworkers s), vchans = map (map (carried (heap s))) (bytesum s),
     vreading = map (view_reading (heap s)) (reading s), vtable = htable s, vkill = killworker s\<rparr>"

lemma view_fields [simp]:
  "vtable (view s) = htable s" "vkill (view s) = killworker s" "length (vchans (view s)) = length (bytesum s)"
  "length (vworkers (view s)) = length (pworkers s)" "length (vreading (view s)) = length (reading s)"
  "vchans (view s) = map (map (carried (heap s))) (bytesum s)" "vreading (view s) = map (view_reading (heap s)) (reading s)"
  "vworkers (view s) = map (view_worker (length (pools s)) (heap s)) (pworkers s)"
  by (simp_all add: view_def)

lemma view_worker_cong:
  "\<forall>a \<in> set (has p). h a = h' a \<Longrightarrow> view_worker n h p = view_worker n h' p"
  by (cases "hpc p") (auto simp: view_worker_def carried_def intro!: map_cong)

lemma view_reading_cong: "\<forall>a \<in> set (read_addr r). h a = h' a \<Longrightarrow> view_reading h r = view_reading h' r"
  by (cases r) (auto simp: view_reading_def carried_def)

lemma worker_ok_cong: "\<forall>a \<in> set (has p). h a = h' a \<Longrightarrow> worker_ok chunk n h p = worker_ok chunk n h' p"
  by (cases "hpc p") (auto simp: worker_ok_def)

lemma reading_ok_cong: "\<forall>a \<in> set (read_addr r). h a = h' a \<Longrightarrow> reading_ok h r = reading_ok h' r"
  by (cases "(h, r)" rule: reading_ok.cases) auto

text \<open>A worker changes itself and the memory of a carrier that nobody else has.\<close>

lemma view_own_cell:
  assumes "\<not> elsewhere s w a"
  shows "view (set_worker w p (s\<lparr>heap := (heap s)(a := c)\<rparr>)) =
    (view s)\<lparr>vworkers := (vworkers (view s))[w := view_worker (length (pools s)) ((heap s)(a := c)) p]\<rparr>"
proof -
  let ?h = "(heap s)(a := c)"
  have "map (carried ?h) l = map (carried (heap s)) l" if "l \<in> set (bytesum s)" for l
    using assms that by (auto simp: elsewhere_def carried_def)
  moreover have "view_reading ?h r = view_reading (heap s) r" if "r \<in> set (reading s)" for r
    using assms that by (intro view_reading_cong) (auto simp: elsewhere_def)
  moreover have "view_worker n ?h (pworkers s ! v) = view_worker n (heap s) (pworkers s ! v)" if "v < length (pworkers s)" "v \<noteq> w" for v n
    using assms that by (intro view_worker_cong) (auto simp: elsewhere_def)
  then have "map (view_worker n ?h) ((pworkers s)[w := p]) = (map (view_worker n (heap s)) (pworkers s))[w := view_worker n ?h p]" for n
    by (intro nth_equalityI) (simp, metis (no_types, lifting) length_list_update length_map nth_list_update_eq nth_list_update_neq nth_map)
  ultimately show ?thesis by (simp add: view_def set_worker_def)
qed

lemma view_set_worker:
  "view (set_worker w p s) = (view s)\<lparr>vworkers := (vworkers (view s))[w := view_worker (length (pools s)) (heap s) p]\<rparr>"
  by (simp add: view_def set_worker_def map_update)

lemma inv_own_cell:
  assumes "hp_inv chunk n s" "\<not> elsewhere s w a" "cell_ok chunk c" "worker_ok chunk n ((heap s)(a := c)) p"
    and "\<And>b. owned (set_worker w p s) b \<le> 1" "\<And>b. 0 < owned (set_worker w p s) b \<Longrightarrow> b < f \<and> (b \<noteq> a \<longrightarrow> cell_ok chunk (heap s b))"
  shows "hp_inv chunk n (set_worker w p (s\<lparr>fresh := f, heap := (heap s)(a := c)\<rparr>))"
proof -
  let ?h = "(heap s)(a := c)"
  have own: "owned (set_worker w p (s\<lparr>fresh := f, heap := ?h\<rparr>)) = owned (set_worker w p s)"
    by (simp add: owned_def set_worker_def fun_eq_iff)
  have r: "\<forall>r \<in> set (reading s). reading_ok ?h r"
  proof
    fix r assume r: "r \<in> set (reading s)"
    then have "reading_ok ?h r = reading_ok (heap s) r"
      using assms(2) by (intro reading_ok_cong) (auto simp: elsewhere_def)
    then show "reading_ok ?h r" using assms(1) r by (simp add: hp_inv_def)
  qed
  have "worker_ok chunk n ?h (pworkers s ! v)" if "v < length (pworkers s)" "v \<noteq> w" for v
  proof -
    have "worker_ok chunk n ?h (pworkers s ! v) = worker_ok chunk n (heap s) (pworkers s ! v)"
      using assms(2) that by (intro worker_ok_cong) (auto simp: elsewhere_def)
    then show ?thesis using assms(1) that by (simp add: hp_inv_def)
  qed
  then have "\<forall>q \<in> set ((pworkers s)[w := p]). worker_ok chunk n ?h q"
    using assms(4) by (auto simp: in_set_conv_nth) (metis nth_list_update_eq nth_list_update_neq)
  then show ?thesis using assms(1,3,5,6) r own by (auto simp: hp_inv_def set_worker_def)
qed


section \<open>Every step\<close>

text \<open>What a step of the memory does: the state stays well-formed, and the values do a step or stay.\<close>

definition good_step :: "nat \<Rightarrow> nat \<Rightarrow> nat \<Rightarrow> hp_state \<Rightarrow> hp_state \<Rightarrow> bool" where
  "good_step chunk cap n s t \<longleftrightarrow> hp_inv chunk n t \<and> (view t = view s \<or> hv_step chunk cap (view s) (view t))"

lemma inv_worker_ok: "hp_inv chunk n s \<Longrightarrow> w < length (pworkers s) \<Longrightarrow> worker_ok chunk n (heap s) (pworkers s ! w)"
  by (simp add: hp_inv_def)

lemma inv_set_worker:
  assumes "hp_inv chunk n s" "w < length (pworkers s)" "worker_ok chunk n (heap s) p"
    and "\<And>a. count_list (has p) a \<le> count_list (has (pworkers s ! w)) a"
  shows "hp_inv chunk n (set_worker w p s)"
proof -
  have le: "owned (set_worker w p s) a \<le> owned s a" for a
    using owned_worker [OF assms(2), of p a] assms(4) [of a] by simp
  have "owned (set_worker w p s) a \<le> 1" for a using le [of a] assms(1) by (meson hp_inv_def order_trans)
  moreover have "a < fresh s \<and> cell_ok chunk (heap s a)" if "0 < owned (set_worker w p s) a" for a
    using le [of a] assms(1) that by (meson hp_inv_def less_le_trans)
  moreover have "\<forall>q \<in> set ((pworkers s)[w := p]). worker_ok chunk n (heap s) q"
    using assms(1,3) by (intro set_update_all) (simp_all add: hp_inv_def)
  ultimately show ?thesis using assms(1) by (auto simp: hp_inv_def set_worker_def)
qed

lemma inv_counted: "hp_inv chunk n s \<Longrightarrow> hp_inv chunk n (s\<lparr>counted := c\<rparr>)"
  by (simp add: hp_inv_def)

lemma view_counted [simp]: "view (s\<lparr>counted := c\<rparr>) = view s"
  by (simp add: view_def)

lemma set_worker_counted: "set_worker w p (s\<lparr>counted := c\<rparr>) = (set_worker w p s)\<lparr>counted := c\<rparr>"
  by (simp add: set_worker_def)

lemma count_drop_le: "count_list (drop (Suc k) l) a \<le> count_list (drop k l) a"
  by (cases "k < length l") (simp_all add: Cons_nth_drop_Suc [symmetric])

lemma vworkers_nth:
  "w < length (pworkers s) \<Longrightarrow> vworkers (view s) ! w = view_worker (length (pools s)) (heap s) (pworkers s ! w)"
  by simp

lemma vworkers_same:
  "w < length (pworkers s) \<Longrightarrow> view_worker (length (pools s)) (heap s) p = view_worker (length (pools s)) (heap s) (pworkers s ! w) \<Longrightarrow>
     view (set_worker w p s) = view s"
  by (simp add: view_def set_worker_def map_update list_update_same_conv)

lemma step_killed:
  assumes "hp_inv chunk n s" "w < length (pworkers s)" "hpc (pworkers s ! w) = PTest" "killworker s"
  shows "good_step chunk cap n s (set_worker w ((pworkers s ! w)\<lparr>hpc := PEnd\<rparr>) s)"
proof -
  have "hp_inv chunk n (set_worker w ((pworkers s ! w)\<lparr>hpc := PEnd\<rparr>) s)"
    using inv_worker_ok [OF assms(1,2)] by (intro inv_set_worker [OF assms(1,2)]) (simp_all add: worker_ok_def)
  moreover have "hv_step chunk cap (view s) (view (set_worker w ((pworkers s ! w)\<lparr>hpc := PEnd\<rparr>) s))"
    unfolding view_set_worker
    using v_killed [of w "view s" "batches (pworkers s ! w)" chunk cap] assms(2-4) by (simp add: view_worker_def)
  ultimately show ?thesis by (simp add: good_step_def)
qed

lemma step_begin:
  assumes "hp_inv chunk n s" "w < length (pworkers s)" "hpc (pworkers s ! w) = PTest" "\<not> killworker s" "batches (pworkers s ! w) = b # bs"
  shows "good_step chunk cap n s (set_worker w ((pworkers s ! w)\<lparr>batches := bs, hsums := b, chunkcount := 0, hpc := PGet 0\<rparr>) s)"
    (is "good_step _ _ _ _ (set_worker w ?p s)")
proof -
  have "hp_inv chunk n (set_worker w ?p s)"
    using inv_worker_ok [OF assms(1,2)] assms(5) by (intro inv_set_worker [OF assms(1,2)]) (simp_all add: worker_ok_def)
  moreover have "length (bytesum s) = length (pools s)" using assms(1) by (simp add: hp_inv_def)
  then have "hv_step chunk cap (view s) (view (set_worker w ?p s))"
    unfolding view_set_worker
    using v_begin [of w "view s" b bs chunk cap] assms(2-5) by (simp add: view_worker_def)
  ultimately show ?thesis by (simp add: good_step_def)
qed

text \<open>When all carriers are there they are empty.\<close>

lemma step_got:
  assumes "hp_inv chunk n s" "w < length (pworkers s)" "hpc (pworkers s ! w) = PGet (length (pools s))"
  shows "good_step chunk cap n s (set_worker w ((pworkers s ! w)\<lparr>hpc := PSum\<rparr>) s)"
proof -
  let ?p = "(pworkers s ! w)\<lparr>hpc := PSum\<rparr>"
  have ok: "worker_ok chunk n (heap s) (pworkers s ! w)" "length (pools s) = n"
    using inv_worker_ok [OF assms(1,2)] assms(1) by (simp_all add: hp_inv_def)
  then have empty: "\<forall>a \<in> set (hchunk (pworkers s ! w)). ptr (heap s a) = - 1" "length (hchunk (pworkers s ! w)) = n"
      "length (hsums (pworkers s ! w)) \<le> chunk"
    using assms(3) by (simp_all add: worker_ok_def)
  then have "map (carried (heap s)) (hchunk (pworkers s ! w)) = replicate n []"
    by (intro nth_equalityI) (simp_all add: carried_def)
  then have "view (set_worker w ?p s) = view s"
    using assms(2,3) ok(2) by (intro vworkers_same) (simp_all add: view_worker_def)
  moreover have "hp_inv chunk n (set_worker w ?p s)"
    using ok empty assms(3) by (intro inv_set_worker [OF assms(1,2)]) (simp_all add: worker_ok_def)
  ultimately show ?thesis by (simp add: good_step_def)
qed

lemma step_full:
  assumes "hp_inv chunk n s" "w < length (pworkers s)" "hpc (pworkers s ! w) = PSum" "hsums (pworkers s ! w) = []"
  shows "good_step chunk cap n s (set_worker w ((pworkers s ! w)\<lparr>hpc := PSend 0\<rparr>) s)"
proof -
  let ?p = "(pworkers s ! w)\<lparr>hpc := PSend 0\<rparr>"
  have "hp_inv chunk n (set_worker w ?p s)"
    using inv_worker_ok [OF assms(1,2)] assms(3) by (intro inv_set_worker [OF assms(1,2)]) (simp_all add: worker_ok_def)
  moreover have "hv_step chunk cap (view s) (view (set_worker w ?p s))"
    unfolding view_set_worker
    using v_made [of w "view s" "batches (pworkers s ! w)" "map (carried (heap s)) (hchunk (pworkers s ! w))" chunk cap] assms(2-4)
    by (simp add: view_worker_def)
  ultimately show ?thesis by (simp add: good_step_def)
qed

text \<open>The pointer that is read has no effect on the values.\<close>

lemma step_read:
  assumes "hp_inv chunk n s" "w < length (pworkers s)" "hpc (pworkers s ! w) = PRead k"
  shows "good_step chunk cap n s (set_worker w ((pworkers s ! w)\<lparr>hpc := PSend (k + 1), chunkcount := c\<rparr>) s)"
proof -
  let ?p = "(pworkers s ! w)\<lparr>hpc := PSend (k + 1), chunkcount := c\<rparr>"
  have "hp_inv chunk n (set_worker w ?p s)"
    using inv_worker_ok [OF assms(1,2)] assms(3) by (intro inv_set_worker [OF assms(1,2)]) (simp_all add: worker_ok_def)
  moreover have "view (set_worker w ?p s) = view s"
    using assms(2,3) by (intro vworkers_same) (simp_all add: view_worker_def)
  ultimately show ?thesis by (simp add: good_step_def)
qed

lemma step_sent:
  assumes "hp_inv chunk n s" "w < length (pworkers s)" "hpc (pworkers s ! w) = PSend (length (pools s))"
  shows "good_step chunk cap n s (set_worker w ((pworkers s ! w)\<lparr>hpc := PCount\<rparr>) s)"
proof -
  let ?p = "(pworkers s ! w)\<lparr>hpc := PCount\<rparr>"
  have ok: "worker_ok chunk n (heap s) (pworkers s ! w)" "length (pools s) = n"
    using inv_worker_ok [OF assms(1,2)] assms(1) by (simp_all add: hp_inv_def)
  then have "hp_inv chunk n (set_worker w ?p s)"
    by (intro inv_set_worker [OF assms(1,2)]) (simp_all add: worker_ok_def)
  moreover have "view (set_worker w ?p s) = view s"
    using assms(2,3) ok by (intro vworkers_same) (simp_all add: view_worker_def worker_ok_def)
  ultimately show ?thesis by (simp add: good_step_def)
qed

lemma step_count:
  assumes "hp_inv chunk n s" "w < length (pworkers s)" "hpc (pworkers s ! w) = PCount"
  shows "good_step chunk cap n s (set_worker w ((pworkers s ! w)\<lparr>hpc := (if batches (pworkers s ! w) = [] then PEnd else PTest)\<rparr>)
      (s\<lparr>counted := cs\<rparr>))"
proof -
  let ?p = "(pworkers s ! w)\<lparr>hpc := (if batches (pworkers s ! w) = [] then PEnd else PTest)\<rparr>"
  have "hp_inv chunk n (set_worker w ?p s)"
    using inv_worker_ok [OF assms(1,2)] by (intro inv_set_worker [OF assms(1,2)]) (simp_all add: worker_ok_def)
  moreover have "hv_step chunk cap (view s) (view (set_worker w ?p s))"
    unfolding view_set_worker
    using v_next [of w "view s" "batches (pworkers s ! w)" "length (pools s)" chunk cap] assms(2,3)
    by (simp add: view_worker_def split: if_splits)
  ultimately show ?thesis by (simp add: good_step_def set_worker_counted inv_counted)
qed


text \<open>A carrier that nobody has is taken.\<close>

lemma take_good:
  assumes "hp_inv chunk n s" "w < length (pworkers s)" "hpc (pworkers s ! w) = PGet k" "k < n" "owned s a = 0"
    and "a < f" "fresh s \<le> f" "length (cells c) = chunk" "ptr c = - 1"
  defines "p \<equiv> (pworkers s ! w)\<lparr>hchunk := (hchunk (pworkers s ! w))[k := a], hpc := PGet (k + 1)\<rparr>"
  shows "hp_inv chunk n (set_worker w p (s\<lparr>fresh := f, heap := (heap s)(a := c)\<rparr>))"
    and "view (set_worker w p (s\<lparr>fresh := f, heap := (heap s)(a := c)\<rparr>)) = view s"
proof -
  let ?q = "pworkers s ! w"
  have ok: "worker_ok chunk n (heap s) ?q" "length (pools s) = n"
    using inv_worker_ok [OF assms(1,2)] assms(1) by (simp_all add: hp_inv_def)
  have out: "\<not> elsewhere s w a" using assms(5) by (rule unowned)
  have len: "length (hchunk ?q) = n" using ok(1) by (simp add: worker_ok_def)
  have has: "has p = take k (hchunk ?q) @ [a]" "has ?q = take k (hchunk ?q)"
    using len assms(3,4) by (simp_all add: p_def take_Suc_conv_app_nth)
  have "a \<notin> set (take k (hchunk ?q))"
    using assms(5) has(2) nth_mem [OF assms(2)] by (fastforce simp: owned_def count_list_0_iff)
  then have pok: "worker_ok chunk n ((heap s)(a := c)) p"
    using ok(1) has assms(3,4,9) len by (auto simp: worker_ok_def p_def take_Suc_conv_app_nth)
  have own: "owned (set_worker w p s) b = owned s b + (if b = a then 1 else 0)" for b
    using owned_worker [OF assms(2), of p b] has by (simp split: if_splits)
  have "b < f \<and> (b \<noteq> a \<longrightarrow> cell_ok chunk (heap s b))" if "0 < owned (set_worker w p s) b" for b
    using that own [of b] assms(1,6,7) by (cases "b = a") (auto simp: hp_inv_def intro: less_le_trans)
  moreover have "owned (set_worker w p s) b \<le> 1" for b
    using own [of b] assms(1,5) by (cases "b = a") (simp_all add: hp_inv_def)
  moreover have "cell_ok chunk c" using assms(8,9) by (simp add: cell_ok_def)
  ultimately show "hp_inv chunk n (set_worker w p (s\<lparr>fresh := f, heap := (heap s)(a := c)\<rparr>))"
    using inv_own_cell [OF assms(1) out _ pok] by blast
  have "view_worker n ((heap s)(a := c)) p = view_worker n (heap s) ?q"
    using assms(3) by (simp add: view_worker_def p_def)
  then have "view (set_worker w p (s\<lparr>heap := (heap s)(a := c)\<rparr>)) = view s"
    unfolding view_own_cell [OF out] using assms(2) ok(2) by (simp add: list_update_same_conv)
  then show "view (set_worker w p (s\<lparr>fresh := f, heap := (heap s)(a := c)\<rparr>)) = view s"
    by (simp add: view_def set_worker_def)
qed

lemma inv_less_pool:
  assumes "hp_inv chunk n s" "k < length (pools s)" "\<And>a. count_list l a \<le> count_list (pools s ! k) a"
  shows "hp_inv chunk n (s\<lparr>pools := (pools s)[k := l]\<rparr>)" "view (s\<lparr>pools := (pools s)[k := l]\<rparr>) = view s"
proof -
  have le: "owned (s\<lparr>pools := (pools s)[k := l]\<rparr>) a \<le> owned s a" for a
    using owned_pool [OF assms(2), of l a] assms(3) [of a] by simp
  have "owned (s\<lparr>pools := (pools s)[k := l]\<rparr>) a \<le> 1" for a using le [of a] assms(1) by (meson hp_inv_def order_trans)
  moreover have "a < fresh s \<and> cell_ok chunk (heap s a)" if "0 < owned (s\<lparr>pools := (pools s)[k := l]\<rparr>) a" for a
    using le [of a] assms(1) that by (meson hp_inv_def less_le_trans)
  ultimately show "hp_inv chunk n (s\<lparr>pools := (pools s)[k := l]\<rparr>)" using assms(1) by (auto simp: hp_inv_def)
  show "view (s\<lparr>pools := (pools s)[k := l]\<rparr>) = view s" by (simp add: view_def)
qed

lemma owned_in_pool:
  "k < length (pools s) \<Longrightarrow> a \<in> set (pools s ! k) \<Longrightarrow> 0 < owned s a"
  using part_le [of "pools s ! k" "pools s" "\<lambda>l. count_list l a"] count_member [of a "pools s ! k"] by (simp add: owned_def)

lemma step_drop:
  assumes "hp_inv chunk n s" "k < length (pools s)"
  shows "good_step chunk cap n s (s\<lparr>pools := (pools s)[k := remove1 a (pools s ! k)]\<rparr>)"
  using inv_less_pool [OF assms, of "remove1 a (pools s ! k)"] by (simp add: good_step_def count_remove1)

lemma step_pooled:
  assumes "hp_inv chunk n s" "w < length (pworkers s)" "hpc (pworkers s ! w) = PGet k" "k < length (pools s)" "a \<in> set (pools s ! k)"
  shows "good_step chunk cap n s (take_carrier w k a (s\<lparr>pools := (pools s)[k := remove1 a (pools s ! k)]\<rparr>))"
proof -
  let ?s = "s\<lparr>pools := (pools s)[k := remove1 a (pools s ! k)]\<rparr>"
  have pos: "0 < owned s a" by (rule owned_in_pool [OF assms(4,5)])
  have s: "hp_inv chunk n ?s" "view ?s = view s" "k < n"
    using inv_less_pool [OF assms(1,4), of "remove1 a (pools s ! k)"] assms(1,4) by (simp_all add: count_remove1 hp_inv_def)
  have "1 \<le> count_list (pools s ! k) a" "owned s a \<le> 1" using assms(1,5) by (simp_all add: count_member hp_inv_def)
  then have "owned ?s a = 0" using owned_pool [OF assms(4), of "remove1 a (pools s ! k)" a] by (simp add: count_remove1)
  moreover have "a < fresh s" "cell_ok chunk (heap s a)" using assms(1) pos by (simp_all add: hp_inv_def)
  ultimately show ?thesis
    using take_good [OF s(1), of w k a "fresh s" "(heap s a)\<lparr>ptr := - 1\<rparr>"] s(2,3) assms(2,3)
    by (simp add: take_carrier_def Let_def good_step_def cell_ok_def)
qed

lemma step_new:
  assumes "hp_inv chunk n s" "w < length (pworkers s)" "hpc (pworkers s ! w) = PGet k" "k < length (pools s)"
  shows "good_step chunk cap n s (take_carrier w k (fresh s) (s\<lparr>heap := (heap s)(fresh s := newHashChunk chunk), fresh := fresh s + 1\<rparr>))"
proof -
  have "owned s (fresh s) = 0" "k < n" using assms(1,4) by (auto simp: hp_inv_def)
  then show ?thesis
    using take_good [OF assms(1-3), of "fresh s" "fresh s + 1" "(newHashChunk chunk)\<lparr>ptr := - 1\<rparr>"]
    by (simp add: take_carrier_def Let_def good_step_def newHashChunk_def)
qed


text \<open>A value is written into a carrier of the worker's own.\<close>

lemma count_distinct: "(\<And>x. count_list xs x \<le> 1) \<Longrightarrow> distinct xs"
proof (induction xs)
  case (Cons y xs)
  have "count_list xs x \<le> 1" for x using Cons.prems [of x] by (simp split: if_splits)
  moreover have "count_list xs y = 0" using Cons.prems [of y] by simp
  ultimately show ?case using Cons.IH by (simp add: count_list_0_iff)
qed simp

lemma inv_distinct:
  assumes "hp_inv chunk n s" "w < length (pworkers s)"
  shows "distinct (has (pworkers s ! w))"
proof (rule count_distinct)
  fix a
  have "count_list (has (pworkers s ! w)) a \<le> owned s a"
    using part_le [of "pworkers s ! w" "pworkers s" "\<lambda>p. count_list (has p) a"] assms(2) by (simp add: owned_def)
  then show "count_list (has (pworkers s ! w)) a \<le> 1" using assms(1) by (meson hp_inv_def order_trans)
qed

lemma owned_has: "w < length (pworkers s) \<Longrightarrow> a \<in> set (has (pworkers s ! w)) \<Longrightarrow> 0 < owned s a"
  using part_le [of "pworkers s ! w" "pworkers s" "\<lambda>p. count_list (has p) a"] count_member [of a "has (pworkers s ! w)"]
  by (simp add: owned_def)

lemma map_upd_distinct:
  "distinct l \<Longrightarrow> j < length l \<Longrightarrow> map (f(l ! j := v)) l = (map f l)[j := v]"
  by (intro nth_equalityI) (auto simp: nth_list_update nth_eq_iff_index_eq)

lemma carried_write:
  assumes "ptr c + 1 < int (length (cells c))" "- 1 \<le> ptr c" "h a = c"
  shows "carried (h(a := \<lparr>ptr = ptr c + 1, cells = (cells c)[nat (ptr c + 1) := x]\<rparr>)) a = carried h a @ [x]"
proof -
  define i where "i = nat (ptr c + 1)"
  have i: "ptr c = int i - 1" "i < length (cells c)" using assms(1,2) by (simp_all add: i_def)
  show ?thesis using i(2) by (simp add: carried_def i(1) assms(3) take_Suc_conv_app_nth nat_add_distrib)
qed

lemma step_write:
  assumes "hp_inv chunk n s" "w < length (pworkers s)" "hpc (pworkers s ! w) = PSum" "hsums (pworkers s ! w) = x # xs"
  shows "good_step chunk cap n s (write_sum w x xs s)"
proof -
  define q where "q = pworkers s ! w"
  define j where "j = unat x mod n"
  define a where "a = hchunk q ! j"
  define c where "c = heap s a"
  define c' where "c' = \<lparr>ptr = ptr c + 1, cells = (cells c)[nat (ptr c + 1) := x]\<rparr>"
  let ?h = "(heap s)(a := c')" and ?p = "q\<lparr>hsums := xs\<rparr>"
  have n: "0 < n" "length (pools s) = n" "length (bytesum s) = n" using assms(1) by (simp_all add: hp_inv_def)
  have ok: "worker_ok chunk n (heap s) q" using inv_worker_ok [OF assms(1,2)] by (simp add: q_def)
  have len: "length (hchunk q) = n" "j < n" using ok n(1) by (simp_all add: worker_ok_def j_def)
  then have a: "a \<in> set (hchunk q)" by (simp add: a_def)
  then have mine: "a \<in> set (has (pworkers s ! w))" using assms(3) by (simp add: q_def)
  have out: "\<not> elsewhere s w a" using owned_once(1) [OF _ assms(2) mine] assms(1) by (simp add: hp_inv_def)
  have cell: "cell_ok chunk c" using owned_has [OF assms(2) mine] assms(1) by (simp add: hp_inv_def c_def)
  have room: "ptr c + 2 + int (length xs) \<le> int chunk"
    using ok a assms(3,4) by (auto simp: worker_ok_def q_def c_def)
  then have fits: "ptr c + 1 < int (length (cells c))" using cell by (simp add: cell_ok_def)
  have ws: "write_sum w x xs s = set_worker w ?p (s\<lparr>heap := ?h\<rparr>)"
    using fits n(2) by (simp add: write_sum_def Let_def q_def [symmetric] j_def [symmetric] a_def [symmetric] c_def [symmetric] c'_def)
  have dist: "distinct (hchunk q)" using inv_distinct [OF assms(1,2)] assms(3) by (simp add: q_def)
  have has: "has ?p = has (pworkers s ! w)" by (simp add: q_def)
  then have own: "owned (set_worker w ?p s) = owned s"
    using owned_worker [OF assms(2), of ?p] by (simp add: fun_eq_iff)
  have "cell_ok chunk c'" using cell fits by (simp add: cell_ok_def c'_def)
  moreover have "worker_ok chunk n ?h ?p"
    using ok room assms(3,4) by (auto simp: worker_ok_def q_def [symmetric] c'_def)
  ultimately have "hp_inv chunk n (set_worker w ?p (s\<lparr>fresh := fresh s, heap := ?h\<rparr>))"
    using assms(1) own by (intro inv_own_cell [OF assms(1) out]) (auto simp: hp_inv_def)
  then have inv: "hp_inv chunk n (write_sum w x xs s)" by (simp add: ws)
  let ?cs = "map (carried (heap s)) (hchunk q)"
  have c: "carried ?h a = carried (heap s) a @ [x]"
    unfolding c'_def using cell fits by (intro carried_write) (simp_all add: c_def cell_ok_def)
  have "carried ?h = (carried (heap s))(a := carried (heap s) a @ [x])"
    using c by (auto simp: fun_eq_iff carried_def)
  then have "map (carried ?h) (hchunk q) = ?cs[j := ?cs ! j @ [x]]"
    using map_upd_distinct [OF dist] len by (simp add: a_def)
  moreover have "length (carried (heap s) a) \<le> nat (ptr c + 1)" by (simp add: carried_def c_def)
  then have "length (?cs ! j) < chunk" using len fits cell by (simp add: a_def cell_ok_def) linarith
  ultimately have "put_sum n chunk x ?cs = Some (map (carried ?h) (hchunk q))"
    using len by (simp add: put_sum_def Let_def j_def [symmetric])
  then have "hv_step chunk cap (view s) (view (write_sum w x xs s))"
    unfolding ws view_own_cell [OF out]
    using v_put [of w "view s" "batches q" x xs ?cs chunk "map (carried ?h) (hchunk q)" cap] assms(2-4) n
    by (simp add: view_worker_def q_def [symmetric])
  then show ?thesis using inv by (simp add: good_step_def)
qed


lemma inv_same_owners:
  assumes "hp_inv chunk n s" "\<And>a. owned t a \<le> owned s a" "heap t = heap s" "fresh t = fresh s" "length (pools t) = n"
    "length (bytesum t) = n" "length (reading t) = n" "\<not> index_panic t" "\<forall>p \<in> set (pworkers t). worker_ok chunk n (heap s) p"
    "\<forall>r \<in> set (reading t). reading_ok (heap s) r"
  shows "hp_inv chunk n t"
proof -
  have "owned t a \<le> 1" for a using assms(1) assms(2) [of a] by (meson hp_inv_def order_trans)
  moreover have "a < fresh s \<and> cell_ok chunk (heap s a)" if "0 < owned t a" for a
    using assms(1) assms(2) [of a] that by (meson hp_inv_def less_le_trans)
  ultimately show ?thesis using assms by (simp add: hp_inv_def)
qed

lemma step_send:
  assumes "hp_inv chunk n s" "w < length (pworkers s)" "hpc (pworkers s ! w) = PSend k" "k < length (pools s)" "length (bytesum s ! k) < cap"
  shows "good_step chunk cap n s (set_worker w ((pworkers s ! w)\<lparr>hpc := PRead k\<rparr>)
      (s\<lparr>bytesum := (bytesum s)[k := bytesum s ! k @ [hchunk (pworkers s ! w) ! k]]\<rparr>))"
proof -
  let ?q = "pworkers s ! w"
  let ?p = "?q\<lparr>hpc := PRead k\<rparr>" and ?l = "bytesum s ! k @ [hchunk ?q ! k]"
  let ?s = "s\<lparr>bytesum := (bytesum s)[k := ?l]\<rparr>"
  have n: "length (pools s) = n" "length (bytesum s) = n" "k < n" using assms(1,4) by (simp_all add: hp_inv_def)
  have ok: "worker_ok chunk n (heap s) ?q" by (rule inv_worker_ok [OF assms(1,2)])
  then have has: "has ?q = hchunk ?q ! k # has ?p"
    using assms(3) n(3) by (simp add: worker_ok_def Cons_nth_drop_Suc)
  have own: "owned (set_worker w ?p ?s) a = owned s a" for a
    using owned_worker [of w ?s ?p a] owned_chan [of k s ?l a] has assms(2) n(2,3) by (simp add: count_list_append split: if_splits)
  moreover have "\<forall>p \<in> set ((pworkers s)[w := ?p]). worker_ok chunk n (heap s) p"
    using assms(1,3) ok n by (intro set_update_all) (simp_all add: hp_inv_def worker_ok_def)
  moreover have "\<forall>r \<in> set (reading s). reading_ok (heap s) r" "length (reading s) = n" "\<not> index_panic s"
    using assms(1) by (simp_all add: hp_inv_def)
  ultimately have inv: "hp_inv chunk n (set_worker w ?p ?s)"
    using n by (intro inv_same_owners [OF assms(1)]) (simp_all add: set_worker_def)
  let ?c = "carried (heap s)"
  have "hv_step chunk cap (view s) ((view s)\<lparr>vworkers := (vworkers (view s))[w := (batches ?q, VSend (k + 1) (map ?c (has ?p)))],
      vchans := (vchans (view s))[k := vchans (view s) ! k @ [?c (hchunk ?q ! k)]]\<rparr>)"
    using assms(2,3,5) has n by (intro v_send) (simp_all add: view_worker_def)
  then have "hv_step chunk cap (view s) (view (set_worker w ?p ?s))"
    using n by (simp add: view_def set_worker_def map_update view_worker_def)
  then show ?thesis using inv by (simp add: good_step_def)
qed

lemma inv_reading: "hp_inv chunk n s \<Longrightarrow> k < length (pools s) \<Longrightarrow> reading s ! k = r \<Longrightarrow> reading_ok (heap s) r"
  by (auto simp: hp_inv_def)

lemma inv_parts:
  assumes "hp_inv chunk n s"
  shows "length (pools s) = n" "length (bytesum s) = n" "length (reading s) = n" "\<not> index_panic s"
    "\<forall>p \<in> set (pworkers s). worker_ok chunk n (heap s) p" "\<forall>r \<in> set (reading s). reading_ok (heap s) r"
  using assms by (simp_all add: hp_inv_def)

lemma step_recv:
  assumes "hp_inv chunk n s" "k < length (pools s)" "reading s ! k = None" "bytesum s ! k = a # q"
  shows "good_step chunk cap n s (s\<lparr>bytesum := (bytesum s)[k := q], reading := (reading s)[k := Some (a, 0)]\<rparr>)"
proof -
  let ?t = "s\<lparr>bytesum := (bytesum s)[k := q]\<rparr>"
  note parts = inv_parts [OF assms(1)]
  have k: "k < n" using assms(2) parts(1) by simp
  have "owned (?t\<lparr>reading := (reading s)[k := Some (a, 0)]\<rparr>) b = owned s b" for b
    using owned_chan [of k s q b] owned_reading [of k ?t "Some (a, 0)" b] assms(3,4) k parts by (simp split: if_splits)
  moreover have mem: "a \<in> set (bytesum s ! k)" "bytesum s ! k \<in> set (bytesum s)" using assms(4) k parts(2) nth_mem [of k "bytesum s"] by simp_all
  then have "1 \<le> count_list (bytesum s ! k) a" by (simp only: count_member)
  then have "0 < owned s a" using part_le [OF mem(2), of "\<lambda>l. count_list l a"] by (simp add: owned_def)
  then have "cell_ok chunk (heap s a)" using assms(1) by (simp add: hp_inv_def)
  then have "\<forall>r \<in> set ((reading s)[k := Some (a, 0)]). reading_ok (heap s) r"
    using parts(6) by (intro set_update_all) (simp_all add: cell_ok_def)
  ultimately have inv: "hp_inv chunk n (?t\<lparr>reading := (reading s)[k := Some (a, 0)]\<rparr>)"
    using parts by (intro inv_same_owners [OF assms(1)]) simp_all
  have "hv_step chunk cap (view s) ((view s)\<lparr>vchans := (vchans (view s))[k := map (carried (heap s)) q],
      vreading := (vreading (view s))[k := Some (carried (heap s) a)]\<rparr>)"
    using assms(3,4) k parts by (intro v_recv) (simp_all add: view_reading_def)
  then have "hv_step chunk cap (view s) (view (?t\<lparr>reading := (reading s)[k := Some (a, 0)]\<rparr>))"
    by (simp add: view_def map_update view_reading_def)
  then show ?thesis using inv by (simp add: good_step_def)
qed

lemma length_carried: "cell_ok chunk (h a) \<Longrightarrow> length (carried h a) = nat (ptr (h a) + 1)"
  by (auto simp: cell_ok_def carried_def min_def)

lemma inv_read_cell:
  assumes "hp_inv chunk n s" "k < length (pools s)" "reading s ! k = Some (a, i)"
  shows "cell_ok chunk (heap s a)"
proof -
  have "Some (a, i) \<in> set (reading s)" using assms inv_parts(1,3) [OF assms(1)] by (metis nth_mem)
  from part_le [OF this, of "\<lambda>r. count_list (read_addr r) a"] have "0 < owned s a" by (simp add: owned_def)
  then show ?thesis using assms(1) by (simp add: hp_inv_def)
qed

lemma step_bump:
  assumes "hp_inv chunk n s" "k < length (pools s)" "reading s ! k = Some (a, i)" "int i \<le> ptr (heap s a)"
  shows "good_step chunk cap n s (s\<lparr>htable := bump (htable s) (cells (heap s a) ! i), reading := (reading s)[k := Some (a, i + 1)]\<rparr>)"
proof -
  let ?x = "cells (heap s a) ! i"
  let ?t = "s\<lparr>htable := bump (htable s) ?x\<rparr>"
  note parts = inv_parts [OF assms(1)]
  have k: "k < n" using assms(2) parts(1) by simp
  have "owned (?t\<lparr>reading := (reading s)[k := Some (a, i + 1)]\<rparr>) b = owned s b" for b
    using owned_reading [of k ?t "Some (a, i + 1)" b] assms(3) k parts(3) by simp
  moreover have "\<forall>r \<in> set ((reading s)[k := Some (a, i + 1)]). reading_ok (heap s) r"
    using parts(6) assms(4) by (intro set_update_all) simp_all
  ultimately have inv: "hp_inv chunk n (?t\<lparr>reading := (reading s)[k := Some (a, i + 1)]\<rparr>)"
    using parts by (intro inv_same_owners [OF assms(1)]) simp_all
  have cell: "cell_ok chunk (heap s a)" by (rule inv_read_cell [OF assms(1-3)])
  have "i < length (carried (heap s) a)" using assms(4) unfolding length_carried [of chunk "heap s" a, OF cell] by simp
  moreover have "carried (heap s) a ! i = ?x" using assms(4) by (simp add: carried_def)
  ultimately have d: "drop i (carried (heap s) a) = ?x # drop (i + 1) (carried (heap s) a)"
    by (simp add: Cons_nth_drop_Suc [symmetric])
  have "hv_step chunk cap (view s) ((view s)\<lparr>vtable := bump (vtable (view s)) ?x,
      vreading := (vreading (view s))[k := Some (drop (i + 1) (carried (heap s) a))]\<rparr>)"
    using assms(3) d k parts by (intro v_bump) (simp_all add: view_reading_def)
  then have "hv_step chunk cap (view s) (view (?t\<lparr>reading := (reading s)[k := Some (a, i + 1)]\<rparr>))"
    by (simp add: view_def map_update view_reading_def)
  then show ?thesis using inv by (simp add: good_step_def)
qed

lemma step_put:
  assumes "hp_inv chunk n s" "k < length (pools s)" "reading s ! k = Some (a, i)" "ptr (heap s a) < int i"
  shows "good_step chunk cap n s (s\<lparr>pools := (pools s)[k := a # pools s ! k], reading := (reading s)[k := None]\<rparr>)"
proof -
  let ?t = "s\<lparr>pools := (pools s)[k := a # pools s ! k]\<rparr>"
  note parts = inv_parts [OF assms(1)]
  have k: "k < n" using assms(2) parts(1) by simp
  have "owned (?t\<lparr>reading := (reading s)[k := None]\<rparr>) b = owned s b" for b
    using owned_pool [of k s "a # pools s ! k" b] owned_reading [of k ?t None b] assms(3) k parts(1,3) by (simp split: if_splits)
  moreover have "\<forall>r \<in> set ((reading s)[k := None]). reading_ok (heap s) r"
    using parts(6) by (intro set_update_all) simp_all
  ultimately have inv: "hp_inv chunk n (?t\<lparr>reading := (reading s)[k := None]\<rparr>)"
    using parts by (intro inv_same_owners [OF assms(1)]) simp_all
  have "drop i (carried (heap s) a) = []" using assms(4) by (simp add: carried_def)
  then have "hv_step chunk cap (view s) ((view s)\<lparr>vreading := (vreading (view s))[k := None]\<rparr>)"
    using assms(3) k parts by (intro v_done) (simp_all add: view_reading_def)
  then have "hv_step chunk cap (view s) (view (?t\<lparr>reading := (reading s)[k := None]\<rparr>))"
    by (simp add: view_def map_update view_reading_def)
  then show ?thesis using inv by (simp add: good_step_def)
qed

lemma step_kill: "hp_inv chunk n s \<Longrightarrow> good_step chunk cap n s (s\<lparr>killworker := True\<rparr>)"
  using v_kill [of chunk cap "view s"] by (simp add: good_step_def hp_inv_def view_def)

lemma hp_good: "hp_step chunk cap s t \<Longrightarrow> hp_inv chunk n s \<Longrightarrow> good_step chunk cap n s t"
  by (induction rule: hp_step.induct)
    (blast intro: step_kill step_killed step_begin step_pooled step_new step_got step_write step_full step_send step_read step_sent
       step_count step_recv step_bump step_put step_drop)+


lemma hp_steps_good:
  "reaches (hp_step chunk cap) s t \<Longrightarrow> hp_inv chunk n s \<Longrightarrow> hp_inv chunk n t \<and> reaches (hv_step chunk cap) (view s) (view t)"
proof (induction rule: reaches.induct)
  case (reaches_refl s)
  then show ?case by (simp add: reaches.reaches_refl)
next
  case (reaches_step s t u)
  then have t: "hp_inv chunk n t" "reaches (hv_step chunk cap) (view s) (view t)" by simp_all
  then show ?case
    using hp_good [OF reaches_step.hyps(2) t(1)] reaches.reaches_step [OF t(2)] by (auto simp: good_step_def)
qed

lemma hp_start_ok:
  assumes "0 < counters" "\<forall>bs \<in> set ws. \<forall>b \<in> set bs. length b \<le> chunk"
  shows "hp_inv chunk counters (hp_start counters places ws)" "view (hp_start counters places ws) = hv_start counters places ws"
proof -
  have "owned (hp_start counters places ws) a = 0" for a
    by (auto simp: owned_def hp_start_def hp_worker_start_def count_list_0_iff)
  then show "hp_inv chunk counters (hp_start counters places ws)"
    using assms by (auto simp: hp_inv_def) (auto simp: hp_start_def hp_worker_start_def worker_ok_def)
  show "view (hp_start counters places ws) = hv_start counters places ws"
    by (simp add: view_def hv_start_def hp_start_def hp_worker_start_def view_worker_def view_reading_def)
qed

section \<open>Every value is counted\<close>

definition parts_count :: "32 word \<Rightarrow> carrier list \<Rightarrow> nat" where
  "parts_count h cs = (\<Sum>c \<leftarrow> cs. count_list c h)"

fun to_send :: "32 word \<Rightarrow> hv_pc \<Rightarrow> nat" where
  "to_send h (VMake hs cs) = count_list hs h + parts_count h cs"
| "to_send h (VSend k cs) = parts_count h cs"
| "to_send h _ = 0"

definition to_count :: "32 word \<Rightarrow> hv_state \<Rightarrow> nat" where
  "to_count h s = (\<Sum>w \<leftarrow> vworkers s. count_list (concat (fst w)) h + to_send h (snd w))
     + (\<Sum>q \<leftarrow> vchans s. parts_count h q) + (\<Sum>r \<leftarrow> vreading s. case r of None \<Rightarrow> 0 | Some c \<Rightarrow> count_list c h)"

lemma sum_list_zero: "(\<And>x. x \<in> set xs \<Longrightarrow> f x = 0) \<Longrightarrow> (\<Sum>x \<leftarrow> xs. f x) = (0 :: nat)"
  by (induction xs) simp_all

definition hv_inv :: "nat \<Rightarrow> (32 word \<Rightarrow> nat) \<Rightarrow> nat \<Rightarrow> hv_state \<Rightarrow> bool" where
  "hv_inv places all n s \<longleftrightarrow> length (vtable s) = places \<and> length (vchans s) = n \<and> length (vreading s) = n
     \<and> (\<forall>w \<in> set (vworkers s). snd w = VEnd \<and> \<not> vkill s \<longrightarrow> fst w = [])
     \<and> (\<forall>h. unat h < places \<longrightarrow> vtable s ! unat h + of_nat (to_count h s) = of_nat (all h))"

lemma parts_count_simps [simp]:
  "parts_count h [] = 0" "parts_count h (c # cs) = count_list c h + parts_count h cs"
  "parts_count h (xs @ ys) = parts_count h xs + parts_count h ys" "parts_count h (replicate m []) = 0"
  by (simp_all add: parts_count_def sum_list_replicate)

lemma put_sum_count: "put_sum n chunk x cs = Some cs' \<Longrightarrow> parts_count h cs' = parts_count h cs + (if x = h then 1 else 0)"
  using sum_update_nat [of "unat x mod n" cs "\<lambda>c. count_list c h" "cs ! (unat x mod n) @ [x]"]
  by (auto simp: put_sum_def Let_def parts_count_def count_list_append split: if_splits)

lemma bump_nth: "unat h < length r \<Longrightarrow> bump r x ! unat h = r ! unat h + (if x = h then 1 else 0)"
  using foldl_bump_nth [of h r "[x]"] by simp

lemma length_bump [simp]: "length (bump r x) = length r"
  by (simp add: bump_def)

lemma to_count_worker:
  assumes "w < length (vworkers s)"
  shows "to_count h (s\<lparr>vworkers := (vworkers s)[w := v]\<rparr>) + (count_list (concat (fst (vworkers s ! w))) h + to_send h (snd (vworkers s ! w)))
    = to_count h s + (count_list (concat (fst v)) h + to_send h (snd v))"
  using sum_update_nat [OF assms, of "\<lambda>w. count_list (concat (fst w)) h + to_send h (snd w)" v] by (simp add: to_count_def)

lemma hv_worker:
  assumes "hv_inv places all n s" "w < length (vworkers s)" "vworkers s ! w = (bs, pc)" "pc' = VEnd \<and> \<not> vkill s \<longrightarrow> bs' = []"
    and "\<And>h. count_list (concat bs') h + to_send h pc' = count_list (concat bs) h + to_send h pc"
  shows "hv_inv places all n (s\<lparr>vworkers := (vworkers s)[w := (bs', pc')]\<rparr>)"
proof -
  have "to_count h (s\<lparr>vworkers := (vworkers s)[w := (bs', pc')]\<rparr>) = to_count h s" for h
    using to_count_worker [OF assms(2), of h "(bs', pc')"] assms(3,5) by simp
  moreover have "\<forall>w \<in> set ((vworkers s)[w := (bs', pc')]). snd w = VEnd \<and> \<not> vkill s \<longrightarrow> fst w = []"
    using assms(1,4) by (intro set_update_all) (simp_all add: hv_inv_def)
  ultimately show ?thesis using assms(1) by (simp add: hv_inv_def)
qed

lemma hv_step_inv: "hv_step chunk cap s t \<Longrightarrow> hv_inv places all n s \<Longrightarrow> hv_inv places all n t"
proof (induction rule: hv_step.induct)
  case (v_kill s)
  then show ?case by (simp add: hv_inv_def to_count_def)
next
  case (v_killed w s bs)
  show ?case using v_killed(3) by (intro hv_worker [OF v_killed(4,1,2)]) simp_all
next
  case (v_begin w s b bs)
  show ?case by (intro hv_worker [OF v_begin(4,1,2)]) (simp_all add: count_list_append)
next
  case (v_put w s bs x hs cs cs')
  show ?case using v_put(3) by (intro hv_worker [OF v_put(4,1,2)]) (simp_all add: put_sum_count)
next
  case (v_made w s bs cs)
  show ?case by (intro hv_worker [OF v_made(3,1,2)]) simp_all
next
  case (v_next w s bs k)
  show ?case by (intro hv_worker [OF v_next(3,1,2)]) auto
next
  case (v_send w s bs k c cs)
  let ?s = "s\<lparr>vworkers := (vworkers s)[w := (bs, VSend (k + 1) cs)]\<rparr>"
  have "to_count h (?s\<lparr>vchans := (vchans s)[k := vchans s ! k @ [c]]\<rparr>) = to_count h s" for h
    using to_count_worker [OF v_send(1), of h "(bs, VSend (k + 1) cs)"] v_send(2)
      sum_update_nat [OF v_send(3), of "parts_count h" "vchans s ! k @ [c]"] by (simp add: to_count_def)
  moreover have "\<forall>w \<in> set ((vworkers s)[w := (bs, VSend (k + 1) cs)]). snd w = VEnd \<and> \<not> vkill s \<longrightarrow> fst w = []"
    using v_send(5) by (intro set_update_all) (simp_all add: hv_inv_def)
  ultimately show ?case using v_send(5) by (simp add: hv_inv_def)
next
  case (v_recv k s c q)
  let ?f = "\<lambda>h r. case r of None \<Rightarrow> 0 | Some c \<Rightarrow> count_list c h"
  have "to_count h (s\<lparr>vchans := (vchans s)[k := q], vreading := (vreading s)[k := Some c]\<rparr>) = to_count h s" for h
    using sum_update_nat [OF v_recv(1), of "parts_count h" q] v_recv(2-4)
      sum_update_nat [of k "vreading s" "?f h" "Some c"] v_recv(1) by (simp add: to_count_def hv_inv_def)
  then show ?case using v_recv(4) by (simp add: hv_inv_def)
next
  case (v_bump k s x c)
  have k: "k < length (vreading s)" using v_bump(1,3) by (simp add: hv_inv_def)
  let ?f = "\<lambda>h r. case r of None \<Rightarrow> 0 | Some c \<Rightarrow> count_list c h"
  have "to_count h (s\<lparr>vtable := bump (vtable s) x, vreading := (vreading s)[k := Some c]\<rparr>) + (if x = h then 1 else 0) = to_count h s" for h
    using k v_bump(2) sum_update_nat [of k "vreading s" "?f h" "Some c"] by (simp add: to_count_def split: if_splits)
  note less = this
  have "of_nat (to_count h s) = (if x = h then 1 else 0)
      + (of_nat (to_count h (s\<lparr>vtable := bump (vtable s) x, vreading := (vreading s)[k := Some c]\<rparr>)) :: 16 word)" for h
    unfolding less [of h, symmetric] by simp
  then show ?case using v_bump(3) by (auto simp: hv_inv_def bump_nth add.assoc)
next
  case (v_done k s)
  let ?f = "\<lambda>h r. case r of None \<Rightarrow> 0 | Some c \<Rightarrow> count_list c h"
  have "to_count h (s\<lparr>vreading := (vreading s)[k := None]\<rparr>) = to_count h s" for h
    using v_done(1-3) sum_update_nat [of k "vreading s" "?f h" None] by (simp add: to_count_def hv_inv_def)
  then show ?case using v_done(3) by (simp add: hv_inv_def)
qed

interpretation hv_values: transition_invariant "hv_step chunk cap" "hv_inv places all n" for chunk cap places all n
  by unfold_locales (rule hv_step_inv)

lemma hv_start_ok: "hv_inv places (count_list (concat (concat ws))) n (hv_start n places ws)"
proof -
  have "count_list (concat (concat ws)) h = (\<Sum>bs \<leftarrow> ws. count_list (concat bs) h)" for h
    by (induction ws) (simp_all add: count_list_append)
  then show ?thesis by (simp add: hv_inv_def hv_start_def to_count_def o_def sum_list_replicate)
qed


section \<open>Given schedules\<close>

text \<open>The step of a worker or of a counter, when it is determined; a new carrier, or one from the pool, is asked for explicitly.\<close>

datatype hp_act = Worker nat | Pooled nat addr | Fresh nat | Counter nat

fun hp_do :: "nat \<Rightarrow> nat \<Rightarrow> hp_act \<Rightarrow> hp_state \<Rightarrow> hp_state option" where
  "hp_do chunk cap (Worker w) s =
     (let p = pworkers s ! w
      in if w < length (pworkers s) then
           (case hpc p of
              PTest \<Rightarrow>
                if killworker s then Some (set_worker w (p\<lparr>hpc := PEnd\<rparr>) s)
                else (case batches p of [] \<Rightarrow> None | b # bs \<Rightarrow> Some (set_worker w (p\<lparr>batches := bs, hsums := b, chunkcount := 0, hpc := PGet 0\<rparr>) s))
            | PGet k \<Rightarrow> if k = length (pools s) then Some (set_worker w (p\<lparr>hpc := PSum\<rparr>) s) else None
            | PSum \<Rightarrow> (case hsums p of [] \<Rightarrow> Some (set_worker w (p\<lparr>hpc := PSend 0\<rparr>) s) | h # hs \<Rightarrow> Some (write_sum w h hs s))
            | PSend k \<Rightarrow>
                if k = length (pools s) then Some (set_worker w (p\<lparr>hpc := PCount\<rparr>) s)
                else if k < length (pools s) \<and> length (bytesum s ! k) < cap
                then Some (set_worker w (p\<lparr>hpc := PRead k\<rparr>) (s\<lparr>bytesum := (bytesum s)[k := bytesum s ! k @ [hchunk p ! k]]\<rparr>))
                else None
            | PRead k \<Rightarrow>
                Some (set_worker w (p\<lparr>hpc := PSend (k + 1), chunkcount := chunkcount p + of_int (ptr (heap s (hchunk p ! k))) + 1\<rparr>) s)
            | PCount \<Rightarrow>
                Some (set_worker w (p\<lparr>hpc := (if batches p = [] then PEnd else PTest)\<rparr>) (s\<lparr>counted := counted s @ [chunkcount p]\<rparr>))
            | PEnd \<Rightarrow> None)
         else None)"
| "hp_do chunk cap (Pooled w a) s =
     (case hpc (pworkers s ! w) of
        PGet k \<Rightarrow> if w < length (pworkers s) \<and> k < length (pools s) \<and> a \<in> set (pools s ! k)
                   then Some (take_carrier w k a (s\<lparr>pools := (pools s)[k := remove1 a (pools s ! k)]\<rparr>)) else None
      | _ \<Rightarrow> None)"
| "hp_do chunk cap (Fresh w) s =
     (case hpc (pworkers s ! w) of
        PGet k \<Rightarrow> if w < length (pworkers s) \<and> k < length (pools s)
                   then Some (take_carrier w k (fresh s) (s\<lparr>heap := (heap s)(fresh s := newHashChunk chunk), fresh := fresh s + 1\<rparr>)) else None
      | _ \<Rightarrow> None)"
| "hp_do chunk cap (Counter k) s =
     (if k < length (pools s) then
        (case reading s ! k of
           None \<Rightarrow> (case bytesum s ! k of [] \<Rightarrow> None
                    | a # q \<Rightarrow> Some (s\<lparr>bytesum := (bytesum s)[k := q], reading := (reading s)[k := Some (a, 0)]\<rparr>))
         | Some (a, i) \<Rightarrow>
             if int i \<le> ptr (heap s a)
             then Some (s\<lparr>htable := bump (htable s) (cells (heap s a) ! i), reading := (reading s)[k := Some (a, i + 1)]\<rparr>)
             else Some (s\<lparr>pools := (pools s)[k := a # pools s ! k], reading := (reading s)[k := None]\<rparr>))
      else None)"

lemma hp_do_step: "hp_do chunk cap e s = Some t \<Longrightarrow> hp_step chunk cap s t"
proof (cases e)
  case (Worker w)
  moreover assume "hp_do chunk cap e s = Some t"
  ultimately show ?thesis
    using p_count [of w s chunk cap]
    by (cases "hpc (pworkers s ! w)")
      (auto simp: Let_def split: if_splits list.splits intro: p_killed p_begin p_got p_write p_full p_send p_read [simplified] p_sent)
next
  case (Pooled w a)
  moreover assume "hp_do chunk cap e s = Some t"
  ultimately show ?thesis by (auto split: if_splits hp_pc.splits intro: p_pooled)
next
  case (Fresh w)
  moreover assume "hp_do chunk cap e s = Some t"
  ultimately show ?thesis by (auto split: if_splits hp_pc.splits intro: p_new [simplified])
next
  case (Counter k)
  moreover assume "hp_do chunk cap e s = Some t"
  ultimately show ?thesis
    using c_bump [of k s "fst (the (reading s ! k))" "snd (the (reading s ! k))" chunk cap]
      c_put [of k s "fst (the (reading s ! k))" "snd (the (reading s ! k))" chunk cap]
    by (auto simp: not_le split: if_splits option.splits list.splits intro: c_recv)
qed

fun hp_run :: "nat \<Rightarrow> nat \<Rightarrow> hp_act list \<Rightarrow> hp_state \<Rightarrow> hp_state option" where
  "hp_run chunk cap [] s = Some s"
| "hp_run chunk cap (e # es) s = (case hp_do chunk cap e s of None \<Rightarrow> None | Some t \<Rightarrow> hp_run chunk cap es t)"

lemma hp_run_from: "hp_run chunk cap es t = Some u \<Longrightarrow> reaches (hp_step chunk cap) s t \<Longrightarrow> reaches (hp_step chunk cap) s u"
  by (induction es arbitrary: t) (auto split: option.splits dest!: hp_do_step dest: reaches_step)

lemma hp_run_reaches: "hp_run chunk cap es s = Some u \<Longrightarrow> reaches (hp_step chunk cap) s u"
  by (rule hp_run_from [OF _ reaches_refl])

text \<open>What is seen of a state.\<close>

definition hp_seen :: "hp_state \<Rightarrow> hp_pc list \<times> addr list list \<times> (addr \<times> nat) option list \<times> u64 list \<times> 16 word list \<times> bool" where
  "hp_seen s = (map hpc (pworkers s), bytesum s, reading s, counted s, htable s, killworker s)"

lemma seen_reaches:
  assumes "map_option hp_seen (hp_run chunk cap es s) = Some v"
  shows "\<exists>t. reaches (hp_step chunk cap) s t \<and> hp_seen t = v"
proof -
  obtain t where "hp_run chunk cap es s = Some t" "hp_seen t = v" using assms by auto
  then show ?thesis using hp_run_reaches by blast
qed

section \<open>Properties\<close>

text \<open>
  C17. The use of the carriers again refines handing values over: whatever the pools answer and the garbage collector drops,
  and however workers and counters interleave, no index is out of range, every carrier has at most one owner, and what
  the goroutines do is a run of the goroutines without memory.
\<close>

theorem pool_refines:
  assumes "0 < counters" "\<forall>bs \<in> set ws. \<forall>b \<in> set bs. length b \<le> chunk"
    and "reaches (hp_step chunk cap) (hp_start counters places ws) s"
  shows "reaches (hv_step chunk cap) (hv_start counters places ws) (view s) \<and> \<not> index_panic s \<and> (\<forall>a. owned s a \<le> 1)"
  using hp_steps_good [OF assms(3) hp_start_ok(1) [OF assms(1,2)]] hp_start_ok(2) [OF assms(1,2)] by (auto simp: hp_inv_def)

text \<open>
  When all workers have ended, none was stopped, and no carrier is on the way, the table counts every hash value of
  every chunk, modulo 65536.
\<close>

theorem pool_counts_all:
  assumes "0 < counters" "\<forall>bs \<in> set ws. \<forall>b \<in> set bs. length b \<le> chunk"
    and "reaches (hp_step chunk cap) (hp_start counters places ws) s" "\<not> killworker s"
    and "\<forall>p \<in> set (pworkers s). hpc p = PEnd" "\<forall>q \<in> set (bytesum s). q = []" "\<forall>r \<in> set (reading s). r = None" "unat h < places"
  shows "htable s ! unat h = of_nat (count_list (concat (concat ws)) h)"
proof -
  have "reaches (hv_step chunk cap) (hv_start counters places ws) (view s)"
    using hp_steps_good [OF assms(3) hp_start_ok(1) [OF assms(1,2)]] hp_start_ok(2) [OF assms(1,2)] by simp
  then have inv: "hv_inv places (count_list (concat (concat ws))) counters (view s)"
    by (rule hv_values.inv_reaches [OF _ hv_start_ok])
  have "count_list (concat (fst w)) h + to_send h (snd w) = 0" if "w \<in> set (vworkers (view s))" for w
  proof -
    have "snd w = VEnd" using assms(5) that by (auto simp: view_worker_def)
    moreover have "\<forall>w \<in> set (vworkers (view s)). snd w = VEnd \<and> \<not> vkill (view s) \<longrightarrow> fst w = []" using inv unfolding hv_inv_def by blast
    then have "fst w = []" using assms(4) that calculation by (simp only: view_fields) blast
    ultimately show ?thesis by simp
  qed
  moreover have "parts_count h q = 0" if "q \<in> set (vchans (view s))" for q
    using assms(6) that by auto
  moreover have "(case r of None \<Rightarrow> 0 | Some c \<Rightarrow> count_list c h) = 0" if "r \<in> set (vreading (view s))" for r
    using assms(7) that by (auto simp: view_reading_def)
  ultimately have "to_count h (view s) = 0"
    unfolding to_count_def by (simp only: sum_list_zero add_0)
  moreover have "htable s ! unat h + of_nat (to_count h (view s)) = of_nat (count_list (concat (concat ws)) h)"
    using inv assms(8) by (auto simp: hv_inv_def)
  ultimately show ?thesis by simp
qed


text \<open>One worker, one chunk of one value.\<close>

lemma one_chunk:
  "\<exists>t. reaches (hp_step 1 1) (hp_start 1 8 [[[5]]]) t \<and> hp_seen t = ([PEnd], [[]], [None], [1], [0, 0, 0, 0, 0, 1, 0, 0], False)"
  by (rule seen_reaches [where es = "[Worker 0, Fresh 0] @ replicate 7 (Worker 0) @ replicate 3 (Counter 0)"]) code_simp

theorem pool_refines_witness:
  "\<exists>t. reaches (hv_step 1 1) (hv_start 1 8 [[[5]]]) (view t) \<and> \<not> index_panic t \<and> htable t ! 5 = 1"
proof -
  obtain t where t: "reaches (hp_step 1 1) (hp_start 1 8 [[[5]]]) t" "hp_seen t = ([PEnd], [[]], [None], [1], [0, 0, 0, 0, 0, 1, 0, 0], False)"
    using one_chunk by blast
  show ?thesis using pool_refines [OF _ _ t(1)] t(2) by (intro exI [of _ t]) (simp add: hp_seen_def)
qed

theorem pool_counts_all_witness:
  "\<exists>t. reaches (hp_step 1 1) (hp_start 1 8 [[[5]]]) t \<and> htable t ! unat (5 :: 32 word) = of_nat (count_list [5 :: 32 word] 5)"
proof -
  obtain t where t: "reaches (hp_step 1 1) (hp_start 1 8 [[[5]]]) t" "hp_seen t = ([PEnd], [[]], [None], [1], [0, 0, 0, 0, 0, 1, 0, 0], False)"
    using one_chunk by blast
  have "\<not> killworker t" "\<forall>p \<in> set (pworkers t). hpc p = PEnd" "\<forall>q \<in> set (bytesum t). q = []" "\<forall>r \<in> set (reading t). r = None"
    using t(2) by (auto simp: hp_seen_def)
  then have "htable t ! unat (5 :: 32 word) = of_nat (count_list (concat (concat [[[5 :: 32 word]]])) 5)"
    using pool_counts_all [OF _ _ t(1), of 5] by simp
  then show ?thesis using t(1) by (intro exI [of _ t]) simp
qed


end
