(* ===== verification/Proxy_Variants.thy ===== *)
theory Proxy_Variants
  imports Net_Poll_Props
begin

text \<open>
  The variants of the splice proxy and the program that compares them: the copy of \<open>splice\<close> in
  \<open>src/netsplice-echo-proxy/splicetest/funny/splice_linux.go\<close>, whose loop ends in another way, the proxy
  without \<open>splice\<close> (\<open>src/netsplice-echo-proxy/dada-funny/proxy_normal.go\<close>), which copies with \<open>io.Copy\<close>, and the
  echo test \<open>src/netsplice-echo-proxy/splicetest/splicetest.go\<close>.
\<close>

section \<open>The other copy of splice\<close>

text \<open>The error of \<open>writeTo\<close> is not tested after the call but by the condition of the loop.\<close>

function funny_loop :: "splice_err option \<Rightarrow> splicePipe \<Rightarrow> (splice_err option \<times> splicePipe) option" where
  "funny_loop err s =
     (if err = None \<and> toread s \<noteq> 0 then
        (case readFrom s of
           None \<Rightarrow> None
         | Some (Some e, s1) \<Rightarrow> Some (Some e, s1)
         | Some (None, s1) \<Rightarrow>
             (case writeTo s1 of
                None \<Rightarrow> None
              | Some (err', s2) \<Rightarrow> funny_loop err' s2))
      else Some (err, s))"
  by pat_completeness auto
termination
  by (relation "measure (\<lambda>(err, s). if err = None then Suc (loop_size s) else 0)") (auto dest: loop_size_decreases)

declare funny_loop.simps [simp del]

definition funny_splice ::
  "splice_env \<Rightarrow> int \<Rightarrow> src_event list \<Rightarrow> dst_event list \<Rightarrow> ((int \<times> splice_err option \<times> bool) \<times> splicePipe) option"
where
  "funny_splice env amt ss ds =
     (let s0 = init_pipe amt ss ds
      in if \<not> wlock_ok env then Some ((0, Some EpollError, True), s0)
         else if \<not> rlock_ok env then Some ((0, Some EpollError, True), s0)
         else if pipe2 env \<noteq> PipeOk then Some ((0, Some PipeError, pipe2 env \<noteq> PipeENOSYS), s0)
         else (case funny_loop None s0 of
             None \<Rightarrow> None
           | Some (err, s1) \<Rightarrow>
               (case flush s1 of
                  None \<Rightarrow> None
                | Some (err1, s2) \<Rightarrow>
                    (let err' = (if err = None then err1 else err);
                         closerr = destroy_pipe env
                     in Some ((written s2, if err' = None then closerr else err', True), s2)))))"

lemma funny_loop_error [simp]: "funny_loop (Some e) s = Some (Some e, s)"
  by (subst funny_loop.simps) simp

lemma funny_loop_agrees: "funny_loop None s = splice_loop s"
proof (induction s rule: splice_loop.induct)
  case (1 s)
  show ?case
    using 1 by (subst funny_loop.simps, subst splice_loop.simps) (auto split: option.splits prod.splits)
qed

text \<open>Both copies of \<open>splice\<close> return the same and leave the same behind, or block on the same input.\<close>

theorem funny_splice_agrees: "funny_splice = splice"
  by (intro ext) (simp add: funny_splice_def splice_def funny_loop_agrees Let_def)

section \<open>Transfer with io.Copy\<close>

text \<open>
  Two goroutines copy, one each way.  \<open>io.Copy\<close> repeats a read of at most 32768 bytes and a write of what
  was read; it returns at the end of its source without an error and else with the first error.  The
  goroutine that returns first closes both connections, and reads and writes of the other then fail.
\<close>

datatype copy_err = ReadErr | WriteErr | UseOfClosed

datatype copy_pc = Reading | Writing bytes | Closing "copy_err option" | Finished "copy_err option"

text \<open>\<open>unread\<close> is what the source still delivers; its end is the end of the stream.\<close>

record copy_dir =
  unread :: bytes
  copied :: bytes
  copy_at :: copy_pc

record normal_state =
  dir12 :: copy_dir
  dir21 :: copy_dir
  conns_closed :: bool

inductive copy_step :: "bool \<Rightarrow> copy_dir \<Rightarrow> copy_dir \<Rightarrow> bool" where
  copy_read: "copy_at d = Reading \<Longrightarrow> n \<noteq> 0 \<Longrightarrow> n \<le> 32768 \<Longrightarrow> n \<le> length (unread d) \<Longrightarrow>
    copy_step False d (d\<lparr>copy_at := Writing (take n (unread d)), unread := drop n (unread d)\<rparr>)"
| copy_eof: "copy_at d = Reading \<Longrightarrow> unread d = [] \<Longrightarrow> copy_step False d (d\<lparr>copy_at := Closing None\<rparr>)"
| copy_read_fails: "copy_at d = Reading \<Longrightarrow> copy_step False d (d\<lparr>copy_at := Closing (Some ReadErr)\<rparr>)"
| copy_read_closed: "copy_at d = Reading \<Longrightarrow> copy_step True d (d\<lparr>copy_at := Closing (Some UseOfClosed)\<rparr>)"
| copy_write: "copy_at d = Writing b \<Longrightarrow> copy_step False d (d\<lparr>copy_at := Reading, copied := copied d @ b\<rparr>)"
| copy_write_fails: "copy_at d = Writing b \<Longrightarrow> k \<le> length b \<Longrightarrow>
    copy_step False d (d\<lparr>copy_at := Closing (Some WriteErr), copied := copied d @ take k b\<rparr>)"
| copy_write_closed: "copy_at d = Writing b \<Longrightarrow> k \<le> length b \<Longrightarrow>
    copy_step True d (d\<lparr>copy_at := Closing (Some UseOfClosed), copied := copied d @ take k b\<rparr>)"

inductive normal_step :: "normal_state \<Rightarrow> normal_state \<Rightarrow> bool" where
  step12: "copy_step (conns_closed s) (dir12 s) d \<Longrightarrow> normal_step s (s\<lparr>dir12 := d\<rparr>)"
| step21: "copy_step (conns_closed s) (dir21 s) d \<Longrightarrow> normal_step s (s\<lparr>dir21 := d\<rparr>)"
| close12: "copy_at (dir12 s) = Closing e \<Longrightarrow>
    normal_step s (s\<lparr>dir12 := (dir12 s)\<lparr>copy_at := Finished e\<rparr>, conns_closed := True\<rparr>)"
| close21: "copy_at (dir21 s) = Closing e \<Longrightarrow>
    normal_step s (s\<lparr>dir21 := (dir21 s)\<lparr>copy_at := Finished e\<rparr>, conns_closed := True\<rparr>)"

definition normal_start :: "bytes \<Rightarrow> bytes \<Rightarrow> normal_state" where
  "normal_start b1 b2 =
     \<lparr>dir12 = \<lparr>unread = b1, copied = [], copy_at = Reading\<rparr>, dir21 = \<lparr>unread = b2, copied = [], copy_at = Reading\<rparr>,
      conns_closed = False\<rparr>"

text \<open>What \<open>Transfer\<close> returns once both goroutines have ended: \<open>None\<close> before.\<close>

definition normal_Transfer :: "normal_state \<Rightarrow> copy_err option option" where
  "normal_Transfer s =
     (case (copy_at (dir21 s), copy_at (dir12 s)) of
        (Finished err1, Finished err2) \<Rightarrow> Some (if err1 \<noteq> None then err1 else err2)
      | _ \<Rightarrow> None)"

text \<open>What a direction has moved, has in hand and still has to read is what its peer sent.\<close>

definition dir_inv :: "bytes \<Rightarrow> copy_dir \<Rightarrow> bool" where
  "dir_inv b d \<longleftrightarrow> prefix (copied d) b
     \<and> (copy_at d = Reading \<longrightarrow> copied d @ unread d = b)
     \<and> (\<forall>w. copy_at d = Writing w \<longrightarrow> copied d @ w @ unread d = b)
     \<and> (copy_at d = Closing None \<or> copy_at d = Finished None \<longrightarrow> copied d = b)"

lemma copy_step_inv: "copy_step c d d' \<Longrightarrow> dir_inv b d \<Longrightarrow> dir_inv b d'"
  by (induction rule: copy_step.induct)
     (auto simp: dir_inv_def prefix_def,
      (metis append.assoc append_take_drop_id)+)

definition normal_inv :: "bytes \<Rightarrow> bytes \<Rightarrow> normal_state \<Rightarrow> bool" where
  "normal_inv b1 b2 s \<longleftrightarrow> dir_inv b1 (dir12 s) \<and> dir_inv b2 (dir21 s)"

lemma dir_inv_close: "dir_inv b d \<Longrightarrow> copy_at d = Closing e \<Longrightarrow> dir_inv b (d\<lparr>copy_at := Finished e\<rparr>)"
  by (auto simp: dir_inv_def)

lemma normal_step_inv: "normal_step s t \<Longrightarrow> normal_inv b1 b2 s \<Longrightarrow> normal_inv b1 b2 t"
  by (induction rule: normal_step.induct) (auto simp: normal_inv_def intro: copy_step_inv dir_inv_close)

interpretation normal: transition_invariant normal_step "normal_inv b1 b2" for b1 b2
  by unfold_locales (rule normal_step_inv)

lemma normal_inv_start: "normal_inv b1 b2 (normal_start b1 b2)"
  by (simp add: normal_inv_def dir_inv_def normal_start_def)

text \<open>
  C40. In every interleaving and whatever fails, each side has received a prefix of what the other sent; and when
  \<open>Transfer\<close> returns without an error, both have received everything.
\<close>

theorem normal_Transfer_complete:
  assumes "reaches normal_step (normal_start b1 b2) s"
  shows "prefix (copied (dir12 s)) b1 \<and> prefix (copied (dir21 s)) b2
    \<and> (normal_Transfer s = Some None \<longrightarrow> copied (dir12 s) = b1 \<and> copied (dir21 s) = b2)"
proof -
  have inv: "normal_inv b1 b2 s" using normal.inv_reaches [OF assms] normal_inv_start by blast
  then have "prefix (copied (dir12 s)) b1" "prefix (copied (dir21 s)) b2" by (auto simp: normal_inv_def dir_inv_def)
  moreover have "copied (dir12 s) = b1 \<and> copied (dir21 s) = b2" if "normal_Transfer s = Some None"
  proof -
    have "copy_at (dir12 s) = Finished None" "copy_at (dir21 s) = Finished None"
      using that by (auto simp: normal_Transfer_def split: copy_pc.splits if_splits)
    then show ?thesis using inv by (simp add: normal_inv_def dir_inv_def)
  qed
  ultimately show ?thesis by blast
qed

text \<open>
  A peer that closes its sending side and waits for the answer can lose it: when its end of stream is seen
  first, both connections are closed and the copy of the answer fails before its first byte.
\<close>

theorem normal_Transfer_half_close:
  "\<exists>s. reaches normal_step (normal_start [] b2) s \<and> normal_Transfer s = Some (Some UseOfClosed) \<and> copied (dir21 s) = []"
proof -
  let ?s0 = "normal_start [] b2"
  let ?s1 = "?s0\<lparr>dir12 := (dir12 ?s0)\<lparr>copy_at := Closing None\<rparr>\<rparr>"
  let ?s2 = "?s1\<lparr>dir12 := (dir12 ?s1)\<lparr>copy_at := Finished None\<rparr>, conns_closed := True\<rparr>"
  let ?s3 = "?s2\<lparr>dir21 := (dir21 ?s2)\<lparr>copy_at := Closing (Some UseOfClosed)\<rparr>\<rparr>"
  let ?s4 = "?s3\<lparr>dir21 := (dir21 ?s3)\<lparr>copy_at := Finished (Some UseOfClosed)\<rparr>, conns_closed := True\<rparr>"
  have "normal_step ?s0 ?s1"
    by (rule step12) (simp add: normal_start_def copy_step.simps)
  moreover have "normal_step ?s1 ?s2" by (rule close12) simp
  moreover have "normal_step ?s2 ?s3"
    by (rule step21) (simp add: normal_start_def copy_step.simps)
  moreover have "normal_step ?s3 ?s4" by (rule close21) simp
  ultimately have "reaches normal_step ?s0 ?s4" by (blast intro: reaches_step reaches_one)
  then show ?thesis by (intro exI [of _ ?s4]) (simp add: normal_Transfer_def normal_start_def)
qed

lemma copy_can_close: "\<exists>d' e. copy_at d = Closing e \<or> copy_at d = Finished e \<or> copy_step c d d' \<and> copy_at d' = Closing e"
proof (cases "copy_at d")
  case Reading
  then have "copy_step c d (d\<lparr>copy_at := Closing (Some (if c then UseOfClosed else ReadErr))\<rparr>)"
    by (cases c) (auto intro: copy_step.intros)
  then show ?thesis by fastforce
next
  case (Writing b)
  then have "copy_step c d (d\<lparr>copy_at := Closing (Some (if c then UseOfClosed else WriteErr)), copied := copied d @ take 0 b\<rparr>)"
    using copy_write_fails [of d b 0] copy_write_closed [of d b 0] by (cases c) simp_all
  then show ?thesis by fastforce
qed auto

lemma dir12_can_finish: "\<exists>t e. reaches normal_step s t \<and> copy_at (dir12 t) = Finished e \<and> dir21 t = dir21 s"
proof -
  obtain s1 e where s1: "reaches normal_step s s1" "copy_at (dir12 s1) = Closing e \<or> copy_at (dir12 s1) = Finished e" "dir21 s1 = dir21 s"
    using copy_can_close [of "dir12 s" "conns_closed s"] reaches_one [of normal_step, OF step12 [of s]] reaches_refl [of normal_step s]
    by fastforce
  then show ?thesis
    using reaches_step [of normal_step, OF s1(1) close12 [of s1 e]] by fastforce
qed

lemma dir21_can_finish: "\<exists>t e. reaches normal_step s t \<and> copy_at (dir21 t) = Finished e \<and> dir12 t = dir12 s"
proof -
  obtain s1 e where s1: "reaches normal_step s s1" "copy_at (dir21 s1) = Closing e \<or> copy_at (dir21 s1) = Finished e" "dir12 s1 = dir12 s"
    using copy_can_close [of "dir21 s" "conns_closed s"] reaches_one [of normal_step, OF step21 [of s]] reaches_refl [of normal_step s]
    by fastforce
  then show ?thesis
    using reaches_step [of normal_step, OF s1(1) close21 [of s1 e]] by fastforce
qed

text \<open>Neither goroutine waits for the other: from every state \<open>Transfer\<close> can return.\<close>

theorem normal_Transfer_can_return: "\<exists>t. reaches normal_step s t \<and> normal_Transfer t \<noteq> None"
proof -
  obtain t1 e1 where t1: "reaches normal_step s t1" "copy_at (dir12 t1) = Finished e1" using dir12_can_finish by blast
  obtain t2 e2 where t2: "reaches normal_step t1 t2" "copy_at (dir21 t2) = Finished e2" "dir12 t2 = dir12 t1" using dir21_can_finish by blast
  have "reaches normal_step s t2" using reaches_trans [OF t2(1) t1(1)] .
  then show ?thesis using t1 t2 by (intro exI [of _ t2]) (simp add: normal_Transfer_def)
qed

theorem normal_Transfer_complete_witness:
  "\<exists>s. reaches normal_step (normal_start ''a'' []) s \<and> prefix (copied (dir12 s)) ''a'' \<and> copied (dir12 s) = ''a''"
proof -
  let ?s0 = "normal_start ''a'' []"
  let ?s1 = "?s0\<lparr>dir12 := \<lparr>unread = [], copied = [], copy_at = Writing ''a''\<rparr>\<rparr>"
  let ?s2 = "?s0\<lparr>dir12 := \<lparr>unread = [], copied = ''a'', copy_at = Reading\<rparr>\<rparr>"
  have "normal_step ?s0 ?s1"
    using step12 [of ?s0 "dir12 ?s1"] copy_read [of "dir12 ?s0" 1] by (simp add: normal_start_def)
  moreover have "normal_step ?s1 ?s2"
    using step12 [of ?s1 "dir12 ?s2"] copy_write [of "dir12 ?s1" "''a''"] by (simp add: normal_start_def)
  ultimately have "reaches normal_step ?s0 ?s2" by (blast intro: reaches_step reaches_one)
  from normal_Transfer_complete [OF this] this show ?thesis by (intro exI [of _ ?s2]) simp
qed

section \<open>The echo test\<close>

text \<open>
  \<open>draw\<close> is the sequence of numbers that \<open>rand.Intn\<close> is asked for; it is reduced to the range of the call.
\<close>

definition RandBytes :: "(nat \<Rightarrow> nat) \<Rightarrow> nat \<Rightarrow> bytes" where
  "RandBytes draw n = map (\<lambda>i. char_of (draw (Suc i) mod 255)) [0..<draw 0 mod n + 1]"

text \<open>
  One loop of the test: a block is sent and as many bytes are read back; an error (\<open>None\<close>) or a
  difference is fatal.  The result counts the rounds left and the bytes sent.
\<close>

fun echo_rounds :: "(bytes \<Rightarrow> bytes option) \<Rightarrow> bytes list \<Rightarrow> nat \<Rightarrow> nat option" where
  "echo_rounds conn [] x = Some x"
| "echo_rounds conn (b1 # blocks) x =
     (let x1 = x + length b1
      in case conn b1 of
           None \<Rightarrow> None
         | Some b2 \<Rightarrow> if b1 \<noteq> b2 then None else echo_rounds conn blocks x1)"

text \<open>The figure that is printed, with the clock in nanoseconds.\<close>

definition echo_rate :: "nat \<Rightarrow> nat \<Rightarrow> nat" where
  "echo_rate maxloop esp = (let esp1 = (if esp \<le> 0 then 1 else esp) in (maxloop * 1000000000) div esp1)"

lemma RandBytes_bounds:
  assumes "0 < n"
  shows "1 \<le> length (RandBytes draw n) \<and> length (RandBytes draw n) \<le> n \<and> CHR 0xFF \<notin> set (RandBytes draw n)"
proof -
  have "of_char (char_of (k mod 255)) \<noteq> (of_char (CHR 0xFF) :: nat)" for k :: nat
    using mod_less_divisor [of 255 k] by (simp add: of_char_of)
  then have "CHR 0xFF \<noteq> char_of (k mod 255)" for k :: nat by metis
  then have "CHR 0xFF \<notin> set (RandBytes draw n)" unfolding RandBytes_def set_map by blast
  then show ?thesis using assms mod_less_divisor [of n "draw 0"] by (auto simp: RandBytes_def Suc_le_eq)
qed

text \<open>The test passes exactly when every block comes back unchanged, and has then counted all bytes.\<close>

theorem echo_test_passes:
  "echo_rounds conn blocks x = (if \<forall>b \<in> set blocks. conn b = Some b then Some (x + length (concat blocks)) else None)"
  by (induction blocks arbitrary: x) (auto split: option.splits)

end
