(* ===== verification/Echo_Test.thy ===== *)
theory Echo_Test
  imports Proxy_Variants
begin

text \<open>
  \<open>main\<close> of \<open>src/netsplice-echo-proxy/splicetest/splicetest.go\<close>: an echo server, a proxy with \<open>io.Copy\<close>, a proxy with
  \<open>splice\<close>, and the client that sends blocks through one after the other.  The goroutine of the echo server calls
  \<open>Accept\<close> once.  A later connection to its address is made by the kernel and stays in the queue of the listener:
  it takes what is written and answers nothing.
\<close>

section \<open>The program\<close>

datatype echo_phase = NormalPhase | FunnyPhase

text \<open>The option \<open>-t\<close> chooses what is tested.\<close>

definition echo_phases :: "int \<Rightarrow> echo_phase list" where
  "echo_phases testflag =
     (if testflag = 0 \<or> testflag = 2 then [NormalPhase] else []) @ (if testflag = 0 \<or> testflag = 1 then [FunnyPhase] else [])"

text \<open>What comes back for a block: the bytes that \<open>ReadFull\<close> reads, an error, or nothing for ever.\<close>

datatype echo_answer = Echoed bytes | IoFailed | Silent
datatype echo_end = Passed "(echo_phase \<times> nat) list" | Fatal echo_phase | Hangs echo_phase nat

text \<open>The blocks of a phase; a hanging phase has sent \<open>x\<close> bytes before the block that is not answered.\<close>

fun echo_blocks :: "echo_phase \<Rightarrow> (bytes \<Rightarrow> echo_answer) \<Rightarrow> bytes list \<Rightarrow> nat \<Rightarrow> echo_end + nat" where
  "echo_blocks ph conn [] x = Inr x"
| "echo_blocks ph conn (b1 # blocks) x =
     (let x1 = x + length b1
      in case conn b1 of
           IoFailed \<Rightarrow> Inl (Fatal ph)
         | Silent \<Rightarrow> Inl (Hangs ph x)
         | Echoed b2 \<Rightarrow> if b1 = b2 then echo_blocks ph conn blocks x1 else Inl (Fatal ph))"

text \<open>
  The proxy of a phase dials the echo server when its client has connected.  \<open>free\<close>: the echo server has not
  accepted yet.  \<open>via\<close> is what a proxy and the echo server behind it answer.
\<close>

definition backend_conn :: "bool \<Rightarrow> (bytes \<Rightarrow> echo_answer) \<Rightarrow> bytes \<Rightarrow> echo_answer" where
  "backend_conn free via b = (if free then via b else Silent)"

fun echo_run :: "bool \<Rightarrow> (echo_phase \<Rightarrow> bytes \<Rightarrow> echo_answer) \<Rightarrow> (echo_phase \<times> bytes list) list \<Rightarrow> (echo_phase \<times> nat) list \<Rightarrow> echo_end" where
  "echo_run free via [] tested = Passed tested"
| "echo_run free via ((ph, blocks) # phases) tested =
     (case echo_blocks ph (backend_conn free (via ph)) blocks 0 of
        Inl e \<Rightarrow> e
      | Inr x \<Rightarrow> echo_run False via phases (tested @ [(ph, x)]))"

text \<open>The blocks that the random numbers give, \<open>maxloop\<close> in each phase.\<close>

definition splicetest_main :: "int \<Rightarrow> nat \<Rightarrow> (echo_phase \<Rightarrow> nat \<Rightarrow> nat \<Rightarrow> nat) \<Rightarrow> (echo_phase \<Rightarrow> bytes \<Rightarrow> echo_answer) \<Rightarrow> echo_end" where
  "splicetest_main testflag maxloop draw via =
     echo_run True via (map (\<lambda>ph. (ph, map (\<lambda>i. RandBytes (draw ph i) 256) [0..<maxloop])) (echo_phases testflag)) []"

section \<open>Lemmas\<close>

lemma echo_blocks_pass:
  "(\<And>b. b \<in> set blocks \<Longrightarrow> conn b = Echoed b) \<Longrightarrow> echo_blocks ph conn blocks x = Inr (x + length (concat blocks))"
  by (induction blocks arbitrary: x) auto

lemma echo_blocks_silent: "blocks \<noteq> [] \<Longrightarrow> (\<And>b. conn b = Silent) \<Longrightarrow> echo_blocks ph conn blocks x = Inl (Hangs ph x)"
  by (cases blocks) simp_all

text \<open>A phase that passes does what \<open>echo_rounds\<close> does.\<close>

lemma echo_blocks_rounds:
  "echo_blocks ph conn blocks x = Inr y \<longleftrightarrow>
     echo_rounds (\<lambda>b. case conn b of Echoed b2 \<Rightarrow> Some b2 | _ \<Rightarrow> None) blocks x = Some y"
  by (induction blocks arbitrary: x) (auto split: echo_answer.splits)

definition echo_total :: "nat \<Rightarrow> (nat \<Rightarrow> nat \<Rightarrow> nat) \<Rightarrow> nat" where
  "echo_total maxloop draw = length (concat (map (\<lambda>i. RandBytes (draw i) 256) [0..<maxloop]))"

lemma echo_total_bounds: "maxloop \<le> echo_total maxloop draw \<and> echo_total maxloop draw \<le> 256 * maxloop"
proof (induction maxloop)
  case (Suc k)
  have "1 \<le> length (RandBytes (draw k) 256)" "length (RandBytes (draw k) 256) \<le> 256"
    using RandBytes_bounds [of 256 "draw k"] by simp_all
  then show ?case using Suc by (simp add: echo_total_def)
qed (simp add: echo_total_def)

section \<open>Properties\<close>

text \<open>
  Between proxies that answer every block with itself, the test of one proxy passes with at least one and at most
  256 bytes a round.  The test of both never ends: the first proxy has taken the only connection that the echo
  server accepts, and the first block through the second is never answered.
\<close>

theorem splicetest_ends:
  assumes "\<And>ph b. via ph b = Echoed b" "0 < maxloop"
  shows "splicetest_main 1 maxloop draw via = Passed [(FunnyPhase, echo_total maxloop (draw FunnyPhase))]
    \<and> splicetest_main 2 maxloop draw via = Passed [(NormalPhase, echo_total maxloop (draw NormalPhase))]
    \<and> splicetest_main 0 maxloop draw via = Hangs FunnyPhase 0
    \<and> maxloop \<le> echo_total maxloop (draw ph) \<and> echo_total maxloop (draw ph) \<le> 256 * maxloop"
proof -
  have pass: "echo_blocks ph (backend_conn True (via ph)) blocks 0 = Inr (length (concat blocks))" for ph blocks
    using echo_blocks_pass [of blocks "backend_conn True (via ph)" ph 0] by (simp add: backend_conn_def assms(1))
  have hang: "echo_blocks ph (backend_conn False (via ph)) blocks 0 = Inl (Hangs ph 0)" if "blocks \<noteq> []" for ph blocks
    using that by (rule echo_blocks_silent) (simp add: backend_conn_def)
  have "map (\<lambda>i. RandBytes (draw FunnyPhase i) 256) [0..<maxloop] \<noteq> []" using assms(2) by simp
  then show ?thesis
    using echo_total_bounds [of maxloop "draw ph"]
    by (simp add: splicetest_main_def echo_phases_def pass hang echo_total_def)
qed

theorem splicetest_ends_witness:
  "splicetest_main 0 100000 (\<lambda>_ _ _. 7) (\<lambda>_. Echoed) = Hangs FunnyPhase 0"
  using splicetest_ends [of "\<lambda>_. Echoed" 100000 "\<lambda>_ _ _. 7" NormalPhase] by simp

end
