(* ===== verification/Experiments.thy ===== *)
theory Experiments
  imports Go_Prelude
begin

text \<open>
  Programs that try out the runtime: the pools of \<open>src/syncpoolusage\<close> and \<open>src/syncpoolusage2\<close>, the unsynchronised
  64-bit integer of \<open>src/concurrencereadwriteint64\<close>, the wait group of \<open>src/syncwaitreturn\<close>, the encryption
  benchmark \<open>src/netaes\<close>, and the arrays that Go and C share in \<open>src/cgo-array\<close>.
\<close>

section \<open>syncpoolusage: how often a pool calls New\<close>

text \<open>
  \<open>sync.Pool\<close> may lose an item at any time: \<open>lost l\<close> says that the pool is empty when the turn \<open>l\<close> begins.  The turns
  are those of one goroutine, so at most one buffer is in the pool.
\<close>

record pool_run =
  in_pool :: "8 word list list"
  new_calls :: nat

definition pool_Get :: "pool_run \<Rightarrow> 8 word list \<times> pool_run" where
  "pool_Get p =
     (case in_pool p of
        [] \<Rightarrow> (replicate 4096 0, p\<lparr>new_calls := new_calls p + 1\<rparr>)
      | b # bs \<Rightarrow> (b, p\<lparr>in_pool := bs\<rparr>))"

definition pool_Put :: "8 word list \<Rightarrow> pool_run \<Rightarrow> pool_run" where
  "pool_Put b p = p\<lparr>in_pool := b # in_pool p\<rparr>"

definition pool_turn :: "bool \<Rightarrow> pool_run \<Rightarrow> pool_run" where
  "pool_turn is_lost p =
     (let p1 = (if is_lost then p\<lparr>in_pool := []\<rparr> else p);
          (b, p2) = pool_Get p1
      in pool_Put (map (\<lambda>_. 0) b) p2)"

fun pool_loop :: "(nat \<Rightarrow> bool) \<Rightarrow> nat \<Rightarrow> nat \<Rightarrow> pool_run \<Rightarrow> pool_run" where
  "pool_loop lost 0 l p = p"
| "pool_loop lost (Suc k) l p = pool_loop lost k (l + 1) (pool_turn (lost l) p)"

text \<open>Both tests of \<open>pooltest\<close>: a pool, then a new pool with the counter reset.\<close>

definition pooltest :: "(nat \<Rightarrow> bool) \<Rightarrow> (nat \<Rightarrow> bool) \<Rightarrow> nat \<Rightarrow> nat \<times> nat" where
  "pooltest lost1 lost2 loop =
     (new_calls (pool_loop lost1 loop 0 \<lparr>in_pool = [], new_calls = 0\<rparr>),
      new_calls (pool_loop lost2 loop 0 \<lparr>in_pool = [], new_calls = 0\<rparr>))"

text \<open>The tests that \<open>init\<close> and \<open>main\<close> run: processors, thread locked, scheduler called.\<close>

definition pool_tests :: "(nat \<times> bool \<times> bool) list" where
  "pool_tests = [(cpus, lock, sched). sched \<leftarrow> [False, True], cpus \<leftarrow> [1, 8], lock \<leftarrow> [True, False]]"

text \<open>The program \<open>syncpoolusage2\<close>: the same two tests, once.\<close>

definition syncpoolusage2 :: "(nat \<Rightarrow> bool) \<Rightarrow> (nat \<Rightarrow> bool) \<Rightarrow> nat \<times> nat" where
  "syncpoolusage2 lost1 lost2 = pooltest lost1 lost2 10000000"

lemma pool_turn_full:
  "in_pool p = [replicate 4096 0] \<Longrightarrow>
     pool_turn is_lost p = p\<lparr>new_calls := new_calls p + (if is_lost then 1 else 0)\<rparr>"
  by (simp add: pool_turn_def pool_Get_def pool_Put_def)

lemma pool_turn_empty: "in_pool p = [] \<Longrightarrow> pool_turn is_lost p = p\<lparr>in_pool := [replicate 4096 0], new_calls := new_calls p + 1\<rparr>"
  by (simp add: pool_turn_def pool_Get_def pool_Put_def)

lemma pool_loop_full:
  "in_pool p = [replicate 4096 0] \<Longrightarrow>
     pool_loop lost k l p = p\<lparr>new_calls := new_calls p + length (filter lost [l..<l + k])\<rparr>"
proof (induction k arbitrary: l p)
  case (Suc k)
  have "[l..<l + Suc k] = l # [Suc l..<Suc l + k]" by (simp add: upt_rec)
  then show ?case using Suc by (simp add: pool_turn_full)
qed simp

text \<open>
  A test calls \<open>New\<close> once at the beginning, and then once for every turn at which the pool has lost its buffer.
\<close>

theorem pooltest_counts:
  "fst (pooltest lost1 lost2 (Suc k)) = 1 + length (filter lost1 [1..<Suc k])"
  by (simp add: pooltest_def pool_turn_empty pool_loop_full)

section \<open>concurrencereadwriteint64: a race that cannot be seen\<close>

text \<open>
  The 64 bits are kept as two halves, each of which is read and written at once: more interleaving than any
  processor allows.  A writer has a value to write; a reader has read a half or none.
\<close>

datatype half = Low | High

record rw_state =
  halves :: "half \<Rightarrow> 32 word"
  to_write :: "nat \<Rightarrow> (half \<times> 32 word) list"
  have_read :: "nat \<Rightarrow> (half \<times> 32 word) list"
  printed :: "64 word list"

definition rw_value :: "nat \<Rightarrow> 64 word" where
  "rw_value r = of_nat (r mod 100 + 10)"

definition rw_halves :: "64 word \<Rightarrow> (half \<times> 32 word) list" where
  "rw_halves v = [(Low, ucast v), (High, ucast (drop_bit 32 v))]"

definition rw_join :: "32 word \<Rightarrow> 32 word \<Rightarrow> 64 word" where
  "rw_join hi lo = push_bit 32 (ucast hi) + ucast lo"

text \<open>What a reader prints.\<close>

definition rw_strange :: "64 word \<Rightarrow> bool" where
  "rw_strange rd \<longleftrightarrow> 0 <s rd \<and> (rd <s 10 \<or> 110 <s rd)"

inductive rw_step :: "rw_state \<Rightarrow> rw_state \<Rightarrow> bool" where
  rw_draw: "to_write s w = [] \<Longrightarrow> hs \<in> {rw_halves (rw_value r), rev (rw_halves (rw_value r))} \<Longrightarrow>
    rw_step s (s\<lparr>to_write := (to_write s)(w := hs)\<rparr>)"
| rw_write: "to_write s w = (h, v) # hs \<Longrightarrow>
    rw_step s (s\<lparr>halves := (halves s)(h := v), to_write := (to_write s)(w := hs)\<rparr>)"
| rw_read: "h \<notin> fst ` set (have_read s r) \<Longrightarrow>
    rw_step s (s\<lparr>have_read := (have_read s)(r := (h, halves s h) # have_read s r)\<rparr>)"
| rw_seen: "have_read s r = hs \<Longrightarrow> (High, hi) \<in> set hs \<Longrightarrow> (Low, lo) \<in> set hs \<Longrightarrow>
    rw_step s (s\<lparr>have_read := (have_read s)(r := []),
                 printed := printed s @ (if rw_strange (rw_join hi lo) then [rw_join hi lo] else [])\<rparr>)"

definition rw_start :: rw_state where
  "rw_start = \<lparr>halves = (\<lambda>_. 0), to_write = (\<lambda>_. []), have_read = (\<lambda>_. []), printed = []\<rparr>"

definition rw_half_ok :: "half \<Rightarrow> 32 word \<Rightarrow> bool" where
  "rw_half_ok h v \<longleftrightarrow> (case h of High \<Rightarrow> v = 0 | Low \<Rightarrow> v = 0 \<or> 10 \<le> unat v \<and> unat v < 110)"

definition rw_inv :: "rw_state \<Rightarrow> bool" where
  "rw_inv s \<longleftrightarrow> (\<forall>h. rw_half_ok h (halves s h)) \<and> (\<forall>w. \<forall>(h, v) \<in> set (to_write s w). rw_half_ok h v)
     \<and> (\<forall>r. \<forall>(h, v) \<in> set (have_read s r). rw_half_ok h v) \<and> printed s = []"

lemma rw_value_halves: "(h, v) \<in> set (rw_halves (rw_value r)) \<Longrightarrow> rw_half_ok h v"
proof -
  have m: "r mod 100 + 10 < 110" by simp
  obtain k where k: "r mod 100 + 10 = k" "10 \<le> k" "k < 110" using m by simp
  have "unat (ucast (of_nat k :: 64 word) :: 32 word) = k"
    using k(3) by (simp add: unsigned_ucast_eq unsigned_of_nat take_bit_nat_eq_self)
  moreover have "drop_bit 32 (of_nat k :: 64 word) = 0"
    using k(3) by (simp add: drop_bit_eq_div word_unat_eq_iff unat_div unsigned_of_nat take_bit_nat_eq_self)
  ultimately show "(h, v) \<in> set (rw_halves (rw_value r)) \<Longrightarrow> rw_half_ok h v"
    using k by (auto simp: rw_halves_def rw_value_def rw_half_ok_def)
qed

lemma rw_not_strange: "rw_half_ok High hi \<Longrightarrow> rw_half_ok Low lo \<Longrightarrow> \<not> rw_strange (rw_join hi lo)"
proof -
  assume "rw_half_ok High hi" and lo: "rw_half_ok Low lo"
  then have j: "rw_join hi lo = ucast lo" by (simp add: rw_half_ok_def rw_join_def)
  obtain k where k: "unat lo = k" "k = 0 \<or> 10 \<le> k" "k < 110" using lo by (cases "lo = 0") (auto simp: rw_half_ok_def)
  have u: "uint lo = int k" using k(1) by (metis uint_nat)
  have "sint (ucast lo :: 64 word) = int k"
    using k(3) u by (simp add: sint_uint unsigned_ucast_eq signed_take_bit_int_eq_self take_bit_int_eq_self)
  then show ?thesis using k by (auto simp: rw_strange_def j word_sless_alt)
qed

lemma rw_step_inv: "rw_step s t \<Longrightarrow> rw_inv s \<Longrightarrow> rw_inv t"
proof (induction rule: rw_step.induct)
  case (rw_draw s w hs r)
  then have "\<forall>(h, v) \<in> set hs. rw_half_ok h v" using rw_value_halves by auto
  then show ?case using rw_draw(3) by (simp add: rw_inv_def)
next
  case (rw_write s w h v hs)
  then have "rw_half_ok h v \<and> (\<forall>(h, v) \<in> set hs. rw_half_ok h v)" unfolding rw_inv_def by (metis case_prod_conv list.set_intros set_subset_Cons subsetD)
  then show ?case using rw_write(2) by (simp add: rw_inv_def)
next
  case (rw_read h s r)
  then show ?case by (auto simp: rw_inv_def)
next
  case (rw_seen s r hs hi lo)
  then have "rw_half_ok High hi" "rw_half_ok Low lo" by (fastforce simp: rw_inv_def)+
  then show ?case using rw_seen(4) rw_not_strange by (simp add: rw_inv_def)
qed

interpretation race: transition_invariant rw_step rw_inv
  by unfold_locales (rule rw_step_inv)

text \<open>
  However writers and readers interleave, and even when a read or a write goes half by half, nothing is ever printed:
  every value that is written fits into the lower half, so the test cannot show a torn access.
\<close>

theorem race_unseen:
  assumes "reaches rw_step rw_start s"
  shows "printed s = []"
proof -
  have "rw_inv rw_start" by (auto simp: rw_inv_def rw_start_def rw_half_ok_def split: half.split)
  then show ?thesis using race.inv_reaches [OF assms] by (simp add: rw_inv_def)
qed

theorem race_unseen_witness:
  "\<exists>s. reaches rw_step rw_start s \<and> halves s Low = 10 \<and> printed s = []"
proof -
  let ?s1 = "rw_start\<lparr>to_write := (to_write rw_start)(0 := rw_halves (rw_value 0))\<rparr>"
  let ?s2 = "?s1\<lparr>halves := (halves ?s1)(Low := 10), to_write := (to_write ?s1)(0 := [(High, 0)])\<rparr>"
  have hs: "rw_halves (rw_value 0) = [(Low, 10), (High, 0)]" by (simp add: rw_halves_def rw_value_def)
  have "rw_step rw_start ?s1" by (rule rw_draw [where r = 0]) (simp_all add: rw_start_def)
  moreover have "rw_step ?s1 ?s2" by (rule rw_write) (simp add: hs)
  ultimately have "reaches rw_step rw_start ?s2" by (blast intro: reaches_step reaches_one)
  then show ?thesis using race_unseen by (intro exI [of _ ?s2]) simp
qed

section \<open>syncwaitreturn\<close>

text \<open>
  The goroutine calls \<open>Done\<close> before its two lines and its delay; \<open>main\<close> prints when \<open>Wait\<close> returns and ends the
  process, whatever the goroutine does.
\<close>

datatype mama_line = IAmDone | ICanFly | MainExited

record mama_state =
  wg_count :: nat
  mama_at :: nat
  main_printed :: bool
  ended_process :: bool
  lines :: "mama_line list"

inductive mama_step :: "mama_state \<Rightarrow> mama_state \<Rightarrow> bool" where
  mama_done: "\<not> ended_process s \<Longrightarrow> mama_at s = 0 \<Longrightarrow> mama_step s (s\<lparr>wg_count := wg_count s - 1, mama_at := 1\<rparr>)"
| mama_first: "\<not> ended_process s \<Longrightarrow> mama_at s = 1 \<Longrightarrow> mama_step s (s\<lparr>lines := lines s @ [IAmDone], mama_at := 2\<rparr>)"
| mama_delay: "\<not> ended_process s \<Longrightarrow> mama_at s = 2 \<Longrightarrow> mama_step s (s\<lparr>mama_at := 3\<rparr>)"
| mama_second: "\<not> ended_process s \<Longrightarrow> mama_at s = 3 \<Longrightarrow> mama_step s (s\<lparr>lines := lines s @ [ICanFly], mama_at := 4\<rparr>)"
| mama_wait: "\<not> ended_process s \<Longrightarrow> \<not> main_printed s \<Longrightarrow> wg_count s = 0 \<Longrightarrow>
    mama_step s (s\<lparr>lines := lines s @ [MainExited], main_printed := True\<rparr>)"
| mama_exit: "\<not> ended_process s \<Longrightarrow> main_printed s \<Longrightarrow> mama_step s (s\<lparr>ended_process := True\<rparr>)"

definition mama_start :: mama_state where
  "mama_start = \<lparr>wg_count = 1, mama_at = 0, main_printed = False, ended_process = False, lines = []\<rparr>"

definition mama_inv :: "mama_state \<Rightarrow> bool" where
  "mama_inv s \<longleftrightarrow> wg_count s = (if mama_at s = 0 then 1 else 0) \<and> (ended_process s \<longrightarrow> main_printed s)
     \<and> (main_printed s \<longrightarrow> mama_at s \<noteq> 0)
     \<and> count_list (lines s) MainExited = (if main_printed s then 1 else 0)
     \<and> filter (\<lambda>l. l \<noteq> MainExited) (lines s) = (if mama_at s < 2 then [] else if mama_at s < 4 then [IAmDone] else [IAmDone, ICanFly])"

lemma mama_step_inv: "mama_step s t \<Longrightarrow> mama_inv s \<Longrightarrow> mama_inv t"
  by (induction rule: mama_step.induct) (auto simp: mama_inv_def count_list_append split: if_splits)

interpretation mama: transition_invariant mama_step mama_inv
  by unfold_locales (rule mama_step_inv)

text \<open>
  When the process ends, \<open>main\<close> has printed its line once, and the goroutine none, one or both of its lines in their
  order: waiting for the group does not wait for the goroutine.
\<close>

theorem mama_lines:
  assumes "reaches mama_step mama_start s" "ended_process s"
  shows "count_list (lines s) MainExited = 1
    \<and> filter (\<lambda>l. l \<noteq> MainExited) (lines s) \<in> {[], [IAmDone], [IAmDone, ICanFly]}"
proof -
  have "mama_inv mama_start" by (simp add: mama_inv_def mama_start_def)
  then have inv: "mama_inv s" by (rule mama.inv_reaches [OF assms(1)])
  then show ?thesis using assms(2) by (auto simp: mama_inv_def)
qed

theorem mama_lines_witness:
  "\<exists>s. reaches mama_step mama_start s \<and> ended_process s \<and> lines s = [MainExited]"
proof -
  let ?s1 = "mama_start\<lparr>wg_count := 0, mama_at := 1\<rparr>"
  let ?s2 = "?s1\<lparr>lines := [MainExited], main_printed := True\<rparr>"
  let ?s3 = "?s2\<lparr>ended_process := True\<rparr>"
  have "mama_step mama_start ?s1" "mama_step ?s1 ?s2" "mama_step ?s2 ?s3"
    using mama_done [of mama_start] mama_wait [of ?s1] mama_exit [of ?s2] by (simp_all add: mama_start_def)
  then have "reaches mama_step mama_start ?s3" by (blast intro: reaches_step reaches_one)
  then show ?thesis using mama_lines [of ?s3] by (intro exI [of _ ?s3]) (simp add: mama_start_def)
qed

section \<open>netaes\<close>

text \<open>
  The cipher is a library.  The program encrypts a megabyte of zeros, decrypts it, and ends with the code 8 when that
  fails or gives something else; then for every processor but one a worker encrypts once and then \<open>loop\<close> times, and the figures are printed.
\<close>

definition netaes_check :: "(bytes \<Rightarrow> bytes) \<Rightarrow> (bytes \<Rightarrow> bytes option) \<Rightarrow> bytes \<Rightarrow> nat option" where
  "netaes_check encrypt decrypt plaintext =
     (case decrypt (encrypt plaintext) of
        None \<Rightarrow> Some 8
      | Some detxt \<Rightarrow> if detxt = plaintext then None else Some 8)"

text \<open>The encryptions that the workers do, and the number that the program reports.\<close>

definition netaes_done :: "int \<Rightarrow> int \<Rightarrow> int" where
  "netaes_done loop ncpu = (\<Sum>i \<leftarrow> [0..ncpu - 2]. 1 + loop)"

definition netaes_total :: "int \<Rightarrow> int \<Rightarrow> int" where
  "netaes_total loop ncpu = loop * ncpu - 1"

text \<open>
  The reported number is not the number of encryptions: the subtraction that leaves a processor out binds weaker than
  the product.  On one processor nothing is encrypted and \<open>loop - 1\<close> encryptions are reported.
\<close>

theorem netaes_overcounts:
  "1 \<le> ncpu \<Longrightarrow> netaes_total loop ncpu = netaes_done loop ncpu + loop - ncpu"
proof -
  assume n: "1 \<le> ncpu"
  have "(\<Sum>i \<leftarrow> xs. 1 + loop) = int (length xs) * (1 + loop)" for xs :: "int list"
    by (induction xs) (simp_all add: algebra_simps)
  then show ?thesis using n by (simp add: netaes_total_def netaes_done_def algebra_simps)
qed

theorem netaes_overcounts_witness: "netaes_total 10000 8 = netaes_done 10000 8 + 9992"
  using netaes_overcounts [of 8 10000] by simp

section \<open>cgo-array\<close>

text \<open>
  Arrays of 32-bit integers in the memory of C, as bytes with the lowest first.  \<open>array_create\<close> clears \<open>length\<close> bytes
  of the memory that \<open>malloc\<close> gives, \<open>array_modify\<close> stores the value in every element.
\<close>

fun bytes_words :: "8 word list \<Rightarrow> 32 word list" where
  "bytes_words (a # b # c # d # bs) =
     (ucast a + push_bit 8 (ucast b) + push_bit 16 (ucast c) + push_bit 24 (ucast d)) # bytes_words bs"
| "bytes_words bs = []"

definition array_create :: "nat \<Rightarrow> 8 word list option \<Rightarrow> 8 word list option" where
  "array_create len mem =
     (case mem of None \<Rightarrow> None | Some junk \<Rightarrow> Some (replicate (min len (length junk)) 0 @ drop len junk))"

fun array_modify :: "nat \<Rightarrow> 32 word \<Rightarrow> 32 word list \<Rightarrow> 32 word list" where
  "array_modify 0 val xs = xs"
| "array_modify (Suc n) val xs = (array_modify n val xs)[n := val]"

text \<open>
  \<open>main\<close>: the array of Go as C changes it, the array of C as Go sees it, and both arrays at the end.  The last loop
  means the array of C and prints that of Go again.
\<close>

definition cgo_main :: "nat \<Rightarrow> 8 word list option \<Rightarrow> (32 word list \<times> 32 word list \<times> 32 word list) option" where
  "cgo_main len mem =
     (let arr = array_modify len 18 (replicate len 0)
      in case array_create len mem of
           None \<Rightarrow> None
         | Some m \<Rightarrow> let goSlice = bytes_words m in Some (arr, goSlice, array_modify len 18 goSlice))"

text \<open>
  \<open>array_create\<close> leaves three quarters of the array as \<open>malloc\<close> gave it; only an array that came cleared is cleared.
\<close>

theorem array_create_leaves:
  assumes "array_create len (Some junk) = Some mem" "length junk = 4 * len" "k < 4 * len"
  shows "length mem = 4 * len \<and> mem ! k = (if k < len then 0 else junk ! k)"
proof -
  have "mem = replicate len 0 @ drop len junk" using assms(1,2) by (simp add: array_create_def min_def)
  then show ?thesis using assms(2,3) by (auto simp: nth_append)
qed

theorem array_create_leaves_witness: "\<exists>mem. array_create 10 (Some (replicate 40 7)) = Some mem \<and> mem ! 10 = 7"
proof -
  obtain mem where m: "array_create 10 (Some (replicate 40 7)) = Some mem" by (simp add: array_create_def)
  then have "mem ! 10 = 7" using array_create_leaves [OF m, of 10] by simp
  then show ?thesis using m by blast
qed

lemma array_modify_all: "n \<le> length xs \<Longrightarrow> array_modify n val xs = replicate n val @ drop n xs"
proof (induction n)
  case (Suc n)
  then show ?case
    by (simp add: list_update_append replicate_append_same flip: Cons_nth_drop_Suc)
qed simp

lemma bytes_words_length: "length bs = 4 * n \<Longrightarrow> length (bytes_words bs) = n"
proof (induction bs arbitrary: n rule: bytes_words.induct)
  case (1 a b c d bs)
  then show ?case by (cases n) auto
qed auto

text \<open>At the end both arrays hold 18 everywhere, so the output of the last loop is right by accident.\<close>

theorem cgo_main_ends:
  assumes "length junk = 4 * len"
  shows "\<exists>goSlice. cgo_main len (Some junk) = Some (replicate len 18, goSlice, replicate len 18) \<and> length goSlice = len"
proof -
  obtain m where m: "array_create len (Some junk) = Some m" by (simp add: array_create_def)
  have "length m = 4 * len" using m assms by (auto simp: array_create_def)
  then have l: "length (bytes_words m) = len" by (rule bytes_words_length)
  then show ?thesis by (simp add: cgo_main_def m array_modify_all Let_def)
qed

theorem cgo_main_ends_witness:
  "\<exists>goSlice. cgo_main 10 (Some (replicate 40 7)) = Some (replicate 10 18, goSlice, replicate 10 18)"
  using cgo_main_ends [of "replicate 40 7" 10] by auto

end
