(* ===== verification/Tcp_Workload.thy ===== *)
theory Tcp_Workload
  imports Go_Prelude
begin

text \<open>
  The work load of \<open>src/tcpengine/tcpengine.go\<close>: the blocks that the handles of a client engine and of a server engine
  encrypt, send, receive and decrypt.  All connections of an engine share its buffer \<open>dummyBuf\<close>; every handle has its own
  cipher modes, which start from \<open>ivbuf\<close>.

  The modes are those of cipher block chaining, with the block cipher as a parameter: \<open>E\<close> and \<open>D\<close> are AES under the key
  of the engine.
\<close>

unbundle bit_operations_syntax

type_synonym block = "8 word list"

definition ivbuf :: block where
  "ivbuf = map (\<lambda>c. of_nat (of_char c)) ''4e681a397ab93cba''"

section \<open>Cipher block chaining\<close>

definition xor_block :: "block \<Rightarrow> block \<Rightarrow> block" where
  "xor_block a b = map2 (\<lambda>x y. x XOR y) a b"

text \<open>\<open>CryptBlocks\<close> of one block in place: the block and the next initialisation vector.\<close>

definition cbc_encrypt :: "(block \<Rightarrow> block) \<Rightarrow> block \<Rightarrow> block \<Rightarrow> block \<times> block" where
  "cbc_encrypt E iv b = (let c = E (xor_block b iv) in (c, c))"

definition cbc_decrypt :: "(block \<Rightarrow> block) \<Rightarrow> block \<Rightarrow> block \<Rightarrow> block \<times> block" where
  "cbc_decrypt D iv b = (xor_block (D b) iv, b)"

section \<open>Handles\<close>

datatype wl_pc = WEncrypt | WWrite | WRead | WDecrypt | WCount

record wl_handle =
  enc_iv :: block
  dec_iv :: block
  wpc :: wl_pc

record wl_engine =
  dummyBuf :: block
  handles :: "wl_handle list"
  rwCount :: nat

text \<open>Connection \<open>k\<close> of the client is connection \<open>k\<close> of the server; \<open>up\<close> and \<open>down\<close> are the bytes between them.\<close>

record wl_state =
  client :: wl_engine
  server :: wl_engine
  up :: "block list"
  down :: "block list"

text \<open>The turns of \<open>clientHandle\<close> and of \<open>serverHandle\<close>.\<close>

fun client_next :: "bool \<Rightarrow> wl_pc \<Rightarrow> wl_pc" where
  "client_next twoway WEncrypt = WWrite"
| "client_next twoway WWrite = (if twoway then WRead else WCount)"
| "client_next twoway WRead = WDecrypt"
| "client_next twoway WDecrypt = WCount"
| "client_next twoway WCount = WEncrypt"

fun server_next :: "bool \<Rightarrow> wl_pc \<Rightarrow> wl_pc" where
  "server_next twoway WRead = WDecrypt"
| "server_next twoway WDecrypt = (if twoway then WEncrypt else WCount)"
| "server_next twoway WEncrypt = WWrite"
| "server_next twoway WWrite = WCount"
| "server_next twoway WCount = WRead"

text \<open>What a handle does with the buffer at an encryption, a decryption or a count.\<close>

definition wl_local :: "(block \<Rightarrow> block) \<Rightarrow> (block \<Rightarrow> block) \<Rightarrow> (wl_pc \<Rightarrow> wl_pc) \<Rightarrow> nat \<Rightarrow> wl_engine \<Rightarrow> wl_engine" where
  "wl_local E D nxt k e =
     (let h = handles e ! k; h1 = h\<lparr>wpc := nxt (wpc h)\<rparr>
      in case wpc h of
           WEncrypt \<Rightarrow> (let (b, iv) = cbc_encrypt E (enc_iv h) (dummyBuf e)
                        in e\<lparr>dummyBuf := b, handles := (handles e)[k := h1\<lparr>enc_iv := iv\<rparr>]\<rparr>)
         | WDecrypt \<Rightarrow> (let (b, iv) = cbc_decrypt D (dec_iv h) (dummyBuf e)
                        in e\<lparr>dummyBuf := b, handles := (handles e)[k := h1\<lparr>dec_iv := iv\<rparr>]\<rparr>)
         | WCount \<Rightarrow> e\<lparr>rwCount := rwCount e + 1, handles := (handles e)[k := h1]\<rparr>
         | _ \<Rightarrow> e)"

text \<open>A read puts \<open>n\<close> bytes at the front of the buffer and leaves the rest of it; the number is not looked at.\<close>

definition wl_read :: "(wl_pc \<Rightarrow> wl_pc) \<Rightarrow> nat \<Rightarrow> block \<Rightarrow> wl_engine \<Rightarrow> wl_engine" where
  "wl_read nxt k bs e =
     e\<lparr>dummyBuf := bs @ drop (length bs) (dummyBuf e), handles := (handles e)[k := (handles e ! k)\<lparr>wpc := nxt WRead\<rparr>]\<rparr>"

definition wl_wrote :: "(wl_pc \<Rightarrow> wl_pc) \<Rightarrow> nat \<Rightarrow> wl_engine \<Rightarrow> wl_engine" where
  "wl_wrote nxt k e = e\<lparr>handles := (handles e)[k := (handles e ! k)\<lparr>wpc := nxt WWrite\<rparr>]\<rparr>"

text \<open>\<open>may_read\<close> gives the numbers of bytes that a read may answer with, for the number of bytes that have come.\<close>

inductive wl_step :: "(block \<Rightarrow> block) \<Rightarrow> (block \<Rightarrow> block) \<Rightarrow> bool \<Rightarrow> (nat \<Rightarrow> nat \<Rightarrow> bool) \<Rightarrow> wl_state \<Rightarrow> wl_state \<Rightarrow> bool"
  for E D twoway may_read where
  c_local: "k < length (handles (client s)) \<Longrightarrow> wpc (handles (client s) ! k) \<in> {WEncrypt, WDecrypt, WCount} \<Longrightarrow>
    wl_step E D twoway may_read s (s\<lparr>client := wl_local E D (client_next twoway) k (client s)\<rparr>)"
| s_local: "k < length (handles (server s)) \<Longrightarrow> wpc (handles (server s) ! k) \<in> {WEncrypt, WDecrypt, WCount} \<Longrightarrow>
    wl_step E D twoway may_read s (s\<lparr>server := wl_local E D (server_next twoway) k (server s)\<rparr>)"
| c_write: "k < length (handles (client s)) \<Longrightarrow> wpc (handles (client s) ! k) = WWrite \<Longrightarrow> k < length (up s) \<Longrightarrow>
    wl_step E D twoway may_read s
      (s\<lparr>client := wl_wrote (client_next twoway) k (client s), up := (up s)[k := up s ! k @ dummyBuf (client s)]\<rparr>)"
| s_write: "k < length (handles (server s)) \<Longrightarrow> wpc (handles (server s) ! k) = WWrite \<Longrightarrow> k < length (down s) \<Longrightarrow>
    wl_step E D twoway may_read s
      (s\<lparr>server := wl_wrote (server_next twoway) k (server s), down := (down s)[k := down s ! k @ dummyBuf (server s)]\<rparr>)"
| c_read: "k < length (handles (client s)) \<Longrightarrow> wpc (handles (client s) ! k) = WRead \<Longrightarrow> k < length (down s) \<Longrightarrow>
    may_read (length (down s ! k)) n \<Longrightarrow> 0 < n \<Longrightarrow> n \<le> length (down s ! k) \<Longrightarrow> n \<le> length (dummyBuf (client s)) \<Longrightarrow>
    wl_step E D twoway may_read s
      (s\<lparr>client := wl_read (client_next twoway) k (take n (down s ! k)) (client s), down := (down s)[k := drop n (down s ! k)]\<rparr>)"
| s_read: "k < length (handles (server s)) \<Longrightarrow> wpc (handles (server s) ! k) = WRead \<Longrightarrow> k < length (up s) \<Longrightarrow>
    may_read (length (up s ! k)) n \<Longrightarrow> 0 < n \<Longrightarrow> n \<le> length (up s ! k) \<Longrightarrow> n \<le> length (dummyBuf (server s)) \<Longrightarrow>
    wl_step E D twoway may_read s
      (s\<lparr>server := wl_read (server_next twoway) k (take n (up s ! k)) (server s), up := (up s)[k := drop n (up s ! k)]\<rparr>)"

text \<open>Both engines start with a buffer of zeros; a client handle starts to encrypt, a server handle to read.\<close>

definition wl_handle_start :: "wl_pc \<Rightarrow> wl_handle" where
  "wl_handle_start p = \<lparr>enc_iv = ivbuf, dec_iv = ivbuf, wpc = p\<rparr>"

definition wl_engine_start :: "wl_pc \<Rightarrow> nat \<Rightarrow> wl_engine" where
  "wl_engine_start p n = \<lparr>dummyBuf = replicate 16 0, handles = replicate n (wl_handle_start p), rwCount = 0\<rparr>"

definition wl_start :: "nat \<Rightarrow> wl_state" where
  "wl_start n = \<lparr>client = wl_engine_start WEncrypt n, server = wl_engine_start WRead n, up = replicate n [], down = replicate n []\<rparr>"

text \<open>Whole blocks: a read answers with all that has come.\<close>

definition whole_reads :: "nat \<Rightarrow> nat \<Rightarrow> bool" where
  "whole_reads have n \<longleftrightarrow> n = min have 16"

section \<open>Blocks\<close>

lemma length_xor [simp]: "length (xor_block a b) = min (length a) (length b)"
  by (simp add: xor_block_def)

lemma xor_twice [simp]: "length a = length b \<Longrightarrow> xor_block (xor_block a b) b = a"
  by (induction a b rule: list_induct2) (simp_all add: xor_block_def xor.assoc)

lemma length_ivbuf [simp]: "length ivbuf = 16"
  by (simp add: ivbuf_def)

section \<open>One connection\<close>

text \<open>The one handle of an engine, with its buffer and its count.\<close>

definition lone :: "block \<Rightarrow> block \<Rightarrow> block \<Rightarrow> wl_pc \<Rightarrow> nat \<Rightarrow> wl_engine" where
  "lone b e d p n = \<lparr>dummyBuf = b, handles = [\<lparr>enc_iv = e, dec_iv = d, wpc = p\<rparr>], rwCount = n\<rparr>"

definition pair :: "wl_engine \<Rightarrow> wl_engine \<Rightarrow> block \<Rightarrow> block \<Rightarrow> wl_state" where
  "pair c s u d = \<lparr>client = c, server = s, up = [u], down = [d]\<rparr>"

text \<open>
  The states of a connection in both directions.  \<open>x\<close> is the vector of the way up as the server has it, \<open>y\<close> that of the way
  down as the client has it.
\<close>

definition up_block :: "(block \<Rightarrow> block) \<Rightarrow> block \<Rightarrow> block \<Rightarrow> block" where
  "up_block E p x = E (xor_block p x)"

inductive wl_at :: "(block \<Rightarrow> block) \<Rightarrow> block \<Rightarrow> wl_state \<Rightarrow> bool" for E p where
  at_begin: "length x = 16 \<Longrightarrow> length y = 16 \<Longrightarrow> length b = 16 \<Longrightarrow> q = WRead \<and> m = n \<or> q = WCount \<and> m + 1 = n \<Longrightarrow>
    wl_at E p (pair (lone p x y WEncrypt n) (lone b y x q m) [] [])"
| at_encrypted: "length x = 16 \<Longrightarrow> length y = 16 \<Longrightarrow> length b = 16 \<Longrightarrow> q = WRead \<and> m = n \<or> q = WCount \<and> m + 1 = n \<Longrightarrow>
    wl_at E p (pair (lone (up_block E p x) (up_block E p x) y WWrite n) (lone b y x q m) [] [])"
| at_written: "length x = 16 \<Longrightarrow> length y = 16 \<Longrightarrow> length b = 16 \<Longrightarrow> length a = 16 \<Longrightarrow> q = WRead \<and> m = n \<or> q = WCount \<and> m + 1 = n \<Longrightarrow>
    wl_at E p (pair (lone a (up_block E p x) y WRead n) (lone b y x q m) (up_block E p x) [])"
| at_received: "length x = 16 \<Longrightarrow> length y = 16 \<Longrightarrow> length a = 16 \<Longrightarrow>
    wl_at E p (pair (lone a (up_block E p x) y WRead n) (lone (up_block E p x) y x WDecrypt n) [] [])"
| at_decrypted: "length x = 16 \<Longrightarrow> length y = 16 \<Longrightarrow> length a = 16 \<Longrightarrow>
    wl_at E p (pair (lone a x y WRead n) (lone p y x WEncrypt n) [] [])"
| at_reencrypted: "length x = 16 \<Longrightarrow> length y = 16 \<Longrightarrow> length a = 16 \<Longrightarrow>
    wl_at E p (pair (lone a x y WRead n) (lone (up_block E p y) (up_block E p y) x WWrite n) [] [])"
| at_answered: "length x = 16 \<Longrightarrow> length y = 16 \<Longrightarrow> length a = 16 \<Longrightarrow> length b = 16 \<Longrightarrow> q = WRead \<and> m = n + 1 \<or> q = WCount \<and> m = n \<Longrightarrow>
    wl_at E p (pair (lone a x y WRead n) (lone b (up_block E p y) x q m) [] (up_block E p y))"
| at_back: "length x = 16 \<Longrightarrow> length y = 16 \<Longrightarrow> length b = 16 \<Longrightarrow> q = WRead \<and> m = n + 1 \<or> q = WCount \<and> m = n \<Longrightarrow>
    wl_at E p (pair (lone (up_block E p y) x y WDecrypt n) (lone b (up_block E p y) x q m) [] [])"
| at_end: "length x = 16 \<Longrightarrow> length y = 16 \<Longrightarrow> length b = 16 \<Longrightarrow> q = WRead \<and> m = n + 1 \<or> q = WCount \<and> m = n \<Longrightarrow>
    wl_at E p (pair (lone p x y WCount n) (lone b y x q m) [] [])"


lemma pair_fields [simp]:
  "client (pair c s u d) = c" "server (pair c s u d) = s" "up (pair c s u d) = [u]" "down (pair c s u d) = [d]"
  "(pair c s u d)\<lparr>client := c'\<rparr> = pair c' s u d" "(pair c s u d)\<lparr>server := s'\<rparr> = pair c s' u d"
  "(pair c s u d)\<lparr>up := [u']\<rparr> = pair c s u' d" "(pair c s u d)\<lparr>down := [d']\<rparr> = pair c s u d'"
  "(pair c s u d)\<lparr>client := c', up := [u']\<rparr> = pair c' s u' d" "(pair c s u d)\<lparr>server := s', up := [u']\<rparr> = pair c s' u' d"
  "(pair c s u d)\<lparr>client := c', down := [d']\<rparr> = pair c' s u d'" "(pair c s u d)\<lparr>server := s', down := [d']\<rparr> = pair c s' u d'"
  by (simp_all add: pair_def)

lemma lone_fields [simp]:
  "handles (lone b e d q n) = [\<lparr>enc_iv = e, dec_iv = d, wpc = q\<rparr>]" "dummyBuf (lone b e d q n) = b" "rwCount (lone b e d q n) = n"
  by (simp_all add: lone_def)

text \<open>Each kind of step of an only handle.\<close>

lemma lone_steps:
  "wl_local E D nxt 0 (lone b e d WEncrypt n) = lone (up_block E b e) (up_block E b e) d (nxt WEncrypt) n"
  "wl_local E D nxt 0 (lone b e d WDecrypt n) = lone (xor_block (D b) d) e b (nxt WDecrypt) n"
  "wl_local E D nxt 0 (lone b e d WCount n) = lone b e d (nxt WCount) (n + 1)"
  "wl_wrote nxt 0 (lone b e d q n) = lone b e d (nxt WWrite) n"
  "wl_read nxt 0 bs (lone b e d q n) = lone (bs @ drop (length bs) b) e d (nxt WRead) n"
  by (simp_all add: lone_def wl_local_def wl_wrote_def wl_read_def cbc_encrypt_def cbc_decrypt_def up_block_def Let_def)

lemma pair_step:
  assumes "wl_step E D twoway whole_reads (pair (lone b e d q n) (lone b' e' d' q' n') u w) t"
  shows "q \<in> {WEncrypt, WDecrypt, WCount} \<and> t = pair (wl_local E D (client_next twoway) 0 (lone b e d q n)) (lone b' e' d' q' n') u w
    \<or> q' \<in> {WEncrypt, WDecrypt, WCount} \<and> t = pair (lone b e d q n) (wl_local E D (server_next twoway) 0 (lone b' e' d' q' n')) u w
    \<or> q = WWrite \<and> t = pair (lone b e d (client_next twoway WWrite) n) (lone b' e' d' q' n') (u @ b) w
    \<or> q' = WWrite \<and> t = pair (lone b e d q n) (lone b' e' d' (server_next twoway WWrite) n') u (w @ b')
    \<or> q = WRead \<and> w \<noteq> [] \<and> (length w = 16 \<and> length b = 16 \<longrightarrow> t = pair (lone w e d (client_next twoway WRead) n) (lone b' e' d' q' n') u [])
    \<or> q' = WRead \<and> u \<noteq> [] \<and> (length u = 16 \<and> length b' = 16 \<longrightarrow> t = pair (lone b e d q n) (lone u e' d' (server_next twoway WRead) n') [] w)"
  using assms
  by (cases rule: wl_step.cases) (auto simp: lone_steps whole_reads_def)

lemma wl_at_step:
  assumes "\<And>b. length b = 16 \<Longrightarrow> length (E b) = 16" "\<And>b. length b = 16 \<Longrightarrow> D (E b) = b" "length p = 16"
    and "wl_at E p s" "wl_step E D True whole_reads s t"
  shows "wl_at E p t"
proof -
  have up: "length x = 16 \<Longrightarrow> length (up_block E p x) = 16" "length x = 16 \<Longrightarrow> xor_block (D (up_block E p x)) x = p" for x
    using assms(1-3) by (simp_all add: up_block_def)
  have full: "length x = 16 \<Longrightarrow> up_block E p x \<noteq> []" for x using up(1) [of x] by auto
  from assms(4) show ?thesis
  proof cases
    case (at_begin x y b q m n)
    then show ?thesis
      using pair_step [OF assms(5) [unfolded at_begin(1)]] by (auto simp: lone_steps intro: wl_at.at_begin wl_at.at_encrypted)
  next
    case (at_encrypted x y b q m n)
    then show ?thesis
      using pair_step [OF assms(5) [unfolded at_encrypted(1)]] by (auto simp: lone_steps up intro: wl_at.at_encrypted wl_at.at_written)
  next
    case (at_written x y b a q m n)
    then show ?thesis
      using pair_step [OF assms(5) [unfolded at_written(1)]] by (auto simp: lone_steps up full intro: wl_at.at_written wl_at.at_received)
  next
    case (at_received x y a n)
    then show ?thesis
      using pair_step [OF assms(5) [unfolded at_received(1)]] by (auto simp: lone_steps up intro: wl_at.at_decrypted)
  next
    case (at_decrypted x y a n)
    then show ?thesis
      using pair_step [OF assms(5) [unfolded at_decrypted(1)]] by (auto simp: lone_steps up intro: wl_at.at_reencrypted)
  next
    case (at_reencrypted x y a n)
    then show ?thesis
      using pair_step [OF assms(5) [unfolded at_reencrypted(1)]] by (auto simp: lone_steps up intro: wl_at.at_answered)
  next
    case (at_answered x y a b q m n)
    then show ?thesis
      using pair_step [OF assms(5) [unfolded at_answered(1)]] by (auto simp: lone_steps up full intro: wl_at.at_back intro!: wl_at.at_answered)
  next
    case (at_back x y b q m n)
    then show ?thesis
      using pair_step [OF assms(5) [unfolded at_back(1)]] by (auto simp: lone_steps up intro: wl_at.at_end) (simp_all add: wl_at.at_back)
  next
    case (at_end x y b q m n)
    then show ?thesis
      using pair_step [OF assms(5) [unfolded at_end(1)]] by (auto simp: lone_steps up intro: wl_at.at_begin) (simp_all add: wl_at.at_end)
  qed
qed


interpretation workload: transition_invariant "wl_step E D True whole_reads" "\<lambda>s. (\<forall>b. length b = 16 \<longrightarrow> length (E b) = 16 \<and> D (E b) = b)
    \<and> length p = 16 \<longrightarrow> wl_at E p s" for E D p
  by unfold_locales (blast intro: wl_at_step)

lemma wl_start_at: "wl_at E (replicate 16 0) (wl_start 1)"
proof -
  have "wl_start 1 = pair (lone (replicate 16 0) ivbuf ivbuf WEncrypt 0) (lone (replicate 16 0) ivbuf ivbuf WRead 0) [] []"
    by (simp add: wl_start_def wl_engine_start_def wl_handle_start_def pair_def lone_def)
  then show ?thesis by (simp only:) (rule wl_at.at_begin, simp_all)
qed

lemma whole_16: "whole_reads 16 16"
  by (simp add: whole_reads_def)

lemma wl_at_possible: "wl_at E p s \<Longrightarrow> \<forall>b. length b = 16 \<longrightarrow> length (E b) = 16 \<Longrightarrow> length p = 16 \<Longrightarrow> \<exists>t. wl_step E D True whole_reads s t"
proof (induction rule: wl_at.induct)
  case (at_written x y b a q m n)
  then have "length (up_block E p x) = 16" by (simp add: up_block_def)
  then have "q = WRead \<Longrightarrow> \<exists>t. wl_step E D True whole_reads (pair (lone a (up_block E p x) y WRead n) (lone b y x q m) (up_block E p x) []) t"
    using at_written s_read [of 0 "pair (lone a (up_block E p x) y WRead n) (lone b y x q m) (up_block E p x) []" whole_reads 16 E D True]
    by (auto simp: whole_16)
  then show ?case
    using at_written s_local [of 0 "pair (lone a (up_block E p x) y WRead n) (lone b y x q m) (up_block E p x) []" E D True whole_reads] by auto
next
  case (at_answered x y a b q m n)
  then have "length (up_block E p y) = 16" by (simp add: up_block_def)
  then show ?case
    using at_answered c_read [of 0 "pair (lone a x y WRead n) (lone b (up_block E p y) x q m) [] (up_block E p y)" whole_reads 16 E D True]
    by (auto simp: whole_16)
next
  case (at_begin x y b q m n)
  then show ?case using c_local [of 0 "pair (lone p x y WEncrypt n) (lone b y x q m) [] []" E D True whole_reads] by auto
next
  case (at_encrypted x y b q m n)
  then show ?case
    using c_write [of 0 "pair (lone (up_block E p x) (up_block E p x) y WWrite n) (lone b y x q m) [] []" E D True whole_reads] by auto
next
  case (at_received x y a n)
  then show ?case
    using s_local [of 0 "pair (lone a (up_block E p x) y WRead n) (lone (up_block E p x) y x WDecrypt n) [] []" E D True whole_reads] by auto
next
  case (at_decrypted x y a n)
  then show ?case using s_local [of 0 "pair (lone a x y WRead n) (lone p y x WEncrypt n) [] []" E D True whole_reads] by auto
next
  case (at_reencrypted x y a n)
  then show ?case
    using s_write [of 0 "pair (lone a x y WRead n) (lone (up_block E p y) (up_block E p y) x WWrite n) [] []" E D True whole_reads] by auto
next
  case (at_back x y b q m n)
  then show ?case
    using c_local [of 0 "pair (lone (up_block E p y) x y WDecrypt n) (lone b (up_block E p y) x q m) [] []" E D True whole_reads] by auto
next
  case (at_end x y b q m n)
  then show ?case using c_local [of 0 "pair (lone p x y WCount n) (lone b y x q m) [] []" E D True whole_reads] by auto
qed

text \<open>What can be seen in each of the states.\<close>

lemma wl_at_seen:
  "wl_at E p s \<Longrightarrow> (wpc (handles (client s) ! 0) \<in> {WEncrypt, WCount} \<longrightarrow> dummyBuf (client s) = p)
     \<and> (wpc (handles (server s) ! 0) = WEncrypt \<longrightarrow> dummyBuf (server s) = p)
     \<and> rwCount (server s) \<le> rwCount (client s) + 1 \<and> rwCount (client s) \<le> rwCount (server s) + 1"
  by (induction rule: wl_at.induct) auto

section \<open>Properties\<close>

text \<open>
  C24. One connection in both directions is a round trip: with a block cipher whose decryption inverts its encryption, and as
  long as every read answers with a whole block, the server always decrypts the block that the client had before its
  encryption, the client gets it back, the counts of the two engines differ by at most one, and a step is always possible.
\<close>

theorem workload_roundtrip:
  assumes "\<forall>b. length b = 16 \<longrightarrow> length (E b) = 16 \<and> D (E b) = b"
    and "reaches (wl_step E D True whole_reads) (wl_start 1) s"
  shows "(wpc (handles (client s) ! 0) \<in> {WEncrypt, WCount} \<longrightarrow> dummyBuf (client s) = replicate 16 0)
    \<and> (wpc (handles (server s) ! 0) = WEncrypt \<longrightarrow> dummyBuf (server s) = replicate 16 0)
    \<and> rwCount (server s) \<le> rwCount (client s) + 1 \<and> rwCount (client s) \<le> rwCount (server s) + 1
    \<and> (\<exists>t. wl_step E D True whole_reads s t)"
proof -
  have "wl_at E (replicate 16 0) s"
    using workload.inv_reaches [OF assms(2), of "replicate 16 0"] wl_start_at assms(1) by simp
  then show ?thesis using wl_at_seen wl_at_possible assms(1) by simp
qed


text \<open>A cipher for examples.\<close>

definition shift :: "block \<Rightarrow> block" where "shift = map (\<lambda>x. x + 1)"
definition unshift :: "block \<Rightarrow> block" where "unshift = map (\<lambda>x. x - 1)"

lemma unshift_shift: "length b = 16 \<longrightarrow> length (shift b) = 16 \<and> unshift (shift b) = b"
  by (simp add: shift_def unshift_def o_def)

theorem workload_roundtrip_witness:
  "dummyBuf (client (wl_start 1)) = replicate 16 0 \<and> (\<exists>t. wl_step shift unshift True whole_reads (wl_start 1) t)"
proof -
  have "wpc (handles (client (wl_start 1)) ! 0) = WEncrypt" by (simp add: wl_start_def wl_engine_start_def wl_handle_start_def)
  then show ?thesis using workload_roundtrip [of shift unshift "wl_start 1"] unshift_shift by (simp add: reaches_refl)
qed

text \<open>
  With two connections the handles of the client encrypt in the same buffer: the second encrypts what the first has
  encrypted, and the server decrypts a block that no handle had before its encryption.
\<close>

lemma workload_shared:
  assumes "\<forall>b. length b = 16 \<longrightarrow> length (E b) = 16 \<and> D (E b) = b"
  shows "\<exists>s. reaches (wl_step E D twoway whole_reads) (wl_start 2) s \<and> wpc (handles (server s) ! 0) = server_next twoway WDecrypt
    \<and> dummyBuf (server s) = E (xor_block (replicate 16 0) ivbuf)"
proof -
  let ?step = "wl_step E D twoway whole_reads"
  define c1 where "c1 = E (xor_block (replicate 16 0) ivbuf)"
  define c2 where "c2 = E (xor_block c1 ivbuf)"
  have len: "length c1 = 16" "length c2 = 16" "D c2 = xor_block c1 ivbuf" using assms by (simp_all add: c1_def c2_def)
  let ?w = "\<lparr>enc_iv = ivbuf, dec_iv = ivbuf, wpc = WEncrypt\<rparr>" and ?r = "\<lparr>enc_iv = ivbuf, dec_iv = ivbuf, wpc = WRead\<rparr>"
  let ?sv = "\<lparr>dummyBuf = replicate 16 0, handles = [?r, ?r], rwCount = 0\<rparr>"
  let ?cl = "\<lambda>b h0 h1. \<lparr>dummyBuf = b, handles = [h0, h1], rwCount = 0\<rparr>"
  let ?s0 = "\<lparr>client = ?cl (replicate 16 0) ?w ?w, server = ?sv, up = [[], []], down = [[], []]\<rparr>"
  let ?s1 = "?s0\<lparr>client := ?cl c1 (?w\<lparr>enc_iv := c1, wpc := WWrite\<rparr>) ?w\<rparr>"
  let ?s2 = "?s0\<lparr>client := ?cl c2 (?w\<lparr>enc_iv := c1, wpc := WWrite\<rparr>) (?w\<lparr>enc_iv := c2, wpc := WWrite\<rparr>)\<rparr>"
  let ?s3 = "?s0\<lparr>client := ?cl c2 (?w\<lparr>enc_iv := c1, wpc := client_next twoway WWrite\<rparr>) (?w\<lparr>enc_iv := c2, wpc := WWrite\<rparr>), up := [c2, []]\<rparr>"
  let ?s4 = "?s3\<lparr>server := ?cl c2 (?r\<lparr>wpc := WDecrypt\<rparr>) ?r, up := [[], []]\<rparr>"
  let ?s5 = "?s4\<lparr>server := ?cl c1 (?r\<lparr>dec_iv := c2, wpc := server_next twoway WDecrypt\<rparr>) ?r\<rparr>"
  have s0: "wl_start 2 = ?s0" by (simp add: wl_start_def wl_engine_start_def wl_handle_start_def numeral_2_eq_2)
  have s12: "?step ?s0 ?s1" "?step ?s1 ?s2"
    using c_local [of 0 ?s0 E D twoway whole_reads] c_local [of 1 ?s1 E D twoway whole_reads]
    by (simp_all add: wl_local_def cbc_encrypt_def Let_def c1_def [symmetric] c2_def [symmetric])
  have s3: "?step ?s2 ?s3" using c_write [of 0 ?s2 E D twoway whole_reads] by (simp add: wl_wrote_def)
  have s4: "?step ?s3 ?s4"
    using s_read [of 0 ?s3 whole_reads 16 E D twoway] len whole_16 by (simp add: wl_read_def)
  have s5: "?step ?s4 ?s5"
    using s_local [of 0 ?s4 E D twoway whole_reads] len by (simp add: wl_local_def cbc_decrypt_def Let_def)
  have "reaches ?step (wl_start 2) ?s5"
    unfolding s0
    by (rule reaches_step [where step = ?step, OF _ s5], rule reaches_step [where step = ?step, OF _ s4],
        rule reaches_step [where step = ?step, OF _ s3], rule reaches_step [where step = ?step, OF _ s12(2)],
        rule reaches_step [where step = ?step, OF _ s12(1)], rule reaches_refl)
  then show ?thesis by (intro exI [of _ ?s5]) (simp add: c1_def)
qed

text \<open>
  A read may answer with less than a block, and its number is not looked at: the server then decrypts the bytes that have
  come together with old ones.
\<close>

lemma workload_short_read:
  assumes "length b = 16" "length h = 16" "n \<le> 16"
  shows "dummyBuf (wl_local E D nxt 0 (wl_read (server_next twoway) 0 (take n b) (lone h e d WRead m))) = xor_block (D (take n b @ drop n h)) d"
  using assms by (simp add: lone_def wl_read_def wl_local_def cbc_decrypt_def Let_def)

end
