(* ===== verification/Chan_Tests.thy ===== *)
theory Chan_Tests
  imports Go_Prelude
begin

text \<open>
  Three experiments with channels: \<open>src/channel-send-recv-int64/channel-send-recv-int64.go\<close> (a sender and a receiver that
  count), \<open>src/schedule-chan/schedule-chan.go\<close> (workers that share what one channel brings) and
  \<open>src/huge-chan-close/huge-chan-close.go\<close> (goroutines released by closing a channel).  Each is a step relation over
  its goroutines; a channel is the number of elements it holds and whether it is closed.
\<close>

section \<open>channel-send-recv-int64\<close>

datatype send_pc = SCheck | SPut | SReport | SEnd
datatype recv_pc = RGet | RReport | REnd
datatype main_pc = MTimer | MIn | MClose | MOut | MEnd

record sr_state =
  buf :: nat
  cap :: nat
  test_closed :: bool
  stop_closed :: bool
  in_ch :: "i64 list"
  out_ch :: "i64 list"
  s_at :: send_pc
  s_count :: i64
  r_at :: recv_pc
  r_count :: i64
  m_at :: main_pc
  intotal :: i64
  outtotal :: i64
  sr_panic :: bool

text \<open>
  \<open>send64\<close> looks at \<open>closed\<close>, puts an element and counts; a send on the closed channel panics.  With
  no buffer a send is a rendezvous with the receiver: the element passes at once.
\<close>

inductive sr_step :: "sr_state \<Rightarrow> sr_state \<Rightarrow> bool" where
  send_stop: "s_at s = SCheck \<Longrightarrow> stop_closed s \<Longrightarrow> sr_step s (s\<lparr>s_at := SReport\<rparr>)"
| send_go: "s_at s = SCheck \<Longrightarrow> \<not> stop_closed s \<Longrightarrow> sr_step s (s\<lparr>s_at := SPut\<rparr>)"
| send_put: "s_at s = SPut \<Longrightarrow> \<not> test_closed s \<Longrightarrow> buf s < cap s \<Longrightarrow>
     sr_step s (s\<lparr>buf := buf s + 1, s_count := s_count s + 1, s_at := SCheck\<rparr>)"
| send_meet: "s_at s = SPut \<Longrightarrow> \<not> test_closed s \<Longrightarrow> buf s = 0 \<Longrightarrow> r_at s = RGet \<Longrightarrow>
     sr_step s (s\<lparr>s_count := s_count s + 1, r_count := r_count s + 1, s_at := SCheck\<rparr>)"
| send_closed: "s_at s = SPut \<Longrightarrow> test_closed s \<Longrightarrow> sr_step s (s\<lparr>sr_panic := True, s_at := SEnd\<rparr>)"
| send_report: "s_at s = SReport \<Longrightarrow> sr_step s (s\<lparr>in_ch := in_ch s @ [s_count s], s_at := SEnd\<rparr>)"
| recv_get: "r_at s = RGet \<Longrightarrow> buf s > 0 \<Longrightarrow> sr_step s (s\<lparr>buf := buf s - 1, r_count := r_count s + 1\<rparr>)"
| recv_done: "r_at s = RGet \<Longrightarrow> buf s = 0 \<Longrightarrow> test_closed s \<Longrightarrow> sr_step s (s\<lparr>r_at := RReport\<rparr>)"
| recv_report: "r_at s = RReport \<Longrightarrow> sr_step s (s\<lparr>out_ch := out_ch s @ [r_count s], r_at := REnd\<rparr>)"
| main_timer: "m_at s = MTimer \<Longrightarrow> sr_step s (s\<lparr>stop_closed := True, m_at := MIn\<rparr>)"
| main_in: "m_at s = MIn \<Longrightarrow> in_ch s = c # cs \<Longrightarrow> sr_step s (s\<lparr>intotal := c, in_ch := cs, m_at := MClose\<rparr>)"
| main_close: "m_at s = MClose \<Longrightarrow> sr_step s (s\<lparr>test_closed := True, m_at := MOut\<rparr>)"
| main_out: "m_at s = MOut \<Longrightarrow> out_ch s = c # cs \<Longrightarrow> sr_step s (s\<lparr>outtotal := c, out_ch := cs, m_at := MEnd\<rparr>)"

definition sr_start :: "nat \<Rightarrow> sr_state" where
  "sr_start n = \<lparr>buf = 0, cap = n, test_closed = False, stop_closed = False, in_ch = [], out_ch = [], s_at = SCheck, s_count = 0,
     r_at = RGet, r_count = 0, m_at = MTimer, intotal = 0, outtotal = 0, sr_panic = False\<rparr>"

text \<open>What the places of the three goroutines say about the channels and the counts.\<close>

definition sr_inv :: "sr_state \<Rightarrow> bool" where
  "sr_inv s \<longleftrightarrow> \<not> sr_panic s \<and> s_count s = r_count s + of_nat (buf s)
     \<and> (m_at s = MTimer \<or> m_at s = MIn \<longrightarrow> in_ch s = (if s_at s = SEnd then [s_count s] else []))
     \<and> (m_at s \<in> {MClose, MOut, MEnd} \<longrightarrow> s_at s = SEnd \<and> intotal s = s_count s)
     \<and> (test_closed s \<longleftrightarrow> m_at s = MOut \<or> m_at s = MEnd)
     \<and> (r_at s \<noteq> RGet \<longrightarrow> test_closed s \<and> buf s = 0)
     \<and> (m_at s \<noteq> MEnd \<longrightarrow> out_ch s = (if r_at s = REnd then [r_count s] else []))
     \<and> (m_at s = MEnd \<longrightarrow> r_at s = REnd \<and> outtotal s = r_count s)"

lemma sr_step_inv: "sr_step s t \<Longrightarrow> sr_inv s \<Longrightarrow> sr_inv t"
  by (induction rule: sr_step.induct) (auto simp: sr_inv_def of_nat_diff split: if_splits)

interpretation sr: transition_invariant sr_step sr_inv
  by unfold_locales (rule sr_step_inv)

text \<open>
  When the test ends, what was sent and what was received are equal, whatever the buffer and the
  interleaving, also modulo \<open>2^64\<close>; the sender never meets a closed channel.
\<close>

theorem send_recv_lossless:
  assumes "reaches sr_step (sr_start n) s"
  shows "\<not> sr_panic s \<and> (m_at s = MEnd \<longrightarrow> intotal s = outtotal s \<and> buf s = 0)"
proof -
  have "sr_inv (sr_start n)" by (simp add: sr_inv_def sr_start_def)
  then have "sr_inv s" by (rule sr.inv_reaches [OF assms])
  then show ?thesis by (auto simp: sr_inv_def)
qed

section \<open>schedule-chan\<close>

record pool_state =
  tosend :: nat
  queued :: nat
  c_closed :: bool
  counting :: "nat option list"
  reports :: "(nat \<times> nat) list"
  winner :: "nat \<Rightarrow> nat"
  collected :: nat

text \<open>
  A loop of \<open>main\<close> with its workers.  \<open>counting ! i\<close> is the count of worker \<open>i\<close> until it has reported.
\<close>

inductive pool_step :: "pool_state \<Rightarrow> pool_state \<Rightarrow> bool" where
  pool_send: "tosend s > 0 \<Longrightarrow> pool_step s (s\<lparr>tosend := tosend s - 1, queued := queued s + 1\<rparr>)"
| pool_take: "i < length (counting s) \<Longrightarrow> counting s ! i = Some k \<Longrightarrow> queued s > 0 \<Longrightarrow>
     pool_step s (s\<lparr>queued := queued s - 1, counting := (counting s)[i := Some (k + 1)]\<rparr>)"
| pool_close: "tosend s = 0 \<Longrightarrow> \<not> c_closed s \<Longrightarrow> pool_step s (s\<lparr>c_closed := True\<rparr>)"
| pool_report: "i < length (counting s) \<Longrightarrow> counting s ! i = Some k \<Longrightarrow> queued s = 0 \<Longrightarrow> c_closed s \<Longrightarrow>
     pool_step s (s\<lparr>counting := (counting s)[i := None], reports := reports s @ [(i, k)]\<rparr>)"
| pool_collect: "c_closed s \<Longrightarrow> reports s = (i, k) # rs \<Longrightarrow>
     pool_step s (s\<lparr>reports := rs, winner := (winner s)(i := winner s i + k), collected := collected s + 1\<rparr>)"

definition pool_start :: "nat \<Rightarrow> nat \<Rightarrow> (nat \<Rightarrow> nat) \<Rightarrow> pool_state" where
  "pool_start workers loopmax w = \<lparr>tosend = loopmax, queued = 0, c_closed = False, counting = replicate workers (Some 0), reports = [],
     winner = w, collected = 0\<rparr>"

definition open_count :: "nat option list \<Rightarrow> nat" where
  "open_count cs = (\<Sum>c \<leftarrow> cs. case c of None \<Rightarrow> 0 | Some k \<Rightarrow> k)"

definition running :: "nat option list \<Rightarrow> nat" where
  "running cs = (\<Sum>c \<leftarrow> cs. case c of None \<Rightarrow> 0 | Some k \<Rightarrow> 1)"

definition pool_inv :: "nat \<Rightarrow> nat \<Rightarrow> nat \<Rightarrow> pool_state \<Rightarrow> bool" where
  "pool_inv workers loopmax before s \<longleftrightarrow> length (counting s) = workers \<and> (\<forall>(i, k) \<in> set (reports s). i < workers)
     \<and> (\<Sum>i < workers. winner s i) + sum_list (map snd (reports s)) + open_count (counting s) + queued s + tosend s = before + loopmax
     \<and> collected s + length (reports s) + running (counting s) = workers
     \<and> (c_closed s \<longrightarrow> tosend s = 0) \<and> (running (counting s) < workers \<longrightarrow> c_closed s \<and> queued s = 0)"

lemma sum_list_update_nat:
  "i < length cs \<Longrightarrow> (\<Sum>c \<leftarrow> cs[i := y]. (f c :: nat)) + f (cs ! i) = (\<Sum>c \<leftarrow> cs. f c) + f y"
  by (induction cs arbitrary: i) (auto split: nat.splits)

lemma sum_upd:
  "i < (n :: nat) \<Longrightarrow> (\<Sum>j < n. (w(i := w i + k)) j) = (\<Sum>j < n. w j) + (k :: nat)"
  by (induction n) (auto simp: less_Suc_eq)

lemma open_count_update:
  "i < length cs \<Longrightarrow> open_count (cs[i := y]) + (case cs ! i of None \<Rightarrow> 0 | Some k \<Rightarrow> k) = open_count cs + (case y of None \<Rightarrow> 0 | Some k \<Rightarrow> k)"
  "i < length cs \<Longrightarrow> running (cs[i := y]) + (case cs ! i of None \<Rightarrow> 0 | Some k \<Rightarrow> 1) = running cs + (case y of None \<Rightarrow> 0 | Some k \<Rightarrow> 1)"
  unfolding open_count_def running_def by (rule sum_list_update_nat, simp)+

lemma pool_step_inv: "pool_step s t \<Longrightarrow> pool_inv w m b s \<Longrightarrow> pool_inv w m b t"
proof (induction rule: pool_step.induct)
  case (pool_take i s k)
  then show ?case
    using open_count_update [of i "counting s" "Some (k + 1)"] by (auto simp: pool_inv_def)
next
  case (pool_report i s k)
  then show ?case
    using open_count_update [of i "counting s" None] by (auto simp: pool_inv_def)
next
  case (pool_collect s i k rs)
  then have "i < w" by (simp add: pool_inv_def)
  then show ?case using pool_collect sum_upd [of i w "winner s" k] by (auto simp: pool_inv_def)
qed (auto simp: pool_inv_def)

interpretation pool: transition_invariant pool_step "pool_inv w m b" for w m b
  by unfold_locales (rule pool_step_inv)

lemma open_count_replicate: "open_count (replicate n (Some 0)) = 0" "running (replicate n (Some 0)) = n"
  by (induction n) (auto simp: open_count_def running_def)

text \<open>
  When all workers have reported and \<open>main\<close> has added up, the counts of the workers have grown together by
  exactly the number of elements sent: each element was taken once.
\<close>

theorem workers_share_all:
  assumes "reaches pool_step (pool_start workers loopmax w) s" "collected s = workers" "0 < workers"
  shows "(\<Sum>i < workers. winner s i) = (\<Sum>i < workers. w i) + loopmax"
proof -
  have "pool_inv workers loopmax (\<Sum>i < workers. w i) (pool_start workers loopmax w)"
    by (simp add: pool_inv_def pool_start_def open_count_replicate)
  then have inv: "pool_inv workers loopmax (\<Sum>i < workers. w i) s" by (rule pool.inv_reaches [OF assms(1)])
  then have idle: "running (counting s) = 0" "reports s = []" "c_closed s" "queued s = 0" "tosend s = 0"
    using assms(2,3) by (auto simp: pool_inv_def)
  have "running cs = 0 \<Longrightarrow> open_count cs = 0" for cs
    by (induction cs) (auto simp: running_def open_count_def split: option.splits)
  then show ?thesis using inv idle by (auto simp: pool_inv_def)
qed

section \<open>huge-chan-close\<close>

record gate_state =
  not_started :: nat
  blocked :: nat
  released :: nat
  gate_count :: int
  added :: bool
  gate_open :: bool
  wg_count :: int

text \<open>
  \<open>main\<close> starts the goroutines, adds their number to the counter and only then starts the goroutine
  that closes the channel.
\<close>

inductive gate_step :: "nat \<Rightarrow> gate_state \<Rightarrow> gate_state \<Rightarrow> bool" for n where
  gate_start: "not_started s > 0 \<Longrightarrow> gate_step n s (s\<lparr>not_started := not_started s - 1, blocked := blocked s + 1\<rparr>)"
| gate_add: "not_started s = 0 \<Longrightarrow> \<not> added s \<Longrightarrow> gate_step n s (s\<lparr>gate_count := gate_count s + int n, added := True\<rparr>)"
| gate_close: "added s \<Longrightarrow> \<not> gate_open s \<Longrightarrow> gate_step n s (s\<lparr>gate_open := True\<rparr>)"
| gate_pass: "gate_open s \<Longrightarrow> blocked s > 0 \<Longrightarrow>
     gate_step n s (s\<lparr>blocked := blocked s - 1, released := released s + 1, gate_count := gate_count s - 1,
       wg_count := (if gate_count s - 1 = 0 then wg_count s - 1 else wg_count s)\<rparr>)"

definition gate_begin :: "nat \<Rightarrow> gate_state" where
  "gate_begin n = \<lparr>not_started = n, blocked = 0, released = 0, gate_count = 0, added = False, gate_open = False, wg_count = 1\<rparr>"

definition gate_inv :: "nat \<Rightarrow> gate_state \<Rightarrow> bool" where
  "gate_inv n s \<longleftrightarrow> not_started s + blocked s + released s = n \<and> (added s \<longrightarrow> not_started s = 0) \<and> (gate_open s \<longrightarrow> added s)
     \<and> (released s > 0 \<longrightarrow> gate_open s) \<and> gate_count s = (if added s then int n - int (released s) else 0)
     \<and> wg_count s = (if released s = n then 0 else 1)"

lemma gate_step_inv: "gate_step n s t \<Longrightarrow> 0 < n \<Longrightarrow> gate_inv n s \<Longrightarrow> gate_inv n t"
  by (induction rule: gate_step.induct) (auto simp: gate_inv_def split: if_splits)

interpretation gate: transition_invariant "gate_step (Suc n)" "gate_inv (Suc n)" for n
  by unfold_locales (rule gate_step_inv, auto)

text \<open>
  The counter of the wait group never becomes negative, and it is zero, so that \<open>main\<close> goes on, exactly when
  every goroutine has passed the closed channel.
\<close>

theorem done_when_all_passed:
  assumes "reaches (gate_step (Suc n)) (gate_begin (Suc n)) s"
  shows "0 \<le> wg_count s \<and> (wg_count s = 0 \<longleftrightarrow> released s = Suc n) \<and> (released s = Suc n \<longrightarrow> blocked s = 0 \<and> not_started s = 0)"
proof -
  have "gate_inv (Suc n) (gate_begin (Suc n))" by (simp add: gate_inv_def gate_begin_def)
  then have "gate_inv (Suc n) s" by (rule gate.inv_reaches [OF assms])
  then show ?thesis by (auto simp: gate_inv_def)
qed

section \<open>Concrete runs\<close>

theorem done_when_all_passed_witness:
  "\<exists>s. reaches (gate_step (Suc 0)) (gate_begin (Suc 0)) s \<and> released s = 1 \<and> wg_count s = 0"
proof -
  let ?s0 = "gate_begin (Suc 0)"
  let ?s1 = "?s0\<lparr>not_started := 0, blocked := 1\<rparr>"
  let ?s2 = "?s1\<lparr>gate_count := 1, added := True\<rparr>"
  let ?s3 = "?s2\<lparr>gate_open := True\<rparr>"
  let ?s4 = "?s3\<lparr>blocked := 0, released := 1, gate_count := 0, wg_count := 0\<rparr>"
  have "gate_step (Suc 0) ?s0 ?s1" "gate_step (Suc 0) ?s1 ?s2" "gate_step (Suc 0) ?s2 ?s3" "gate_step (Suc 0) ?s3 ?s4"
    using gate_start [of ?s0 "Suc 0"] gate_add [of ?s1 "Suc 0"] gate_close [of ?s2 "Suc 0"] gate_pass [of ?s3 "Suc 0"]
    by (simp_all add: gate_begin_def)
  then have r: "reaches (gate_step (Suc 0)) ?s0 ?s4" by (blast intro: reaches_step reaches_one)
  then show ?thesis using done_when_all_passed [OF r] by (intro exI [of _ ?s4]) simp
qed

theorem workers_share_all_witness:
  "\<exists>s. reaches pool_step (pool_start 1 1 (\<lambda>i. 5)) s \<and> collected s = 1 \<and> (\<Sum>i < 1. winner s i) = 6"
proof -
  let ?s0 = "pool_start 1 1 (\<lambda>i. 5)"
  let ?s1 = "?s0\<lparr>tosend := 0, queued := 1\<rparr>"
  let ?s2 = "?s1\<lparr>queued := 0, counting := [Some 1]\<rparr>"
  let ?s3 = "?s2\<lparr>c_closed := True\<rparr>"
  let ?s4 = "?s3\<lparr>counting := [None], reports := [(0, 1)]\<rparr>"
  let ?s5 = "?s4\<lparr>reports := [], winner := (\<lambda>i. 5)(0 := 6), collected := 1\<rparr>"
  have s: "pool_step ?s0 ?s1" "pool_step ?s1 ?s2" "pool_step ?s2 ?s3" "pool_step ?s3 ?s4" "pool_step ?s4 ?s5"
    using pool_send [of ?s0] pool_take [of 0 ?s1 0] pool_close [of ?s2] pool_report [of 0 ?s3 1] pool_collect [of ?s4 0 1 "[]"]
    by (simp_all add: pool_start_def)
  have "reaches pool_step ?s0 ?s3" using s(1-3) by (blast intro: reaches_step reaches_one)
  then have r: "reaches pool_step ?s0 ?s5" using s(4,5) by (blast intro: reaches_step)
  then show ?thesis using workers_share_all [OF r] by (intro exI [of _ ?s5]) simp
qed

theorem send_recv_lossless_witness:
  "\<exists>s. reaches sr_step (sr_start 4) s \<and> m_at s = MEnd \<and> intotal s = outtotal s"
proof -
  let ?s0 = "sr_start 4"
  let ?s1 = "?s0\<lparr>s_at := SPut\<rparr>"
  let ?s2 = "?s1\<lparr>buf := 1, s_count := 1, s_at := SCheck\<rparr>"
  let ?s3 = "?s2\<lparr>stop_closed := True, m_at := MIn\<rparr>"
  let ?s4 = "?s3\<lparr>s_at := SReport\<rparr>"
  let ?s5 = "?s4\<lparr>in_ch := [1], s_at := SEnd\<rparr>"
  let ?s6 = "?s5\<lparr>intotal := 1, in_ch := [], m_at := MClose\<rparr>"
  let ?s7 = "?s6\<lparr>test_closed := True, m_at := MOut\<rparr>"
  let ?s8 = "?s7\<lparr>buf := 0, r_count := 1\<rparr>"
  let ?s9 = "?s8\<lparr>r_at := RReport\<rparr>"
  let ?s10 = "?s9\<lparr>out_ch := [1], r_at := REnd\<rparr>"
  let ?s11 = "?s10\<lparr>outtotal := 1, out_ch := [], m_at := MEnd\<rparr>"
  note [simp] = sr_start_def
  have "sr_step ?s0 ?s1" "sr_step ?s1 ?s2" "sr_step ?s2 ?s3" "sr_step ?s3 ?s4"
    using send_go [of ?s0] send_put [of ?s1] main_timer [of ?s2] send_stop [of ?s3] by simp_all
  then have r4: "reaches sr_step ?s0 ?s4" by (blast intro: reaches_step reaches_one)
  have "sr_step ?s4 ?s5" "sr_step ?s5 ?s6" "sr_step ?s6 ?s7" "sr_step ?s7 ?s8"
    using send_report [of ?s4] main_in [of ?s5 1 "[]"] main_close [of ?s6] recv_get [of ?s7] by simp_all
  then have r8: "reaches sr_step ?s0 ?s8" using r4 by (blast intro: reaches_step)
  have "sr_step ?s8 ?s9" "sr_step ?s9 ?s10" "sr_step ?s10 ?s11"
    using recv_done [of ?s8] recv_report [of ?s9] main_out [of ?s10 1 "[]"] by simp_all
  then have r11: "reaches sr_step ?s0 ?s11" using r8 by (blast intro: reaches_step)
  then show ?thesis using send_recv_lossless [OF r11] by (intro exI [of _ ?s11]) simp
qed

end
