(* ===== verification/Net_Tests.thy ===== *)
theory Net_Tests
  imports Go_Prelude
begin

text \<open>
  Small network programs: \<open>src/tinytcpserver/tinytcpserver.go\<close> (a server that counts its connections),
  \<open>src/tcpconn-readnb-test/tcpconn-readnb-test.go\<close> and \<open>src/writevtest/writevtest.go\<close> (bandwidth through one
  buffer), and the reader of \<open>src/tcpconn-write-test/tcpconn-write-test.go\<close>.
\<close>

section \<open>tinytcpserver\<close>

datatype acc_pc = AListen | AAccept | ADone
datatype tmain_pc = MSpawn nat | MWait | MExited

record tiny_state =
  wg :: int
  totalcount :: int
  tmain :: tmain_pc
  acceptors :: "acc_pc list"
  open_conns :: nat
  wg_panic :: bool

text \<open>\<open>wg.Done\<close> panics when the counter becomes negative.\<close>

definition wg_done :: "tiny_state \<Rightarrow> tiny_state" where
  "wg_done s = (if wg s - 1 < 0 then s\<lparr>wg := wg s - 1, wg_panic := True\<rparr> else s\<lparr>wg := wg s - 1\<rparr>)"

text \<open>The end of \<open>readconn\<close>, when a read has failed.\<close>

definition conn_end :: "tiny_state \<Rightarrow> tiny_state" where
  "conn_end s = wg_done (s\<lparr>totalcount := totalcount s - 1, open_conns := open_conns s - 1\<rparr>)"

abbreviation alive :: "tiny_state \<Rightarrow> bool" where
  "alive s \<equiv> \<not> wg_panic s \<and> tmain s \<noteq> MExited"

text \<open>
  \<open>main\<close> starts the first acceptor, which has the listener, without adding it to the wait group, and
  then one counted acceptor for each processor; \<open>again_ok\<close> tells whether a second listener on the same
  address can be opened.  The process ends with \<open>main\<close> or with a panic.
\<close>

inductive tiny_step :: "nat \<Rightarrow> bool \<Rightarrow> tiny_state \<Rightarrow> tiny_state \<Rightarrow> bool" for procs again_ok where
  main_spawn: "alive s \<Longrightarrow> tmain s = MSpawn k \<Longrightarrow> k < procs \<Longrightarrow>
     tiny_step procs again_ok s (s\<lparr>wg := wg s + 1, acceptors := acceptors s @ [AListen], tmain := MSpawn (k + 1)\<rparr>)"
| main_wait: "alive s \<Longrightarrow> tmain s = MSpawn procs \<Longrightarrow> tiny_step procs again_ok s (s\<lparr>tmain := MWait\<rparr>)"
| main_exit: "alive s \<Longrightarrow> tmain s = MWait \<Longrightarrow> wg s = 0 \<Longrightarrow> tiny_step procs again_ok s (s\<lparr>tmain := MExited\<rparr>)"
| acc_listen: "alive s \<Longrightarrow> i < length (acceptors s) \<Longrightarrow> acceptors s ! i = AListen \<Longrightarrow> again_ok \<Longrightarrow>
     tiny_step procs again_ok s (s\<lparr>acceptors := (acceptors s)[i := AAccept]\<rparr>)"
| acc_listen_fails: "alive s \<Longrightarrow> i < length (acceptors s) \<Longrightarrow> acceptors s ! i = AListen \<Longrightarrow> \<not> again_ok \<Longrightarrow>
     tiny_step procs again_ok s (wg_done (s\<lparr>acceptors := (acceptors s)[i := ADone]\<rparr>))"
| acc_accept: "alive s \<Longrightarrow> i < length (acceptors s) \<Longrightarrow> acceptors s ! i = AAccept \<Longrightarrow>
     tiny_step procs again_ok s (s\<lparr>wg := wg s + 1, totalcount := totalcount s + 1, open_conns := open_conns s + 1\<rparr>)"
| acc_fails: "alive s \<Longrightarrow> i < length (acceptors s) \<Longrightarrow> acceptors s ! i = AAccept \<Longrightarrow>
     tiny_step procs again_ok s (wg_done (s\<lparr>acceptors := (acceptors s)[i := ADone]\<rparr>))"
| conn_ends: "alive s \<Longrightarrow> open_conns s > 0 \<Longrightarrow>
     tiny_step procs again_ok s (conn_end s)"

definition tiny_start :: tiny_state where
  "tiny_start = \<lparr>wg = 0, totalcount = 0, tmain = MSpawn 0, acceptors = [AAccept], open_conns = 0, wg_panic = False\<rparr>"

text \<open>A round of \<open>stat\<close>: the line it prints, what it remembers, and whether it frees memory.\<close>

definition stat_round :: "int \<Rightarrow> int \<Rightarrow> int option \<times> int \<times> bool" where
  "stat_round pre cnt = (if pre \<noteq> cnt then (Some cnt, cnt, cnt = 0) else (None, pre, cnt = 0))"

definition live :: "acc_pc list \<Rightarrow> nat" where
  "live as = length (filter (\<lambda>a. a \<noteq> ADone) as)"

definition tiny_inv :: "tiny_state \<Rightarrow> bool" where
  "tiny_inv s \<longleftrightarrow> wg s = int (live (acceptors s)) + int (open_conns s) - 1 \<and> totalcount s = int (open_conns s)
     \<and> (wg_panic s \<longleftrightarrow> live (acceptors s) + open_conns s = 0) \<and> (tmain s = MExited \<longrightarrow> wg s = 0)"

lemma live_update:
  "i < length as \<Longrightarrow> as ! i \<noteq> ADone \<Longrightarrow> live (as[i := a]) + (if a = ADone then 1 else 0) = live as"
proof (induction as arbitrary: i)
  case (Cons x xs)
  then show ?case by (cases i) (auto simp: live_def)
qed simp

lemma live_append [simp]: "live (as @ [AListen]) = live as + 1"
  by (simp add: live_def)

lemma tiny_step_inv: "tiny_step procs again_ok s t \<Longrightarrow> tiny_inv s \<Longrightarrow> tiny_inv t"
proof (induction rule: tiny_step.induct)
  case (acc_listen s i)
  then show ?case using live_update [of i "acceptors s" AAccept] by (auto simp: tiny_inv_def)
next
  case (acc_listen_fails s i)
  then show ?case using live_update [of i "acceptors s" ADone] by (auto simp: tiny_inv_def wg_done_def)
next
  case (acc_fails s i)
  then show ?case using live_update [of i "acceptors s" ADone] by (auto simp: tiny_inv_def wg_done_def)
next
  case (conn_ends s)
  then show ?case by (auto simp: tiny_inv_def conn_end_def wg_done_def of_nat_diff)
qed (auto simp: tiny_inv_def)

interpretation tiny: transition_invariant "tiny_step procs again_ok" tiny_inv for procs again_ok
  by unfold_locales (rule tiny_step_inv)

text \<open>
  \<open>totalcount\<close> is the number of open connections.  The wait group is one short: the server leaves \<open>main\<close>
  only while one acceptor or connection is still at work, and when the last of them ends the
  counter becomes negative and the program panics.
\<close>

theorem tiny_waitgroup_short:
  assumes "reaches (tiny_step procs again_ok) tiny_start s"
  shows "totalcount s = int (open_conns s)
    \<and> (tmain s = MExited \<longrightarrow> live (acceptors s) + open_conns s = 1)
    \<and> (wg_panic s \<longleftrightarrow> live (acceptors s) + open_conns s = 0)"
proof -
  have "tiny_inv tiny_start" by (simp add: tiny_inv_def tiny_start_def live_def)
  then have "tiny_inv s" by (rule tiny.inv_reaches [OF assms])
  then show ?thesis by (auto simp: tiny_inv_def)
qed

text \<open>
  Where a second listener on the same address is refused, the server with one processor can leave \<open>main\<close> at
  once, while the first acceptor is still accepting.
\<close>

theorem tiny_exits_while_accepting:
  "\<exists>s. reaches (tiny_step 1 False) tiny_start s \<and> tmain s = MExited \<and> acceptors s ! 0 = AAccept"
proof -
  let ?s0 = tiny_start
  let ?s1 = "?s0\<lparr>wg := 1, acceptors := [AAccept, AListen], tmain := MSpawn 1\<rparr>"
  let ?s2 = "?s1\<lparr>wg := 0, acceptors := [AAccept, ADone]\<rparr>"
  let ?s3 = "?s2\<lparr>tmain := MWait\<rparr>"
  let ?s4 = "?s3\<lparr>tmain := MExited\<rparr>"
  have s: "tiny_step 1 False ?s0 ?s1" "tiny_step 1 False ?s1 ?s2" "tiny_step 1 False ?s2 ?s3" "tiny_step 1 False ?s3 ?s4"
    using main_spawn [of ?s0 0 1 False] acc_listen_fails [of ?s1 1 False 1] main_wait [of ?s2 1 False] main_exit [of ?s3 1 False]
    by (simp_all add: tiny_start_def wg_done_def)
  then have "reaches (tiny_step 1 False) ?s0 ?s4" by (blast intro: reaches_step reaches_one)
  then show ?thesis by (intro exI [of _ ?s4]) simp
qed

theorem tiny_waitgroup_short_witness:
  "\<exists>s. reaches (tiny_step 0 True) tiny_start s \<and> wg_panic s \<and> live (acceptors s) + open_conns s = 0"
proof -
  let ?s = "tiny_start\<lparr>wg := - 1, acceptors := [ADone], wg_panic := True\<rparr>"
  have "tiny_step 0 True tiny_start ?s"
    using acc_fails [of tiny_start 0 0 True] by (simp add: tiny_start_def wg_done_def)
  then have r: "reaches (tiny_step 0 True) tiny_start ?s" by (rule reaches_one)
  then show ?thesis using tiny_waitgroup_short [OF r] by (intro exI [of _ ?s]) simp
qed

section \<open>One buffer used round and round\<close>

text \<open>
  The position \<open>nn\<close> in the buffer and the bytes counted, after a call that moved \<open>n\<close> bytes.
\<close>

record io_state =
  nn :: nat
  totalio :: nat

definition io_advance :: "nat \<Rightarrow> nat \<Rightarrow> io_state \<Rightarrow> io_state" where
  "io_advance buflen n s =
     (if n > 0 then s\<lparr>totalio := totalio s + n, nn := (if nn s + n \<ge> buflen then 0 else nn s + n)\<rparr> else s)"

text \<open>
  \<open>connHandle\<close>: an event of the channel, which may be closed, and the answer of the call that follows when
  the event is of the expected kind.  \<open>stop\<close> is the exit flag as the loop reads it.
\<close>

datatype fd_event = FDClosed | FDRead | FDWrite
datatype io_answer = Moved nat | IOErr

datatype io_end = ExitFlag | EventClosed | IOFailed | Waiting

fun connHandle_loop :: "bool \<Rightarrow> nat \<Rightarrow> (bool \<times> fd_event \<times> io_answer) list \<Rightarrow> io_state \<Rightarrow> io_state \<times> io_end" where
  "connHandle_loop reading buflen [] s = (s, Waiting)"
| "connHandle_loop reading buflen ((stop, ev, ans) # rest) s =
     (if stop then (s, ExitFlag)
      else if ev = FDClosed then (s, EventClosed)
      else if ev \<noteq> (if reading then FDRead else FDWrite) then connHandle_loop reading buflen rest s
      else (case ans of
          IOErr \<Rightarrow> (s, IOFailed)
        | Moved k \<Rightarrow> connHandle_loop reading buflen rest (io_advance buflen (min k (buflen - nn s)) s)))"

definition connHandle :: "bytes \<Rightarrow> nat \<Rightarrow> (bool \<times> fd_event \<times> io_answer) list \<Rightarrow> io_state \<times> io_end" where
  "connHandle mode buflen evs = connHandle_loop (mode = ''read'') buflen evs \<lparr>nn = 0, totalio = 0\<rparr>"

text \<open>The client of \<open>writevtest\<close>.\<close>

fun client_loop :: "nat \<Rightarrow> (bool \<times> io_answer) list \<Rightarrow> io_state \<Rightarrow> io_state \<times> io_end" where
  "client_loop buflen [] s = (s, Waiting)"
| "client_loop buflen ((stop, ans) # rest) s =
     (if stop then (s, ExitFlag)
      else (case ans of
          IOErr \<Rightarrow> (s, IOFailed)
        | Moved k \<Rightarrow> client_loop buflen rest (io_advance buflen (min k (buflen - nn s)) s)))"

text \<open>The figure both programs print: whole mebibytes for each second of at least one.\<close>

definition bandwidth :: "nat \<Rightarrow> nat \<Rightarrow> nat" where
  "bandwidth bytes nanosec =
     (let esp = nanosec div 1000000000; esp1 = (if esp \<le> 0 then 1 else esp) in bytes div 1024 div 1024 div esp1)"

text \<open>
  The reader of \<open>tcpconn-write-test\<close>: the parts it prints until a time-out; \<open>None\<close> for another error, which
  ends the process.  A script that is used up is a connection that stays silent until the time-out.
\<close>

datatype read_answer = Got nat | GotTimeout nat | GotErr nat

fun read_parts :: "nat \<Rightarrow> read_answer list \<Rightarrow> nat \<Rightarrow> nat list option" where
  "read_parts buflen [] got = Some (if got > 0 then [got] else [])"
| "read_parts buflen (GotTimeout k # rest) got =
     (let t = got + min k (buflen - got) in Some (if t > 0 then [t] else []))"
| "read_parts buflen (GotErr k # rest) got = None"
| "read_parts buflen (Got k # rest) got =
     (let t = got + min k (buflen - got)
      in if t \<ge> buflen then map_option (Cons t) (read_parts buflen rest 0) else read_parts buflen rest t)"

text \<open>\<open>sigHandle\<close> takes one signal and returns.\<close>

record sig_env =
  exit_signal :: nat
  exitChan :: "nat list"
  exitChan_closed :: bool

definition sigHandle_once :: "nat \<Rightarrow> sig_env \<Rightarrow> sig_env option" where
  "sigHandle_once sig s =
     (let s1 = s\<lparr>exit_signal := exit_signal s + 1\<rparr>
      in if exit_signal s1 > 5 then None
         else if exit_signal s1 > 1 then Some s1
         else if exitChan s1 \<noteq> [] then Some (s1\<lparr>exitChan := tl (exitChan s1)\<rparr>)
         else if exitChan_closed s1 then Some s1
         else Some (s1\<lparr>exitChan := [sig, sig, sig], exitChan_closed := True\<rparr>))"

lemma io_advance_bound:
  "0 < buflen \<Longrightarrow> nn s < buflen \<Longrightarrow> nn (io_advance buflen (min k (buflen - nn s)) s) < buflen"
  by (auto simp: io_advance_def)

lemma io_advance_mod:
  assumes "0 < buflen" "nn s < buflen" "nn s = totalio s mod buflen"
  shows "nn (io_advance buflen (min k (buflen - nn s)) s) = totalio (io_advance buflen (min k (buflen - nn s)) s) mod buflen"
proof (cases "min k (buflen - nn s) = 0")
  case True
  then show ?thesis using assms by (simp add: io_advance_def)
next
  case False
  let ?n = "min k (buflen - nn s)"
  have "(totalio s + ?n) mod buflen = (nn s + ?n) mod buflen" using assms(3) by (simp add: mod_add_left_eq)
  moreover have "nn s + ?n \<le> buflen" using assms(2) by simp
  ultimately show ?thesis using False by (auto simp: io_advance_def not_le)
qed

text \<open>
  Whatever the events and answers, the position in the buffer stays inside it, so that a call is never
  made with an empty slice, and it is the number of bytes moved modulo the length of the buffer.
\<close>

theorem connHandle_position:
  assumes "0 < buflen" "connHandle mode buflen evs = (s, e)"
  shows "nn s < buflen \<and> nn s = totalio s mod buflen"
proof -
  have loop: "nn s' < buflen \<and> nn s' = totalio s' mod buflen"
    if "nn s0 < buflen" "nn s0 = totalio s0 mod buflen" "connHandle_loop r buflen evs s0 = (s', e)" for s0 s' r
    using that
  proof (induction r buflen evs s0 rule: connHandle_loop.induct)
    case (2 reading buflen stop ev ans rest s)
    then show ?case
      using io_advance_bound [of buflen s] io_advance_mod [of buflen s] by (auto split: if_splits io_answer.splits)
  qed auto
  show ?thesis
    by (rule loop [of "\<lparr>nn = 0, totalio = 0\<rparr>" "mode = ''read''"]) (use assms in \<open>simp_all add: connHandle_def\<close>)
qed

theorem connHandle_position_witness:
  "connHandle ''read'' 4 [(False, FDRead, Moved 3), (False, FDWrite, Moved 9), (False, FDRead, Moved 9), (True, FDRead, IOErr)]
     = (\<lparr>nn = 0, totalio = 4\<rparr>, ExitFlag) \<and> (0::nat) = 4 mod 4"
  using connHandle_position [of 4 "''read''" "[(False, FDRead, Moved 3), (False, FDWrite, Moved 9), (False, FDRead, Moved 9), (True, FDRead, IOErr)]"
      "\<lparr>nn = 0, totalio = 4\<rparr>" ExitFlag]
  by (simp add: connHandle_def io_advance_def)

lemma client_loop_agrees:
  "client_loop buflen evs s = connHandle_loop True buflen (map (\<lambda>(stop, ans). (stop, FDRead, ans)) evs) s"
  by (induction evs arbitrary: s) (auto split: io_answer.splits)

text \<open>No part is empty or longer than the buffer.\<close>

lemma read_parts_bounds: "got < buflen \<Longrightarrow> read_parts buflen as got = Some ps \<Longrightarrow> p \<in> set ps \<Longrightarrow> 0 < p \<and> p \<le> buflen"
  by (induction buflen as got arbitrary: ps rule: read_parts.induct) (auto simp: Let_def split: if_splits)

end
