(* ===== verification/Tcp_Tests.thy ===== *)
theory Tcp_Tests
  imports Net_Tests Go_Strings
begin

text \<open>
  The programs that test the behaviour of TCP connections: reading from a connection that the other side
  has closed (\<open>src/tcpconn-close-test\<close>), writing after the link is gone (\<open>src/tcpconn-write-test\<close>), a deadline
  that passes while two goroutines take turns (\<open>src/tcpconn-setdeadline-test\<close>), and the servers of
  \<open>src/writevtest\<close> and \<open>src/tcpconn-readnb-test\<close>.
\<close>

section \<open>tcpconn-close-test\<close>

text \<open>The server writes ten bytes one by one and closes; \<open>write_ok i\<close> is the answer to the \<open>i\<close>-th write.\<close>

fun serve_bytes :: "(nat \<Rightarrow> bool) \<Rightarrow> nat \<Rightarrow> bytes \<Rightarrow> bytes" where
  "serve_bytes write_ok i [] = []"
| "serve_bytes write_ok i (c # cs) = (if \<not> write_ok i then [] else c # serve_bytes write_ok (i + 1) cs)"

definition close_server :: "(nat \<Rightarrow> bool) \<Rightarrow> bytes" where
  "close_server write_ok = serve_bytes write_ok 0 (take 10 ''01234567890123456789'')"

text \<open>
  The client reads with a buffer of \<open>rbufsize\<close> bytes until an error and keeps what it got: each read offers some
  bytes of the stream, with or without an error.  \<open>None\<close> is a client that still reads.
\<close>

fun close_client :: "nat \<Rightarrow> (nat \<times> bool) list \<Rightarrow> bytes \<Rightarrow> bytes \<Rightarrow> bytes option" where
  "close_client rbufsize [] stream tbuf = None"
| "close_client rbufsize ((k, failed) # reads) stream tbuf =
     (let nr = min k (min rbufsize (length stream));
          tbuf1 = (if nr > 0 then tbuf @ take nr stream else tbuf)
      in if failed then Some tbuf1 else close_client rbufsize reads (drop nr stream) tbuf1)"

lemma close_client_turn:
  "\<exists>m. m \<le> n \<and> m \<le> length stream \<and> (0 < n \<and> 0 < k \<and> stream \<noteq> [] \<longrightarrow> 0 < m) \<and>
     (\<forall>tbuf. close_client n ((k, failed) # reads) stream tbuf =
        (if failed then Some (tbuf @ take m stream) else close_client n reads (drop m stream) (tbuf @ take m stream)))"
  by (intro exI [of _ "min k (min n (length stream))"]) (simp add: Let_def min_le_iff_disj)

lemma close_client_app: "close_client n reads stream tbuf = map_option ((@) tbuf) (close_client n reads stream [])"
proof (induction reads arbitrary: stream tbuf)
  case (Cons r reads)
  obtain k failed where r: "r = (k, failed)" by fastforce
  obtain m where m: "\<And>tb. close_client n (r # reads) stream tb =
      (if failed then Some (tb @ take m stream) else close_client n reads (drop m stream) (tb @ take m stream))"
    using close_client_turn [of n stream k failed reads] r by blast
  show ?case
    using Cons.IH [of "drop m stream" "tbuf @ take m stream"] Cons.IH [of "drop m stream" "take m stream"]
    by (cases failed) (simp_all add: m option.map_comp o_def)
qed simp

text \<open>
  The client gets a prefix of what the server wrote, and all of it when reads deliver at least a byte as
  long as there are some, although the server had closed before the first read.
\<close>

theorem close_client_reads:
  "close_client n reads stream [] = Some got \<Longrightarrow> prefix got stream"
  "0 < n \<Longrightarrow> 0 \<notin> set ks \<Longrightarrow> length stream \<le> length ks \<Longrightarrow>
     close_client n (map (\<lambda>k. (k, False)) ks @ [(0, True)]) stream [] = Some stream"
proof -
  show "prefix got stream" if "close_client n reads stream [] = Some got" for got
    using that
  proof (induction reads arbitrary: stream got)
    case (Cons r reads)
    obtain k failed where r: "r = (k, failed)" by fastforce
    obtain m where "\<And>tb. close_client n (r # reads) stream tb =
        (if failed then Some (tb @ take m stream) else close_client n reads (drop m stream) (tb @ take m stream))"
      using close_client_turn [of n stream k failed reads] r by blast
    from this [of "[]"] have m: "close_client n (r # reads) stream [] =
        (if failed then Some (take m stream) else close_client n reads (drop m stream) (take m stream))"
      by simp
    show ?case
    proof (cases failed)
      case False
      then obtain rest where rest: "close_client n reads (drop m stream) [] = Some rest" "got = take m stream @ rest"
        using Cons.prems m close_client_app [of n reads "drop m stream" "take m stream"] by auto
      have "prefix rest (drop m stream)" using Cons.IH rest(1) by blast
      then show ?thesis using rest(2) by (metis append_take_drop_id same_prefix_prefix)
    qed (use Cons.prems m in \<open>auto simp: take_is_prefix\<close>)
  qed simp
  show "close_client n (map (\<lambda>k. (k, False)) ks @ [(0, True)]) stream [] = Some stream"
    if "0 < n" "0 \<notin> set ks" "length stream \<le> length ks"
    using that
  proof (induction ks arbitrary: stream)
    case (Cons k ks)
    let ?reads = "map (\<lambda>k. (k, False)) ks @ [(0, True)]"
    obtain m where m: "stream \<noteq> [] \<Longrightarrow> 0 < m" "m \<le> length stream"
        "close_client n ((k, False) # ?reads) stream [] = close_client n ?reads (drop m stream) (take m stream)"
      using close_client_turn [of n stream k False ?reads] Cons.prems by fastforce
    have "length (drop m stream) \<le> length ks" using m(1) Cons.prems(3) by (cases "stream = []") auto
    then have "close_client n ?reads (drop m stream) [] = Some (drop m stream)" using Cons by simp
    then show ?case using m(3) close_client_app [of n ?reads "drop m stream" "take m stream"] by simp
  qed simp
qed

theorem close_client_reads_witness:
  "close_client 3 (map (\<lambda>k. (k, False)) (replicate 10 2) @ [(0, True)]) (close_server (\<lambda>_. True)) [] = Some ''0123456789''"
proof -
  have "close_server (\<lambda>_. True) = ''0123456789''" by (simp add: close_server_def)
  then show ?thesis using close_client_reads(2) [of 3 "replicate 10 2" "''0123456789''"] by simp
qed

text \<open>With a buffer of no bytes nothing is received, however often the client reads.\<close>

lemma close_client_empty: "close_client 0 reads stream [] \<noteq> Some (c # cs)"
proof (induction reads arbitrary: stream)
  case (Cons r reads)
  then show ?case by (cases r) (auto simp: Let_def)
qed simp

section \<open>tcpconn-write-test\<close>

definition with_port :: "bytes \<Rightarrow> bytes" where
  "with_port hostport = (if Index hostport '':'' = None then hostport @ '':80'' else hostport)"

datatype wt_end = WtExit | WtBlocked | WtRuns

text \<open>
  \<open>main\<close>: each turn has the answers to its two writes.  After every write, and in the turns from the third on, it
  asks the goroutine that reads and waits for it; without that goroutine it waits for ever.  The result has the
  bytes written and how often the reader was asked.
\<close>

fun write_turns :: "bool \<Rightarrow> nat \<Rightarrow> (bool \<times> bool) list \<Rightarrow> bytes \<Rightarrow> nat \<Rightarrow> bytes \<times> nat \<times> wt_end" where
  "write_turns doread loop [] out reads = (out, reads, WtRuns)"
| "write_turns doread loop ((ok1, ok2) # turns) out reads =
     (let loop1 = loop + 1
      in if loop1 \<ge> 3 then
           (if doread then write_turns doread loop1 turns out (reads + 1) else (out, reads, WtBlocked))
         else if \<not> ok1 then (out, reads, WtExit)
         else let out1 = out @ ''GET / HTTP/1.1'' @ [CHR 0x0A];
                  reads1 = (if doread then reads + 1 else reads)
         in if \<not> ok2 then (out1, reads1, WtExit)
         else write_turns doread loop1 turns (out1 @ ''Host: 127.0.0.1'' @ [CHR 0x0A, CHR 0x0A]) (if doread then reads1 + 1 else reads1))"

definition one_request :: bytes where
  "one_request = ''GET / HTTP/1.1'' @ [CHR 0x0A] @ ''Host: 127.0.0.1'' @ [CHR 0x0A, CHR 0x0A]"

lemma write_turns_reading:
  "2 \<le> loop \<Longrightarrow> write_turns True loop turns out reads = (out, reads + length turns, WtRuns)"
  by (induction turns arbitrary: loop reads) (auto simp: Let_def)

text \<open>
  The test sends exactly two requests.  With a reader it goes on reading for ever; started with \<open>-r=false\<close> it
  blocks in the third turn.
\<close>

theorem write_test_two_requests:
  "write_turns True 0 ((True, True) # (True, True) # turns) [] 0 = (one_request @ one_request, 4 + length turns, WtRuns)"
  "write_turns False 0 ((True, True) # (True, True) # t # turns) [] 0 = (one_request @ one_request, 0, WtBlocked)"
  by (cases t; simp add: write_turns_reading one_request_def)+

section \<open>tcpconn-setdeadline-test\<close>

text \<open>
  A goroutine announces the listener over the channel \<open>synch\<close>, accepts, and then writes one byte for each token
  it takes from it; \<open>main\<close> takes the announcement, dials, and sends a token before each of its reads.  The
  deadline can end a read at any time.
\<close>

definition turn_text :: bytes where
  "turn_text = ''0123456789''"

lemma length_turn_text [simp]: "length turn_text = 10"
  by (simp add: turn_text_def)

datatype wr_pc = WAnnounce | WAccept | WLoop nat | WEnd
datatype rd_pc = DWait | DDial | DFirst | DRead nat | DSend nat | DEnd

record turn_state =
  synch :: nat
  wire :: bytes
  got :: "bytes list"
  wr_at :: wr_pc
  rd_at :: rd_pc
  dialled :: bool

inductive turn_step :: "turn_state \<Rightarrow> turn_state \<Rightarrow> bool" where
  announce: "wr_at s = WAnnounce \<Longrightarrow> synch s < 1 \<Longrightarrow> turn_step s (s\<lparr>synch := synch s + 1, wr_at := WAccept\<rparr>)"
| accept: "wr_at s = WAccept \<Longrightarrow> dialled s \<Longrightarrow> turn_step s (s\<lparr>wr_at := WLoop 0\<rparr>)"
| write_byte: "wr_at s = WLoop i \<Longrightarrow> i < 10 \<Longrightarrow> 0 < synch s \<Longrightarrow>
    turn_step s (s\<lparr>synch := synch s - 1, wire := wire s @ [turn_text ! i], wr_at := WLoop (i + 1)\<rparr>)"
| write_fails: "wr_at s = WLoop i \<Longrightarrow> i < 10 \<Longrightarrow> 0 < synch s \<Longrightarrow> turn_step s (s\<lparr>synch := synch s - 1, wr_at := WEnd\<rparr>)"
| write_done: "wr_at s = WLoop 10 \<Longrightarrow> turn_step s (s\<lparr>wr_at := WEnd\<rparr>)"
| hear: "rd_at s = DWait \<Longrightarrow> 0 < synch s \<Longrightarrow> turn_step s (s\<lparr>synch := synch s - 1, rd_at := DDial\<rparr>)"
| dial: "rd_at s = DDial \<Longrightarrow> turn_step s (s\<lparr>dialled := True, rd_at := DFirst\<rparr>)"
| dial_fails: "rd_at s = DDial \<Longrightarrow> turn_step s (s\<lparr>rd_at := DEnd\<rparr>)"
| first_token: "rd_at s = DFirst \<Longrightarrow> synch s < 1 \<Longrightarrow> turn_step s (s\<lparr>synch := synch s + 1, rd_at := DRead 0\<rparr>)"
| read_byte: "rd_at s = DRead i \<Longrightarrow> i < 5 \<Longrightarrow> 0 < n \<Longrightarrow> n \<le> length (wire s) \<Longrightarrow> n \<le> 10 \<Longrightarrow>
    turn_step s (s\<lparr>got := got s @ [take n (wire s)], wire := drop n (wire s), rd_at := DSend i\<rparr>)"
| read_fails: "rd_at s = DRead i \<Longrightarrow> turn_step s (s\<lparr>rd_at := DEnd\<rparr>)"
| token: "rd_at s = DSend i \<Longrightarrow> synch s < 1 \<Longrightarrow> turn_step s (s\<lparr>synch := synch s + 1, rd_at := DRead (i + 1)\<rparr>)"
| read_done: "rd_at s = DRead 5 \<Longrightarrow> turn_step s (s\<lparr>rd_at := DEnd\<rparr>)"

definition turn_start :: turn_state where
  "turn_start = \<lparr>synch = 0, wire = [], got = [], wr_at = WAnnounce, rd_at = DWait, dialled = False\<rparr>"

text \<open>Before the announcement is heard nothing else happens; after it there is one token, or one byte under way, or neither.\<close>

definition turn_inv :: "turn_state \<Rightarrow> bool" where
  "turn_inv s \<longleftrightarrow>
     synch s + length (wire s) \<le> 1
     \<and> (rd_at s \<in> {DWait, DDial} \<longrightarrow> \<not> dialled s \<and> got s = [] \<and> wire s = [])
     \<and> (rd_at s = DFirst \<or> (\<exists>i. rd_at s = DSend i) \<longrightarrow> synch s = 0 \<and> wire s = [])
     \<and> (rd_at s \<in> {DDial, DFirst} \<longrightarrow> synch s = 0 \<and> got s = [])
     \<and> (wr_at s = WAnnounce \<longrightarrow> synch s = 0 \<and> rd_at s = DWait)
     \<and> (wr_at s \<in> {WAnnounce, WAccept} \<longrightarrow> got s = [] \<and> wire s = [])
     \<and> (\<forall>i. wr_at s = WLoop i \<longrightarrow> i \<le> 10 \<and> dialled s \<and> concat (got s) @ wire s = take i turn_text)
     \<and> (wr_at s = WEnd \<longrightarrow> dialled s) \<and> prefix (concat (got s) @ wire s) turn_text
     \<and> (\<forall>g \<in> set (got s). length g = 1)
     \<and> (\<forall>i. rd_at s = DRead i \<longrightarrow> length (got s) = i) \<and> (\<forall>i. rd_at s = DSend i \<longrightarrow> length (got s) = i + 1 \<and> i < 5)
     \<and> length (got s) \<le> 5"

lemma digit_prefix: "i < 10 \<Longrightarrow> take i turn_text @ [turn_text ! i] = take (Suc i) turn_text"
  by (simp add: take_Suc_conv_app_nth)

lemma singles: "\<forall>g \<in> set xs. length g = 1 \<Longrightarrow> xs = map (\<lambda>c. [c]) (concat xs) \<and> length (concat xs) = length xs"
  by (induction xs) (auto simp: length_Suc_conv)

lemma short_take: "0 < n \<Longrightarrow> n \<le> length w \<Longrightarrow> k + length w \<le> Suc 0 \<Longrightarrow> k = 0 \<and> length w = 1 \<and> take n w = w \<and> drop n w = []"
  by auto

lemma turn_step_inv: "turn_step s t \<Longrightarrow> turn_inv s \<Longrightarrow> turn_inv t"
proof (induction rule: turn_step.induct)
  case (write_byte s i)
  have d: "concat (got s) @ wire s @ [turn_text ! i] = take (Suc i) turn_text"
    using write_byte digit_prefix [of i] unfolding turn_inv_def by (metis append.assoc)
  have "prefix (take (Suc i) turn_text) turn_text" by (rule take_is_prefix)
  moreover have "wire s = []" using write_byte by (cases "wire s") (auto simp: turn_inv_def)
  ultimately show ?case using write_byte d by (auto simp: turn_inv_def)
next
  case (read_byte s i n)
  have w: "synch s = 0" "length (wire s) = 1" "take n (wire s) = wire s" "drop n (wire s) = []"
    using short_take [of n "wire s" "synch s"] read_byte by (auto simp: turn_inv_def)
  show ?case using read_byte w by (auto simp: turn_inv_def)
qed (auto simp: turn_inv_def)

interpretation turns: transition_invariant turn_step turn_inv
  by unfold_locales (rule turn_step_inv)

text \<open>
  However the two goroutines interleave and whenever the deadline passes, the token keeps them in step: every
  read returns one byte, the bytes are the first of those to be written, and there are at most five.
\<close>

theorem turns_in_step:
  assumes "reaches turn_step turn_start s"
  shows "got s = map (\<lambda>c. [c]) (take (length (got s)) turn_text) \<and> length (got s) \<le> 5 \<and> synch s + length (wire s) \<le> 1"
proof -
  have "turn_inv turn_start" by (simp add: turn_inv_def turn_start_def)
  then have inv: "turn_inv s" by (rule turns.inv_reaches [OF assms])
  then have one: "\<forall>g \<in> set (got s). length g = 1" and pre: "prefix (concat (got s)) turn_text"
    by (auto simp: turn_inv_def dest: append_prefixD)
  have "got s = map (\<lambda>c. [c]) (concat (got s)) \<and> length (concat (got s)) = length (got s)"
    using singles [OF one] .
  moreover have "concat (got s) = take (length (concat (got s))) turn_text"
    using pre by (metis append_eq_conv_conj prefix_def)
  ultimately show ?thesis using inv by (auto simp: turn_inv_def)
qed

theorem turns_in_step_witness:
  "\<exists>s. reaches turn_step turn_start s \<and> synch s = 1 \<and> got s = map (\<lambda>c. [c]) (take (length (got s)) turn_text)"
proof -
  let ?s = "turn_start\<lparr>synch := 1, wr_at := WAccept\<rparr>"
  have "turn_step turn_start ?s" using announce [of turn_start] by (simp add: turn_start_def)
  then have r: "reaches turn_step turn_start ?s" by (rule reaches_one)
  then show ?thesis using turns_in_step [OF r] by (intro exI [of _ ?s]) simp
qed

section \<open>The servers of writevtest and tcpconn-readnb-test\<close>

text \<open>
  What a server meets in a turn of its accept loop: the exit flag before it, and then an accept that fails, with
  the flag at that time, or a connection.  A connection of \<open>writevtest\<close> has the answer of \<open>SetLinger\<close>, and for each turn of
  its loop the exit flag and whether \<open>Writev\<close> succeeds; one of \<open>tcpconn-readnb-test\<close> has the script of \<open>connHandle\<close>.
\<close>

datatype 'c accept_answer = AcceptErr bool | Accepted 'c

datatype server_end = ServerExit | ServerPanic | ServerReturns | ServerWaits

definition group_bytes :: nat where
  "group_bytes = 512 * 4096"

text \<open>The groups that are sent on one connection, and how its loop ends.\<close>

fun writev_conn :: "(bool \<times> bool) list \<Rightarrow> nat \<times> io_end" where
  "writev_conn [] = (0, Waiting)"
| "writev_conn ((stop, ok) # turns) =
     (if stop then (0, ExitFlag)
      else if \<not> ok then (0, IOFailed)
      else let (n, e) = writev_conn turns in (n + 1, e))"

fun writev_server :: "(bool \<times> (bool \<times> (bool \<times> bool) list) accept_answer) list \<Rightarrow> nat list \<times> server_end" where
  "writev_server [] = ([], ServerWaits)"
| "writev_server ((stop, ans) # rest) =
     (if stop then ([], ServerReturns)
      else (case ans of
          AcceptErr signalled \<Rightarrow> ([], if signalled then ServerExit else ServerPanic)
        | Accepted (linger_ok, turns) \<Rightarrow>
            if \<not> linger_ok then ([], ServerPanic)
            else let (n, e) = writev_conn turns
                 in if e = Waiting then ([n * group_bytes], ServerWaits)
                    else let (ns, e') = writev_server rest in ((n * group_bytes) # ns, e')))"

fun readnb_server :: "(bool \<times> (bool \<times> fd_event \<times> io_answer) list accept_answer) list \<Rightarrow> nat list \<times> server_end" where
  "readnb_server [] = ([], ServerWaits)"
| "readnb_server ((stop, ans) # rest) =
     (if stop then ([], ServerReturns)
      else (case ans of
          AcceptErr signalled \<Rightarrow> ([], if signalled then ServerExit else ServerPanic)
        | Accepted evs \<Rightarrow>
            (let (s, e) = connHandle ''write'' 65535 evs
             in if e = Waiting then ([totalio s], ServerWaits)
                else let (ns, e') = readnb_server rest in (totalio s # ns, e'))))"

definition orderly :: "(bool \<times> 'c accept_answer) \<Rightarrow> bool" where
  "orderly turn = (case turn of (stop, AcceptErr signalled) \<Rightarrow> stop \<or> signalled | (stop, Accepted c) \<Rightarrow> True)"

lemma writev_conn_groups:
  "writev_conn (replicate n (False, True) @ [(True, ok)]) = (n, ExitFlag)"
  "writev_conn (replicate n (False, True) @ [(False, False)]) = (n, IOFailed)"
  by (induction n) auto

text \<open>
  The servers panic only when accepting fails without a signal, or, in \<open>writevtest\<close>, when a connection cannot be
  prepared; and every connection of \<open>writevtest\<close> gets whole groups of two mebibytes.
\<close>

theorem servers_end:
  "snd (readnb_server turns) = ServerPanic \<Longrightarrow> \<exists>t \<in> set turns. \<not> orderly t"
  "snd (writev_server wturns) = ServerPanic \<Longrightarrow>
     \<exists>t \<in> set wturns. \<not> orderly t \<or> (\<exists>stop cs. t = (stop, Accepted (False, cs)))"
  "\<forall>n \<in> set (fst (writev_server wturns)). 2097152 dvd n"
proof -
  show "snd (readnb_server turns) = ServerPanic \<Longrightarrow> \<exists>t \<in> set turns. \<not> orderly t"
  proof (induction turns)
    case (Cons t rest)
    obtain stop ans where "t = (stop, ans)" by fastforce
    then show ?case using Cons by (cases ans) (auto simp: orderly_def split: if_splits prod.splits)
  qed simp
  show "snd (writev_server wturns) = ServerPanic \<Longrightarrow>
     \<exists>t \<in> set wturns. \<not> orderly t \<or> (\<exists>stop cs. t = (stop, Accepted (False, cs)))"
  proof (induction wturns)
    case (Cons t rest)
    obtain stop ans where "t = (stop, ans)" by fastforce
    then show ?case using Cons by (cases ans) (auto simp: orderly_def split: if_splits prod.splits)
  qed simp
  show "\<forall>n \<in> set (fst (writev_server wturns)). 2097152 dvd n"
  proof (induction wturns)
    case (Cons t rest)
    obtain stop ans where "t = (stop, ans)" by fastforce
    then show ?case using Cons by (cases ans) (auto simp: group_bytes_def Let_def split: if_splits prod.splits)
  qed simp
qed

theorem servers_end_witness:
  "snd (readnb_server [(False, AcceptErr False)]) = ServerPanic \<and> (\<exists>t \<in> set [(False, AcceptErr False)]. \<not> orderly (t :: bool \<times> nat accept_answer))"
  using servers_end(1) [of "[(False, AcceptErr False)]"] by (simp add: orderly_def)

end
