(* ===== verification/Signal_Servers.thy ===== *)
theory Signal_Servers
  imports Tcp_Tests
begin

text \<open>
  The processes of \<open>src/writevtest/writevtest.go\<close> and \<open>src/tcpconn-readnb-test/tcpconn-readnb-test.go\<close> with their goroutines:
  \<open>main\<close> as a server or as a client, \<open>sigHandle\<close>, and the goroutine that closes the listener.  What the loops of \<open>main\<close> move
  is in \<open>Net_Tests\<close> and \<open>Tcp_Tests\<close>; here it is how a signal ends them.

  The options and the answers of \<open>GoHttpProfile\<close>, \<open>DialTimeout\<close> and \<open>Listen\<close> are parameters.
\<close>

section \<open>The goroutines that handle a signal\<close>

datatype hand_pc = HandWait | HandNotify | HandDone

record sig_state =
  exits :: nat
  sigs :: nat
  notices :: nat
  notices_closed :: bool
  hand_at :: hand_pc

definition sig_begin :: sig_state where
  "sig_begin = \<lparr>exits = 0, sigs = 0, notices = 0, notices_closed = False, hand_at = HandWait\<rparr>"

text \<open>\<open>sigHandle\<close> takes a signal and counts it, and then tells the others; \<open>None\<close> is the end of the process.\<close>

definition hand_take :: "sig_state \<Rightarrow> sig_state" where
  "hand_take s = s\<lparr>sigs := sigs s - 1, exits := exits s + 1, hand_at := HandNotify\<rparr>"

definition hand_notify :: "sig_state \<Rightarrow> sig_state option" where
  "hand_notify s =
     (if exits s > 5 then None
      else if exits s > 1 then Some (s\<lparr>hand_at := HandDone\<rparr>)
      else if notices s > 0 then Some (s\<lparr>notices := notices s - 1, hand_at := HandDone\<rparr>)
      else if notices_closed s then Some (s\<lparr>hand_at := HandDone\<rparr>)
      else Some (s\<lparr>notices := 3, notices_closed := True, hand_at := HandDone\<rparr>))"

section \<open>The server\<close>

datatype srv_pc = SvLoop | SvAccept | SvLinger | SvConn | SvWrite | SvClose | SvReturned | SvExit | SvPanic

text \<open>\<open>fault\<close> is history: an accept or a \<open>SetLinger\<close> has failed although the listener was open.\<close>

record srv_state =
  sv_sig :: sig_state
  listening :: bool
  closer_done :: bool
  sv_at :: srv_pc
  sent :: nat
  fault :: bool

abbreviation sv_running :: "srv_state \<Rightarrow> bool" where
  "sv_running s \<equiv> sv_at s \<notin> {SvReturned, SvExit, SvPanic}"

definition accept_failed :: "srv_state \<Rightarrow> srv_state" where
  "accept_failed s = s\<lparr>sv_at := (if exits (sv_sig s) > 0 then SvExit else SvPanic)\<rparr>"

text \<open>
  What the process does by itself.  \<open>linger\<close> tells whether a connection is prepared with \<open>SetLinger\<close>, as in \<open>writevtest\<close>; a
  write of \<open>sv_write\<close> is a group of \<open>Writev\<close> or a turn of \<open>connHandle\<close>, and it returns.
\<close>

inductive srv_work :: "bool \<Rightarrow> srv_state \<Rightarrow> srv_state \<Rightarrow> bool" for linger where
  sv_take: "hand_at (sv_sig s) = HandWait \<Longrightarrow> sigs (sv_sig s) > 0 \<Longrightarrow> srv_work linger s (s\<lparr>sv_sig := hand_take (sv_sig s)\<rparr>)"
| sv_notify: "hand_at (sv_sig s) = HandNotify \<Longrightarrow>
    srv_work linger s (case hand_notify (sv_sig s) of None \<Rightarrow> s\<lparr>sv_at := SvExit\<rparr> | Some g \<Rightarrow> s\<lparr>sv_sig := g\<rparr>)"
| sv_close_listener: "\<not> closer_done s \<Longrightarrow> notices (sv_sig s) > 0 \<or> notices_closed (sv_sig s) \<Longrightarrow>
    srv_work linger s (s\<lparr>sv_sig := (sv_sig s)\<lparr>notices := notices (sv_sig s) - 1\<rparr>, listening := False, closer_done := True\<rparr>)"
| sv_loop: "sv_at s = SvLoop \<Longrightarrow> srv_work linger s (s\<lparr>sv_at := (if exits (sv_sig s) = 0 then SvAccept else SvReturned)\<rparr>)"
| sv_refused: "sv_at s = SvAccept \<Longrightarrow> \<not> listening s \<Longrightarrow> srv_work linger s (accept_failed s)"
| sv_linger: "sv_at s = SvLinger \<Longrightarrow> srv_work linger s (s\<lparr>sv_at := SvConn\<rparr>)"
| sv_conn: "sv_at s = SvConn \<Longrightarrow> srv_work linger s (s\<lparr>sv_at := (if exits (sv_sig s) = 0 then SvWrite else SvClose)\<rparr>)"
| sv_wrote: "sv_at s = SvWrite \<Longrightarrow> srv_work linger s (s\<lparr>sv_at := SvConn, sent := sent s + 1\<rparr>)"
| sv_write_failed: "sv_at s = SvWrite \<Longrightarrow> srv_work linger s (s\<lparr>sv_at := SvClose\<rparr>)"
| sv_close: "sv_at s = SvClose \<Longrightarrow> srv_work linger s (s\<lparr>sv_at := SvLoop\<rparr>)"

text \<open>What comes from outside: signals, connections, and failures of the system.\<close>

inductive srv_env :: "bool \<Rightarrow> srv_state \<Rightarrow> srv_state \<Rightarrow> bool" for linger where
  se_connect: "sv_at s = SvAccept \<Longrightarrow> listening s \<Longrightarrow> srv_env linger s (s\<lparr>sv_at := (if linger then SvLinger else SvConn)\<rparr>)"
| se_accept_fails: "sv_at s = SvAccept \<Longrightarrow> listening s \<Longrightarrow> srv_env linger s ((accept_failed s)\<lparr>fault := True\<rparr>)"
| se_linger_fails: "sv_at s = SvLinger \<Longrightarrow> srv_env linger s (s\<lparr>sv_at := SvPanic, fault := True\<rparr>)"

inductive srv_signal :: "srv_state \<Rightarrow> srv_state \<Rightarrow> bool" where
  ss_signal: "srv_signal s (s\<lparr>sv_sig := (sv_sig s)\<lparr>sigs := sigs (sv_sig s) + 1\<rparr>\<rparr>)"

definition srv_go :: "bool \<Rightarrow> srv_state \<Rightarrow> srv_state \<Rightarrow> bool" where
  "srv_go linger s t \<longleftrightarrow> sv_running s \<and> (srv_work linger s t \<or> srv_env linger s t)"

definition srv_step :: "bool \<Rightarrow> srv_state \<Rightarrow> srv_state \<Rightarrow> bool" where
  "srv_step linger s t \<longleftrightarrow> srv_go linger s t \<or> sv_running s \<and> srv_signal s t"

definition srv_begin :: srv_state where
  "srv_begin = \<lparr>sv_sig = sig_begin, listening = True, closer_done = False, sv_at = SvLoop, sent = 0, fault = False\<rparr>"

section \<open>The client\<close>

datatype cl_pc = ClLoop | ClRead | ClEnd

record cl_state =
  cl_sig :: sig_state
  cl_at :: cl_pc
  cl_io :: io_state

text \<open>The client has no goroutine that waits for the notices; a read returns when something comes or the connection fails.\<close>

inductive cl_work :: "cl_state \<Rightarrow> cl_state \<Rightarrow> bool" where
  cl_take: "hand_at (cl_sig s) = HandWait \<Longrightarrow> sigs (cl_sig s) > 0 \<Longrightarrow> cl_work s (s\<lparr>cl_sig := hand_take (cl_sig s)\<rparr>)"
| cl_notify: "hand_at (cl_sig s) = HandNotify \<Longrightarrow>
    cl_work s (case hand_notify (cl_sig s) of None \<Rightarrow> s\<lparr>cl_at := ClEnd\<rparr> | Some g \<Rightarrow> s\<lparr>cl_sig := g\<rparr>)"
| cl_loop: "cl_at s = ClLoop \<Longrightarrow> cl_work s (s\<lparr>cl_at := (if exits (cl_sig s) = 0 then ClRead else ClEnd)\<rparr>)"

inductive cl_env :: "cl_state \<Rightarrow> cl_state \<Rightarrow> bool" where
  ce_data: "cl_at s = ClRead \<Longrightarrow> 0 < n \<Longrightarrow> n \<le> 65535 - nn (cl_io s) \<Longrightarrow>
    cl_env s (s\<lparr>cl_at := ClLoop, cl_io := io_advance 65535 n (cl_io s)\<rparr>)"
| ce_fails: "cl_at s = ClRead \<Longrightarrow> cl_env s (s\<lparr>cl_at := ClEnd\<rparr>)"
| ce_signal: "cl_env s (s\<lparr>cl_sig := (cl_sig s)\<lparr>sigs := sigs (cl_sig s) + 1\<rparr>\<rparr>)"

definition cl_step :: "cl_state \<Rightarrow> cl_state \<Rightarrow> bool" where
  "cl_step s t \<longleftrightarrow> cl_at s \<noteq> ClEnd \<and> (cl_work s t \<or> cl_env s t)"

definition cl_begin :: cl_state where
  "cl_begin = \<lparr>cl_sig = sig_begin, cl_at = ClLoop, cl_io = \<lparr>nn = 0, totalio = 0\<rparr>\<rparr>"

section \<open>main\<close>

datatype sm_begin = SmReturns | SmClient cl_state | SmServer srv_state

definition writev_serve :: "bool \<Rightarrow> bool \<Rightarrow> sm_begin" where
  "writev_serve profile_ok listen_ok =
     (if \<not> profile_ok then SmReturns else if \<not> listen_ok then SmReturns else SmServer srv_begin)"

definition writev_main :: "bool \<Rightarrow> bool \<Rightarrow> bool \<Rightarrow> bool \<Rightarrow> sm_begin" where
  "writev_main runclient profile_ok dial_ok listen_ok =
     (if runclient then (if \<not> profile_ok then SmReturns else if \<not> dial_ok then SmReturns else SmClient cl_begin)
      else writev_serve profile_ok listen_ok)"

text \<open>What the client prints at its end: the signals if there were any, the seconds and the bandwidth.\<close>

definition client_report :: "cl_state \<Rightarrow> nat \<Rightarrow> nat option \<times> nat \<times> nat" where
  "client_report s nanosec =
     (let esp = nanosec div 1000000000; esp1 = (if esp \<le> 0 then 1 else esp)
      in (if exits (cl_sig s) > 0 then Some (exits (cl_sig s)) else None, esp1, totalio (cl_io s) div 1024 div 1024 div esp1))"

text \<open>The other program starts in the same way; its client reads in \<open>connHandle\<close>.\<close>

definition readnb_main :: "bool \<Rightarrow> bool \<Rightarrow> bool \<Rightarrow> bool \<Rightarrow> sm_begin" where
  "readnb_main runclient profile_ok dial_ok listen_ok =
     (if runclient then (if \<not> profile_ok then SmReturns else if \<not> dial_ok then SmReturns else SmClient cl_begin)
      else if \<not> profile_ok then SmReturns
      else if \<not> listen_ok then SmReturns
      else SmServer srv_begin)"

section \<open>Invariants\<close>

definition sig_ok :: "sig_state \<Rightarrow> bool" where
  "sig_ok g \<longleftrightarrow> (case hand_at g of
       HandWait \<Rightarrow> exits g = 0 \<and> notices g = 0 \<and> \<not> notices_closed g
     | HandNotify \<Rightarrow> exits g = 1 \<and> notices g = 0 \<and> \<not> notices_closed g
     | HandDone \<Rightarrow> exits g = 1 \<and> notices_closed g)"

lemma sig_ok_steps:
  "sig_ok g \<Longrightarrow> hand_at g = HandWait \<Longrightarrow> sig_ok (hand_take g)"
  "sig_ok g \<Longrightarrow> hand_at g = HandNotify \<Longrightarrow> \<exists>h. hand_notify g = Some h \<and> sig_ok h \<and> hand_at h = HandDone \<and> notices h = 3"
  "sig_ok g \<Longrightarrow> sig_ok (g\<lparr>sigs := n\<rparr>)"
  "sig_ok g \<Longrightarrow> notices g > 0 \<or> notices_closed g \<Longrightarrow> sig_ok (g\<lparr>notices := n\<rparr>) \<and> exits g = 1"
  by (auto simp: sig_ok_def hand_take_def hand_notify_def split: hand_pc.splits)

definition srv_ok :: "bool \<Rightarrow> srv_state \<Rightarrow> bool" where
  "srv_ok linger s \<longleftrightarrow> sig_ok (sv_sig s) \<and> (listening s \<longleftrightarrow> \<not> closer_done s) \<and> (closer_done s \<longrightarrow> exits (sv_sig s) = 1)
     \<and> (sv_at s = SvPanic \<longrightarrow> fault s) \<and> (sv_at s = SvReturned \<or> sv_at s = SvExit \<longrightarrow> exits (sv_sig s) = 1)"

lemma srv_ok_work: "srv_work linger s t \<Longrightarrow> sv_running s \<Longrightarrow> srv_ok linger s \<Longrightarrow> srv_ok linger t"
proof (induction rule: srv_work.induct)
  case (sv_take s)
  then show ?case using sig_ok_steps(1) [of "sv_sig s"] by (auto simp: srv_ok_def hand_take_def sig_ok_def)
next
  case (sv_notify s)
  then obtain h where "hand_notify (sv_sig s) = Some h" "sig_ok h" "hand_at h = HandDone"
    using sig_ok_steps(2) [of "sv_sig s"] by (auto simp: srv_ok_def)
  then show ?case using sv_notify(2,3) by (auto simp: srv_ok_def sig_ok_def)
next
  case (sv_close_listener s)
  then show ?case using sig_ok_steps(4) [of "sv_sig s"] by (auto simp: srv_ok_def)
next
  case (sv_loop s)
  then show ?case by (auto simp: srv_ok_def sig_ok_def split: hand_pc.splits)
qed (auto simp: srv_ok_def accept_failed_def)

lemma srv_ok_step: "srv_step linger s t \<Longrightarrow> srv_ok linger s \<Longrightarrow> srv_ok linger t"
  unfolding srv_step_def srv_go_def
proof (elim disjE conjE)
  assume "srv_env linger s t" "srv_ok linger s"
  then show ?thesis
    by (induction rule: srv_env.induct) (auto simp: srv_ok_def accept_failed_def sig_ok_def split: hand_pc.splits)
next
  assume "srv_signal s t" "srv_ok linger s"
  then show ?thesis
    by (induction rule: srv_signal.induct) (auto simp: srv_ok_def sig_ok_steps(3))
qed (auto intro: srv_ok_work)

interpretation srv: transition_invariant "srv_step linger" "srv_ok linger" for linger
  by unfold_locales (rule srv_ok_step)

lemma srv_ok_begin: "srv_ok linger srv_begin"
  by (simp add: srv_ok_def srv_begin_def sig_ok_def sig_begin_def)

section \<open>After a signal\<close>

fun sv_left :: "srv_pc \<Rightarrow> nat" where
  "sv_left SvAccept = 6" | "sv_left SvLinger = 5" | "sv_left SvWrite = 5" | "sv_left SvConn = 4" | "sv_left SvClose = 3"
| "sv_left SvLoop = 2" | "sv_left SvReturned = 0" | "sv_left SvExit = 0" | "sv_left SvPanic = 0"

definition srv_left :: "srv_state \<Rightarrow> nat" where
  "srv_left s = sv_left (sv_at s) + (if hand_at (sv_sig s) = HandNotify then 1 else 0) + (if closer_done s then 0 else 1)"

lemma exits_taken: "sig_ok g \<Longrightarrow> hand_at g \<noteq> HandWait \<Longrightarrow> exits g = 1"
  by (auto simp: sig_ok_def split: hand_pc.splits)

lemma srv_left_less:
  assumes "srv_go linger s t" "srv_ok linger s" "hand_at (sv_sig s) \<noteq> HandWait"
  shows "srv_left t < srv_left s \<and> hand_at (sv_sig t) \<noteq> HandWait"
proof -
  have e: "exits (sv_sig s) = 1" using exits_taken assms(2,3) by (simp add: srv_ok_def)
  from assms(1) have "srv_work linger s t \<or> srv_env linger s t" by (simp add: srv_go_def)
  then show ?thesis
  proof
    assume "srv_work linger s t"
    then show ?thesis using e assms(2,3)
    proof (induction rule: srv_work.induct)
      case (sv_notify s)
      then obtain h where "hand_notify (sv_sig s) = Some h" "hand_at h = HandDone"
        using sig_ok_steps(2) [of "sv_sig s"] by (auto simp: srv_ok_def)
      then show ?case using sv_notify(1) by (simp add: srv_left_def)
    qed (auto simp: srv_left_def accept_failed_def)
  next
    assume "srv_env linger s t"
    then show ?thesis using e assms(3)
      by (induction rule: srv_env.induct) (auto simp: srv_left_def accept_failed_def)
  qed
qed

lemma srv_possible:
  assumes "srv_ok linger s" "hand_at (sv_sig s) \<noteq> HandWait" "sv_running s"
  shows "\<exists>t. srv_work linger s t"
proof (cases "sv_at s")
  case SvAccept
  show ?thesis
  proof (cases "listening s")
    case True
    then have c: "\<not> closer_done s" using assms(1) by (simp add: srv_ok_def)
    show ?thesis
    proof (cases "hand_at (sv_sig s) = HandNotify")
      case False
      then have "notices_closed (sv_sig s)" using assms(1,2) by (auto simp: srv_ok_def sig_ok_def split: hand_pc.splits)
      then show ?thesis using sv_close_listener [OF c] by blast
    qed (blast intro: sv_notify)
  qed (blast intro: sv_refused SvAccept)
qed (use assms(3) in \<open>auto intro: srv_work.intros\<close>)

lemma srv_run_left:
  "(srv_go linger ^^ k) s t \<Longrightarrow> srv_ok linger s \<Longrightarrow> hand_at (sv_sig s) \<noteq> HandWait \<Longrightarrow>
     srv_left t + k \<le> srv_left s \<and> srv_ok linger t \<and> hand_at (sv_sig t) \<noteq> HandWait"
proof (induction k arbitrary: t)
  case (Suc k)
  then obtain u where u: "(srv_go linger ^^ k) s u" "srv_go linger u t" by auto
  then have "srv_ok linger u" "hand_at (sv_sig u) \<noteq> HandWait" "srv_left u + k \<le> srv_left s" using Suc by blast+
  then show ?case using srv_left_less [OF u(2)] srv_ok_step [of linger u t] u(2) by (auto simp: srv_step_def)
qed simp

section \<open>Properties\<close>

text \<open>
  C25. How a signal ends a server: without a failure of the system it never panics; when its handler has taken a signal
  \<open>main\<close> and the goroutines do at most eight more steps, as long as writes return, and when no step is possible by itself
  the process has ended.
\<close>

theorem server_obeys_signal:
  assumes "reaches (srv_step linger) srv_begin s"
  shows "(\<not> fault s \<longrightarrow> sv_at s \<noteq> SvPanic) \<and> (hand_at (sv_sig s) \<noteq> HandWait \<longrightarrow>
    (\<forall>k t. (srv_go linger ^^ k) s t \<longrightarrow> k \<le> 8 \<and> ((\<nexists>u. srv_work linger t u) \<longrightarrow> \<not> sv_running t)))"
proof -
  have ok: "srv_ok linger s" by (rule srv.inv_reaches [OF assms srv_ok_begin])
  have "srv_left s \<le> 8" by (cases "sv_at s") (auto simp: srv_left_def)
  then have "k \<le> 8 \<and> ((\<nexists>u. srv_work linger t u) \<longrightarrow> \<not> sv_running t)"
    if "hand_at (sv_sig s) \<noteq> HandWait" "(srv_go linger ^^ k) s t" for k t
    using srv_run_left [OF that(2) ok that(1)] srv_possible [of linger t] by auto
  then show ?thesis using ok by (auto simp: srv_ok_def)
qed

text \<open>
  The client looks at the flag between two reads only: when a signal has been handled while it reads, it goes on to wait until
  the server sends or closes.
\<close>

definition cl_reads :: "nat \<Rightarrow> nat \<Rightarrow> nat \<Rightarrow> bool \<Rightarrow> hand_pc \<Rightarrow> cl_state" where
  "cl_reads e n m c h = \<lparr>cl_sig = \<lparr>exits = e, sigs = n, notices = m, notices_closed = c, hand_at = h\<rparr>, cl_at = ClRead, cl_io = \<lparr>nn = 0, totalio = 0\<rparr>\<rparr>"

lemma client_deaf:
  "\<exists>s. reaches cl_step cl_begin s \<and> hand_at (cl_sig s) = HandDone \<and> cl_at s = ClRead \<and> (\<nexists>t. cl_work s t)"
proof -
  have "cl_step cl_begin (cl_reads 0 0 0 False HandWait)"
    using cl_loop [of cl_begin] by (simp add: cl_step_def cl_begin_def sig_begin_def cl_reads_def)
  then have "reaches cl_step cl_begin (cl_reads 0 0 0 False HandWait)" by (rule reaches_one)
  moreover have "cl_step (cl_reads 0 0 0 False HandWait) (cl_reads 0 1 0 False HandWait)"
    using ce_signal [of "cl_reads 0 0 0 False HandWait"] by (simp add: cl_step_def cl_reads_def)
  ultimately have "reaches cl_step cl_begin (cl_reads 0 1 0 False HandWait)" by (rule reaches_step)
  moreover have "cl_step (cl_reads 0 1 0 False HandWait) (cl_reads 1 0 0 False HandNotify)"
    using cl_take [of "cl_reads 0 1 0 False HandWait"] by (simp add: cl_step_def cl_reads_def hand_take_def)
  ultimately have "reaches cl_step cl_begin (cl_reads 1 0 0 False HandNotify)" by (rule reaches_step)
  moreover have "cl_step (cl_reads 1 0 0 False HandNotify) (cl_reads 1 0 3 True HandDone)"
    using cl_notify [of "cl_reads 1 0 0 False HandNotify"] by (simp add: cl_step_def cl_reads_def hand_notify_def)
  ultimately have "reaches cl_step cl_begin (cl_reads 1 0 3 True HandDone)" by (rule reaches_step)
  moreover have "\<nexists>t. cl_work (cl_reads 1 0 3 True HandDone) t"
    by (auto simp: cl_reads_def elim: cl_work.cases)
  ultimately show ?thesis by (intro exI [of _ "cl_reads 1 0 3 True HandDone"]) (simp add: cl_reads_def)
qed


lemma client_reports_bandwidth: "snd (snd (client_report s nanosec)) = bandwidth (totalio (cl_io s)) nanosec"
  by (simp add: client_report_def bandwidth_def Let_def)

theorem server_obeys_signal_witness:
  "\<exists>s. reaches (srv_step True) srv_begin s \<and> hand_at (sv_sig s) = HandNotify
     \<and> (\<forall>k t. (srv_go True ^^ k) s t \<longrightarrow> k \<le> 8 \<and> ((\<nexists>u. srv_work True t u) \<longrightarrow> \<not> sv_running t))"
proof -
  let ?s1 = "srv_begin\<lparr>sv_sig := sig_begin\<lparr>sigs := 1\<rparr>\<rparr>" and ?s2 = "srv_begin\<lparr>sv_sig := hand_take (sig_begin\<lparr>sigs := 1\<rparr>)\<rparr>"
  have "srv_step True srv_begin ?s1"
    using ss_signal [of srv_begin] by (simp add: srv_step_def srv_begin_def sig_begin_def)
  moreover have "srv_step True ?s1 ?s2"
    using sv_take [of ?s1 True] by (simp add: srv_step_def srv_go_def srv_begin_def sig_begin_def)
  ultimately have r: "reaches (srv_step True) srv_begin ?s2" by (blast intro: reaches_step reaches_one)
  show ?thesis using server_obeys_signal [OF r] r by (intro exI [of _ ?s2]) (simp add: hand_take_def)
qed

end
