(* ===== verification/Test_Mains.thy ===== *)
theory Test_Mains
  imports Complex_Main Tcp_Tests Chan_Tests
begin

text \<open>
  How the test programs start, and what their \<open>main\<close> makes of the goroutines that the other theories model: the options,
  the calls that may fail, and the rounds.  The answers of the network and of the option packages are parameters.

  The programs are \<open>src/schedule-chan/schedule-chan.go\<close>, \<open>src/channel-send-recv-int64/channel-send-recv-int64.go\<close>,
  \<open>src/huge-chan-close/huge-chan-close.go\<close>, \<open>src/tinytcpserver/tinytcpserver.go\<close>, \<open>src/tcpconn-close-test/tcpconn-close-test.go\<close>,
  \<open>src/tcpconn-write-test/tcpconn-write-test.go\<close> and \<open>src/tcpconn-setdeadline-test/tcpconn-setdeadline-test.go\<close>.
\<close>

section \<open>schedule-chan\<close>

definition sched_loopmax :: "nat \<Rightarrow> nat" where
  "sched_loopmax workers = workers * 100000"

text \<open>A loop of \<open>main\<close>: the goroutines run until it has collected a report of each worker.\<close>

definition sched_loop :: "nat \<Rightarrow> nat \<Rightarrow> (nat \<Rightarrow> nat) \<Rightarrow> (nat \<Rightarrow> nat) \<Rightarrow> bool" where
  "sched_loop workers loopmax w w' \<longleftrightarrow>
     (\<exists>s. reaches pool_step (pool_start workers loopmax w) s \<and> collected s = workers \<and> winner s = w')"

text \<open>The loops are counted before the option is looked at, so there is at least one.\<close>

inductive sched_main :: "nat \<Rightarrow> int \<Rightarrow> int \<Rightarrow> (nat \<Rightarrow> nat) \<Rightarrow> (nat \<Rightarrow> nat) \<Rightarrow> bool" for workers argLoop where
  sm_last: "sched_loop workers (sched_loopmax workers) w w' \<Longrightarrow> argLoop \<le> loopcnt + 1 \<Longrightarrow> sched_main workers argLoop loopcnt w w'"
| sm_next: "sched_loop workers (sched_loopmax workers) w w' \<Longrightarrow> loopcnt + 1 < argLoop \<Longrightarrow>
    sched_main workers argLoop (loopcnt + 1) w' w'' \<Longrightarrow> sched_main workers argLoop loopcnt w w''"

text \<open>The channel of the reports has room for as many as there are workers, so a negative number panics.\<close>

definition sched_begin :: "int \<Rightarrow> nat option" where
  "sched_begin nworker = (if nworker < 0 then None else Some (nat nworker))"

lemma sched_loop_total: "sched_loop workers loopmax w w' \<Longrightarrow> 0 < workers \<Longrightarrow> (\<Sum>i < workers. w' i) = (\<Sum>i < workers. w i) + loopmax"
  unfolding sched_loop_def using workers_share_all by blast

text \<open>
  The final counts add up to a hundred thousand elements for every worker and every loop, however they are shared.
\<close>

theorem sched_main_total:
  assumes "sched_main workers argLoop loopcnt w w'" "0 < workers"
  shows "(\<Sum>i < workers. w' i) = (\<Sum>i < workers. w i) + nat (max 1 (argLoop - loopcnt)) * (workers * 100000)"
  using assms
proof (induction rule: sched_main.induct)
  case (sm_last w w' loopcnt)
  have "max 1 (argLoop - loopcnt) = 1" using sm_last(2) by simp
  then show ?case using sm_last sched_loop_total [of workers "sched_loopmax workers" w w'] by (simp add: sched_loopmax_def)
next
  case (sm_next w w' loopcnt w'')
  have "nat (max 1 (argLoop - loopcnt)) = Suc (nat (max 1 (argLoop - (loopcnt + 1))))" using sm_next(2) by simp
  then show ?case
    using sm_next.IH [OF sm_next.prems] sched_loop_total [OF sm_next(1) sm_next.prems]
    by (simp only: sched_loopmax_def mult_Suc add.assoc)
qed

text \<open>A loop can end: one worker takes everything.\<close>

lemma one_takes_all:
  "reaches pool_step (pool_start 1 n w) ((pool_start 1 n w)\<lparr>tosend := n - k, counting := [Some k]\<rparr>)" if "k \<le> n"
  using that
proof (induction k)
  case 0
  then show ?case by (simp add: pool_start_def reaches_refl)
next
  case (Suc k)
  let ?s = "(pool_start 1 n w)\<lparr>tosend := n - k, counting := [Some k]\<rparr>"
  let ?t = "?s\<lparr>tosend := n - Suc k, queued := 1\<rparr>"
  have "reaches pool_step (pool_start 1 n w) ?s" using Suc by simp
  moreover have "pool_step ?s ?t" using pool_send [of ?s] Suc.prems by (simp add: pool_start_def Suc_diff_Suc)
  ultimately have "reaches pool_step (pool_start 1 n w) ?t" by (rule reaches_step)
  moreover have "pool_step ?t (?t\<lparr>queued := 0, counting := [Some (Suc k)]\<rparr>)"
    using pool_take [of 0 ?t k] by (simp add: pool_start_def)
  ultimately have "reaches pool_step (pool_start 1 n w) (?t\<lparr>queued := 0, counting := [Some (Suc k)]\<rparr>)" by (rule reaches_step)
  then show ?case by (simp add: pool_start_def)
qed

lemma sched_loop_possible: "sched_loop 1 n w (w(0 := w 0 + n))"
proof -
  let ?s = "(pool_start 1 n w)\<lparr>tosend := 0, counting := [Some n]\<rparr>"
  have "reaches pool_step (pool_start 1 n w) ?s" using one_takes_all [of n n w] by simp
  moreover have "pool_step ?s (?s\<lparr>c_closed := True\<rparr>)" using pool_close [of ?s] by (simp add: pool_start_def)
  ultimately have "reaches pool_step (pool_start 1 n w) (?s\<lparr>c_closed := True\<rparr>)" by (rule reaches_step)
  moreover have "pool_step (?s\<lparr>c_closed := True\<rparr>) (?s\<lparr>c_closed := True, counting := [None], reports := [(0, n)]\<rparr>)"
    using pool_report [of 0 "?s\<lparr>c_closed := True\<rparr>" n] by (simp add: pool_start_def)
  ultimately have "reaches pool_step (pool_start 1 n w) (?s\<lparr>c_closed := True, counting := [None], reports := [(0, n)]\<rparr>)" by (rule reaches_step)
  moreover have "pool_step (?s\<lparr>c_closed := True, counting := [None], reports := [(0, n)]\<rparr>)
      (?s\<lparr>c_closed := True, counting := [None], winner := w(0 := w 0 + n), collected := 1\<rparr>)"
    using pool_collect [of "?s\<lparr>c_closed := True, counting := [None], reports := [(0, n)]\<rparr>" 0 n "[]"] by (simp add: pool_start_def)
  ultimately have "reaches pool_step (pool_start 1 n w) (?s\<lparr>c_closed := True, counting := [None], winner := w(0 := w 0 + n), collected := 1\<rparr>)"
    by (rule reaches_step)
  then show ?thesis unfolding sched_loop_def by (intro exI conjI) (assumption, simp_all)
qed

theorem sched_main_total_witness:
  "\<exists>w'. sched_main 1 0 0 (\<lambda>_. 0) w' \<and> (\<Sum>i < (1 :: nat). w' i) = 100000"
proof -
  have m: "sched_main 1 0 0 (\<lambda>_. 0) ((\<lambda>_. 0)(0 := 0 + sched_loopmax 1))"
    by (rule sm_last [OF sched_loop_possible]) simp
  from sched_main_total [OF this] show ?thesis using m by (intro exI conjI) (assumption, simp add: max_def)
qed

section \<open>channel-send-recv-int64\<close>

text \<open>
  The time limit in nanoseconds, for the option in seconds.  A limit that is not positive is replaced by ten, which are
  nanoseconds too.
\<close>

definition sr_timelimit :: "int \<Rightarrow> int" where
  "sr_timelimit t = (let d = wrap64 (t * 1000000000) in if d \<le> 0 then 10 else d)"

text \<open>\<open>main\<close> panics when it makes a channel of a negative size.\<close>

definition sr_main :: "int \<Rightarrow> int \<Rightarrow> (int \<times> sr_state) option" where
  "sr_main sz t = (if sz < 0 then None else Some (sr_timelimit t, sr_start (nat sz)))"

text \<open>The rate that is printed as a number for each second, for a count and a time in nanoseconds.\<close>

definition sr_rate :: "int \<Rightarrow> int \<Rightarrow> real" where
  "sr_rate n espts = of_int (wrap64 (n * 100000)) / of_int espts"

lemma sr_timelimit_default: "sr_timelimit 0 = 10"
  by (simp add: sr_timelimit_def)

lemma sr_timelimit_seconds: "0 < t \<Longrightarrow> t \<le> 9223372036 \<Longrightarrow> sr_timelimit t = t * 1000000000"
  by (simp add: sr_timelimit_def)

text \<open>The printed rate is a ten-thousandth of the rate.\<close>

lemma sr_rate_wrong:
  assumes "0 \<le> n" "n \<le> 92233720368547" "0 < espts"
  shows "10000 * sr_rate n espts = of_int n / (of_int espts / 1000000000)"
  using assms by (simp add: sr_rate_def)

section \<open>huge-chan-close\<close>

definition gate_main :: "bool \<Rightarrow> int \<Rightarrow> nat option" where
  "gate_main showhelp mx = (if showhelp \<or> mx \<le> 0 then None else Some (nat mx))"

text \<open>The numbers that the ticker prints before it stops.\<close>

definition gate_ticks :: "int \<Rightarrow> int list" where
  "gate_ticks wait = map int [0..<nat wait]"

lemma gate_main_starts: "gate_main help mx = Some n \<Longrightarrow> \<exists>m. n = Suc m \<and> gate_inv n (gate_begin n)"
  by (cases n) (auto simp: gate_main_def gate_inv_def gate_begin_def split: if_splits)

section \<open>tinytcpserver\<close>

text \<open>Half of the processors, but at least one, are used; there is a counted acceptor for each.\<close>

definition tiny_main :: "nat \<Rightarrow> bool \<Rightarrow> bool \<Rightarrow> (nat \<times> tiny_state) option" where
  "tiny_main procs resolve_ok listen_ok =
     (let half = procs div 2; cpus = (if half \<le> 0 then 1 else half)
      in if \<not> resolve_ok then None else if \<not> listen_ok then None else Some (cpus, tiny_start))"

lemma tiny_main_starts: "tiny_main procs True True = Some (c, s) \<Longrightarrow> 1 \<le> c \<and> tiny_inv s"
  by (auto simp: tiny_main_def tiny_inv_def tiny_start_def live_def Let_def split: if_splits)

section \<open>tcpconn-close-test\<close>

datatype close_end = CmExit nat | CmPanic | CmServer bytes | CmClient "bytes option"

text \<open>
  The server writes its ten bytes until a write fails, which \<open>wr\<close> tells; the error of \<open>AcceptTCP\<close> is thrown away and
  the connection, which is then \<open>nil\<close>, used.  The client makes its buffer before it
  reads, and a negative size panics.
\<close>

definition close_main :: "bytes \<Rightarrow> int \<Rightarrow> bool \<Rightarrow> bool \<Rightarrow> bool \<Rightarrow> bool \<Rightarrow> (nat \<Rightarrow> bool) \<Rightarrow> (nat \<times> bool) list \<Rightarrow> bytes \<Rightarrow> close_end" where
  "close_main mode rbufsize resolve_ok listen_ok accept_ok dial_ok wr reads stream =
     (if mode = ''server'' then
        (if \<not> resolve_ok then CmExit 9 else if \<not> listen_ok then CmExit 9
         else if \<not> accept_ok then CmPanic else CmServer (close_server wr))
      else if \<not> dial_ok then CmExit 1
      else if rbufsize < 0 then CmPanic
      else CmClient (close_client (nat rbufsize) reads stream []))"

lemma close_main_any_mode: "mode \<noteq> ''server'' \<Longrightarrow> close_main mode n r l a False wr reads stream = CmExit 1"
  by (simp add: close_main_def)

section \<open>tcpconn-write-test\<close>

text \<open>The address that is dialled, the answer, and the turns; the first line of the terminal is read before them.\<close>

datatype write_end = WmExit | WmTurns bytes bytes nat wt_end

definition write_main :: "bool \<Rightarrow> bytes \<Rightarrow> (bytes \<Rightarrow> bool) \<Rightarrow> (bool \<times> bool) list \<Rightarrow> write_end" where
  "write_main doread hostport dial turns =
     (let hp = with_port hostport
      in if \<not> dial hp then WmExit
         else (case write_turns doread 0 turns [] 0 of (out, reads, e) \<Rightarrow> WmTurns hp out reads e))"

text \<open>The default address has a port and is dialled as it is.\<close>

lemma write_main_default:
  "write_main doread ''216.58.221.132:80'' (\<lambda>a. a = ''216.58.221.132:80'') [] = WmTurns ''216.58.221.132:80'' [] 0 WtRuns"
  by code_simp

section \<open>tcpconn-setdeadline-test\<close>

text \<open>
  The process exits when the address, the listener or the connection fails; \<open>dial\<close> is asked after the announcement of the
  accepting goroutine.  \<open>DmTurns\<close> are the turns of \<open>turn_step\<close>.
\<close>

datatype deadline_end = DmExit nat | DmTurns turn_state

definition deadline_main :: "bool \<Rightarrow> bool \<Rightarrow> bool \<Rightarrow> deadline_end" where
  "deadline_main resolve_ok listen_ok dial_ok =
     (if \<not> resolve_ok then DmExit 9 else if \<not> listen_ok then DmExit 9
      else if \<not> dial_ok then DmExit 9 else DmTurns turn_start)"

end
