(* ===== verification/Affinity.thy ===== *)
theory Affinity
  imports Process_Tools Go_Strings
begin

text \<open>
  How the process tools place their threads and processes: \<open>main\<close> and \<open>showAffinity\<close> of
  \<open>src/syscall-cpuaffinity/syscall-cpuaffinity.go\<close>, and of \<open>src/fork-cpuaffinity/fork-cpuaffinity.go\<close> the choice between
  master and worker, the process that \<open>stressFork\<close> starts, what \<open>stressWorker\<close> knows of its master, and
  \<open>stressAffinity\<close>.

  What \<open>GetAffinity\<close>, \<open>SetAffinity\<close> and \<open>GetThreadIDs\<close> answer, and the options of the package \<open>getopt\<close>, are parameters.
\<close>

section \<open>syscall-cpuaffinity\<close>

text \<open>The lines of \<open>showAffinity\<close>; an error of one of its calls ends the process (\<open>None\<close>).\<close>

fun get_all :: "(nat \<Rightarrow> nat list option) \<Rightarrow> nat list \<Rightarrow> (nat \<times> nat list) list option" where
  "get_all GetAffinity [] = Some []"
| "get_all GetAffinity (tid # tids) =
     (case GetAffinity tid of
        None \<Rightarrow> None
      | Some cpus \<Rightarrow> map_option (Cons (tid, cpus)) (get_all GetAffinity tids))"

definition showAffinity :: "(nat \<Rightarrow> nat list option) \<Rightarrow> nat list option \<Rightarrow> nat \<Rightarrow> (nat \<times> nat list) list option" where
  "showAffinity GetAffinity GetThreadIDs pid =
     (case GetAffinity pid of
        None \<Rightarrow> None
      | Some cpus \<Rightarrow>
          (case GetThreadIDs of
             None \<Rightarrow> None
           | Some tids \<Rightarrow> map_option (Cons (pid, cpus)) (get_all GetAffinity tids)))"

text \<open>The calls of \<open>SetAffinity\<close> for the threads but the first, up to the first error.\<close>

fun set_all :: "(nat \<Rightarrow> nat list \<Rightarrow> bool) \<Rightarrow> nat \<Rightarrow> nat list \<Rightarrow> nat list \<Rightarrow> bool \<times> (nat \<times> nat list) list" where
  "set_all set_ok pid cpus [] = (True, [])"
| "set_all set_ok pid cpus (tid # tids) =
     (if tid = pid then set_all set_ok pid cpus tids
      else if \<not> set_ok tid cpus then (False, [(tid, cpus)])
      else let (ok, calls) = set_all set_ok pid cpus tids in (ok, (tid, cpus) # calls))"

datatype affinity_end = AffinityExit | AffinityWaits

text \<open>\<open>main\<close>: whether it comes to wait for a signal, and its calls; \<open>show_ok i\<close> is whether the \<open>i\<close>-th \<open>showAffinity\<close> returns.\<close>

definition affinity_main ::
  "(nat \<Rightarrow> bool) \<Rightarrow> (nat \<Rightarrow> nat list \<Rightarrow> bool) \<Rightarrow> nat list option \<Rightarrow> nat \<Rightarrow> affinity_end \<times> (nat \<times> nat list) list"
where
  "affinity_main show_ok set_ok GetThreadIDs pid =
     (if \<not> show_ok 0 then (AffinityExit, [])
      else let first = [(pid, [0])]
      in if \<not> set_ok pid [0] then (AffinityExit, first)
      else case GetThreadIDs of
        None \<Rightarrow> (AffinityExit, first)
      | Some tids \<Rightarrow>
          (let (ok1, calls1) = set_all set_ok pid [1, 2, 3] tids
           in if \<not> ok1 \<or> \<not> show_ok 1 then (AffinityExit, first @ calls1)
           else let (ok2, calls2) = set_all set_ok pid [4, 5, 6] tids
           in if \<not> ok2 \<or> \<not> show_ok 2 then (AffinityExit, first @ calls1 @ calls2)
           else (AffinityWaits, first @ calls1 @ calls2)))"

text \<open>The processors of a thread after the calls: those of the last call for it.\<close>

definition placed :: "(nat \<times> nat list) list \<Rightarrow> nat \<Rightarrow> nat list option" where
  "placed calls = map_of (rev calls)"

text \<open>The work load: the counter of \<open>stressWorker\<close>, until the master ends.\<close>

fun stressCPU :: "bool list \<Rightarrow> u64 \<Rightarrow> u64" where
  "stressCPU [] count = count"
| "stressCPU (exit_now # turns) count = (if exit_now then count else stressCPU turns (fst (stress_turn count)))"

lemma set_all_calls:
  "set_all set_ok pid cpus tids = (True, calls) \<Longrightarrow> calls = map (\<lambda>t. (t, cpus)) (filter (\<lambda>t. t \<noteq> pid) tids)"
  by (induction tids arbitrary: calls) (auto split: if_splits prod.splits)

lemma set_all_ok:
  "fst (set_all set_ok pid cpus tids) \<longleftrightarrow> (\<forall>t \<in> set tids. t \<noteq> pid \<longrightarrow> set_ok t cpus)"
  by (induction tids) (auto split: prod.splits)

text \<open>
  When \<open>main\<close> comes to wait for a signal, the process is on processor 0 and every other thread it was told of on
  the processors 4, 5 and 6; it gets there exactly when every call succeeds.
\<close>

theorem affinity_main_places:
  assumes "affinity_main show_ok set_ok (Some tids) pid = (AffinityWaits, calls)"
  shows "placed calls pid = Some [0] \<and> (\<forall>t \<in> set tids. t \<noteq> pid \<longrightarrow> placed calls t = Some [4, 5, 6])
    \<and> (\<forall>(t, cpus) \<in> set calls. set_ok t cpus)"
proof -
  obtain c1 c2 where c: "set_all set_ok pid [1, 2, 3] tids = (True, c1)" "set_all set_ok pid [4, 5, 6] tids = (True, c2)"
    "calls = [(pid, [0])] @ c1 @ c2" "set_ok pid [0]"
    using assms by (auto simp: affinity_main_def Let_def split: if_splits prod.splits)
  have ok: "\<forall>t \<in> set tids. t \<noteq> pid \<longrightarrow> set_ok t [1, 2, 3] \<and> set_ok t [4, 5, 6]"
    using set_all_ok [of set_ok pid "[1, 2, 3]" tids] set_all_ok [of set_ok pid "[4, 5, 6]" tids] c by simp
  let ?ts = "filter (\<lambda>t. t \<noteq> pid) tids"
  have m: "map_of (rev (map (\<lambda>t. (t, cpus)) ts)) x = (if x \<in> set ts then Some cpus else None)" for ts x and cpus :: "nat list"
    unfolding rev_map by (simp add: map_of_map_restrict restrict_map_def o_def)
  have "calls = (pid, [0]) # map (\<lambda>t. (t, [1, 2, 3])) ?ts @ map (\<lambda>t. (t, [4, 5, 6])) ?ts"
    using c set_all_calls by fastforce
  then show ?thesis
    using ok c(4) by (auto simp: placed_def m map_add_def split: option.splits)
qed

theorem affinity_main_places_witness:
  "affinity_main (\<lambda>_. True) (\<lambda>_ _. True) (Some [7, 8]) 7 = (AffinityWaits, [(7, [0]), (8, [1, 2, 3]), (8, [4, 5, 6])])
   \<and> placed [(7, [0]), (8, [1, 2, 3]), (8, [4, 5, 6])] 8 = Some [4, 5, 6]"
proof -
  have "affinity_main (\<lambda>_. True) (\<lambda>_ _. True) (Some [7, 8]) 7 = (AffinityWaits, [(7, [0]), (8, [1, 2, 3]), (8, [4, 5, 6])])"
    by (simp add: affinity_main_def)
  from affinity_main_places [OF this] this show ?thesis by simp
qed

lemma showAffinity_all:
  "showAffinity get tids pid = Some ls \<longleftrightarrow>
     (\<exists>ts. tids = Some ts \<and> (\<forall>t \<in> set (pid # ts). get t \<noteq> None) \<and> ls = map (\<lambda>t. (t, the (get t))) (pid # ts))"
proof -
  have "get_all get ts = Some ls' \<longleftrightarrow> (\<forall>t \<in> set ts. get t \<noteq> None) \<and> ls' = map (\<lambda>t. (t, the (get t))) ts" for ts ls'
    by (induction ts arbitrary: ls') (auto split: option.splits)
  then show ?thesis by (auto simp: showAffinity_def split: option.splits)
qed

text \<open>A worker of \<open>fork-cpuaffinity\<close> shows its threads with a function of the same code.\<close>

definition fork_showAffinity :: "(nat \<Rightarrow> nat list option) \<Rightarrow> nat list option \<Rightarrow> nat \<Rightarrow> (nat \<times> nat list) list option" where
  "fork_showAffinity GetAffinity GetThreadIDs pid =
     (case GetAffinity pid of
        None \<Rightarrow> None
      | Some cpus \<Rightarrow>
          (case GetThreadIDs of
             None \<Rightarrow> None
           | Some tids \<Rightarrow> map_option (Cons (pid, cpus)) (get_all GetAffinity tids)))"

lemma fork_showAffinity_same: "fork_showAffinity = showAffinity"
  by (simp add: fun_eq_iff fork_showAffinity_def showAffinity_def)

text \<open>The counter never rests at 0: after it the loop goes on from the largest value.\<close>

lemma stressCPU_positive: "count \<noteq> 0 \<Longrightarrow> stressCPU turns count \<noteq> 0"
  by (induction turns arbitrary: count) (auto simp: stress_turn_def Let_def)

section \<open>fork-cpuaffinity: master and worker\<close>

datatype fork_mode = AsWorker | ShowHelp | AsMaster nat

text \<open>\<open>maxNumWorker\<close> is \<open>misc.MaxNumWorker\<close>.\<close>

definition fork_start :: "(int \<Rightarrow> nat) \<Rightarrow> bytes \<Rightarrow> bool \<Rightarrow> int \<Rightarrow> fork_mode" where
  "fork_start maxNumWorker procState showhelp workerNum =
     (if prefix ''worker#'' procState then AsWorker
      else if showhelp then ShowHelp
      else AsMaster (maxNumWorker (if workerNum < 0 then 0 else workerNum)))"

record fork_cmd =
  cmdPath :: bytes
  cmdDir :: bytes
  fullArgs :: "bytes list"
  Affinitys :: "nat list"
  setsid :: bool
  pdeathsig :: osig

definition stressFork ::
  "(bytes \<Rightarrow> bytes \<Rightarrow> 'o \<Rightarrow> 'o) \<Rightarrow> (bytes \<Rightarrow> bytes \<Rightarrow> 'o \<Rightarrow> 'o) \<Rightarrow> ('o \<Rightarrow> bytes list) \<Rightarrow> bytes option \<Rightarrow> nat \<Rightarrow> 'o \<Rightarrow> nat \<Rightarrow> nat \<Rightarrow> fork_cmd option"
where
  "stressFork ModifySetOption ModifyDelOption StringCmdListOrig abspath numcpu opt0 idx masterpid =
     (let opt1 = ModifySetOption ''--ident'' (''worker#'' @ Itoa (int idx)) opt0;
          opt2 = ModifySetOption ''--ppid'' (Itoa (int masterpid)) opt1;
          opt3 = ModifyDelOption ''-n'' [] opt2
      in case abspath of
           None \<Rightarrow> None
         | Some path \<Rightarrow>
             Some \<lparr>cmdPath = path, cmdDir = ''/tmp/'', fullArgs = path # StringCmdListOrig opt3, Affinitys = [cpuIndex numcpu idx],
                   setsid = True, pdeathsig = SIGTERM\<rparr>)"

text \<open>The name of a worker in its messages, and the process it takes for its master.\<close>

definition worker_ident :: "bytes \<Rightarrow> bytes" where
  "worker_ident ident = ''['' @ (if length ident = 0 then ''worker#999'' else ident) @ '']''"

definition worker_master :: "int \<Rightarrow> int \<Rightarrow> int" where
  "worker_master ppid_opt getppid = (if ppid_opt = 0 then getppid else ppid_opt)"

text \<open>
  The process that \<open>stressFork\<close> starts is a worker, whatever the options of the master were: it does not start
  processes itself, it knows its master, and it is bound to one processor that exists.  \<open>Parse\<close> reads back the
  arguments that \<open>StringCmdListOrig\<close> writes; an option that is set is read, and the others are kept.
\<close>

theorem fork_child_is_worker:
  assumes set_get: "\<And>k v oo. get (ModifySetOption k v oo) k = v"
    and set_other: "\<And>k k' v oo. k \<noteq> k' \<Longrightarrow> get (ModifySetOption k v oo) k' = get oo k'"
    and del_other: "\<And>k k' v oo. k \<noteq> k' \<Longrightarrow> get (ModifyDelOption k v oo) k' = get oo k'"
    and parse: "\<And>oo. Parse (StringCmdListOrig oo) = oo"
    and cmd: "stressFork ModifySetOption ModifyDelOption StringCmdListOrig abspath numcpu opt0 idx masterpid = Some c"
    and "0 < numcpu" "0 < masterpid" "masterpid < 2 ^ 31"
  shows "\<exists>opts. opts = Parse (tl (fullArgs c)) \<and> fork_start maxw (get opts ''--ident'') help w = AsWorker
    \<and> worker_master (fst (Atoi (get opts ''--ppid''))) pp = int masterpid \<and> (\<forall>i \<in> set (Affinitys c). i < numcpu)"
proof -
  define o2 where "o2 = ModifySetOption ''--ppid'' (Itoa (int masterpid)) (ModifySetOption ''--ident'' (''worker#'' @ Itoa (int idx)) opt0)"
  have c: "tl (fullArgs c) = StringCmdListOrig (ModifyDelOption ''-n'' [] o2)" "Affinitys c = [cpuIndex numcpu idx]"
    using cmd by (auto simp: stressFork_def Let_def o2_def split: option.splits)
  have "get (ModifyDelOption ''-n'' [] o2) ''--ident'' = ''worker#'' @ Itoa (int idx)"
       "get (ModifyDelOption ''-n'' [] o2) ''--ppid'' = Itoa (int masterpid)"
    using set_get set_other del_other by (simp_all add: o2_def)
  then show ?thesis
    using c parse assms(6-8) by (simp add: fork_start_def worker_master_def cpuIndex_def Atoi_Itoa)
qed

text \<open>Options as an association list, written as names and values one after the other.\<close>

fun read_pairs :: "bytes list \<Rightarrow> (bytes \<times> bytes) list" where
  "read_pairs (k # v # rest) = (k, v) # read_pairs rest"
| "read_pairs _ = []"

lemma read_pairs_concat: "read_pairs (concat (map (\<lambda>(k, v). [k, v]) kvs)) = kvs"
  by (induction kvs) auto

definition option_text :: "(bytes \<times> bytes) list \<Rightarrow> bytes \<Rightarrow> bytes" where
  "option_text kvs k = (case map_of kvs k of None \<Rightarrow> [] | Some v \<Rightarrow> v)"

lemma option_text_filter: "k \<noteq> k' \<Longrightarrow> option_text (filter (\<lambda>(q, _). q \<noteq> k) kvs) k' = option_text kvs k'"
proof -
  assume k: "k \<noteq> k'"
  have "map_of (filter (\<lambda>(q, _). q \<noteq> k) kvs) k' = map_of kvs k'" using k by (induction kvs) auto
  then show ?thesis by (simp add: option_text_def)
qed

theorem fork_child_is_worker_witness:
  "\<exists>c. stressFork (\<lambda>k v kvs. (k, v) # kvs) (\<lambda>k v. filter (\<lambda>(q, _). q \<noteq> k)) (concat \<circ> map (\<lambda>(k, v). [k, v])) (Some ''/bin/fork'') 4
       [(''-n'', ''1''), (''--ident'', ''x'')] 6 321 = Some c \<and> Affinitys c = [2]
     \<and> (\<exists>opts. opts = read_pairs (tl (fullArgs c)) \<and> fork_start nat (option_text opts ''--ident'') False 3 = AsWorker)"
proof -
  let ?set = "\<lambda>k v kvs. (k, v) # kvs" and ?del = "\<lambda>k v. filter (\<lambda>(q, _). q \<noteq> k)"
  let ?list = "concat \<circ> map (\<lambda>(k, v). [k, v]) :: (bytes \<times> bytes) list \<Rightarrow> bytes list"
  obtain c where c: "stressFork ?set ?del ?list (Some ''/bin/fork'') 4 [(''-n'', ''1''), (''--ident'', ''x'')] 6 321 = Some c" "Affinitys c = [2]"
    by (simp add: stressFork_def Let_def cpuIndex_def)
  have "\<exists>opts. opts = read_pairs (tl (fullArgs c)) \<and> fork_start nat (option_text opts ''--ident'') False 3 = AsWorker
      \<and> worker_master (fst (Atoi (option_text opts ''--ppid''))) 1 = int 321 \<and> (\<forall>i \<in> set (Affinitys c). i < 4)"
    by (rule fork_child_is_worker [OF _ _ _ _ c(1)])
       (simp_all add: option_text_filter read_pairs_concat, simp_all add: option_text_def)
  then show ?thesis using c by blast
qed

section \<open>stressAffinity\<close>

text \<open>A worker of the master with the flag that \<open>stressAffinity\<close> keeps.\<close>

record watched = workerStatT +
  warned :: bool

text \<open>
  One turn: every thread of every worker without a warning is bound to the processor of the worker, then the
  workers that have died are warned of.  \<open>threads pid\<close> are the threads of a process.
\<close>

definition bind_calls :: "nat \<Rightarrow> (nat \<Rightarrow> nat list) \<Rightarrow> watched list \<Rightarrow> (nat \<times> nat) list" where
  "bind_calls numcpu threads ws =
     concat (map (\<lambda>w. if warned w then [] else map (\<lambda>t. (t, cpuIndex numcpu (widx w))) (threads (wpid w))) ws)"

definition warn_dead :: "nat set \<Rightarrow> watched list \<Rightarrow> nat list \<times> watched list" where
  "warn_dead dead ws =
     (map wpid (filter (\<lambda>w. \<not> warned w \<and> wpid w \<in> dead) ws),
      map (\<lambda>w. if \<not> warned w \<and> wpid w \<in> dead then w\<lparr>warned := True\<rparr> else w) ws)"

fun stressAffinity ::
  "nat \<Rightarrow> (bool \<times> (nat \<Rightarrow> nat list) \<times> nat set) list \<Rightarrow> watched list \<Rightarrow> (nat \<times> nat) list \<times> nat list \<times> watched list"
where
  "stressAffinity numcpu [] ws = ([], [], ws)"
| "stressAffinity numcpu ((masterExiting, threads, dead) # turns) ws =
     (if masterExiting then ([], [], ws)
      else let calls = bind_calls numcpu threads ws;
               (warnings, ws1) = warn_dead dead ws;
               (calls', warnings', ws2) = stressAffinity numcpu turns ws1
           in (calls @ calls', warnings @ warnings', ws2))"

definition unwarned :: "watched list \<Rightarrow> nat list" where
  "unwarned ws = map wpid (filter (\<lambda>w. \<not> warned w) ws)"

lemma warn_dead_unwarned:
  "warn_dead dead ws = (warnings, ws1) \<Longrightarrow>
     warnings = filter (\<lambda>p. p \<in> dead) (unwarned ws) \<and> unwarned ws1 = filter (\<lambda>p. p \<notin> dead) (unwarned ws)"
  by (induction ws arbitrary: warnings ws1) (auto simp: warn_dead_def unwarned_def)

text \<open>
  However the workers die, each is warned of at most once, never before it has died, and the processors used
  exist.
\<close>

theorem stressAffinity_warns_once:
  assumes "distinct (map wpid ws)" "stressAffinity numcpu turns ws = (calls, warnings, ws')" "0 < numcpu"
  shows "distinct warnings \<and> set warnings \<subseteq> (\<Union>(_, _, dead) \<in> set turns. dead) \<and> (\<forall>(t, cpu) \<in> set calls. cpu < numcpu)"
proof -
  have "distinct warnings \<and> set warnings \<subseteq> set (unwarned ws) \<and> set warnings \<subseteq> (\<Union>(_, _, dead) \<in> set turns. dead)
      \<and> (\<forall>(t, cpu) \<in> set calls. cpu < numcpu)"
    if "distinct (unwarned ws)" using that assms(2,3)
  proof (induction numcpu turns ws arbitrary: calls warnings ws' rule: stressAffinity.induct)
    case (2 numcpu exiting threads dead turns ws)
    show ?case
    proof (cases exiting)
      case False
      obtain w1 ws1 where d: "warn_dead dead ws = (w1, ws1)" by fastforce
      obtain c2 w2 ws2 where r: "stressAffinity numcpu turns ws1 = (c2, w2, ws2)" by (cases "stressAffinity numcpu turns ws1") auto
      note u = warn_dead_unwarned [OF d]
      have e: "calls = bind_calls numcpu threads ws @ c2" "warnings = w1 @ w2" using 2(3) False d r by (simp_all add: Let_def)
      have ih: "distinct w2 \<and> set w2 \<subseteq> set (unwarned ws1) \<and> set w2 \<subseteq> (\<Union>(_, _, dead) \<in> set turns. dead)
          \<and> (\<forall>(t, cpu) \<in> set c2. cpu < numcpu)"
        using 2(1) [OF False refl d [symmetric] refl _ r 2(4)] u 2(2) by simp
      have "\<forall>(t, cpu) \<in> set (bind_calls numcpu threads ws). cpu < numcpu"
        using 2(4) by (auto simp: bind_calls_def cpuIndex_def split: if_splits)
      then show ?thesis using ih u 2(2) e by fastforce
    qed (use 2(3) in auto)
  qed auto
  moreover have "distinct (unwarned ws)" using assms(1) by (simp add: unwarned_def distinct_map_filter)
  ultimately show ?thesis by blast
qed

theorem stressAffinity_warns_once_witness:
  "stressAffinity 4 [(False, \<lambda>p. [p], {}), (False, \<lambda>p. [p], {100}), (False, \<lambda>p. [p], {100})]
     [\<lparr>widx = 5, wpid = 100, wstopped = False, warned = False\<rparr>]
   = ([(100, 1), (100, 1)], [100], [\<lparr>widx = 5, wpid = 100, wstopped = False, warned = True\<rparr>]) \<and> distinct [100::nat]"
proof -
  have "stressAffinity 4 [(False, \<lambda>p. [p], {}), (False, \<lambda>p. [p], {100}), (False, \<lambda>p. [p], {100})]
     [\<lparr>widx = 5, wpid = 100, wstopped = False, warned = False\<rparr>]
   = ([(100, 1), (100, 1)], [100], [\<lparr>widx = 5, wpid = 100, wstopped = False, warned = True\<rparr>])"
    by (simp add: bind_calls_def warn_dead_def cpuIndex_def)
  from stressAffinity_warns_once [OF _ this] this show ?thesis by simp
qed

end
