(* ===== verification/Worker_Output.thy ===== *)
theory Worker_Output
  imports Process_Tools
begin

text \<open>
  How \<open>drop\<close> of \<open>src/drop-privileges/drop-privileges.go\<close> passes on what its worker prints: a goroutine copies the pipe with
  \<open>io.Copy\<close> again and again until an error, while \<open>main\<close> waits for the worker and then ends.  \<open>stdout\<close> and \<open>stderr\<close> are
  copied in the same way by a goroutine each.
\<close>

section \<open>The pipe and the goroutines\<close>

datatype copier_pc = Copying | CopyEnded

text \<open>
  \<open>printed\<close> is all that the worker has written, \<open>in_pipe\<close> what is still in the pipe and \<open>shown\<close> what has been copied; \<open>this_call\<close>
  counts the bytes of the call of \<open>io.Copy\<close> that is running.  \<open>Wait\<close> closes the side of the pipe that is read.
\<close>

record out_state =
  printed :: bytes
  in_pipe :: bytes
  shown :: bytes
  worker_alive :: bool
  writes_open :: bool
  reads_open :: bool
  copier :: copier_pc
  totalbytes :: nat
  this_call :: nat
  calls :: nat
  reported :: "nat option"
  main_gone :: bool

inductive out_step :: "out_state \<Rightarrow> out_state \<Rightarrow> bool" where
  o_print: "worker_alive s \<Longrightarrow> writes_open s \<Longrightarrow> b \<noteq> [] \<Longrightarrow> out_step s (s\<lparr>printed := printed s @ b, in_pipe := in_pipe s @ b\<rparr>)"
| o_close: "worker_alive s \<Longrightarrow> out_step s (s\<lparr>writes_open := False\<rparr>)"
| o_exit: "worker_alive s \<Longrightarrow> out_step s (s\<lparr>worker_alive := False, writes_open := False\<rparr>)"
| o_copy: "\<not> main_gone s \<Longrightarrow> copier s = Copying \<Longrightarrow> reads_open s \<Longrightarrow> 0 < k \<Longrightarrow> k \<le> length (in_pipe s) \<Longrightarrow>
    out_step s (s\<lparr>shown := shown s @ take k (in_pipe s), in_pipe := drop k (in_pipe s), this_call := this_call s + k\<rparr>)"
| o_eof: "\<not> main_gone s \<Longrightarrow> copier s = Copying \<Longrightarrow> reads_open s \<Longrightarrow> in_pipe s = [] \<Longrightarrow> \<not> writes_open s \<Longrightarrow>
    out_step s (s\<lparr>totalbytes := totalbytes s + this_call s, this_call := 0, calls := calls s + 1\<rparr>)"
| o_error: "\<not> main_gone s \<Longrightarrow> copier s = Copying \<Longrightarrow> \<not> reads_open s \<Longrightarrow>
    out_step s (s\<lparr>copier := CopyEnded, reported := Some (totalbytes s)\<rparr>)"
| o_wait: "\<not> main_gone s \<Longrightarrow> \<not> worker_alive s \<Longrightarrow> reads_open s \<Longrightarrow> out_step s (s\<lparr>reads_open := False\<rparr>)"
| o_main: "\<not> main_gone s \<Longrightarrow> \<not> reads_open s \<Longrightarrow> out_step s (s\<lparr>main_gone := True\<rparr>)"

definition out_start :: out_state where
  "out_start = \<lparr>printed = [], in_pipe = [], shown = [], worker_alive = True, writes_open = True, reads_open = True, copier = Copying,
     totalbytes = 0, this_call = 0, calls = 0, reported = None, main_gone = False\<rparr>"

section \<open>What is shown\<close>

definition out_inv :: "out_state \<Rightarrow> bool" where
  "out_inv s \<longleftrightarrow> printed s = shown s @ in_pipe s \<and> totalbytes s + this_call s = length (shown s)
     \<and> (\<forall>n. reported s = Some n \<longrightarrow> n = totalbytes s \<and> \<not> reads_open s)
     \<and> (\<not> reads_open s \<longrightarrow> \<not> worker_alive s) \<and> (\<not> worker_alive s \<longrightarrow> \<not> writes_open s)"

lemma out_step_inv: "out_step s t \<Longrightarrow> out_inv s \<Longrightarrow> out_inv t"
  by (induction rule: out_step.induct) (auto simp: out_inv_def)

interpretation out: transition_invariant out_step out_inv
  by unfold_locales (rule out_step_inv)

text \<open>
  What the master shows is always a prefix of what its worker has printed, in order; and the bytes that the goroutine
  reports at its end are never more than those shown.
\<close>

theorem worker_output_prefix:
  assumes "reaches out_step out_start s"
  shows "prefix (shown s) (printed s) \<and> (\<forall>n. reported s = Some n \<longrightarrow> n \<le> length (shown s))"
proof -
  have "out_inv out_start" by (simp add: out_inv_def out_start_def)
  then have "out_inv s" by (rule out.inv_reaches [OF assms])
  then show ?thesis by (auto simp: out_inv_def)
qed

text \<open>A worker that prints one line, as \<open>main\<close> sees it.\<close>

definition out_at :: "bytes \<Rightarrow> bytes \<Rightarrow> bytes \<Rightarrow> bool \<Rightarrow> bool \<Rightarrow> bool \<Rightarrow> nat \<Rightarrow> nat \<Rightarrow> nat \<Rightarrow> out_state" where
  "out_at p q sh alive wr rd tot this n = \<lparr>printed = p, in_pipe = q, shown = sh, worker_alive = alive, writes_open = wr, reads_open = rd,
     copier = Copying, totalbytes = tot, this_call = this, calls = n, reported = None, main_gone = False\<rparr>"

lemma out_printed: "b \<noteq> [] \<Longrightarrow> reaches out_step out_start (out_at b b [] True True True 0 0 0)"
  using o_print [of out_start b] by (intro reaches_one) (simp add: out_start_def out_at_def)

text \<open>
  \<open>Wait\<close> closes the pipe when the worker ends, whether or not it has been read: the last output can be lost.
\<close>

lemma worker_output_lost:
  assumes "b \<noteq> []"
  shows "\<exists>s. reaches out_step out_start s \<and> main_gone s \<and> printed s = b \<and> shown s = []"
proof -
  have "out_step (out_at b b [] True True True 0 0 0) (out_at b b [] False False True 0 0 0)"
    using o_exit [of "out_at b b [] True True True 0 0 0"] by (simp add: out_at_def)
  with out_printed [OF assms] have "reaches out_step out_start (out_at b b [] False False True 0 0 0)" by (rule reaches_step)
  moreover have "out_step (out_at b b [] False False True 0 0 0) (out_at b b [] False False False 0 0 0)"
    using o_wait [of "out_at b b [] False False True 0 0 0"] by (simp add: out_at_def)
  ultimately have "reaches out_step out_start (out_at b b [] False False False 0 0 0)" by (rule reaches_step)
  moreover have "out_step (out_at b b [] False False False 0 0 0) ((out_at b b [] False False False 0 0 0)\<lparr>main_gone := True\<rparr>)"
    using o_main [of "out_at b b [] False False False 0 0 0"] by (simp add: out_at_def)
  ultimately have "reaches out_step out_start ((out_at b b [] False False False 0 0 0)\<lparr>main_gone := True\<rparr>)" by (rule reaches_step)
  then show ?thesis by (intro exI [of _ "(out_at b b [] False False False 0 0 0)\<lparr>main_gone := True\<rparr>"]) (simp add: out_at_def)
qed

text \<open>
  \<open>io.Copy\<close> takes the end of the stream for success, so when a worker closes its output and goes on, the goroutine calls it
  again and again without end.
\<close>

lemma copy_spins:
  "(out_step ^^ k) (out_at [] [] [] True False True 0 0 n) (out_at [] [] [] True False True 0 0 (n + k))"
proof (induction k)
  case (Suc k)
  moreover have "out_step (out_at [] [] [] True False True 0 0 (n + k)) (out_at [] [] [] True False True 0 0 (n + Suc k))"
    using o_eof [of "out_at [] [] [] True False True 0 0 (n + k)"] by (simp add: out_at_def)
  ultimately show ?case by auto
qed simp

text \<open>The bytes of a call that ends with the error are shown but not reported.\<close>

lemma copy_underreports:
  assumes "b \<noteq> []"
  shows "\<exists>s. reaches out_step out_start s \<and> shown s = b \<and> reported s = Some 0"
proof -
  have "out_step (out_at b b [] True True True 0 0 0) (out_at b [] b True True True 0 (length b) 0)"
    using o_copy [of "out_at b b [] True True True 0 0 0" "length b"] assms by (simp add: out_at_def)
  with out_printed [OF assms] have "reaches out_step out_start (out_at b [] b True True True 0 (length b) 0)" by (rule reaches_step)
  moreover have "out_step (out_at b [] b True True True 0 (length b) 0) (out_at b [] b False False True 0 (length b) 0)"
    using o_exit [of "out_at b [] b True True True 0 (length b) 0"] by (simp add: out_at_def)
  ultimately have "reaches out_step out_start (out_at b [] b False False True 0 (length b) 0)" by (rule reaches_step)
  moreover have "out_step (out_at b [] b False False True 0 (length b) 0) (out_at b [] b False False False 0 (length b) 0)"
    using o_wait [of "out_at b [] b False False True 0 (length b) 0"] by (simp add: out_at_def)
  ultimately have "reaches out_step out_start (out_at b [] b False False False 0 (length b) 0)" by (rule reaches_step)
  moreover have "out_step (out_at b [] b False False False 0 (length b) 0)
      ((out_at b [] b False False False 0 (length b) 0)\<lparr>copier := CopyEnded, reported := Some 0\<rparr>)"
    using o_error [of "out_at b [] b False False False 0 (length b) 0"] by (simp add: out_at_def)
  ultimately have "reaches out_step out_start
      ((out_at b [] b False False False 0 (length b) 0)\<lparr>copier := CopyEnded, reported := Some 0\<rparr>)" by (rule reaches_step)
  then show ?thesis
    by (intro exI [of _ "(out_at b [] b False False False 0 (length b) 0)\<lparr>copier := CopyEnded, reported := Some 0\<rparr>"]) (simp add: out_at_def)
qed

theorem worker_output_prefix_witness: "\<exists>s. reaches out_step out_start s \<and> prefix (shown s) (printed s) \<and> reported s = Some 0"
proof -
  obtain s where s: "reaches out_step out_start s" "reported s = Some 0" using copy_underreports [of "''x''"] by blast
  then show ?thesis using worker_output_prefix [OF s(1)] by blast
qed

end
