(* ===== verification/Runtime_Tests.thy ===== *)
theory Runtime_Tests
  imports Go_Prelude
begin

text \<open>
  Experiments on the Go runtime: nested calls (\<open>src/go-stack-split-test\<close>), filling a buffer with and without a
  pool (\<open>src/go-gc-shake\<close>), and the order of two channels in a \<open>select\<close> (\<open>src/chan-order-test\<close>).
\<close>

section \<open>go-stack-split-test\<close>

text \<open>
  The loop of \<open>sum\<close>: \<open>i\<close> is the loop variable and \<open>r\<close> the result so far.  The loop variable is unbounded here;
  the program calls \<open>sum\<close> with the bounds 1 and 10 only.
\<close>

function sum_loop :: "int \<Rightarrow> int \<Rightarrow> i64 \<Rightarrow> i64" where
  "sum_loop i last_i r = (if i \<le> last_i then sum_loop (i + 1) last_i (r + word_of_int i) else r)"
  by pat_completeness auto
termination
  by (relation "measure (\<lambda>(i, last_i, r). nat (last_i + 1 - i))") auto

declare sum_loop.simps [simp del]

definition sum_of :: "int \<Rightarrow> int \<Rightarrow> i64" where
  "sum_of from last_i = sum_loop from last_i 0"

fun group_loop :: "nat \<Rightarrow> int \<Rightarrow> int \<Rightarrow> i64 \<Rightarrow> i64" where
  "group_loop 0 from last_i r = r"
| "group_loop (Suc g) from last_i r = group_loop g from last_i (r + sum_of from last_i)"

text \<open>
  The call that nests itself \<open>n\<close> times and hands its eighty further parameters on unread.  The three versions
  differ in one more parameter: none, a string, an interface.
\<close>

function NestedCall1 :: "int \<Rightarrow> int \<Rightarrow> int \<Rightarrow> nat \<Rightarrow> int list \<Rightarrow> i64" where
  "NestedCall1 n from last_i grp as =
     (if n \<le> 0 then group_loop grp from last_i 0 else NestedCall1 (n - 1) from last_i grp as)"
  by pat_completeness auto
termination
  by (relation "measure (\<lambda>(n, _). nat n)") auto

function NestedCall2 :: "int \<Rightarrow> int \<Rightarrow> int \<Rightarrow> nat \<Rightarrow> int list \<Rightarrow> bytes \<Rightarrow> i64" where
  "NestedCall2 n from last_i grp as s =
     (if n \<le> 0 then group_loop grp from last_i 0 else NestedCall2 (n - 1) from last_i grp as s)"
  by pat_completeness auto
termination
  by (relation "measure (\<lambda>(n, _). nat n)") auto

function NestedCall3 :: "int \<Rightarrow> int \<Rightarrow> int \<Rightarrow> nat \<Rightarrow> int list \<Rightarrow> 'i \<Rightarrow> i64" where
  "NestedCall3 n from last_i grp as s =
     (if n \<le> 0 then group_loop grp from last_i 0 else NestedCall3 (n - 1) from last_i grp as s)"
  by pat_completeness auto
termination
  by (relation "measure (\<lambda>(n, _). nat n)") auto

declare NestedCall1.simps [simp del] NestedCall2.simps [simp del] NestedCall3.simps [simp del]

text \<open>The lines that a test prints: the depths whose run took more than 9 ms, and the first five.\<close>

definition NestedTest :: "(nat \<Rightarrow> i64) \<Rightarrow> (nat \<Rightarrow> nat) \<Rightarrow> (nat \<times> nat \<times> i64) list" where
  "NestedTest call use_ms =
     map (\<lambda>i. (i, use_ms i, call i)) (filter (\<lambda>i. use_ms i > 9 \<or> i < 5) [0..<501])"

definition NestedTest1 :: "(nat \<Rightarrow> nat) \<Rightarrow> (nat \<times> nat \<times> i64) list" where
  "NestedTest1 = NestedTest (\<lambda>i. NestedCall1 (int i) 1 10 1000000 [1..80])"

definition NestedTest2 :: "(nat \<Rightarrow> nat) \<Rightarrow> (nat \<times> nat \<times> i64) list" where
  "NestedTest2 = NestedTest (\<lambda>i. NestedCall2 (int i) 1 10 1000000 [1..80] (replicate 65 CHR '' ''))"

definition NestedTest3 :: "(nat \<Rightarrow> nat) \<Rightarrow> (nat \<times> nat \<times> i64) list" where
  "NestedTest3 = NestedTest (\<lambda>i. NestedCall3 (int i) 1 10 1000000 [1..80] (replicate 65 CHR '' ''))"

lemma sum_loop_range: "sum_loop i j r = r + word_of_int (\<Sum>{i..j})"
proof (induction i j r rule: sum_loop.induct)
  case (1 i j r)
  show ?case
  proof (cases "i \<le> j")
    case True
    then have "{i..j} = insert i {i + 1..j}" by auto
    then show ?thesis using 1 True by (subst sum_loop.simps) (simp add: add.assoc)
  qed (simp add: sum_loop.simps)
qed

lemma group_loop_times: "group_loop g i j r = r + of_nat g * sum_of i j"
  by (induction g arbitrary: r) (simp_all add: algebra_simps)

lemma nested_base:
  "NestedCall1 n i j grp as = group_loop grp i j 0"
  "NestedCall2 n i j grp as s = group_loop grp i j 0"
  "NestedCall3 n i j grp as z = group_loop grp i j 0"
  by (induction n i j grp as rule: NestedCall1.induct, subst NestedCall1.simps, simp,
      induction n i j grp as s rule: NestedCall2.induct, subst NestedCall2.simps, simp,
      induction n i j grp as z rule: NestedCall3.induct, subst NestedCall3.simps, simp)

text \<open>
  Whatever the depth and the parameters handed through, the calls return \<open>grp\<close> times the sum, modulo \<open>2 ^ 64\<close>;
  so the three tests print the same figures for the same times.
\<close>

theorem nested_calls_agree:
  "NestedCall1 n i j grp as = of_nat grp * word_of_int (\<Sum>{i..j})
   \<and> NestedCall2 n i j grp as s = NestedCall1 n i j grp as \<and> NestedCall3 n i j grp as z = NestedCall1 n i j grp as
   \<and> NestedTest1 = NestedTest2 \<and> NestedTest2 = NestedTest3"
  by (simp add: nested_base group_loop_times sum_of_def sum_loop_range NestedTest1_def NestedTest2_def NestedTest3_def)

lemma nested_tests_value: "NestedCall1 n 1 10 1000000 as = 55000000"
proof -
  have "\<Sum>{1..10::int} = 55" by code_simp
  then show ?thesis using nested_calls_agree [of n 1 10 1000000 as "[]" "()"] by simp
qed

section \<open>go-gc-shake\<close>

text \<open>
  The loop over \<open>data\<close> with the position \<open>ptr\<close> in \<open>tmp\<close>, which is set back to 0 when it equals the length.  Reading
  \<open>tmp[ptr]\<close> outside the buffer panics, which is \<open>None\<close>.
\<close>

fun aes_loop :: "bytes \<Rightarrow> bytes \<Rightarrow> nat \<Rightarrow> bytes option" where
  "aes_loop [] tmp p = Some []"
| "aes_loop (d # data) tmp p =
     (if p < length tmp
      then map_option (Cons (tmp ! p)) (aes_loop data tmp (if p + 1 = length tmp then 0 else p + 1))
      else None)"

definition fakeAES :: "bytes \<Rightarrow> nat \<Rightarrow> bytes option" where
  "fakeAES data n = aes_loop data (replicate n CHR 0x00) 0"

definition poolAES :: "bytes \<Rightarrow> bytes \<Rightarrow> bytes option" where
  "poolAES data tmp = aes_loop data tmp 0"

text \<open>
  The loop of \<open>main\<close>, which fills \<open>data\<close> again and again.  The pool gets one buffer and has no \<open>New\<close>: where it
  has dropped its buffer, which the garbage collector may cause at any turn, \<open>Get\<close> returns \<open>nil\<close> and the type
  assertion panics (\<open>None\<close>).
\<close>

fun shake :: "bool \<Rightarrow> nat \<Rightarrow> bool list \<Rightarrow> bytes \<Rightarrow> bytes option" where
  "shake syncpool n [] data = Some data"
| "shake syncpool n (kept # turns) data =
     (if syncpool \<and> \<not> kept then None
      else case (if syncpool then poolAES data (replicate n CHR 0x00) else fakeAES data n) of
        None \<Rightarrow> None
      | Some data1 \<Rightarrow> shake syncpool n turns data1)"

lemma aes_loop_repeats:
  "p < length tmp \<Longrightarrow> aes_loop data tmp p = Some (map (\<lambda>i. tmp ! ((p + i) mod length tmp)) [0..<length data])"
proof (induction data tmp p rule: aes_loop.induct)
  case (2 d data tmp p)
  let ?q = "if p + 1 = length tmp then 0 else p + 1"
  have q: "?q < length tmp" "?q = (p + 1) mod length tmp" using 2(2) by auto
  have "(?q + i) mod length tmp = (p + Suc i) mod length tmp" for i using q(2) by (simp add: mod_add_left_eq)
  then have "map (\<lambda>i. tmp ! ((?q + i) mod length tmp)) [0..<length data] = map (\<lambda>i. tmp ! ((p + i) mod length tmp)) [Suc 0..<Suc (length data)]"
    unfolding map_Suc_upt [symmetric] map_map by simp
  then show ?case using 2(1) [OF 2(2) q(1)] 2(2) by (simp add: upt_conv_Cons del: upt_Suc)
qed simp

text \<open>
  \<open>poolAES\<close> writes the buffer over the data again and again and keeps its length; an empty buffer and data to
  fill is a panic.  \<open>fakeAES\<close> does the same with zeros.
\<close>

theorem poolAES_fills:
  "poolAES data tmp = (if tmp = [] \<and> data \<noteq> [] then None else Some (map (\<lambda>i. tmp ! (i mod length tmp)) [0..<length data]))"
  "fakeAES data n = (if n = 0 \<and> data \<noteq> [] then None else Some (replicate (length data) CHR 0x00))"
proof -
  show p: "poolAES data tmp = (if tmp = [] \<and> data \<noteq> [] then None else Some (map (\<lambda>i. tmp ! (i mod length tmp)) [0..<length data]))"
    for tmp data
    using aes_loop_repeats [of 0 tmp data] by (cases "tmp = []"; cases data) (auto simp: poolAES_def)
  have "fakeAES data n = poolAES data (replicate n CHR 0x00)" by (simp add: fakeAES_def poolAES_def)
  then show "fakeAES data n = (if n = 0 \<and> data \<noteq> [] then None else Some (replicate (length data) CHR 0x00))"
    by (auto simp: p map_replicate_const intro!: map_cong)
qed

text \<open>Both ways of the experiment compute the same as long as the pool keeps its buffer, and only then.\<close>

lemma shake_agrees:
  "False \<notin> set turns \<Longrightarrow> shake True n turns data = shake False n turns data"
  "False \<in> set turns \<Longrightarrow> shake True n turns data = None"
  by (induction turns arbitrary: data) (auto simp: fakeAES_def poolAES_def cong: option.case_cong split: option.splits)

section \<open>chan-order-test\<close>

text \<open>
  One goroutine sends to \<open>a\<close>, then to \<open>b\<close>, then to \<open>c\<close>; the other receives from \<open>a\<close> and \<open>b\<close> in any order until it has
  seen both, and then from \<open>c\<close>.  A channel is the number of elements in its buffer; a send on a channel without
  a free place happens together with a receive.
\<close>

datatype prod_pc = SendA | SendB | SendC

record order_state =
  a_len :: nat
  b_len :: nat
  c_len :: nat
  prod_at :: prod_pc
  oa :: bool
  ob :: bool
  b_first :: bool

definition select_turn :: "order_state \<Rightarrow> order_state" where
  "select_turn s = (if \<not> oa s \<and> ob s then s\<lparr>b_first := True\<rparr> else s)"

inductive order_step :: "nat \<Rightarrow> order_state \<Rightarrow> order_state \<Rightarrow> bool" for sz where
  send_a: "prod_at s = SendA \<Longrightarrow> a_len s < sz \<Longrightarrow> order_step sz s (s\<lparr>a_len := a_len s + 1, prod_at := SendB\<rparr>)"
| send_b: "prod_at s = SendB \<Longrightarrow> b_len s < sz \<Longrightarrow> order_step sz s (s\<lparr>b_len := b_len s + 1, prod_at := SendC\<rparr>)"
| send_c: "prod_at s = SendC \<Longrightarrow> c_len s < 128 \<Longrightarrow> order_step sz s (s\<lparr>c_len := c_len s + 1, prod_at := SendA\<rparr>)"
| recv_a: "\<not> (oa s \<and> ob s) \<Longrightarrow> 0 < a_len s \<Longrightarrow> order_step sz s (select_turn (s\<lparr>a_len := a_len s - 1, oa := True\<rparr>))"
| recv_b: "\<not> (oa s \<and> ob s) \<Longrightarrow> 0 < b_len s \<Longrightarrow> order_step sz s (select_turn (s\<lparr>b_len := b_len s - 1, ob := True\<rparr>))"
| meet_a: "\<not> (oa s \<and> ob s) \<Longrightarrow> a_len s = 0 \<Longrightarrow> prod_at s = SendA \<Longrightarrow>
    order_step sz s (select_turn (s\<lparr>prod_at := SendB, oa := True\<rparr>))"
| meet_b: "\<not> (oa s \<and> ob s) \<Longrightarrow> b_len s = 0 \<Longrightarrow> prod_at s = SendB \<Longrightarrow>
    order_step sz s (select_turn (s\<lparr>prod_at := SendC, ob := True\<rparr>))"
| recv_c: "oa s \<Longrightarrow> ob s \<Longrightarrow> 0 < c_len s \<Longrightarrow> order_step sz s (s\<lparr>c_len := c_len s - 1, oa := False, ob := False\<rparr>)"

definition order_start :: order_state where
  "order_start = \<lparr>a_len = 0, b_len = 0, c_len = 0, prod_at = SendA, oa = False, ob = False, b_first = False\<rparr>"

text \<open>Without buffers the receiver is always as far as the sender.\<close>

definition order_inv :: "order_state \<Rightarrow> bool" where
  "order_inv s \<longleftrightarrow> a_len s = 0 \<and> b_len s = 0 \<and> \<not> b_first s \<and> (ob s \<longrightarrow> oa s) \<and> (prod_at s = SendB \<longrightarrow> oa s \<and> \<not> ob s)
     \<and> (prod_at s = SendA \<and> oa s \<longrightarrow> ob s) \<and> (prod_at s = SendC \<longrightarrow> oa s \<and> ob s)
     \<and> c_len s = (if prod_at s = SendA \<and> ob s then 1 else 0)"

lemma order_step_inv: "order_step 0 s t \<Longrightarrow> order_inv s \<Longrightarrow> order_inv t"
  by (induction rule: order_step.induct) (auto simp: order_inv_def select_turn_def)

interpretation order0: transition_invariant "order_step 0" order_inv
  by unfold_locales (rule order_step_inv)

text \<open>
  With unbuffered channels \<open>chan b first\<close> is never printed; with any buffer it can be, in the first round
  already.
\<close>

theorem chan_order:
  "(\<exists>s. reaches (order_step sz) order_start s \<and> b_first s) \<longleftrightarrow> 0 < sz"
proof
  assume "\<exists>s. reaches (order_step sz) order_start s \<and> b_first s"
  moreover have "order_inv order_start" by (simp add: order_inv_def order_start_def)
  ultimately show "0 < sz" using order0.inv_reaches [of order_start] by (cases sz) (auto simp: order_inv_def)
next
  assume sz: "0 < sz"
  let ?s1 = "order_start\<lparr>a_len := 1, prod_at := SendB\<rparr>"
  let ?s2 = "?s1\<lparr>prod_at := SendC, ob := True, b_first := True\<rparr>"
  have "order_step sz order_start ?s1" using send_a [of order_start sz] sz by (simp add: order_start_def)
  moreover have "order_step sz ?s1 ?s2" using meet_b [of ?s1 sz] by (simp add: order_start_def select_turn_def)
  ultimately have "reaches (order_step sz) order_start ?s2" by (blast intro: reaches_step reaches_one)
  then show "\<exists>s. reaches (order_step sz) order_start s \<and> b_first s" by (intro exI [of _ ?s2]) simp
qed

end
