(* ===== verification/Spec2Isabelle.thy ===== *)
theory Spec2Isabelle
  imports File_Parser_Props Fast_Http_Props Host_List_Props Tcp_Engine_Props Qps_Main
    Net_Poll_Props Event_Proxy_Props Hash_Tester_Props Svg_Server Process_Tools Search_System_Props
    File_Parser2 Netlink Fast_System_Props Qps_Bus_Props Funny_Transfer_Props
    Hash_System_Props Hash_Pool_Props Echo_Test Experiments Tcp_Workload
    Chan_Tests Signal_Servers Test_Mains Proxy_Variants Affinity Worker_Output Runtime_Tests
begin

text \<open>
  A verification of the network, parsing and process programs of the repository \<open>wander\<close>, a collection
  of Go programs.  The programs are independent of each other; they share a style: a few
  goroutines that exchange counters over channels, byte slices that are parsed in place, and
  loops around blocking reads and writes.

  \<^bold>\<open>Programs and theories\<close>

  \<^item> \<open>src/go-vs-php-file-parse/parser.go\<close>: a parser for log files and the generator of its test
    files.  \<open>File_Parser\<close> holds \<open>AtoIntOfBytes\<close>, \<open>SplitBytes\<close>, \<open>parser\<close> (over \<open>bufio.ReadSlice\<close>), the
    generator, \<open>show\<close> and \<open>main\<close>; \<open>File_Parser_Props\<close> shows that the parser counts exactly the
    complete lines, that a generated file is parsed without an error, that the splitter agrees
    with the library's, and the bounds of the figures shown.

  \<^item> \<open>src/fasthttpserver/fasthttpserver.go\<close>: an HTTP server.  \<open>Fast_Http\<close> holds the header parsers
    and the state machine of a connection, \<open>tinyhttpservice\<close>, one definition per state;
    \<open>Fast_Server\<close> the accept worker, the signal goroutine and \<open>requestCounter\<close>.  \<open>Fast_Http_Inv\<close>
    proves the invariant of the state machine, \<open>Fast_Http_Parse\<close> how a request cut into pieces
    is recognised, and \<open>Fast_Http_Props\<close> that every connection is served, accounted and left.
    \<open>Fast_System\<close> composes them: all goroutines of \<open>main\<close> and the three channels between them, as the
    step relation \<open>fast_step\<close>; \<open>Fast_System_Props\<close> shows that nothing is sent on a closed channel, that
    the last line of the statistics accounts for everything, and that the server ends after a signal.

  \<^item> \<open>src/tcpengine/tcpengine.go\<close>: a load generator for TCP connections.  \<open>Host_List\<close> holds
    \<open>ResolveHostList\<close> and \<open>ResolveHostPortList\<close>; \<open>Tcp_Config\<close> the command line, the local addresses,
    their pools, the pacing and the reports; \<open>Tcp_Engine\<close> the engine: \<open>Start\<close>, and the step relation
    \<open>eng_step\<close> of connectors, acceptors, handles, signals, \<open>Close\<close> and \<open>workerWait\<close>.  \<open>Tcp_Engine_Inv\<close>
    proves three invariants of every interleaving; the properties are in \<open>Host_List_Props\<close>,
    \<open>Tcp_Config_Props\<close> and \<open>Tcp_Engine_Props\<close>.  \<open>Tcp_Workload\<close> holds the encrypted blocks that the handles
    exchange, with the buffer that all handles of an engine share, as the step relation \<open>wl_step\<close>: one connection
    is a round trip, two corrupt each other's block.

  \<^item> \<open>src/qps-http-app-server/qps-http-app-server.go\<close>: an HTTP server that counts what happens.
    \<open>Qps_Tables\<close> holds the status texts and the events, \<open>Qps_Conn\<close> one connection (\<open>httpReadRequest\<close>,
    \<open>httpSendResponse\<close>, \<open>httpConnectionHandler\<close>), \<open>Qps_Main\<close> the command line, what is counted
    and what is displayed; \<open>Qps_Bus\<close> the goroutines of \<open>main\<close> over the bounded channel of events, as the
    step relation \<open>bus_step\<close>.  The properties are in \<open>Qps_Conn_Props\<close>, \<open>Qps_Main\<close> and \<open>Qps_Bus_Props\<close>:
    counting over the channel refines counting, and the counting goroutine can block for ever.

  \<^item> \<open>src/netsplice-echo-proxy/dada-funny/\<close>: a proxy that copies between sockets through a pipe
    with the system call \<open>splice\<close>.  \<open>Splice_Pipe\<close> holds \<open>splice\<close> and the operations of \<open>splicePipe\<close>
    (\<open>splice_linux.go\<close>); \<open>Net_Poll\<close> the locks and waits of a descriptor, as functions and as the step
    relation \<open>pd_step\<close> of users and of \<open>Close\<close>, the event loop and \<open>Transfer\<close> (\<open>proxy_linux.go\<close>);
    \<open>Event_Proxy\<close> the second proxy, which moves bytes inside its event loop
    (\<open>proxy-main/proxy_linux.go\<close>).  \<open>Splice_Pipe_Props\<close> shows that the bytes are delivered complete and
    in order, \<open>Net_Poll_Props\<close> that a side of a descriptor has one user and \<open>Close\<close> can always return,
    \<open>Event_Proxy_Props\<close> the stream invariant of every run of the event loop.  \<open>Proxy_Variants\<close> holds the
    other copy of \<open>splice\<close> (\<open>splicetest/funny\<close>), equal to the first, \<open>Transfer\<close> with \<open>io.Copy\<close>
    (\<open>proxy_normal.go\<close>) as the step relation \<open>normal_step\<close>, and the rounds of the echo test \<open>splicetest.go\<close>; \<open>Echo_Test\<close>
    is the \<open>main\<close> of that test with its one echo server.
    \<open>Funny_Transfer\<close> composes the second copy (\<open>splicetest/funny/\<close>): both directions of \<open>Transfer\<close>, cut at every
    atomic operation and system call, with the event loop, \<open>Close\<close>, the garbage collector and the numbers
    that the kernel gives out again, as the step relation \<open>ft_step\<close>.  \<open>Funny_Transfer_Props\<close> shows who holds and
    waits on a side of a descriptor, that no byte is lost, that one direction that ends takes the other with
    it, and what happens when a number is collected.

  \<^item> \<open>src/hash-test/hash-test.go\<close>: a tester for hash functions.  \<open>Hash_Tester\<close> holds the sizes, the
    ranges of the workers, \<open>runWorker\<close>, the counters, \<open>summary\<close>, \<open>Stat\<close>, \<open>main\<close> and the step relation
    \<open>end_step\<close> of the goroutines that end a test; \<open>Hash_Tester_Props\<close> shows that every value is hashed
    and counted once and that the results are freed after the summary.  \<open>Hash_System\<close> runs all goroutines
    of a test together over their channels, as the step relation \<open>hash_step\<close>; \<open>Hash_System_Props\<close> shows
    that every value made is counted once when the result is available, that every run ends, and that
    the run refines \<open>end_step\<close>.  \<open>Hash_Pool\<close> adds the memory: the carriers that the workers fill and send and the
    counters empty and put back into the pools, whose content the garbage collector may drop (\<open>hp_step\<close>);
    \<open>Hash_Pool_Props\<close> shows that every carrier has one owner, that \<open>hp_step\<close> refines \<open>hv_step\<close>, which hands on
    values without memory, and that the count of a chunk is read too late.  \<open>Svg_Server\<close> is the HTTP server that draws the results.

  \<^item> \<open>Process_Tools\<close>: the master of \<open>src/fork-cpuaffinity\<close> with its signal handler, the forking and
    the end of its workers, the decisions of \<open>src/drop-privileges\<close>, and the signal handler of
    \<open>src/syscall-cpuaffinity\<close>.  \<open>Affinity\<close>: how both affinity programs place threads and processes, and
    that a process started by \<open>stressFork\<close> runs as a worker.  \<open>Worker_Output\<close>: how \<open>drop\<close> copies what its worker prints
    while \<open>main\<close> waits for the worker (\<open>out_step\<close>).

  \<^item> \<open>File_Search\<close>: \<open>src/simplefilesearch\<close>, the search in lines, the buffered output and the walk over
    directories, whose map iteration is a step relation.  \<open>Search_System\<close>: all goroutines of \<open>main\<close> over
    the two channels and the wait group (\<open>search_step\<close>); \<open>Search_System_Props\<close> shows that exactly the matching lines of the
    files that can be found are reported, that every run ends, and that nothing waits for the writer.  \<open>File_Parser2\<close>: the second log parser,
    \<open>src/go-vs-php-file-parse/lixuancn/test_main.go\<close>, compared with the first.  \<open>Netlink\<close>:
    \<open>src/netlinkusbevent\<close>, the parser of kernel messages and the loop that reads them.

  \<^item> \<open>Chan_Tests\<close>: the channel experiments \<open>src/channel-send-recv-int64\<close>, \<open>src/schedule-chan\<close> and
    \<open>src/huge-chan-close\<close>, as step relations of their goroutines.  \<open>Net_Tests\<close>: \<open>src/tinytcpserver\<close> with
    its wait group, and the read and write loops of \<open>src/tcpconn-readnb-test\<close>, \<open>src/writevtest\<close> and
    \<open>src/tcpconn-write-test\<close>.  \<open>Tcp_Tests\<close>: the servers of these programs, \<open>src/tcpconn-close-test\<close>, and
    \<open>src/tcpconn-setdeadline-test\<close>, whose two goroutines take turns with a token.  \<open>Signal_Servers\<close>: the processes of \<open>src/writevtest\<close> and
    \<open>src/tcpconn-readnb-test\<close> with the goroutines that handle a signal, \<open>srv_step\<close> for the server and \<open>cl_step\<close> for the client;
    the server ends after a signal, the client may not.  \<open>Test_Mains\<close>: the options, the rounds and the failing
    calls of the \<open>main\<close> of the test programs.  \<open>Runtime_Tests\<close>:
    \<open>src/go-stack-split-test\<close>, \<open>src/go-gc-shake\<close> and \<open>src/chan-order-test\<close>.  \<open>Experiments\<close>:
    \<open>src/syncpoolusage\<close>, \<open>src/syncpoolusage2\<close>, \<open>src/concurrencereadwriteint64\<close> (with reads and writes half by
    half), \<open>src/syncwaitreturn\<close>, the checks and figures of \<open>src/netaes\<close>, and \<open>src/cgo-array\<close> with its functions in C.

  \<open>Go_Prelude\<close> has the machine types, slices and the interfaces of state machines; \<open>Go_Strings\<close> the
  functions of the packages \<open>bytes\<close>, \<open>strings\<close> and \<open>strconv\<close> that the programs call.

  \<^bold>\<open>Interfaces\<close>

  Three locales state what a goroutine promises.  \<open>step_invariant\<close>: a machine driven by events
  keeps an invariant; it is interpreted on the accept worker of the fast HTTP server and on the
  operations of the event-driven proxy.  \<open>step_ledger\<close> extends it by a quantity that each event
  changes by its own weight; it is interpreted twice on the counters of the QPS server and carries
  the sums over whole runs.  \<open>transition_invariant\<close>: a step relation keeps an invariant in every
  reachable state; it is interpreted on \<open>tinyhttpservice\<close>, three times on \<open>eng_step\<close>, twice on
  \<open>fast_step\<close>, twice on \<open>bus_step\<close> and \<open>ft_step\<close> and four times on \<open>hash_step\<close>, on \<open>pd_step\<close>,
  \<open>end_step\<close>, \<open>hv_step\<close>, \<open>wl_step\<close>, \<open>srv_step\<close>, \<open>out_step\<close>, \<open>search_step\<close>, three times on \<open>walk_step\<close>, and on \<open>sr_step\<close>, \<open>pool_step\<close>, \<open>gate_step\<close>, \<open>tiny_step\<close>, \<open>turn_step\<close>,
  \<open>normal_step\<close>, \<open>order_step\<close>, \<open>rw_step\<close> and \<open>mama_step\<close>.

  \<^bold>\<open>Conventions\<close>

  \<^item> Integers that can wrap are \<open>64 word\<close>; lengths and indices inside a slice are \<open>nat\<close>.
  \<^item> A connection is a script: the results of its reads and writes in order.  In the HTTP servers
    a script that is used up behaves like a closed peer, in \<open>Splice_Pipe\<close> like a peer that stays
    silent (the call blocks for ever, \<open>None\<close>), in \<open>Event_Proxy\<close> like one that would block
    (\<open>EAGAIN\<close>).  Theorems quantify over all scripts.
  \<^item> What a run of the program cannot decide is a parameter: the moment of a signal, the order
    of a map, the buffers a pool returns, \<open>net.ResolveTCPAddr\<close>, \<open>net.SplitHostPort\<close>, the options that
    \<open>optargex\<close> delivers, the clock, the file system, the answers of the kernel to system calls, the
    hash function and the counter that feeds it, the literal text of the SVG header.
  \<^item> Loops that always end are functions with a termination proof (\<open>svc_loop\<close> by a measure on the
    rest of the script and the state).  Loops that may run for ever (\<open>range_loop\<close>, \<open>qps_search\<close>,
    \<open>header_loop\<close>, \<open>keepalive_loop\<close>, \<open>readlonly_loop\<close>) are partial functions in \<open>option\<close>: \<open>None\<close> is not
    returning, and a claim that the code returns says \<open>Some\<close>.  Loops around a script recurse on
    it.  No definition uses fuel.  Where a definition can panic (a division by zero, an index out
    of range, a nil peer) the panic is \<open>None\<close> or a flag of the state, as its theory says.
  \<^item> In \<open>eng_step\<close> a section under \<open>maxLock\<close> is one step, and so is each channel operation, atomic
    addition and system call outside; \<open>maxCond.Wait\<close> is a state of a worker that \<open>Broadcast\<close> ends.

  \<^bold>\<open>Not modelled\<close>

  Sleeping and time (except as numbers that the clock returns), the text printed by the programs (only the
  values in it), the files of the profilers and \<open>httpProfile\<close>, which only call the library,
  \<open>LockOSThread\<close> (the interleavings assume nothing of threads), and the script in the literal header of the SVG
  drawing, which is a parameter.  The files
  \<open>splicetest/normal/proxy_normal.go\<close> and \<open>dada-funny/proxy-main/proxy_normal.go\<close> are copies of
  \<open>dada-funny/proxy_normal.go\<close>; what \<open>addConn\<close> of \<open>splicetest/funny/proxy_linux.go\<close> answers when it fails is that
  of the first copy.  The socket options of the test programs are left out.  The remaining programs measure the Go runtime, cgo or a library; their result is a timing, and what they
  call (\<open>hprose\<close>, \<open>kitty\<close>, the C code of \<open>cgo-overhead\<close>) decides nothing in Go code of the repository.
\<close>

end
